(* ===== verification/Prelude.thy ===== *)
theory Prelude
  imports Main "HOL-Library.Word" "HOL-Library.Monad_Syntax" "HOL-Library.Multiset"
begin

text \<open>
  What every component shares: the machine types of the x86-64 build (\<open>size_t\<close>, pointers and
  \<open>uint64_t\<close> are 64-bit words, \<open>unsigned\<close> is a 32-bit word), pointer alignment, small facts on
  words, options and lists, and the collections that carry the component proofs:
  \<open>heap_simps\<close> evaluates reads and writes of a heap, \<open>rep_simps\<close> unfolds the
  representation of a tree in a heap.
\<close>

unbundle bit_operations_syntax

named_theorems heap_simps "evaluation of heap reads and writes"
named_theorems rep_simps "representation of trees and contexts in a heap"
named_theorems rb_simps "colour and black-height invariants"

type_synonym ptr = "64 word"
type_synonym size_t = "64 word"
type_synonym uint = "32 word"
type_synonym u8 = "8 word"

section \<open>Aligned pointers and tag bits\<close>

definition aligned :: "ptr \<Rightarrow> bool" where
  "aligned p \<longleftrightarrow> p AND 3 = 0"

lemma aligned_0 [simp]: "aligned 0"
  by (simp add: aligned_def)

lemma aligned_and1: "aligned p \<Longrightarrow> p AND 1 = 0"
proof -
  assume "aligned p"
  then have "(p AND 3) AND 1 = 0" by (simp add: aligned_def)
  then show "p AND 1 = 0" by (simp add: and.assoc)
qed

lemma aligned_and_not3: "aligned p \<Longrightarrow> p AND - 4 = p"
proof -
  assume "aligned p"
  then have "p = (p AND 3) OR (p AND NOT 3)"
    by (metis and.right_neutral bit.conj_disj_distrib bit.disj_cancel_right)
  with \<open>aligned p\<close> show "p AND - 4 = p" by (simp add: aligned_def)
qed

lemma and_not3_tag: "aligned p \<Longrightarrow> c = 0 \<or> c = 1 \<Longrightarrow> (p OR c) AND - 4 = p"
  by (auto simp: bit.conj_disj_distrib2 aligned_and_not3)

lemma and1_tag: "aligned p \<Longrightarrow> c = 0 \<or> c = 1 \<Longrightarrow> (p OR c) AND 1 = c"
  by (auto simp: bit.conj_disj_distrib2 aligned_and1)

section \<open>Options\<close>

lemma bind_eq_SomeD:
  "Option.bind m f = Some y \<Longrightarrow> \<exists>x. m = Some x \<and> f x = Some y"
  by (cases m) auto

lemma map_upd_other: "a \<noteq> b \<Longrightarrow> (m(a \<mapsto> v)) b = m b"
  by simp

end
