(* ===== verification/RbNode.thy ===== *)
theory RbNode
  imports Prelude
begin

text \<open>
  The nodes of the red-black trees (\<open>tools/rbtree.h\<close>, \<open>tools/rbtree_augmented.h\<close>) in an explicit
  store. A node is the record \<open>rb_node\<close>; a structure that embeds one (\<open>interval_tree_node\<close>)
  is an extension of that record, so that the polymorphic heap \<open>'a heap\<close> maps the address of the
  embedded node to the whole structure and \<open>rb_entry\<close> is the identity. A read or write through
  NULL or through an address that holds no node is the value \<open>None\<close>: undefined behaviour of the
  C code is visible in the result.
\<close>

section \<open>Nodes, heaps and trees\<close>

record rb_node =
  rb_parent_color :: "64 word"
  rb_right :: ptr
  rb_left :: ptr

type_synonym 'a heap = "ptr \<Rightarrow> 'a rb_node_scheme option"

text \<open>One tree: the pointer of its \<open>struct rb_root\<close> and the store its nodes live in.\<close>

record 'a rbs =
  rb_root :: ptr
  mem :: "'a heap"

definition ld :: "('a rb_node_scheme \<Rightarrow> 'b) \<Rightarrow> ptr \<Rightarrow> 'a rbs \<Rightarrow> 'b option" where
  "ld f p s = (if p = 0 then None else map_option f (mem s p))"

definition st :: "('a rb_node_scheme \<Rightarrow> 'a rb_node_scheme) \<Rightarrow> ptr \<Rightarrow> 'a rbs \<Rightarrow> 'a rbs option" where
  "st f p s = (if p = 0 then None else
     (case mem s p of None \<Rightarrow> None | Some n \<Rightarrow> Some (s\<lparr>mem := (mem s)(p \<mapsto> f n)\<rparr>)))"

definition set_left :: "ptr \<Rightarrow> ptr \<Rightarrow> 'a rbs \<Rightarrow> 'a rbs option" where
  "set_left p v = st (rb_left_update (\<lambda>_. v)) p"

definition set_right :: "ptr \<Rightarrow> ptr \<Rightarrow> 'a rbs \<Rightarrow> 'a rbs option" where
  "set_right p v = st (rb_right_update (\<lambda>_. v)) p"

definition set_pc :: "ptr \<Rightarrow> 64 word \<Rightarrow> 'a rbs \<Rightarrow> 'a rbs option" where
  "set_pc p v = st (rb_parent_color_update (\<lambda>_. v)) p"

section \<open>Colour and parent in one word\<close>

abbreviation (input) RB_RED :: "64 word" where "RB_RED \<equiv> 0"
abbreviation (input) RB_BLACK :: "64 word" where "RB_BLACK \<equiv> 1"

definition pc_parent :: "64 word \<Rightarrow> ptr" where
  "pc_parent pc = pc AND NOT 3"

definition pc_color :: "64 word \<Rightarrow> 64 word" where
  "pc_color pc = pc AND 1"

definition pc_is_black :: "64 word \<Rightarrow> bool" where
  "pc_is_black pc \<longleftrightarrow> pc_color pc \<noteq> 0"

definition pc_is_red :: "64 word \<Rightarrow> bool" where
  "pc_is_red pc \<longleftrightarrow> \<not> pc_color pc \<noteq> 0"

definition rb_parent :: "ptr \<Rightarrow> 'a rbs \<Rightarrow> ptr option" where
  "rb_parent r = ld (\<lambda>n. pc_parent (rb_parent_color n)) r"

definition rb_color :: "ptr \<Rightarrow> 'a rbs \<Rightarrow> 64 word option" where
  "rb_color r = ld (\<lambda>n. pc_color (rb_parent_color n)) r"

definition rb_is_red :: "ptr \<Rightarrow> 'a rbs \<Rightarrow> bool option" where
  "rb_is_red r = ld (\<lambda>n. pc_is_red (rb_parent_color n)) r"

definition rb_is_black :: "ptr \<Rightarrow> 'a rbs \<Rightarrow> bool option" where
  "rb_is_black r = ld (\<lambda>n. pc_is_black (rb_parent_color n)) r"

definition rb_red_parent :: "ptr \<Rightarrow> 'a rbs \<Rightarrow> ptr option" where
  "rb_red_parent red = ld rb_parent_color red"

definition rb_set_black :: "ptr \<Rightarrow> 'a rbs \<Rightarrow> 'a rbs option" where
  "rb_set_black rb = st (\<lambda>n. n\<lparr>rb_parent_color := rb_parent_color n OR RB_BLACK\<rparr>) rb"

definition rb_set_parent :: "ptr \<Rightarrow> ptr \<Rightarrow> 'a rbs \<Rightarrow> 'a rbs option" where
  "rb_set_parent rb p = st (\<lambda>n. n\<lparr>rb_parent_color := pc_color (rb_parent_color n) OR p\<rparr>) rb"

definition rb_set_parent_color :: "ptr \<Rightarrow> ptr \<Rightarrow> 64 word \<Rightarrow> 'a rbs \<Rightarrow> 'a rbs option" where
  "rb_set_parent_color rb p color = set_pc rb (p OR color)"

definition rb_empty_root :: "'a rbs \<Rightarrow> bool" where
  "rb_empty_root s \<longleftrightarrow> rb_root s = 0"

definition rb_empty_node :: "ptr \<Rightarrow> 'a rbs \<Rightarrow> bool option" where
  "rb_empty_node node = ld (\<lambda>n. rb_parent_color n = node) node"

definition rb_clear_node :: "ptr \<Rightarrow> 'a rbs \<Rightarrow> 'a rbs option" where
  "rb_clear_node node = set_pc node node"

section \<open>Links: the pointer-to-pointer of the descent loops\<close>

datatype link = RootLink | LeftLink ptr | RightLink ptr

fun get_link :: "link \<Rightarrow> 'a rbs \<Rightarrow> ptr option" where
  "get_link RootLink s = Some (rb_root s)"
| "get_link (LeftLink p) s = ld rb_left p s"
| "get_link (RightLink p) s = ld rb_right p s"

fun set_link :: "link \<Rightarrow> ptr \<Rightarrow> 'a rbs \<Rightarrow> 'a rbs option" where
  "set_link RootLink v s = Some (s\<lparr>rb_root := v\<rparr>)"
| "set_link (LeftLink p) v s = set_left p v s"
| "set_link (RightLink p) v s = set_right p v s"

definition rb_link_node :: "ptr \<Rightarrow> ptr \<Rightarrow> link \<Rightarrow> 'a rbs \<Rightarrow> 'a rbs option" where
  "rb_link_node node parent rb_link s = do {
     s \<leftarrow> set_pc node parent s;
     s \<leftarrow> set_right node 0 s;
     s \<leftarrow> set_left node 0 s;
     set_link rb_link node s
   }"

definition rb_change_child :: "ptr \<Rightarrow> ptr \<Rightarrow> ptr \<Rightarrow> 'a rbs \<Rightarrow> 'a rbs option" where
  "rb_change_child old newn parent s =
     (if parent \<noteq> 0 then do {
        l \<leftarrow> ld rb_left parent s;
        if l = old then set_left parent newn s else set_right parent newn s
      }
      else Some (s\<lparr>rb_root := newn\<rparr>))"

definition rb_rotate_set_parents ::
    "ptr \<Rightarrow> ptr \<Rightarrow> 64 word \<Rightarrow> 'a rbs \<Rightarrow> 'a rbs option" where
  "rb_rotate_set_parents old newn color s = do {
     parent \<leftarrow> rb_parent old s;
     opc \<leftarrow> ld rb_parent_color old s;
     s \<leftarrow> set_pc newn opc s;
     s \<leftarrow> rb_set_parent_color old newn color s;
     rb_change_child old newn parent s
   }"

section \<open>Evaluation rules\<close>

lemma ld_Some [heap_simps]: "p \<noteq> 0 \<Longrightarrow> mem s p = Some n \<Longrightarrow> ld f p s = Some (f n)"
  by (simp add: ld_def)

lemma st_Some [heap_simps]:
  "p \<noteq> 0 \<Longrightarrow> mem s p = Some n \<Longrightarrow> st f p s = Some (s\<lparr>mem := (mem s)(p \<mapsto> f n)\<rparr>)"
  by (simp add: st_def)

lemmas node_ops [heap_simps] =
  set_left_def set_right_def set_pc_def rb_parent_def rb_color_def rb_is_red_def rb_is_black_def
  rb_red_parent_def rb_set_black_def rb_set_parent_def rb_set_parent_color_def

end
