(* ===== verification/RbTree.thy ===== *)
theory RbTree
  imports RbNode
begin

text \<open>
  The trees a heap holds, seen abstractly: \<open>ptree\<close> is a binary tree whose nodes carry their address
  and colour, a context (\<open>frame list\<close>, innermost frame first) is a tree with a hole. \<open>rep\<close>
  says that a heap holds a tree below a given parent, \<open>crep\<close> that it holds the context around a
  node. The red-black laws 2, 4 and 5 of \<open>tools/rbtree.c\<close> are \<open>rb_tree\<close>.
\<close>

section \<open>Trees and contexts\<close>

datatype color = Red | Black

fun col :: "color \<Rightarrow> 64 word" where
  "col Red = 0"
| "col Black = 1"

datatype ptree = Leaf | Node ptree ptr color ptree

fun inorder :: "ptree \<Rightarrow> ptr list" where
  "inorder Leaf = []"
| "inorder (Node l a c r) = inorder l @ a # inorder r"

fun rootp :: "ptree \<Rightarrow> ptr" where
  "rootp Leaf = 0"
| "rootp (Node l a c r) = a"

fun tcolor :: "ptree \<Rightarrow> color" where
  "tcolor Leaf = Black"
| "tcolor (Node l a c r) = c"

fun paint :: "color \<Rightarrow> ptree \<Rightarrow> ptree" where
  "paint c Leaf = Leaf"
| "paint c (Node l a _ r) = Node l a c r"

datatype frame = LHole ptr color ptree | RHole ptree ptr color

fun fill :: "ptree \<Rightarrow> frame \<Rightarrow> ptree" where
  "fill t (LHole a c r) = Node t a c r"
| "fill t (RHole l a c) = Node l a c t"

fun plug :: "ptree \<Rightarrow> frame list \<Rightarrow> ptree" where
  "plug t [] = t"
| "plug t (f # k) = plug (fill t f) k"

fun fptr :: "frame \<Rightarrow> ptr" where
  "fptr (LHole a c r) = a"
| "fptr (RHole l a c) = a"

fun fcolor :: "frame \<Rightarrow> color" where
  "fcolor (LHole a c r) = c"
| "fcolor (RHole l a c) = c"

fun cpar :: "frame list \<Rightarrow> ptr" where
  "cpar [] = 0"
| "cpar (f # k) = fptr f"

fun ccolor :: "frame list \<Rightarrow> color" where
  "ccolor [] = Black"
| "ccolor (f # k) = fcolor f"

fun cpre :: "frame list \<Rightarrow> ptr list" where
  "cpre [] = []"
| "cpre (LHole a c r # k) = cpre k"
| "cpre (RHole l a c # k) = cpre k @ inorder l @ [a]"

fun cpost :: "frame list \<Rightarrow> ptr list" where
  "cpost [] = []"
| "cpost (LHole a c r # k) = a # inorder r @ cpost k"
| "cpost (RHole l a c # k) = cpost k"

lemma inorder_plug: "inorder (plug t k) = cpre k @ inorder t @ cpost k"
proof (induction k arbitrary: t)
  case (Cons f k)
  then show ?case by (cases f) auto
qed simp

lemma plug_append: "plug t (k @ k') = plug (plug t k) k'"
  by (induction k arbitrary: t) auto

lemma rootp_paint [simp]: "rootp (paint c t) = rootp t"
  by (cases t) auto

lemma inorder_paint [simp]: "inorder (paint c t) = inorder t"
  by (cases t) auto

lemma plug_eq_Leaf [simp]: "plug t k = Leaf \<longleftrightarrow> t = Leaf \<and> k = []"
proof (induction k arbitrary: t)
  case (Cons f k)
  then show ?case by (cases f) auto
qed simp

lemma rootp_in: "t \<noteq> Leaf \<Longrightarrow> rootp t \<in> set (inorder t)"
  by (cases t) auto

lemma rootp_notin [simp]: "x \<notin> set (inorder t) \<Longrightarrow> x \<noteq> 0 \<Longrightarrow> rootp t \<noteq> x"
  by (cases t) auto

section \<open>Red-black laws\<close>

fun bheight :: "ptree \<Rightarrow> nat" where
  "bheight Leaf = 0"
| "bheight (Node l a c r) = (if c = Black then Suc (bheight l) else bheight l)"

fun invc :: "ptree \<Rightarrow> bool" where
  "invc Leaf \<longleftrightarrow> True"
| "invc (Node l a c r) \<longleftrightarrow>
     (c = Red \<longrightarrow> tcolor l = Black \<and> tcolor r = Black) \<and> invc l \<and> invc r"

fun invh :: "ptree \<Rightarrow> bool" where
  "invh Leaf \<longleftrightarrow> True"
| "invh (Node l a c r) \<longleftrightarrow> bheight l = bheight r \<and> invh l \<and> invh r"

definition rb_tree :: "ptree \<Rightarrow> bool" where
  "rb_tree t \<longleftrightarrow> invc t \<and> invh t \<and> tcolor t = Black"

definition hstep :: "color \<Rightarrow> nat \<Rightarrow> nat" where
  "hstep c n = (if c = Black then Suc n else n)"

lemma hstep_simps [simp]: "hstep Black n = Suc n" "hstep Red n = n"
  by (simp_all add: hstep_def)

lemma color_neq [simp]: "c \<noteq> Black \<longleftrightarrow> c = Red" "c \<noteq> Red \<longleftrightarrow> c = Black"
  by (cases c; simp)+

text \<open>A context whose hole takes a tree of black height \<open>n\<close>.\<close>

fun kinv :: "frame list \<Rightarrow> nat \<Rightarrow> bool" where
  "kinv [] n \<longleftrightarrow> True"
| "kinv (LHole a c r # k) n \<longleftrightarrow> invc r \<and> invh r \<and> bheight r = n \<and>
     (c = Red \<longrightarrow> tcolor r = Black \<and> ccolor k = Black) \<and> kinv k (hstep c n)"
| "kinv (RHole l a c # k) n \<longleftrightarrow> invc l \<and> invh l \<and> bheight l = n \<and>
     (c = Red \<longrightarrow> tcolor l = Black \<and> ccolor k = Black) \<and> kinv k (hstep c n)"

lemma plug_rb:
  "kinv k (bheight t) \<Longrightarrow> invc t \<Longrightarrow> invh t \<Longrightarrow> (ccolor k = Red \<longrightarrow> tcolor t = Black) \<Longrightarrow>
   (k = [] \<longrightarrow> tcolor t = Black) \<Longrightarrow> (k \<noteq> [] \<longrightarrow> fcolor (last k) = Black) \<Longrightarrow> rb_tree (plug t k)"
proof (induction k arbitrary: t)
  case (Cons f k)
  then show ?case
    by (cases f) (auto simp: hstep_def split: if_splits)
qed (simp add: rb_tree_def)

lemma rb_plugD:
  "invc (plug t k) \<Longrightarrow> invh (plug t k) \<Longrightarrow>
   kinv k (bheight t) \<and> invc t \<and> invh t \<and> (ccolor k = Red \<longrightarrow> tcolor t = Black)"
proof (induction k arbitrary: t)
  case (Cons f k)
  then have "kinv k (bheight (fill t f)) \<and> invc (fill t f) \<and> invh (fill t f)
      \<and> (ccolor k = Red \<longrightarrow> tcolor (fill t f) = Black)"
    by simp
  then show ?case
    by (cases f) (auto simp: hstep_def)
qed simp

lemma tcolor_plug: "k \<noteq> [] \<Longrightarrow> tcolor (plug t k) = fcolor (last k)"
proof (induction k arbitrary: t)
  case (Cons f k)
  show ?case
  proof (cases k)
    case Nil
    then show ?thesis by (cases f) auto
  next
    case (Cons g k')
    with Cons.IH show ?thesis by simp
  qed
qed simp

section \<open>Representation in a heap\<close>

definition links :: "'a heap \<Rightarrow> ptr \<Rightarrow> (64 word \<times> ptr \<times> ptr) option" where
  "links h = (\<lambda>a. map_option (\<lambda>n. (rb_parent_color n, rb_left n, rb_right n)) (h a))"

definition node_at :: "'a heap \<Rightarrow> ptr \<Rightarrow> ptr \<Rightarrow> color \<Rightarrow> ptr \<Rightarrow> ptr \<Rightarrow> bool" where
  "node_at h a p c l r \<longleftrightarrow> a \<noteq> 0 \<and> aligned a \<and> aligned p \<and> links h a = Some (p OR col c, l, r)"

fun rep :: "'a heap \<Rightarrow> ptr \<Rightarrow> ptree \<Rightarrow> bool" where
  "rep h p Leaf \<longleftrightarrow> True"
| "rep h p (Node l a c r) \<longleftrightarrow> node_at h a p c (rootp l) (rootp r) \<and> rep h a l \<and> rep h a r"

fun crep :: "'a heap \<Rightarrow> ptr \<Rightarrow> frame list \<Rightarrow> ptr \<Rightarrow> bool" where
  "crep h rt [] x \<longleftrightarrow> rt = x"
| "crep h rt (LHole a c r # k) x \<longleftrightarrow>
     node_at h a (cpar k) c x (rootp r) \<and> rep h a r \<and> crep h rt k a"
| "crep h rt (RHole l a c # k) x \<longleftrightarrow>
     node_at h a (cpar k) c (rootp l) x \<and> rep h a l \<and> crep h rt k a"

definition tree_rep :: "'a rbs \<Rightarrow> ptree \<Rightarrow> bool" where
  "tree_rep s t \<longleftrightarrow> rb_root s = rootp t \<and> rep (mem s) 0 t \<and> distinct (inorder t)"

lemma crep_plug:
  "rep h (cpar k) t \<and> crep h rt k (rootp t) \<longleftrightarrow> rt = rootp (plug t k) \<and> rep h 0 (plug t k)"
proof (induction k arbitrary: t)
  case (Cons f k)
  show ?case
    using Cons.IH[of "fill t f"] by (cases f) auto
qed auto

lemma tree_rep_plug:
  "tree_rep s (plug t k) \<longleftrightarrow> rep (mem s) (cpar k) t \<and> crep (mem s) (rb_root s) k (rootp t) \<and>
     distinct (cpre k @ inorder t @ cpost k)"
  using crep_plug[of "mem s" k t "rb_root s"] by (auto simp: tree_rep_def inorder_plug)

lemma ctx_cases [case_names Nil LHole RHole]:
  assumes "k = [] \<Longrightarrow> P"
    and "\<And>a c r k'. k = LHole a c r # k' \<Longrightarrow> P"
    and "\<And>l a c k'. k = RHole l a c # k' \<Longrightarrow> P"
  shows P
  using assms by (metis frame.exhaust list.exhaust)

subsection \<open>Framing\<close>

lemma node_atE:
  assumes "node_at h a p c l r"
  obtains n where "h a = Some n" and "rb_parent_color n = p OR col c"
    and "rb_left n = l" and "rb_right n = r"
  using assms unfolding node_at_def links_def by blast

lemma node_at_links:
  "links h a = links h' a \<Longrightarrow> node_at h a p c l r = node_at h' a p c l r"
  by (simp add: node_at_def)

lemma rep_links:
  "(\<And>a. a \<in> set (inorder t) \<Longrightarrow> links h a = links h' a) \<Longrightarrow> rep h p t = rep h' p t"
  by (induction t arbitrary: p) (auto simp: node_at_links[of h _ h'])

lemma crep_links:
  "(\<And>a. a \<in> set (cpre k) \<union> set (cpost k) \<Longrightarrow> links h a = links h' a) \<Longrightarrow>
   crep h rt k x = crep h' rt k x"
proof (induction k arbitrary: x)
  case (Cons f k)
  have "crep h rt k (fptr f) = crep h' rt k (fptr f)"
    by (rule Cons.IH) (use Cons.prems in \<open>cases f; auto\<close>)
  moreover have "rep h p t = rep h' p t" if "set (inorder t) \<subseteq> set (cpre (f # k)) \<union> set (cpost (f # k))" for p t
    by (rule rep_links) (use Cons.prems that in auto)
  ultimately show ?case
    using Cons.prems by (cases f) (auto simp: node_at_links[of h _ h'])
qed simp

lemma tree_rep_links: "links (mem s) = links (mem s') \<Longrightarrow> rb_root s = rb_root s' \<Longrightarrow>
  tree_rep s t = tree_rep s' t"
  unfolding tree_rep_def by (metis rep_links)

lemma rep_upd [simp]: "a \<notin> set (inorder t) \<Longrightarrow> rep (h(a := v)) p t = rep h p t"
  by (rule rep_links) (auto simp: links_def)

lemma crep_upd [simp]:
  "a \<notin> set (cpre k) \<Longrightarrow> a \<notin> set (cpost k) \<Longrightarrow> crep (h(a := v)) rt k x = crep h rt k x"
  by (rule crep_links) (auto simp: links_def)

lemma crep_aligned: "crep h rt k x \<Longrightarrow> aligned (cpar k)"
  by (induction h rt k x rule: crep.induct) (auto simp: node_at_def)

lemma node_at_upd [simp]:
  "node_at (h(a \<mapsto> n)) b p c l r = (if a = b then b \<noteq> 0 \<and> aligned b \<and> aligned p \<and>
     rb_parent_color n = p OR col c \<and> rb_left n = l \<and> rb_right n = r else node_at h b p c l r)"
  by (auto simp: node_at_def links_def)

lemma node_at_mem:
  "node_at h a p c l r \<longleftrightarrow> a \<noteq> 0 \<and> aligned a \<and> aligned p \<and>
     (\<exists>n. h a = Some n \<and> rb_parent_color n = p OR col c \<and> rb_left n = l \<and> rb_right n = r)"
  unfolding node_at_def links_def by blast

lemma links_Some:
  "links h a = Some (x, y, z) \<longleftrightarrow>
     (\<exists>n. h a = Some n \<and> rb_parent_color n = x \<and> rb_left n = y \<and> rb_right n = z)"
  unfolding links_def by blast

lemma color_tag [simp]:
  "aligned p \<Longrightarrow> (p OR col c) AND - 4 = p" "aligned p \<Longrightarrow> (p OR col c) AND 1 = col c"
  by (cases c; simp add: aligned_and_not3 and_not3_tag aligned_and1 and1_tag)+

lemmas disj_simps = Int_Un_distrib Int_Un_distrib2

lemma rep_nonnull: "rep h p t \<Longrightarrow> a \<in> set (inorder t) \<Longrightarrow> a \<noteq> 0"
  by (induction t arbitrary: p) (auto simp: node_at_def)

lemma rep_mem: "rep h p t \<Longrightarrow> a \<in> set (inorder t) \<Longrightarrow> \<exists>n. h a = Some n"
  by (induction t arbitrary: p) (auto simp: node_at_def links_def)

lemma rep_rootp_0: "rep h p t \<Longrightarrow> rootp t = 0 \<longleftrightarrow> t = Leaf"
  by (cases t) (auto simp: node_at_def)


section \<open>A small tree\<close>

text \<open>Three nodes at 8, 16 and 24, the data of each given by \<open>d\<close>, and an allocated node at 32 beside them.\<close>

definition mk_node :: "64 word \<Rightarrow> ptr \<Rightarrow> ptr \<Rightarrow> 'a \<Rightarrow> 'a rb_node_scheme" where
  "mk_node c l r d = \<lparr>rb_parent_color = c, rb_right = r, rb_left = l, \<dots> = d\<rparr>"

definition three :: "(ptr \<Rightarrow> 'a) \<Rightarrow> 'a rbs" where
  "three d = \<lparr>rb_root = 16, mem = [8 \<mapsto> mk_node 16 0 0 (d 8), 16 \<mapsto> mk_node 1 8 24 (d 16),
     24 \<mapsto> mk_node 16 0 0 (d 24), 32 \<mapsto> mk_node 32 0 0 (d 32)]\<rparr>"

definition tree3 :: ptree where
  "tree3 = Node (Node Leaf 8 Red Leaf) 16 Black (Node Leaf 24 Red Leaf)"

lemma three_rep: "tree_rep (three d) tree3"
  by (simp add: three_def tree3_def tree_rep_def node_at_def links_def mk_node_def aligned_def)

lemma tree3_rb: "rb_tree tree3"
  by (simp add: tree3_def rb_tree_def)

lemma tree3_inorder: "inorder tree3 = [8, 16, 24]"
  by (simp add: tree3_def)

lemma three_32: "mem (three d) 32 = Some (mk_node 32 0 0 (d 32))"
  by (simp add: three_def)

lemma aligned_32: "aligned 32"
  by (simp add: aligned_def)

end
