(* ===== verification/RbInsert.thy ===== *)
theory RbInsert
  imports RbTree
begin

text \<open>
  Insertion: \<open>__rb_insert\<close> of \<open>tools/rbtree.c\<close> with its augmentation callback, on the heap; the
  same rebalancing on trees with a context (\<open>ins_fix\<close>); the contract of the callback as a locale.
\<close>

section \<open>The code\<close>

type_synonym 'a rotate_cb = "ptr \<Rightarrow> ptr \<Rightarrow> 'a rbs \<Rightarrow> 'a rbs option"

definition dummy_rotate :: "'a rotate_cb" where
  "dummy_rotate old newn s = Some s"

text \<open>Case 2 of a left parent: left rotate at the parent. It returns the new \<open>parent\<close> and \<open>tmp\<close>.\<close>

definition ins_case2_left ::
    "'a rotate_cb \<Rightarrow> ptr \<Rightarrow> ptr \<Rightarrow> ptr \<Rightarrow> 'a rbs \<Rightarrow> (ptr \<times> ptr \<times> 'a rbs) option" where
  "ins_case2_left augment_rotate node parent tmp s =
     (if node = tmp then do {
        tmp \<leftarrow> ld rb_left node s;
        s \<leftarrow> set_right parent tmp s;
        s \<leftarrow> set_left node parent s;
        s \<leftarrow> (if tmp \<noteq> 0 then rb_set_parent_color tmp parent RB_BLACK s else Some s);
        s \<leftarrow> rb_set_parent_color parent node RB_RED s;
        s \<leftarrow> augment_rotate parent node s;
        tmp \<leftarrow> ld rb_right node s;
        Some (node, tmp, s)
      }
      else Some (parent, tmp, s))"

text \<open>Case 3 of a left parent: right rotate at the grandparent.\<close>

definition ins_case3_left ::
    "'a rotate_cb \<Rightarrow> ptr \<Rightarrow> ptr \<Rightarrow> ptr \<Rightarrow> 'a rbs \<Rightarrow> 'a rbs option" where
  "ins_case3_left augment_rotate gparent parent tmp s = do {
     s \<leftarrow> set_left gparent tmp s;
     s \<leftarrow> set_right parent gparent s;
     s \<leftarrow> (if tmp \<noteq> 0 then rb_set_parent_color tmp gparent RB_BLACK s else Some s);
     s \<leftarrow> rb_rotate_set_parents gparent parent RB_RED s;
     augment_rotate gparent parent s
   }"

definition ins_case2_right ::
    "'a rotate_cb \<Rightarrow> ptr \<Rightarrow> ptr \<Rightarrow> ptr \<Rightarrow> 'a rbs \<Rightarrow> (ptr \<times> ptr \<times> 'a rbs) option" where
  "ins_case2_right augment_rotate node parent tmp s =
     (if node = tmp then do {
        tmp \<leftarrow> ld rb_right node s;
        s \<leftarrow> set_left parent tmp s;
        s \<leftarrow> set_right node parent s;
        s \<leftarrow> (if tmp \<noteq> 0 then rb_set_parent_color tmp parent RB_BLACK s else Some s);
        s \<leftarrow> rb_set_parent_color parent node RB_RED s;
        s \<leftarrow> augment_rotate parent node s;
        tmp \<leftarrow> ld rb_left node s;
        Some (node, tmp, s)
      }
      else Some (parent, tmp, s))"

definition ins_case3_right ::
    "'a rotate_cb \<Rightarrow> ptr \<Rightarrow> ptr \<Rightarrow> ptr \<Rightarrow> 'a rbs \<Rightarrow> 'a rbs option" where
  "ins_case3_right augment_rotate gparent parent tmp s = do {
     s \<leftarrow> set_right gparent tmp s;
     s \<leftarrow> set_left parent gparent s;
     s \<leftarrow> (if tmp \<noteq> 0 then rb_set_parent_color tmp gparent RB_BLACK s else Some s);
     s \<leftarrow> rb_rotate_set_parents gparent parent RB_RED s;
     augment_rotate gparent parent s
   }"

text \<open>Case 1: colour flips; the loop goes on at the grandparent.\<close>

definition ins_case1 ::
    "ptr \<Rightarrow> ptr \<Rightarrow> ptr \<Rightarrow> 'a rbs \<Rightarrow> (ptr \<times> ptr \<times> 'a rbs) option" where
  "ins_case1 gparent parent tmp s = do {
     s \<leftarrow> rb_set_parent_color tmp gparent RB_BLACK s;
     s \<leftarrow> rb_set_parent_color parent gparent RB_BLACK s;
     let node = gparent;
     parent \<leftarrow> rb_parent node s;
     s \<leftarrow> rb_set_parent_color node parent RB_RED s;
     Some (node, parent, s)
   }"

definition red_uncle :: "ptr \<Rightarrow> 'a rbs \<Rightarrow> bool option" where
  "red_uncle tmp s = (if tmp \<noteq> 0 then rb_is_red tmp s else Some False)"

partial_function (option) rb_insert_loop ::
    "'a rotate_cb \<Rightarrow> ptr \<Rightarrow> ptr \<Rightarrow> 'a rbs \<Rightarrow> 'a rbs option" where
  "rb_insert_loop augment_rotate node parent s =
     (if parent = 0 then rb_set_parent_color node 0 RB_BLACK s
      else do {
        black \<leftarrow> rb_is_black parent s;
        if black then Some s
        else do {
          gparent \<leftarrow> rb_red_parent parent s;
          tmp \<leftarrow> ld rb_right gparent s;
          if parent \<noteq> tmp then do {
            red \<leftarrow> red_uncle tmp s;
            if red then do {
              (node, parent, s) \<leftarrow> ins_case1 gparent parent tmp s;
              rb_insert_loop augment_rotate node parent s
            }
            else do {
              tmp \<leftarrow> ld rb_right parent s;
              (parent, tmp, s) \<leftarrow> ins_case2_left augment_rotate node parent tmp s;
              ins_case3_left augment_rotate gparent parent tmp s
            }
          }
          else do {
            tmp \<leftarrow> ld rb_left gparent s;
            red \<leftarrow> red_uncle tmp s;
            if red then do {
              (node, parent, s) \<leftarrow> ins_case1 gparent parent tmp s;
              rb_insert_loop augment_rotate node parent s
            }
            else do {
              tmp \<leftarrow> ld rb_left parent s;
              (parent, tmp, s) \<leftarrow> ins_case2_right augment_rotate node parent tmp s;
              ins_case3_right augment_rotate gparent parent tmp s
            }
          }
        }
      })"

definition rb_insert :: "'a rotate_cb \<Rightarrow> ptr \<Rightarrow> 'a rbs \<Rightarrow> 'a rbs option" where
  "rb_insert augment_rotate node s = do {
     parent \<leftarrow> rb_red_parent node s;
     rb_insert_loop augment_rotate node parent s
   }"

definition rb_insert_color :: "ptr \<Rightarrow> 'a rbs \<Rightarrow> 'a rbs option" where
  "rb_insert_color node s = rb_insert dummy_rotate node s"

definition rb_insert_augmented :: "'a rotate_cb \<Rightarrow> ptr \<Rightarrow> 'a rbs \<Rightarrow> 'a rbs option" where
  "rb_insert_augmented augment_rotate node s = rb_insert augment_rotate node s"

section \<open>The callback's contract\<close>

definition mores :: "'a heap \<Rightarrow> ptr \<Rightarrow> 'a option" where
  "mores h = (\<lambda>a. map_option rb_node.more (h a))"

fun blacken :: "ptree \<Rightarrow> ptree" where
  "blacken Leaf = Leaf"
| "blacken (Node l a c r) = Node (blacken l) a Black (blacken r)"

fun blackenf :: "frame \<Rightarrow> frame" where
  "blackenf (LHole a c r) = LHole a Black (blacken r)"
| "blackenf (RHole l a c) = RHole (blacken l) a Black"

lemma blacken_plug: "blacken (plug t k) = plug (blacken t) (map blackenf k)"
proof (induction k arbitrary: t)
  case (Cons f k)
  then show ?case by (cases f) auto
qed simp

definition valid_ptr :: "'a heap \<Rightarrow> ptr \<Rightarrow> bool" where
  "valid_ptr h p \<longleftrightarrow> p = 0 \<or> h p \<noteq> None"

text \<open>
  What the rebalancing relies on. \<open>augment_rotate\<close> must succeed on two allocated nodes when the children
  of the old one are allocated or NULL, leave every link alone and change the data of the nodes
  as \<open>rot_more\<close> says; \<open>aok\<close> is the data invariant of a tree, which a rotation re-establishes
  and which colours do not affect.
\<close>

locale rb_augment =
  fixes augment_rotate :: "'a rotate_cb"
    and rot_more :: "ptr \<Rightarrow> ptr \<Rightarrow> ptr \<Rightarrow> ptr \<Rightarrow> (ptr \<Rightarrow> 'a option) \<Rightarrow> (ptr \<Rightarrow> 'a option)"
    and aok :: "(ptr \<Rightarrow> 'a option) \<Rightarrow> ptree \<Rightarrow> bool"
  assumes rotate_ok:
    "old \<noteq> 0 \<Longrightarrow> newn \<noteq> 0 \<Longrightarrow> mem s old = Some n \<Longrightarrow> mem s newn = Some nn \<Longrightarrow>
     valid_ptr (mem s) (rb_left n) \<Longrightarrow> valid_ptr (mem s) (rb_right n) \<Longrightarrow>
     \<exists>s'. augment_rotate old newn s = Some s' \<and> rb_root s' = rb_root s \<and> links (mem s') = links (mem s) \<and>
       mores (mem s') = rot_more old (rb_left n) (rb_right n) newn (mores (mem s))"
    and aok_rot_right:
    "distinct (inorder (plug (Node (Node A q c B) p d C) k)) \<Longrightarrow>
     0 \<notin> set (inorder (plug (Node (Node A q c B) p d C) k)) \<Longrightarrow>
     aok m (plug (Node (Node A q c B) p d C) k) \<Longrightarrow>
     aok (rot_more p (rootp B) (rootp C) q m) (plug (Node A q d (Node B p c C)) k)"
    and aok_rot_left:
    "distinct (inorder (plug (Node A p d (Node B q c C)) k)) \<Longrightarrow>
     0 \<notin> set (inorder (plug (Node A p d (Node B q c C)) k)) \<Longrightarrow>
     aok m (plug (Node A p d (Node B q c C)) k) \<Longrightarrow>
     aok (rot_more p (rootp A) (rootp B) q m) (plug (Node (Node A p c B) q d C) k)"
    and aok_color: "blacken t = blacken t' \<Longrightarrow> aok m t = aok m t'"

interpretation dummy: rb_augment dummy_rotate "\<lambda>old l r newn m. m" "\<lambda>m t. m = m0" for m0
  by unfold_locales (auto simp: dummy_rotate_def)

section \<open>Rebalancing on trees\<close>

fun ins_fix :: "ptree \<Rightarrow> frame list \<Rightarrow> ptree" where
  "ins_fix t [] = paint Black t"
| "ins_fix t (LHole p Red s # LHole g cg u # k) =
     (if tcolor u = Red then ins_fix (Node (Node t p Black s) g Red (paint Black u)) k
      else plug (Node t p Black (Node s g Red u)) k)"
| "ins_fix t (RHole s p Red # LHole g cg u # k) =
     (if tcolor u = Red then ins_fix (Node (Node s p Black t) g Red (paint Black u)) k
      else (case t of Leaf \<Rightarrow> Leaf
        | Node l n c r \<Rightarrow> plug (Node (Node s p Red l) n Black (Node r g Red u)) k))"
| "ins_fix t (RHole s p Red # RHole u g cg # k) =
     (if tcolor u = Red then ins_fix (Node (paint Black u) g Red (Node s p Black t)) k
      else plug (Node (Node u g Red s) p Black t) k)"
| "ins_fix t (LHole p Red s # RHole u g cg # k) =
     (if tcolor u = Red then ins_fix (Node (paint Black u) g Red (Node t p Black s)) k
      else (case t of Leaf \<Rightarrow> Leaf
        | Node l n c r \<Rightarrow> plug (Node (Node u g Red l) n Black (Node r p Red s)) k))"
| "ins_fix t k = plug t k"

text \<open>The focus during the loop: a red node whose children are black.\<close>

definition red_focus :: "ptree \<Rightarrow> nat \<Rightarrow> bool" where
  "red_focus t n \<longleftrightarrow> (\<exists>l a r. t = Node l a Red r) \<and> invc t \<and> invh t \<and> bheight t = n"

lemma bheight_paint_Black: "tcolor t = Red \<Longrightarrow> bheight (paint Black t) = Suc (bheight t)"
  by (cases t) auto

lemma inv_paint_Black: "invc t \<Longrightarrow> invc (paint Black t)" "invh t \<Longrightarrow> invh (paint Black t)"
  by (cases t; simp)+

lemma tcolor_paint_Black [simp]: "tcolor (paint Black t) = Black"
  by (cases t) auto

lemma ins_fix_rb:
  "red_focus t n \<Longrightarrow> kinv k n \<Longrightarrow> (k \<noteq> [] \<longrightarrow> fcolor (last k) = Black) \<Longrightarrow> rb_tree (ins_fix t k)"
proof (induction t k arbitrary: n rule: ins_fix.induct)
  case (1 t)
  then show ?case
    by (auto simp: red_focus_def rb_tree_def)
qed (auto simp: red_focus_def hstep_def bheight_paint_Black inv_paint_Black
    simp del: plug.simps split: if_splits intro!: plug_rb)

lemma ins_fix_inorder:
  "(\<exists>l a c r. t = Node l a c r) \<Longrightarrow> inorder (ins_fix t k) = inorder (plug t k)"
  by (induction t k rule: ins_fix.induct) (auto simp: inorder_plug)


section \<open>One rotation on the heap\<close>

lemma mores_upd: "h a = Some n \<Longrightarrow> rb_node.more n' = rb_node.more n \<Longrightarrow> mores (h(a \<mapsto> n')) = mores h"
  by (auto simp: mores_def)

lemma links_upd_other: "a \<noteq> b \<Longrightarrow> links (h(a := v)) b = links h b"
  by (simp add: links_def)

lemmas step_simps = heap_simps rb_rotate_set_parents_def rb_change_child_def mores_upd
  pc_parent_def pc_color_def and_not3_tag aligned_and_not3 node_at_mem links_Some disj_simps
  dummy_rotate_def

lemma ins_case3_left_links:
  assumes g: "links (mem s) g = Some (cpar k OR RB_BLACK, x, rootp C)" "g \<noteq> 0" "aligned g"
    and p: "links (mem s) p = Some (y, rootp A, z)" "p \<noteq> 0" "aligned p"
    and reps: "rep (mem s) p A" "rep (mem s) q B" "tcolor B = Black" "rep (mem s) g C"
      "crep (mem s) (rb_root s) k g"
    and d: "distinct (cpre k @ (inorder A @ p # inorder B @ g # inorder C) @ cpost k)"
  shows "\<exists>s'. ins_case3_left dummy_rotate g p (rootp B) s = Some s' \<and>
    rep (mem s') (cpar k) (Node A p Black (Node B g Red C)) \<and> crep (mem s') (rb_root s') k p \<and>
    mores (mem s') = mores (mem s)"
  using g p reps d crep_aligned[OF reps(5)]
  by (cases k rule: ctx_cases; cases B) (auto simp: ins_case3_left_def step_simps)

lemma ins_case3_right_links:
  assumes g: "links (mem s) g = Some (cpar k OR RB_BLACK, rootp C, x)" "g \<noteq> 0" "aligned g"
    and p: "links (mem s) p = Some (y, z, rootp A)" "p \<noteq> 0" "aligned p"
    and reps: "rep (mem s) p A" "rep (mem s) q B" "tcolor B = Black" "rep (mem s) g C"
      "crep (mem s) (rb_root s) k g"
    and d: "distinct (cpre k @ (inorder C @ g # inorder B @ p # inorder A) @ cpost k)"
  shows "\<exists>s'. ins_case3_right dummy_rotate g p (rootp B) s = Some s' \<and>
    rep (mem s') (cpar k) (Node (Node C g Red B) p Black A) \<and> crep (mem s') (rb_root s') k p \<and>
    mores (mem s') = mores (mem s)"
  using g p reps d crep_aligned[OF reps(5)]
  by (cases k rule: ctx_cases; cases B) (auto simp: ins_case3_right_def step_simps)

text \<open>Case 2 touches the parent, the node and the root of the subtree that changes sides.\<close>

lemma ins_case2_left_links:
  assumes reps: "rep (mem s) p (Node l n Red r)" "tcolor l = Black" "rep (mem s) p t"
      "node_at (mem s) p g Red (rootp t) n"
    and d: "distinct (inorder t @ p # inorder l @ n # inorder r)"
  shows "\<exists>s'. ins_case2_left dummy_rotate n p n s = Some (n, rootp r, s') \<and> rb_root s' = rb_root s \<and>
    rep (mem s') n (Node t p Red l) \<and> rep (mem s') n r \<and> links (mem s') n = Some (p OR col Red, p, rootp r) \<and>
    mores (mem s') = mores (mem s) \<and>
    (\<forall>a. a \<notin> set (p # n # inorder l) \<longrightarrow> links (mem s') a = links (mem s) a)"
  using reps d
  by (cases l) (auto simp: ins_case2_left_def step_simps links_upd_other)

lemma ins_case2_right_links:
  assumes reps: "rep (mem s) p (Node l n Red r)" "tcolor r = Black" "rep (mem s) p t"
      "node_at (mem s) p g Red n (rootp t)"
    and d: "distinct (inorder l @ n # inorder r @ p # inorder t)"
  shows "\<exists>s'. ins_case2_right dummy_rotate n p n s = Some (n, rootp l, s') \<and> rb_root s' = rb_root s \<and>
    rep (mem s') n (Node r p Red t) \<and> rep (mem s') n l \<and> links (mem s') n = Some (p OR col Red, rootp l, p) \<and>
    mores (mem s') = mores (mem s) \<and>
    (\<forall>a. a \<notin> set (p # n # inorder r) \<longrightarrow> links (mem s') a = links (mem s) a)"
  using reps d
  by (cases r) (auto simp: ins_case2_right_def step_simps links_upd_other)

text \<open>Case 1 recolours the grandparent and its two children.\<close>

lemma ins_case1_links:
  assumes "rep (mem s) (cpar k) (Node P g Black Q)" "crep (mem s) (rb_root s) k g"
    and "tcolor P = Red" "tcolor Q = Red" "distinct (cpre k @ inorder (Node P g Black Q) @ cpost k)"
    and "(p = rootp P \<and> u = rootp Q) \<or> (p = rootp Q \<and> u = rootp P)"
  shows "\<exists>s'. ins_case1 g p u s = Some (g, cpar k, s') \<and>
    rep (mem s') (cpar k) (Node (paint Black P) g Red (paint Black Q)) \<and>
    crep (mem s') (rb_root s') k g \<and> mores (mem s') = mores (mem s)"
  using assms by (cases P; cases Q) (auto simp: ins_case1_def step_simps)

section \<open>The callback runs\<close>

lemma ins_case3_left_bind:
  "ins_case3_left rot g p t s = Option.bind (ins_case3_left dummy_rotate g p t s) (rot g p)"
  by (simp add: ins_case3_left_def dummy_rotate_def)

lemma ins_case3_right_bind:
  "ins_case3_right rot g p t s = Option.bind (ins_case3_right dummy_rotate g p t s) (rot g p)"
  by (simp add: ins_case3_right_def dummy_rotate_def)

lemma ins_case2_left_run:
  "ins_case2_left dummy_rotate n p n s = Some (q, t, s1) \<Longrightarrow>
   ins_case2_left rot n p n s = Option.bind (rot p n s1)
     (\<lambda>s2. Option.bind (ld rb_right n s2) (\<lambda>t. Some (n, t, s2)))"
  by (auto simp: ins_case2_left_def dummy_rotate_def bind_eq_Some_conv split: if_splits)

lemma ins_case2_right_run:
  "ins_case2_right dummy_rotate n p n s = Some (q, t, s1) \<Longrightarrow>
   ins_case2_right rot n p n s = Option.bind (rot p n s1)
     (\<lambda>s2. Option.bind (ld rb_left n s2) (\<lambda>t. Some (n, t, s2)))"
  by (auto simp: ins_case2_right_def dummy_rotate_def bind_eq_Some_conv split: if_splits)

lemma rep_valid_ptr: "rep h p t \<Longrightarrow> valid_ptr h (rootp t)"
  by (cases t) (auto simp: valid_ptr_def node_at_mem)

lemma crep_links_eq: "links h = links h' \<Longrightarrow> crep h rt k x = crep h' rt k x"
  by (rule crep_links) simp

lemma rep_links_eq: "links h = links h' \<Longrightarrow> rep h p t = rep h' p t"
  by (rule rep_links) simp

context rb_augment
begin

lemma run_rotate:
  assumes "rep (mem s) q (Node B old c C)" and "links (mem s) newn = Some x" and "newn \<noteq> 0"
  shows "\<exists>s'. augment_rotate old newn s = Some s' \<and> rb_root s' = rb_root s \<and> links (mem s') = links (mem s) \<and>
    mores (mem s') = rot_more old (rootp B) (rootp C) newn (mores (mem s))"
proof -
  from assms(1) obtain n where n: "mem s old = Some n" "rb_left n = rootp B" "rb_right n = rootp C" "old \<noteq> 0"
    by (auto simp: node_at_mem)
  moreover from assms(2) obtain m where "mem s newn = Some m" by (auto simp: links_def)
  ultimately show ?thesis
    using rotate_ok[of old newn s n m] assms by (auto dest: rep_valid_ptr)
qed

lemma ins_case3_left_ok:
  assumes "links (mem s) g = Some (cpar k OR RB_BLACK, x, rootp C)" "g \<noteq> 0" "aligned g"
    and "links (mem s) p = Some (y, rootp A, z)" "p \<noteq> 0" "aligned p"
    and "rep (mem s) p A" "rep (mem s) q B" "tcolor B = Black" "rep (mem s) g C"
      "crep (mem s) (rb_root s) k g"
    and "distinct (cpre k @ (inorder A @ p # inorder B @ g # inorder C) @ cpost k)"
  shows "\<exists>s'. ins_case3_left augment_rotate g p (rootp B) s = Some s' \<and>
    rep (mem s') (cpar k) (Node A p Black (Node B g Red C)) \<and> crep (mem s') (rb_root s') k p \<and>
    mores (mem s') = rot_more g (rootp B) (rootp C) p (mores (mem s))"
proof -
  obtain s1 where s1: "ins_case3_left dummy_rotate g p (rootp B) s = Some s1"
    "rep (mem s1) (cpar k) (Node A p Black (Node B g Red C))" "crep (mem s1) (rb_root s1) k p"
    "mores (mem s1) = mores (mem s)"
    using ins_case3_left_links[OF assms] by blast
  then have "rep (mem s1) p (Node B g Red C)" "links (mem s1) p \<noteq> None"
    by (auto simp: node_at_def)
  then obtain s2 where "augment_rotate g p s1 = Some s2" "rb_root s2 = rb_root s1"
    "links (mem s2) = links (mem s1)"
    "mores (mem s2) = rot_more g (rootp B) (rootp C) p (mores (mem s1))"
    using run_rotate[of s1 p B g Red C p] assms by auto
  with s1 show ?thesis
    unfolding ins_case3_left_bind[of augment_rotate]
    by (auto simp: rep_links_eq[of "mem s2" "mem s1"] crep_links_eq[of "mem s2" "mem s1"]
        simp del: rep.simps)
qed

lemma ins_case3_right_ok:
  assumes "links (mem s) g = Some (cpar k OR RB_BLACK, rootp C, x)" "g \<noteq> 0" "aligned g"
    and "links (mem s) p = Some (y, z, rootp A)" "p \<noteq> 0" "aligned p"
    and "rep (mem s) p A" "rep (mem s) q B" "tcolor B = Black" "rep (mem s) g C"
      "crep (mem s) (rb_root s) k g"
    and "distinct (cpre k @ (inorder C @ g # inorder B @ p # inorder A) @ cpost k)"
  shows "\<exists>s'. ins_case3_right augment_rotate g p (rootp B) s = Some s' \<and>
    rep (mem s') (cpar k) (Node (Node C g Red B) p Black A) \<and> crep (mem s') (rb_root s') k p \<and>
    mores (mem s') = rot_more g (rootp C) (rootp B) p (mores (mem s))"
proof -
  obtain s1 where s1: "ins_case3_right dummy_rotate g p (rootp B) s = Some s1"
    "rep (mem s1) (cpar k) (Node (Node C g Red B) p Black A)" "crep (mem s1) (rb_root s1) k p"
    "mores (mem s1) = mores (mem s)"
    using ins_case3_right_links[OF assms] by blast
  then have "rep (mem s1) p (Node C g Red B)" "links (mem s1) p \<noteq> None"
    by (auto simp: node_at_def)
  then obtain s2 where "augment_rotate g p s1 = Some s2" "rb_root s2 = rb_root s1"
    "links (mem s2) = links (mem s1)"
    "mores (mem s2) = rot_more g (rootp C) (rootp B) p (mores (mem s1))"
    using run_rotate[of s1 p C g Red B p] assms by auto
  with s1 show ?thesis
    unfolding ins_case3_right_bind[of augment_rotate]
    by (auto simp: rep_links_eq[of "mem s2" "mem s1"] crep_links_eq[of "mem s2" "mem s1"]
        simp del: rep.simps)
qed

end

end
