(* ===== verification/RbInsertLoop.thy ===== *)
theory RbInsertLoop
  imports RbInsert
begin

text \<open>
  Correctness of the insertion loop for every callback that meets the contract
  \<open>rb_augment\<close>: each case of the loop on the heap is the matching equation of \<open>ins_fix\<close>, so
  the loop returns, leaves a red-black tree with the same nodes in the same order, and keeps the
  data invariant of the callback.
\<close>

section \<open>Case 2 with its callback\<close>

context rb_augment
begin

lemma ins_case2_left_ok:
  assumes reps: "rep (mem s) p (Node l n Red r)" "tcolor l = Black" "rep (mem s) p t"
      "node_at (mem s) p g Red (rootp t) n"
    and d: "distinct (inorder t @ p # inorder l @ n # inorder r)"
  shows "\<exists>s'. ins_case2_left augment_rotate n p n s = Some (n, rootp r, s') \<and> rb_root s' = rb_root s \<and>
    rep (mem s') n (Node t p Red l) \<and> rep (mem s') n r \<and> links (mem s') n = Some (p OR col Red, p, rootp r) \<and>
    mores (mem s') = rot_more p (rootp t) (rootp l) n (mores (mem s)) \<and>
    (\<forall>a. a \<notin> set (p # n # inorder l) \<longrightarrow> links (mem s') a = links (mem s) a)"
proof -
  obtain s1 where s1: "ins_case2_left dummy_rotate n p n s = Some (n, rootp r, s1)" "rb_root s1 = rb_root s"
    "rep (mem s1) n (Node t p Red l)" "rep (mem s1) n r" "links (mem s1) n = Some (p OR col Red, p, rootp r)"
    "mores (mem s1) = mores (mem s)"
    "\<And>a. a \<notin> set (p # n # inorder l) \<Longrightarrow> links (mem s1) a = links (mem s) a"
    using ins_case2_left_links[OF assms] by blast
  have n0: "n \<noteq> 0" using reps by (auto simp: node_at_def)
  obtain s2 where s2: "augment_rotate p n s1 = Some s2" "rb_root s2 = rb_root s1"
    "links (mem s2) = links (mem s1)"
    "mores (mem s2) = rot_more p (rootp t) (rootp l) n (mores (mem s1))"
    using run_rotate[OF s1(3) s1(5) n0] by auto
  have "ld rb_right n s2 = Some (rootp r)"
    using s1(5)[folded s2(3)] n0 by (auto simp: ld_def links_Some)
  with s1 s2 show ?thesis
    by (simp add: rep_links_eq[of "mem s2" "mem s1"] node_at_links[of "mem s2" _ "mem s1"]
        ins_case2_left_run)
qed

lemma ins_case2_right_ok:
  assumes reps: "rep (mem s) p (Node l n Red r)" "tcolor r = Black" "rep (mem s) p t"
      "node_at (mem s) p g Red n (rootp t)"
    and d: "distinct (inorder l @ n # inorder r @ p # inorder t)"
  shows "\<exists>s'. ins_case2_right augment_rotate n p n s = Some (n, rootp l, s') \<and> rb_root s' = rb_root s \<and>
    rep (mem s') n (Node r p Red t) \<and> rep (mem s') n l \<and> links (mem s') n = Some (p OR col Red, rootp l, p) \<and>
    mores (mem s') = rot_more p (rootp r) (rootp t) n (mores (mem s)) \<and>
    (\<forall>a. a \<notin> set (p # n # inorder r) \<longrightarrow> links (mem s') a = links (mem s) a)"
proof -
  obtain s1 where s1: "ins_case2_right dummy_rotate n p n s = Some (n, rootp l, s1)" "rb_root s1 = rb_root s"
    "rep (mem s1) n (Node r p Red t)" "rep (mem s1) n l" "links (mem s1) n = Some (p OR col Red, rootp l, p)"
    "mores (mem s1) = mores (mem s)"
    "\<And>a. a \<notin> set (p # n # inorder r) \<Longrightarrow> links (mem s1) a = links (mem s) a"
    using ins_case2_right_links[OF assms] by blast
  have n0: "n \<noteq> 0" using reps by (auto simp: node_at_def)
  obtain s2 where s2: "augment_rotate p n s1 = Some s2" "rb_root s2 = rb_root s1"
    "links (mem s2) = links (mem s1)"
    "mores (mem s2) = rot_more p (rootp r) (rootp t) n (mores (mem s1))"
    using run_rotate[OF s1(3) s1(5) n0] by auto
  have "ld rb_left n s2 = Some (rootp l)"
    using s1(5)[folded s2(3)] n0 by (auto simp: ld_def links_Some)
  with s1 s2 show ?thesis
    by (simp add: rep_links_eq[of "mem s2" "mem s1"] node_at_links[of "mem s2" _ "mem s1"]
        ins_case2_right_run)
qed

end

section \<open>The loop\<close>

lemma node_at_ops:
  assumes "node_at (mem s) a p c l r"
  shows "ld rb_left a s = Some l" "ld rb_right a s = Some r" "rb_parent a s = Some p"
    "rb_red_parent a s = Some (p OR col c)" "rb_is_black a s = Some (c = Black)"
    "rb_is_red a s = Some (c = Red)"
proof -
  from assms obtain n where n: "mem s a = Some n" "a \<noteq> 0" "aligned p"
    "rb_parent_color n = p OR col c" "rb_left n = l" "rb_right n = r"
    unfolding node_at_mem by blast
  then show "ld rb_left a s = Some l" "ld rb_right a s = Some r" "rb_parent a s = Some p"
    "rb_red_parent a s = Some (p OR col c)"
    by (simp_all add: heap_simps pc_parent_def)
  show "rb_is_black a s = Some (c = Black)" "rb_is_red a s = Some (c = Red)"
    using n by (cases c; simp add: heap_simps pc_is_black_def pc_is_red_def pc_color_def and1_tag aligned_and1)+
qed

lemma red_uncle_ok: "rep (mem s) q u \<Longrightarrow> red_uncle (rootp u) s = Some (tcolor u = Red)"
  by (cases u) (auto simp: red_uncle_def node_at_ops(6), auto simp: node_at_def)

lemma ins_fix_black: "fcolor f = Black \<Longrightarrow> ins_fix t (f # k) = plug t (f # k)"
  by (cases "(t, f # k)" rule: ins_fix.cases) auto

definition ins_state :: "'a rbs \<Rightarrow> ptree \<Rightarrow> frame list \<Rightarrow> nat \<Rightarrow> bool" where
  "ins_state s t k m \<longleftrightarrow> rep (mem s) (cpar k) t \<and> crep (mem s) (rb_root s) k (rootp t) \<and>
     distinct (cpre k @ inorder t @ cpost k) \<and> red_focus t m \<and> kinv k m \<and>
     (k \<noteq> [] \<longrightarrow> fcolor (last k) = Black)"

lemma tree_repI:
  "rep (mem s) (cpar k) t \<Longrightarrow> crep (mem s) (rb_root s) k (rootp t) \<Longrightarrow> distinct (cpre k @ inorder t @ cpost k)
   \<Longrightarrow> tree_rep s (plug t k)"
  by (simp add: tree_rep_plug)

context rb_augment
begin

definition loop_post :: "'a rbs \<Rightarrow> ptree \<Rightarrow> frame list \<Rightarrow> bool" where
  "loop_post s t k \<longleftrightarrow> (\<exists>s'. rb_insert_loop augment_rotate (rootp t) (cpar k) s = Some s' \<and>
     tree_rep s' (ins_fix t k) \<and>
     (aok (mores (mem s)) (plug t k) \<longrightarrow> aok (mores (mem s')) (ins_fix t k)))"

lemma loop_root:
  assumes "ins_state s t [] m"
  shows "loop_post s t []"
proof -
  from assms obtain l a r where t: "t = Node l a Red r" by (auto simp: ins_state_def red_focus_def)
  with assms obtain n where n: "mem s a = Some n" "rb_left n = rootp l" "rb_right n = rootp r" "a \<noteq> 0" "aligned a"
    "rep (mem s) a l" "rep (mem s) a r" "rb_root s = a" "distinct (inorder t)"
    by (auto simp: ins_state_def node_at_mem)
  have "tree_rep (s\<lparr>mem := (mem s)(a \<mapsto> n\<lparr>rb_parent_color := 1\<rparr>)\<rparr>) (Node l a Black r)"
    using n t by (auto simp: tree_rep_def)
  moreover have "aok m (Node l a Red r) = aok m (Node l a Black r)" for m
    by (rule aok_color) simp
  ultimately show ?thesis
    using n t by (simp add: loop_post_def rb_insert_loop.simps heap_simps mores_upd)
qed

lemma loop_black:
  assumes "ins_state s t (f # k) m" and "fcolor f = Black"
  shows "loop_post s t (f # k)"
proof -
  have tr: "tree_rep s (plug t (f # k))"
    using assms by (simp add: tree_rep_plug ins_state_def del: plug.simps)
  have "ins_fix t (f # k) = plug t (f # k)"
    using assms(2) by (rule ins_fix_black)
  moreover obtain q l r where "node_at (mem s) (fptr f) q Black l r"
    using assms by (cases f) (auto simp: ins_state_def)
  then have "rb_is_black (fptr f) s = Some True" "fptr f \<noteq> 0"
    by (simp_all add: node_at_ops) (simp add: node_at_def)
  ultimately show ?thesis
    using tr by (simp add: loop_post_def rb_insert_loop.simps)
qed


lemma red_parent_left:
  assumes st: "ins_state s t (f # LHole g cg u # k) m" and f: "fcolor f = Red"
  shows "cg = Black" and "rootp (fill t f) = fptr f" and "tcolor (fill t f) = Red"
    and "rep (mem s) (cpar k) (Node (fill t f) g Black (u))" and "crep (mem s) (rb_root s) k g"
    and "distinct (cpre k @ inorder (Node (fill t f) g Black (u)) @ cpost k)"
    and "links (mem s) g = Some (cpar k OR RB_BLACK, fptr f, rootp u)" and "g \<noteq> 0" and "aligned g"
    and "node_at (mem s) g (cpar k) Black (fptr f) (rootp u)"
    and "rep (mem s) g u" and "rep (mem s) g (fill t f)" and "fptr f \<noteq> rootp u"
    and "rb_is_black (fptr f) s = Some False" and "rb_red_parent (fptr f) s = Some g"
    and "fptr f \<noteq> 0" and "aligned (fptr f)" and "0 \<notin> set (inorder (plug t (f # LHole g cg u # k)))"
    and "distinct (inorder (plug t (f # LHole g cg u # k)))"
proof -
  show cg: "cg = Black" using st f by (cases f) (auto simp: ins_state_def)
  show P: "rootp (fill t f) = fptr f" "tcolor (fill t f) = Red" using f by (cases f; simp)+
  show rG: "rep (mem s) (cpar k) (Node (fill t f) g Black (u))" "crep (mem s) (rb_root s) k g"
    using st cg by (cases f; auto simp: ins_state_def)+
  show dist: "distinct (cpre k @ inorder (Node (fill t f) g Black (u)) @ cpost k)"
    using st by (cases f) (auto simp: ins_state_def)
  show na: "node_at (mem s) g (cpar k) Black (fptr f) (rootp u)" "rep (mem s) g u" "rep (mem s) g (fill t f)"
    using rG by (cases f; auto)+
  show "links (mem s) g = Some (cpar k OR RB_BLACK, fptr f, rootp u)" "g \<noteq> 0" "aligned g"
    using na(1) by (auto simp: node_at_def)
  have "\<exists>l r. node_at (mem s) (fptr f) g Red l r" using na(3) f by (cases f) auto
  then show p: "rb_is_black (fptr f) s = Some False" "rb_red_parent (fptr f) s = Some g"
      "fptr f \<noteq> 0" "aligned (fptr f)"
    by (auto simp: node_at_ops) (auto simp: node_at_def)
  show "fptr f \<noteq> rootp u" using dist p(3) by (cases f; cases u) auto
  have "tree_rep s (plug t (f # LHole g cg u # k))" using st by (simp add: tree_rep_plug ins_state_def del: plug.simps)
  then show "0 \<notin> set (inorder (plug t (f # LHole g cg u # k)))" using rep_nonnull by (auto simp: tree_rep_def)
  show "distinct (inorder (plug t (f # LHole g cg u # k)))" using st by (simp add: ins_state_def inorder_plug del: plug.simps)
qed

lemma loop_flip_left:
  assumes st: "ins_state s t (f # LHole g cg u # k) m" and f: "fcolor f = Red" and u: "tcolor u = Red"
    and IH: "\<And>s' t' m'. ins_state s' t' k m' \<Longrightarrow> loop_post s' t' k"
  shows "loop_post s t (f # LHole g cg u # k)"
proof -
  note F = red_parent_left[OF st f]
  let ?T = "Node (paint Black (fill t f)) g Red (paint Black u)"
  obtain s1 where s1: "ins_case1 g (fptr f) (rootp u) s = Some (g, cpar k, s1)"
    "rep (mem s1) (cpar k) ?T" "crep (mem s1) (rb_root s1) k g" "mores (mem s1) = mores (mem s)"
    using ins_case1_links[OF F(4,5) F(3) u F(6), of "fptr f" "rootp u"] F(2) by auto
  have run: "rb_insert_loop augment_rotate (rootp t) (cpar (f # LHole g cg u # k)) s
      = rb_insert_loop augment_rotate (rootp ?T) (cpar k) s1"
    using F s1 u by (simp add: rb_insert_loop.simps[of _ "rootp t"] node_at_ops red_uncle_ok)
  have fx: "ins_fix t (f # LHole g cg u # k) = ins_fix ?T k"
    using f u F(1) by (cases f) auto
  have "ins_state s1 ?T k (Suc m)"
    using s1 F(1,6) st f u
    by (cases f) (auto simp: ins_state_def red_focus_def bheight_paint_Black inv_paint_Black)
  then have "loop_post s1 ?T k" by (rule IH)
  moreover have "aok (mores (mem s)) (plug t (f # LHole g cg u # k)) = aok (mores (mem s)) (plug ?T k)"
    by (rule aok_color) (cases f; cases u; simp add: blacken_plug)
  ultimately show ?thesis
    unfolding loop_post_def run fx s1(4) by simp
qed

lemma loop_outer_left:
  assumes st: "ins_state s t (LHole p Red b # LHole g cg u # k) m" and u: "tcolor u = Black"
  shows "loop_post s t (LHole p Red b # LHole g cg u # k)"
proof -
  let ?k = "LHole p Red b # LHole g cg u # k"
  obtain l n r where t: "t = Node l n Red r" using st by (auto simp: ins_state_def red_focus_def)
  note F = red_parent_left[OF st, simplified]
  have b: "tcolor b = Black" using st by (simp add: ins_state_def)
  have np: "node_at (mem s) p g Red n (rootp b)" "rep (mem s) p t" "rep (mem s) p b" using F t by auto
  have bn: "n \<noteq> rootp b" using F np(2) t by (cases b) (auto simp: node_at_def)
  obtain s1 where s1: "ins_case3_left augment_rotate g p (rootp b) s = Some s1"
    "rep (mem s1) (cpar k) (Node (t) p Black (Node (b) g Red (u)))" "crep (mem s1) (rb_root s1) k p"
    "mores (mem s1) = rot_more g (rootp b) (rootp u) p (mores (mem s))"
    using ins_case3_left_ok[of s g k p u p g t "rootp b" p b] np F b t
    by (auto simp: node_at_def disj_simps)
  have run: "rb_insert_loop augment_rotate (rootp t) (cpar ?k) s = Some s1"
    using F s1 u np t bn
    by (simp add: rb_insert_loop.simps[of _ n] node_at_ops red_uncle_ok ins_case2_left_def)
  have "aok (mores (mem s)) (plug t ?k) \<Longrightarrow> aok (mores (mem s1)) (plug (Node (t) p Black (Node (b) g Red (u))) k)"
    unfolding s1(4) using aok_rot_right[of t p Red b g Black u k "mores (mem s)"] F(1,18,19)
    by (simp add: inorder_plug)
  moreover have "tree_rep s1 (plug (Node (t) p Black (Node (b) g Red (u))) k)"
    by (rule tree_repI[OF s1(2)]) (use s1(3) F in auto)
  ultimately show ?thesis
    unfolding loop_post_def run using u F(1) by simp
qed

lemma loop_inner_left:
  assumes st: "ins_state s t (RHole b p Red # LHole g cg u # k) m" and u: "tcolor u = Black"
  shows "loop_post s t (RHole b p Red # LHole g cg u # k)"
proof -
  let ?k = "RHole b p Red # LHole g cg u # k"
  obtain l n r where t: "t = Node l n Red r" "tcolor l = Black" "tcolor r = Black"
    using st by (auto simp: ins_state_def red_focus_def)
  note F = red_parent_left[OF st, simplified, unfolded t, simplified]
  note D = F(6)[unfolded disj_simps]
  obtain s1 where s1: "ins_case2_left augment_rotate n p n s = Some (n, rootp r, s1)" "rb_root s1 = rb_root s"
    "rep (mem s1) n (Node b p Red l)" "rep (mem s1) n r" "links (mem s1) n = Some (p OR col Red, p, rootp r)"
    "mores (mem s1) = rot_more p (rootp b) (rootp l) n (mores (mem s))"
    "\<And>a. a \<notin> set (p # n # inorder l) \<Longrightarrow> links (mem s1) a = links (mem s) a"
    using ins_case2_left_ok[of s p l n r b g] F t D by (auto simp: disj_simps)
  have "rep (mem s1) g u = rep (mem s) g u"
    by (rule rep_links, rule s1(7)) (use D in auto)
  moreover have "crep (mem s1) (rb_root s) k g = crep (mem s) (rb_root s) k g"
    by (rule crep_links, rule s1(7)) (use D in auto)
  moreover have "links (mem s1) g = links (mem s) g"
    by (rule s1(7)) (use D in auto)
  ultimately obtain s2 where s2: "ins_case3_left augment_rotate g n (rootp r) s1 = Some s2"
    "rep (mem s2) (cpar k) (Node (Node b p Red l) n Black (Node r g Red u))" "crep (mem s2) (rb_root s2) k n"
    "mores (mem s2) = rot_more g (rootp r) (rootp u) n (mores (mem s1))"
    using ins_case3_left_ok[of s1 g k p u n p "Node b p Red l" "rootp r" n r] s1 F t D
    by (auto simp: node_at_def disj_simps)
  have np: "node_at (mem s) p g Red (rootp b) n" using F by simp
  have run: "rb_insert_loop augment_rotate (rootp t) (cpar ?k) s = Some s2"
    using F s1 s2 u t
    by (simp add: rb_insert_loop.simps[of _ n] node_at_ops[OF F(10)] node_at_ops[OF np] red_uncle_ok[OF F(11)])
  have "aok (mores (mem s)) (plug t ?k) \<Longrightarrow> aok (mores (mem s1)) (plug (Node (Node b p Red l) n Red r) (LHole g Black u # k))"
    unfolding s1(6) using aok_rot_left[of b p Red l n Red r "LHole g Black u # k" "mores (mem s)"] F(1,18,19) t(1)
    by (simp add: inorder_plug)
  then have "aok (mores (mem s)) (plug t ?k) \<Longrightarrow> aok (mores (mem s2)) (plug (Node (Node b p Red l) n Black (Node r g Red u)) k)"
    unfolding s2(4)
    using aok_rot_right[of "Node b p Red l" n Red r g Black u k "mores (mem s1)"] F(18,19) t(1)
    by (simp add: inorder_plug)
  moreover have "tree_rep s2 (plug (Node (Node b p Red l) n Black (Node r g Red u)) k)"
    by (rule tree_repI[OF s2(2)]) (use s2(3) F D t in auto)
  ultimately show ?thesis
    unfolding loop_post_def run using F(1) u t by simp
qed

lemma red_parent_right:
  assumes st: "ins_state s t (f # RHole u g cg # k) m" and f: "fcolor f = Red"
  shows "cg = Black" and "rootp (fill t f) = fptr f" and "tcolor (fill t f) = Red"
    and "rep (mem s) (cpar k) (Node (u) g Black (fill t f))" and "crep (mem s) (rb_root s) k g"
    and "distinct (cpre k @ inorder (Node (u) g Black (fill t f)) @ cpost k)"
    and "links (mem s) g = Some (cpar k OR RB_BLACK, rootp u, fptr f)" and "g \<noteq> 0" and "aligned g"
    and "node_at (mem s) g (cpar k) Black (rootp u) (fptr f)"
    and "rep (mem s) g u" and "rep (mem s) g (fill t f)" and "fptr f \<noteq> rootp u"
    and "rb_is_black (fptr f) s = Some False" and "rb_red_parent (fptr f) s = Some g"
    and "fptr f \<noteq> 0" and "aligned (fptr f)" and "0 \<notin> set (inorder (plug t (f # RHole u g cg # k)))"
    and "distinct (inorder (plug t (f # RHole u g cg # k)))"
proof -
  show cg: "cg = Black" using st f by (cases f) (auto simp: ins_state_def)
  show P: "rootp (fill t f) = fptr f" "tcolor (fill t f) = Red" using f by (cases f; simp)+
  show rG: "rep (mem s) (cpar k) (Node (u) g Black (fill t f))" "crep (mem s) (rb_root s) k g"
    using st cg by (cases f; auto simp: ins_state_def)+
  show dist: "distinct (cpre k @ inorder (Node (u) g Black (fill t f)) @ cpost k)"
    using st by (cases f) (auto simp: ins_state_def)
  show na: "node_at (mem s) g (cpar k) Black (rootp u) (fptr f)" "rep (mem s) g u" "rep (mem s) g (fill t f)"
    using rG by (cases f; auto)+
  show "links (mem s) g = Some (cpar k OR RB_BLACK, rootp u, fptr f)" "g \<noteq> 0" "aligned g"
    using na(1) by (auto simp: node_at_def)
  have "\<exists>l r. node_at (mem s) (fptr f) g Red l r" using na(3) f by (cases f) auto
  then show p: "rb_is_black (fptr f) s = Some False" "rb_red_parent (fptr f) s = Some g"
      "fptr f \<noteq> 0" "aligned (fptr f)"
    by (auto simp: node_at_ops) (auto simp: node_at_def)
  show "fptr f \<noteq> rootp u" using dist p(3) by (cases f; cases u) auto
  have "tree_rep s (plug t (f # RHole u g cg # k))" using st by (simp add: tree_rep_plug ins_state_def del: plug.simps)
  then show "0 \<notin> set (inorder (plug t (f # RHole u g cg # k)))" using rep_nonnull by (auto simp: tree_rep_def)
  show "distinct (inorder (plug t (f # RHole u g cg # k)))" using st by (simp add: ins_state_def inorder_plug del: plug.simps)
qed

lemma loop_flip_right:
  assumes st: "ins_state s t (f # RHole u g cg # k) m" and f: "fcolor f = Red" and u: "tcolor u = Red"
    and IH: "\<And>s' t' m'. ins_state s' t' k m' \<Longrightarrow> loop_post s' t' k"
  shows "loop_post s t (f # RHole u g cg # k)"
proof -
  note F = red_parent_right[OF st f]
  let ?T = "Node (paint Black u) g Red (paint Black (fill t f))"
  obtain s1 where s1: "ins_case1 g (fptr f) (rootp u) s = Some (g, cpar k, s1)"
    "rep (mem s1) (cpar k) ?T" "crep (mem s1) (rb_root s1) k g" "mores (mem s1) = mores (mem s)"
    using ins_case1_links[OF F(4,5) u F(3) F(6), of "fptr f" "rootp u"] F(2) by auto
  have run: "rb_insert_loop augment_rotate (rootp t) (cpar (f # RHole u g cg # k)) s
      = rb_insert_loop augment_rotate (rootp ?T) (cpar k) s1"
    using F s1 u by (simp add: rb_insert_loop.simps[of _ "rootp t"] node_at_ops red_uncle_ok)
  have fx: "ins_fix t (f # RHole u g cg # k) = ins_fix ?T k"
    using f u F(1) by (cases f) auto
  have "ins_state s1 ?T k (Suc m)"
    using s1 F(1,6) st f u
    by (cases f) (auto simp: ins_state_def red_focus_def bheight_paint_Black inv_paint_Black)
  then have "loop_post s1 ?T k" by (rule IH)
  moreover have "aok (mores (mem s)) (plug t (f # RHole u g cg # k)) = aok (mores (mem s)) (plug ?T k)"
    by (rule aok_color) (cases f; cases u; simp add: blacken_plug)
  ultimately show ?thesis
    unfolding loop_post_def run fx s1(4) by simp
qed

lemma loop_outer_right:
  assumes st: "ins_state s t (RHole b p Red # RHole u g cg # k) m" and u: "tcolor u = Black"
  shows "loop_post s t (RHole b p Red # RHole u g cg # k)"
proof -
  let ?k = "RHole b p Red # RHole u g cg # k"
  obtain l n r where t: "t = Node l n Red r" using st by (auto simp: ins_state_def red_focus_def)
  note F = red_parent_right[OF st, simplified]
  have b: "tcolor b = Black" using st by (simp add: ins_state_def)
  have np: "node_at (mem s) p g Red (rootp b) n" "rep (mem s) p t" "rep (mem s) p b" using F t by auto
  have bn: "n \<noteq> rootp b" using F np(2) t by (cases b) (auto simp: node_at_def)
  obtain s1 where s1: "ins_case3_right augment_rotate g p (rootp b) s = Some s1"
    "rep (mem s1) (cpar k) (Node (Node (u) g Red (b)) p Black (t))" "crep (mem s1) (rb_root s1) k p"
    "mores (mem s1) = rot_more g (rootp u) (rootp b) p (mores (mem s))"
    using ins_case3_right_ok[of s g k u p p g "rootp b" t p b] np F b t
    by (auto simp: node_at_def disj_simps)
  have run: "rb_insert_loop augment_rotate (rootp t) (cpar ?k) s = Some s1"
    using F s1 u np t bn
    by (simp add: rb_insert_loop.simps[of _ n] node_at_ops red_uncle_ok ins_case2_right_def)
  have "aok (mores (mem s)) (plug t ?k) \<Longrightarrow> aok (mores (mem s1)) (plug (Node (Node (u) g Red (b)) p Black (t)) k)"
    unfolding s1(4) using aok_rot_left[of u g Black b p Red t k "mores (mem s)"] F(1,18,19)
    by (simp add: inorder_plug)
  moreover have "tree_rep s1 (plug (Node (Node (u) g Red (b)) p Black (t)) k)"
    by (rule tree_repI[OF s1(2)]) (use s1(3) F in auto)
  ultimately show ?thesis
    unfolding loop_post_def run using u F(1) by simp
qed

lemma loop_inner_right:
  assumes st: "ins_state s t (LHole p Red b # RHole u g cg # k) m" and u: "tcolor u = Black"
  shows "loop_post s t (LHole p Red b # RHole u g cg # k)"
proof -
  let ?k = "LHole p Red b # RHole u g cg # k"
  obtain l n r where t: "t = Node l n Red r" "tcolor l = Black" "tcolor r = Black"
    using st by (auto simp: ins_state_def red_focus_def)
  note F = red_parent_right[OF st, simplified, unfolded t, simplified]
  note D = F(6)[unfolded disj_simps]
  obtain s1 where s1: "ins_case2_right augment_rotate n p n s = Some (n, rootp l, s1)" "rb_root s1 = rb_root s"
    "rep (mem s1) n (Node r p Red b)" "rep (mem s1) n l" "links (mem s1) n = Some (p OR col Red, rootp l, p)"
    "mores (mem s1) = rot_more p (rootp r) (rootp b) n (mores (mem s))"
    "\<And>a. a \<notin> set (p # n # inorder r) \<Longrightarrow> links (mem s1) a = links (mem s) a"
    using ins_case2_right_ok[of s p l n r b g] F t D by (auto simp: disj_simps)
  have "rep (mem s1) g u = rep (mem s) g u"
    by (rule rep_links, rule s1(7)) (use D in auto)
  moreover have "crep (mem s1) (rb_root s) k g = crep (mem s) (rb_root s) k g"
    by (rule crep_links, rule s1(7)) (use D in auto)
  moreover have "links (mem s1) g = links (mem s) g"
    by (rule s1(7)) (use D in auto)
  ultimately obtain s2 where s2: "ins_case3_right augment_rotate g n (rootp l) s1 = Some s2"
    "rep (mem s2) (cpar k) (Node (Node u g Red l) n Black (Node r p Red b))" "crep (mem s2) (rb_root s2) k n"
    "mores (mem s2) = rot_more g (rootp u) (rootp l) n (mores (mem s1))"
    using ins_case3_right_ok[of s1 g k u p n p "rootp l" "Node r p Red b" n l] s1 F t D
    by (auto simp: node_at_def disj_simps)
  have np: "node_at (mem s) p g Red n (rootp b)" using F by simp
  have run: "rb_insert_loop augment_rotate (rootp t) (cpar ?k) s = Some s2"
    using F s1 s2 u t
    by (simp add: rb_insert_loop.simps[of _ n] node_at_ops[OF F(10)] node_at_ops[OF np] red_uncle_ok[OF F(11)])
  have "aok (mores (mem s)) (plug t ?k) \<Longrightarrow> aok (mores (mem s1)) (plug (Node l n Red (Node r p Red b)) (RHole u g Black # k))"
    unfolding s1(6) using aok_rot_right[of l n Red r p Red b "RHole u g Black # k" "mores (mem s)"] F(1,18,19) t(1)
    by (simp add: inorder_plug)
  then have "aok (mores (mem s)) (plug t ?k) \<Longrightarrow> aok (mores (mem s2)) (plug (Node (Node u g Red l) n Black (Node r p Red b)) k)"
    unfolding s2(4)
    using aok_rot_left[of u g Black l n Red "Node r p Red b" k "mores (mem s1)"] F(18,19) t(1)
    by (simp add: inorder_plug)
  moreover have "tree_rep s2 (plug (Node (Node u g Red l) n Black (Node r p Red b)) k)"
    by (rule tree_repI[OF s2(2)]) (use s2(3) F D t in auto)
  ultimately show ?thesis
    unfolding loop_post_def run using F(1) u t by simp
qed

theorem loop_ok: "ins_state s t k m \<Longrightarrow> loop_post s t k"
proof (induction "length k" arbitrary: s t k m rule: less_induct)
  case less
  note IH = less.hyps and st = less.prems
  consider (root) "k = []" | (black) f k' where "k = f # k'" "fcolor f = Black"
    | (red) f g k' where "k = f # g # k'" "fcolor f = Red"
  proof (cases k)
    case (Cons f k')
    show thesis
    proof (cases "fcolor f")
      case Red
      then show thesis using that(3) Cons st by (cases k') (auto simp: ins_state_def)
    qed (use that Cons in auto)
  qed (use that in auto)
  then show ?case
  proof cases
    case root
    then show ?thesis using loop_root st by simp
  next
    case black
    then show ?thesis using loop_black st by simp
  next
    case (red f g k')
    then have IH': "\<And>s' t' m'. ins_state s' t' k' m' \<Longrightarrow> loop_post s' t' k'"
      using IH by simp
    show ?thesis
    proof (cases g)
      case (LHole ga cg u)
      show ?thesis
      proof (cases "tcolor u")
        case Red
        show ?thesis
          using loop_flip_left[OF st[unfolded red(1) LHole] red(2) Red IH'] red(1) LHole by simp
      next
        case Black
        with st red LHole show ?thesis by (cases f) (auto intro!: loop_outer_left loop_inner_left)
      qed
    next
      case (RHole u ga cg)
      show ?thesis
      proof (cases "tcolor u")
        case Red
        show ?thesis
          using loop_flip_right[OF st[unfolded red(1) RHole] red(2) Red IH'] red(1) RHole by simp
      next
        case Black
        with st red RHole show ?thesis by (cases f) (auto intro!: loop_outer_right loop_inner_right)
      qed
    qed
  qed
qed

end


section \<open>Linking a new node\<close>

fun clink :: "frame list \<Rightarrow> link" where
  "clink [] = RootLink"
| "clink (LHole a c r # k) = LeftLink a"
| "clink (RHole l a c # k) = RightLink a"

lemma rb_link_node_ok:
  assumes "tree_rep s (plug Leaf k)" and "a \<noteq> 0" "aligned a" "mem s a = Some n"
    and "a \<notin> set (cpre k)" "a \<notin> set (cpost k)"
  shows "\<exists>s'. rb_link_node a (cpar k) (clink k) s = Some s' \<and>
    tree_rep s' (plug (Node Leaf a Red Leaf) k) \<and> mores (mem s') = mores (mem s)"
proof -
  have k: "crep (mem s) (rb_root s) k 0" "distinct (cpre k @ cpost k)"
    using assms(1) by (simp_all add: tree_rep_plug)
  then show ?thesis
    using assms crep_aligned[OF k(1)]
    by (cases k rule: ctx_cases)
      (auto simp: rb_link_node_def step_simps tree_rep_plug tree_rep_def[of _ "Node _ _ _ _"] simp del: plug.simps)
qed

context rb_augment
begin

theorem link_insert_ok:
  assumes t: "tree_rep s (plug Leaf k)" "rb_tree (plug Leaf k)"
    and a: "a \<noteq> 0" "aligned a" "mem s a = Some n" "a \<notin> set (cpre k)" "a \<notin> set (cpost k)"
  shows "\<exists>s' T. Option.bind (rb_link_node a (cpar k) (clink k) s) (rb_insert_augmented augment_rotate a) = Some s' \<and>
    tree_rep s' T \<and> rb_tree T \<and> inorder T = cpre k @ a # cpost k \<and>
    (aok (mores (mem s)) (plug (Node Leaf a Red Leaf) k) \<longrightarrow> aok (mores (mem s')) T)"
proof -
  let ?t = "Node Leaf a Red Leaf"
  obtain s1 where s1: "rb_link_node a (cpar k) (clink k) s = Some s1" "tree_rep s1 (plug ?t k)"
    "mores (mem s1) = mores (mem s)"
    using rb_link_node_ok[OF t(1) a] by blast
  have lk: "kinv k 0" using rb_plugD[of Leaf k] t(2) by (simp add: rb_tree_def)
  have foc: "red_focus ?t 0" by (simp add: red_focus_def)
  have lst: "k \<noteq> [] \<longrightarrow> fcolor (last k) = Black"
    using t(2) tcolor_plug[of k Leaf] by (auto simp: rb_tree_def)
  have st: "ins_state s1 ?t k 0"
    using s1(2) lk foc lst by (simp add: ins_state_def tree_rep_plug)
  then have "node_at (mem s1) a (cpar k) Red 0 0" by (simp add: ins_state_def)
  from node_at_ops(4)[OF this] have "rb_red_parent a s1 = Some (cpar k)" by simp
  moreover obtain s2 where "rb_insert_loop augment_rotate a (cpar k) s1 = Some s2" "tree_rep s2 (ins_fix ?t k)"
    "aok (mores (mem s)) (plug ?t k) \<longrightarrow> aok (mores (mem s2)) (ins_fix ?t k)"
    using loop_ok[OF st] s1(3) by (auto simp: loop_post_def)
  moreover have "rb_tree (ins_fix ?t k)" by (rule ins_fix_rb[OF foc lk lst])
  moreover have "inorder (ins_fix ?t k) = cpre k @ a # cpost k"
    by (simp add: ins_fix_inorder inorder_plug)
  ultimately show ?thesis
    using s1(1) by (auto simp: rb_insert_augmented_def rb_insert_def)
qed

end


section \<open>Properties\<close>

text \<open>C6: linking a new node at any free link of a red-black tree and rebalancing with \<open>rb_insert_color\<close>
  never dereferences a bad pointer, ends, and leaves a red-black tree that holds the old nodes in their
  old order with the new one at the chosen place; the data of no node changes.\<close>

theorem rb_insert_correct:
  assumes "tree_rep s (plug Leaf k)" "rb_tree (plug Leaf k)"
    and "a \<noteq> 0" "aligned a" "mem s a = Some n" "a \<notin> set (cpre k @ cpost k)"
  shows "\<exists>s1 s' T. rb_link_node a (cpar k) (clink k) s = Some s1 \<and> rb_insert_color a s1 = Some s' \<and>
    tree_rep s' T \<and> rb_tree T \<and> inorder T = cpre k @ a # cpost k \<and> mores (mem s') = mores (mem s)"
  using dummy.link_insert_ok[of s k a n "mores (mem s)"] assms
  by (auto simp: bind_eq_Some_conv rb_insert_color_def rb_insert_augmented_def[symmetric])

theorem rb_insert_correct_witness:
  "\<exists>s1 s' T. rb_link_node 32 24 (RightLink 24) (three (\<lambda>_. ())) = Some s1 \<and> rb_insert_color 32 s1 = Some s' \<and>
    tree_rep s' T \<and> rb_tree T \<and> inorder T = [8, 16, 24, 32] \<and> mores (mem s') = mores (mem (three (\<lambda>_. ())))"
  using rb_insert_correct[of "three (\<lambda>_. ())" "[RHole Leaf 24 Red, RHole (Node Leaf 8 Red Leaf) 16 Black]" 32]
    three_rep[of "\<lambda>_. ()"] tree3_rb aligned_32 three_32[of "\<lambda>_. ()"]
  by (simp add: tree3_def)

end
