(* ===== verification/RbIter.thy ===== *)
theory RbIter
  imports RbInsertLoop
begin

text \<open>
  Walking a tree through its parent pointers (\<open>rb_first\<close>, \<open>rb_last\<close>, \<open>rb_next\<close>, \<open>rb_prev\<close>, the
  postorder walk) and replacing a node in place (\<open>rb_replace_node\<close>), all of \<open>tools/rbtree.c\<close>.
\<close>

section \<open>The code\<close>

partial_function (option) go_left :: "ptr \<Rightarrow> 'a rbs \<Rightarrow> ptr option" where
  "go_left n s = do { l \<leftarrow> ld rb_left n s; if l \<noteq> 0 then go_left l s else Some n }"

partial_function (option) go_right :: "ptr \<Rightarrow> 'a rbs \<Rightarrow> ptr option" where
  "go_right n s = do { r \<leftarrow> ld rb_right n s; if r \<noteq> 0 then go_right r s else Some n }"

definition rb_first :: "'a rbs \<Rightarrow> ptr option" where
  "rb_first s = (let n = rb_root s in if n = 0 then Some 0 else go_left n s)"

definition rb_last :: "'a rbs \<Rightarrow> ptr option" where
  "rb_last s = (let n = rb_root s in if n = 0 then Some 0 else go_right n s)"

text \<open>The loops that climb while the node is a right (left) child; they return the parent reached.\<close>

partial_function (option) climb_right :: "ptr \<Rightarrow> 'a rbs \<Rightarrow> ptr option" where
  "climb_right node s = do {
     parent \<leftarrow> rb_parent node s;
     if parent = 0 then Some parent
     else do {
       r \<leftarrow> ld rb_right parent s;
       if node = r then climb_right parent s else Some parent
     }
   }"

partial_function (option) climb_left :: "ptr \<Rightarrow> 'a rbs \<Rightarrow> ptr option" where
  "climb_left node s = do {
     parent \<leftarrow> rb_parent node s;
     if parent = 0 then Some parent
     else do {
       l \<leftarrow> ld rb_left parent s;
       if node = l then climb_left parent s else Some parent
     }
   }"

definition rb_next :: "ptr \<Rightarrow> 'a rbs \<Rightarrow> ptr option" where
  "rb_next node s = do {
     e \<leftarrow> rb_empty_node node s;
     if e then Some 0
     else do {
       r \<leftarrow> ld rb_right node s;
       if r \<noteq> 0 then go_left r s else climb_right node s
     }
   }"

definition rb_prev :: "ptr \<Rightarrow> 'a rbs \<Rightarrow> ptr option" where
  "rb_prev node s = do {
     e \<leftarrow> rb_empty_node node s;
     if e then Some 0
     else do {
       l \<leftarrow> ld rb_left node s;
       if l \<noteq> 0 then go_right l s else climb_left node s
     }
   }"

definition rb_replace_node :: "ptr \<Rightarrow> ptr \<Rightarrow> 'a rbs \<Rightarrow> 'a rbs option" where
  "rb_replace_node victim newn s = do {
     parent \<leftarrow> rb_parent victim s;
     s \<leftarrow> rb_change_child victim newn parent s;
     l \<leftarrow> ld rb_left victim s;
     s \<leftarrow> (if l \<noteq> 0 then rb_set_parent l newn s else Some s);
     r \<leftarrow> ld rb_right victim s;
     s \<leftarrow> (if r \<noteq> 0 then rb_set_parent r newn s else Some s);
     l \<leftarrow> ld rb_left victim s;
     r \<leftarrow> ld rb_right victim s;
     pc \<leftarrow> ld rb_parent_color victim s;
     st (\<lambda>n. n\<lparr>rb_parent_color := pc, rb_right := r, rb_left := l\<rparr>) newn s
   }"

partial_function (option) rb_left_deepest_node :: "ptr \<Rightarrow> 'a rbs \<Rightarrow> ptr option" where
  "rb_left_deepest_node node s = do {
     l \<leftarrow> ld rb_left node s;
     if l \<noteq> 0 then rb_left_deepest_node l s
     else do {
       r \<leftarrow> ld rb_right node s;
       if r \<noteq> 0 then rb_left_deepest_node r s else Some node
     }
   }"

definition rb_next_postorder :: "ptr \<Rightarrow> 'a rbs \<Rightarrow> ptr option" where
  "rb_next_postorder node s =
     (if node = 0 then Some 0
      else do {
        parent \<leftarrow> rb_parent node s;
        if parent = 0 then Some parent
        else do {
          l \<leftarrow> ld rb_left parent s;
          r \<leftarrow> ld rb_right parent s;
          if node = l \<and> r \<noteq> 0 then rb_left_deepest_node r s else Some parent
        }
      })"

definition rb_first_postorder :: "'a rbs \<Rightarrow> ptr option" where
  "rb_first_postorder s =
     (if rb_root s = 0 then Some 0 else rb_left_deepest_node (rb_root s) s)"

section \<open>The first and the next element of a list of nodes\<close>

fun hd0 :: "ptr list \<Rightarrow> ptr" where
  "hd0 [] = 0"
| "hd0 (x # xs) = x"

fun last0 :: "ptr list \<Rightarrow> ptr" where
  "last0 [] = 0"
| "last0 xs = last xs"

lemma hd0_append: "hd0 (xs @ ys) = (if xs = [] then hd0 ys else hd0 xs)"
  by (cases xs) auto

lemma last0_append: "last0 (xs @ ys) = (if ys = [] then last0 xs else last0 ys)"
  by (cases ys; cases xs) auto

lemma inorder_eq_Nil [simp]: "inorder t = [] \<longleftrightarrow> t = Leaf"
  by (cases t) auto

lemma go_left_ok: "rep (mem s) p t \<Longrightarrow> t \<noteq> Leaf \<Longrightarrow> go_left (rootp t) s = Some (hd0 (inorder t))"
proof (induction t arbitrary: p)
  case (Node l a c r)
  then have na: "node_at (mem s) a p c (rootp l) (rootp r)" and l: "rep (mem s) a l" by auto
  show ?case
    using Node.IH(1)[OF l] rep_rootp_0[OF l] node_at_ops[OF na]
    by (cases l) (auto simp: go_left.simps[of a] hd0_append)
qed simp

lemma go_right_ok: "rep (mem s) p t \<Longrightarrow> t \<noteq> Leaf \<Longrightarrow> go_right (rootp t) s = Some (last0 (inorder t))"
proof (induction t arbitrary: p)
  case (Node l a c r)
  then have na: "node_at (mem s) a p c (rootp l) (rootp r)" and r: "rep (mem s) a r" by auto
  show ?case
    using Node.IH(2)[OF r] rep_rootp_0[OF r] node_at_ops[OF na]
    by (cases r) (auto simp: go_right.simps[of a] last0_append)
qed simp

lemma rb_first_ok: "tree_rep s t \<Longrightarrow> rb_first s = Some (hd0 (inorder t))"
  using go_left_ok[of s 0 t] rep_rootp_0[of "mem s" 0 t]
  by (cases "t = Leaf") (auto simp: tree_rep_def rb_first_def)

lemma rb_last_ok: "tree_rep s t \<Longrightarrow> rb_last s = Some (last0 (inorder t))"
  using go_right_ok[of s 0 t] rep_rootp_0[of "mem s" 0 t]
  by (cases "t = Leaf") (auto simp: tree_rep_def rb_last_def)

section \<open>Successor and predecessor\<close>

lemma climb_right_ok:
  "rb_parent x s = Some (cpar k) \<Longrightarrow> crep (mem s) (rb_root s) k x \<Longrightarrow> x \<noteq> 0 \<Longrightarrow>
   distinct (cpre k @ x # cpost k) \<Longrightarrow> climb_right x s = Some (hd0 (cpost k))"
proof (induction k arbitrary: x)
  case Nil
  then show ?case by (simp add: climb_right.simps)
next
  case (Cons f k)
  show ?case
  proof (cases f)
    case (LHole a c r)
    with Cons.prems have na: "node_at (mem s) a (cpar k) c x (rootp r)" by simp
    then have "a \<noteq> 0" "x \<noteq> rootp r" using Cons.prems LHole by (auto simp: node_at_def) (cases r; auto)
    then show ?thesis
      using Cons.prems LHole node_at_ops[OF na] by (simp add: climb_right.simps)
  next
    case (RHole l a c)
    with Cons.prems have na: "node_at (mem s) a (cpar k) c (rootp l) x" by simp
    then have "a \<noteq> 0" by (simp add: node_at_def)
    then show ?thesis
      using Cons RHole node_at_ops[OF na] by (auto simp: climb_right.simps[of x] disj_simps)
  qed
qed

lemma climb_left_ok:
  "rb_parent x s = Some (cpar k) \<Longrightarrow> crep (mem s) (rb_root s) k x \<Longrightarrow> x \<noteq> 0 \<Longrightarrow>
   distinct (cpre k @ x # cpost k) \<Longrightarrow> climb_left x s = Some (last0 (cpre k))"
proof (induction k arbitrary: x)
  case Nil
  then show ?case by (simp add: climb_left.simps)
next
  case (Cons f k)
  show ?case
  proof (cases f)
    case (RHole l a c)
    with Cons.prems have na: "node_at (mem s) a (cpar k) c (rootp l) x" by simp
    then have "a \<noteq> 0" "x \<noteq> rootp l" using Cons.prems RHole by (auto simp: node_at_def) (cases l; auto)
    then show ?thesis
      using Cons.prems RHole node_at_ops[OF na] by (simp add: climb_left.simps last0_append)
  next
    case (LHole a c r)
    with Cons.prems have na: "node_at (mem s) a (cpar k) c x (rootp r)" by simp
    then have "a \<noteq> 0" by (simp add: node_at_def)
    then show ?thesis
      using Cons LHole node_at_ops[OF na] by (auto simp: climb_left.simps[of x] disj_simps)
  qed
qed

text \<open>Every node of a tree is the root of a subtree in some context.\<close>

lemma node_context: "a \<in> set (inorder t) \<Longrightarrow> \<exists>k l c r. t = plug (Node l a c r) k"
proof (induction t)
  case (Node l b c r)
  consider "a = b" | "a \<in> set (inorder l)" | "a \<in> set (inorder r)" using Node.prems by auto
  then show ?case
  proof cases
    case 1
    then show ?thesis by (metis plug.simps(1))
  next
    case 2
    with Node.IH(1) obtain k l' c' r' where "l = plug (Node l' a c' r') k" by blast
    then have "Node l b c r = plug (Node l' a c' r') (k @ [LHole b c r])" by (simp add: plug_append)
    then show ?thesis by blast
  next
    case 3
    with Node.IH(2) obtain k l' c' r' where "r = plug (Node l' a c' r') k" by blast
    then have "Node l b c r = plug (Node l' a c' r') (k @ [RHole l b c])" by (simp add: plug_append)
    then show ?thesis by blast
  qed
qed simp

lemma not_empty_node:
  assumes "node_at (mem s) a p c l r" and "p \<noteq> a"
  shows "rb_empty_node a s = Some False"
proof -
  have "p OR col c \<noteq> a"
  proof
    assume e: "p OR col c = a"
    have "col c = a AND 1" using assms e color_tag(2)[of p c] by (simp add: node_at_def)
    then have "col c = 0" using assms by (simp add: node_at_def aligned_and1)
    with e assms show False by simp
  qed
  then show ?thesis
    using assms node_at_ops(4)[OF assms(1)] by (simp add: rb_empty_node_def ld_def node_at_mem) auto
qed

lemma cpar_neq: "distinct (cpre k @ xs @ cpost k) \<Longrightarrow> a \<in> set xs \<Longrightarrow> a \<noteq> 0 \<Longrightarrow> cpar k \<noteq> a"
  by (cases k rule: ctx_cases) auto

lemma rb_next_plug:
  assumes "tree_rep s (plug (Node l a c r) k)"
  shows "rb_next a s = Some (hd0 (inorder r @ cpost k))"
proof -
  from assms have na: "node_at (mem s) a (cpar k) c (rootp l) (rootp r)" and r: "rep (mem s) a r"
    and cr: "crep (mem s) (rb_root s) k a" and d: "distinct (cpre k @ inorder (Node l a c r) @ cpost k)"
    by (auto simp: tree_rep_plug)
  have a0: "a \<noteq> 0" using na by (simp add: node_at_def)
  have "rb_empty_node a s = Some False"
    by (rule not_empty_node[OF na]) (use cpar_neq[OF d] a0 in auto)
  moreover have "climb_right a s = Some (hd0 (cpost k))"
    by (rule climb_right_ok[OF node_at_ops(3)[OF na] cr a0]) (use d in auto)
  ultimately show ?thesis
    using node_at_ops[OF na] go_left_ok[OF r] rep_rootp_0[OF r]
    by (cases "r = Leaf") (auto simp: rb_next_def hd0_append)
qed

lemma rb_prev_plug:
  assumes "tree_rep s (plug (Node l a c r) k)"
  shows "rb_prev a s = Some (last0 (cpre k @ inorder l))"
proof -
  from assms have na: "node_at (mem s) a (cpar k) c (rootp l) (rootp r)" and l: "rep (mem s) a l"
    and cr: "crep (mem s) (rb_root s) k a" and d: "distinct (cpre k @ inorder (Node l a c r) @ cpost k)"
    by (auto simp: tree_rep_plug)
  have a0: "a \<noteq> 0" using na by (simp add: node_at_def)
  have "rb_empty_node a s = Some False"
    by (rule not_empty_node[OF na]) (use cpar_neq[OF d] a0 in auto)
  moreover have "climb_left a s = Some (last0 (cpre k))"
    by (rule climb_left_ok[OF node_at_ops(3)[OF na] cr a0]) (use d in auto)
  ultimately show ?thesis
    using node_at_ops[OF na] go_right_ok[OF l] rep_rootp_0[OF l]
    by (cases "l = Leaf") (auto simp: rb_prev_def last0_append)
qed

lemma distinct_split:
  "xs @ a # ys = us @ a # vs \<Longrightarrow> distinct (xs @ a # ys) \<Longrightarrow> xs = us \<and> ys = vs"
  by (metis append_Cons_eq_iff distinct_append distinct.simps(2) Un_iff disjoint_iff list.set_intros(1) set_append)

lemma rb_next_ok:
  assumes "tree_rep s t" and "inorder t = xs @ a # ys"
  shows "rb_next a s = Some (hd0 ys)"
proof -
  obtain k l c r where t: "t = plug (Node l a c r) k"
    using node_context[of a t] assms(2) by auto
  then have "xs @ a # ys = (cpre k @ inorder l) @ a # (inorder r @ cpost k)"
    using assms(2) by (simp add: inorder_plug)
  moreover have "distinct (xs @ a # ys)" using assms by (simp add: tree_rep_def)
  ultimately have "ys = inorder r @ cpost k" using distinct_split by metis
  with rb_next_plug t assms(1) show ?thesis by simp
qed

lemma rb_prev_ok:
  assumes "tree_rep s t" and "inorder t = xs @ a # ys"
  shows "rb_prev a s = Some (last0 xs)"
proof -
  obtain k l c r where t: "t = plug (Node l a c r) k"
    using node_context[of a t] assms(2) by auto
  then have "xs @ a # ys = (cpre k @ inorder l) @ a # (inorder r @ cpost k)"
    using assms(2) by (simp add: inorder_plug)
  moreover have "distinct (xs @ a # ys)" using assms by (simp add: tree_rep_def)
  ultimately have "xs = cpre k @ inorder l" using distinct_split by metis
  with rb_prev_plug t assms(1) show ?thesis by simp
qed


section \<open>Replacing a node in place\<close>

definition same_at :: "ptr set \<Rightarrow> 'a rbs \<Rightarrow> 'a rbs \<Rightarrow> bool" where
  "same_at A s s' \<longleftrightarrow> mores (mem s') = mores (mem s) \<and> (\<forall>x. x \<notin> A \<longrightarrow> links (mem s') x = links (mem s) x)"

lemma same_at_rep: "same_at A s s' \<Longrightarrow> A \<inter> set (inorder t) = {} \<Longrightarrow> rep (mem s') p t = rep (mem s) p t"
  by (rule rep_links) (auto simp: same_at_def)

lemma same_at_crep: "same_at A s s' \<Longrightarrow> A \<inter> (set (cpre k) \<union> set (cpost k)) = {} \<Longrightarrow>
  crep (mem s') rt k x = crep (mem s) rt k x"
  by (rule crep_links) (auto simp: same_at_def)

lemma same_at_node_at: "same_at A s s' \<Longrightarrow> a \<notin> A \<Longrightarrow> node_at (mem s') a p c l r = node_at (mem s) a p c l r"
  by (rule node_at_links) (auto simp: same_at_def)

lemma same_at_Some: "same_at A s s' \<Longrightarrow> mem s a = Some n \<Longrightarrow> \<exists>n'. mem s' a = Some n'"
  unfolding same_at_def mores_def by (metis map_option_eq_Some option.exhaust option.map_disc_iff option.distinct(1))

lemma same_at_mem: "h a = Some n \<Longrightarrow> rb_node.more n' = rb_node.more n \<Longrightarrow> mem s = h \<Longrightarrow> a \<in> A \<Longrightarrow>
  same_at A s (s\<lparr>mem := h(a \<mapsto> n')\<rparr>)"
  by (auto simp: same_at_def mores_upd links_def)

lemma same_at_trans: "same_at A s s' \<Longrightarrow> same_at B s' s'' \<Longrightarrow> same_at (A \<union> B) s s''"
  by (simp add: same_at_def)

lemma rb_change_child_ok:
  assumes "crep (mem s) (rb_root s) k a" and "a \<noteq> 0" and "distinct (cpre k @ a # cpost k)"
  shows "\<exists>s'. rb_change_child a b (cpar k) s = Some s' \<and> crep (mem s') (rb_root s') k b \<and> same_at {cpar k} s s'"
proof (cases k rule: ctx_cases)
  case Nil
  then show ?thesis by (simp add: rb_change_child_def same_at_def)
next
  case (LHole d c r k')
  with assms have na: "node_at (mem s) d (cpar k') c a (rootp r)" by simp
  then obtain n where "mem s d = Some n" "d \<noteq> 0" by (auto simp: node_at_mem)
  then show ?thesis
    using LHole assms na node_at_ops[OF na]
    by (auto simp: rb_change_child_def heap_simps disj_simps node_at_mem intro!: same_at_mem)
next
  case (RHole l d c k')
  with assms have na: "node_at (mem s) d (cpar k') c (rootp l) a" by simp
  then obtain n where "mem s d = Some n" "d \<noteq> 0" by (auto simp: node_at_mem)
  moreover have "rootp l \<noteq> a" by (rule rootp_notin) (use RHole assms in auto)
  ultimately show ?thesis
    using RHole assms na node_at_ops[OF na]
    by (auto simp: rb_change_child_def heap_simps disj_simps node_at_mem intro!: same_at_mem)
qed

definition opt_set_parent :: "ptr \<Rightarrow> ptr \<Rightarrow> 'a rbs \<Rightarrow> 'a rbs option" where
  "opt_set_parent x p s = (if x \<noteq> 0 then rb_set_parent x p s else Some s)"

lemma opt_set_parent_ok:
  assumes "rep (mem s) a t" and "aligned b" and "distinct (inorder t)"
  shows "\<exists>s'. opt_set_parent (rootp t) b s = Some s' \<and> rb_root s' = rb_root s \<and> rep (mem s') b t \<and>
    same_at (set (inorder t)) s s'"
proof (cases t)
  case Leaf
  then show ?thesis by (simp add: opt_set_parent_def same_at_def)
next
  case (Node l x c r)
  with assms(1) have na: "node_at (mem s) x a c (rootp l) (rootp r)" by simp
  then obtain n where "mem s x = Some n" "x \<noteq> 0" by (auto simp: node_at_mem)
  then show ?thesis
    using Node assms na
    by (auto simp: opt_set_parent_def heap_simps node_at_mem pc_color_def or.commute intro!: same_at_mem)
qed

lemma rb_replace_node_ok:
  assumes "tree_rep s (plug (Node l a c r) k)" and b: "b \<noteq> 0" "aligned b" "mem s b = Some n"
    and "b \<notin> set (inorder (plug (Node l a c r) k))"
  shows "\<exists>s'. rb_replace_node a b s = Some s' \<and> tree_rep s' (plug (Node l b c r) k)
    \<and> mores (mem s') = mores (mem s)"
proof -
  from assms(1) have na: "node_at (mem s) a (cpar k) c (rootp l) (rootp r)"
    and l: "rep (mem s) a l" and r: "rep (mem s) a r" and cr: "crep (mem s) (rb_root s) k a"
    and d: "distinct (cpre k @ (inorder l @ a # inorder r) @ cpost k)"
    by (simp_all add: tree_rep_plug)
  have fresh: "b \<notin> set (cpre k) \<union> set (inorder l) \<union> set (inorder r) \<union> set (cpost k)" "b \<noteq> a"
    using assms(5) by (auto simp: inorder_plug)
  have a0: "a \<noteq> 0" using na by (simp add: node_at_def)
  have pk: "cpar k \<in> set (cpre k) \<union> set (cpost k) \<or> cpar k = 0"
    by (cases k rule: ctx_cases) auto
  have "0 \<notin> set (inorder (plug (Node l a c r) k))"
    using assms(1) rep_nonnull by (auto simp: tree_rep_def)
  then have pk': "cpar k \<notin> set (inorder l)" "cpar k \<notin> set (inorder r)" "cpar k \<noteq> a" "cpar k \<noteq> b"
    using pk d fresh b a0 by (auto simp: inorder_plug)
  obtain s1 where s1: "rb_change_child a b (cpar k) s = Some s1" "crep (mem s1) (rb_root s1) k b" "same_at {cpar k} s s1"
    using rb_change_child_ok[OF cr a0, of b] d by auto
  then have l1: "rep (mem s1) a l" using l pk' by (simp add: same_at_rep)
  obtain s2 where s2: "opt_set_parent (rootp l) b s1 = Some s2" "rb_root s2 = rb_root s1" "rep (mem s2) b l"
    "same_at (set (inorder l)) s1 s2" using opt_set_parent_ok[OF l1 b(2)] d by auto
  have s02: "same_at ({cpar k} \<union> set (inorder l)) s s2" by (rule same_at_trans[OF s1(3) s2(4)])
  then have r2: "rep (mem s2) a r" using r pk' d by (subst same_at_rep) auto
  obtain s3 where s3: "opt_set_parent (rootp r) b s2 = Some s3" "rb_root s3 = rb_root s2" "rep (mem s3) b r"
    "same_at (set (inorder r)) s2 s3" using opt_set_parent_ok[OF r2 b(2)] d by auto
  have s03: "same_at (({cpar k} \<union> set (inorder l)) \<union> set (inorder r)) s s3"
    by (rule same_at_trans[OF s02 s3(4)])
  have l3: "rep (mem s3) b l" using same_at_rep[OF s3(4), of l b] s2(3) d by auto
  have k3: "crep (mem s3) (rb_root s3) k b"
    using same_at_crep[OF same_at_trans[OF s2(4) s3(4)], of k "rb_root s1" b] s1(2) s2(2) s3(2) d by auto
  have na': "node_at (mem s1) a (cpar k) c (rootp l) (rootp r)" "node_at (mem s2) a (cpar k) c (rootp l) (rootp r)"
    "node_at (mem s3) a (cpar k) c (rootp l) (rootp r)"
    using na pk' d by (simp_all add: same_at_node_at[OF s1(3)] same_at_node_at[OF s02] same_at_node_at[OF s03])
  obtain n' where n': "mem s3 b = Some n'" using same_at_Some[OF s03 b(3)] by blast
  let ?s = "s3\<lparr>mem := (mem s3)(b \<mapsto> n'\<lparr>rb_parent_color := cpar k OR col c, rb_right := rootp r, rb_left := rootp l\<rparr>)\<rparr>"
  have "rb_replace_node a b s = Some ?s"
    using node_at_ops[OF na] node_at_ops[OF na'(1)] node_at_ops[OF na'(2)] node_at_ops[OF na'(3)]
      s1(1) s2(1) s3(1) n' b(1)
    by (simp add: rb_replace_node_def opt_set_parent_def st_def rb_red_parent_def)
  moreover have "tree_rep ?s (plug (Node l b c r) k)"
    using l3 s3(3) k3 b fresh d crep_aligned[OF cr] by (simp add: tree_rep_plug)
  moreover have "mores (mem ?s) = mores (mem s)"
    using s03 n' by (simp add: mores_upd same_at_def)
  ultimately show ?thesis by blast
qed

section \<open>The postorder walk\<close>

fun postorder :: "ptree \<Rightarrow> ptr list" where
  "postorder Leaf = []"
| "postorder (Node l a c r) = postorder l @ postorder r @ [a]"

fun ppre :: "frame list \<Rightarrow> ptr list" where
  "ppre [] = []"
| "ppre (LHole a c r # k) = ppre k"
| "ppre (RHole l a c # k) = ppre k @ postorder l"

fun ppost :: "frame list \<Rightarrow> ptr list" where
  "ppost [] = []"
| "ppost (LHole a c r # k) = postorder r @ a # ppost k"
| "ppost (RHole l a c # k) = a # ppost k"

lemma postorder_plug: "postorder (plug t k) = ppre k @ postorder t @ ppost k"
proof (induction k arbitrary: t)
  case (Cons f k)
  then show ?case by (cases f) auto
qed simp

lemma set_postorder [simp]: "set (postorder t) = set (inorder t)"
  by (induction t) auto

lemma distinct_postorder: "distinct (inorder t) \<Longrightarrow> distinct (postorder t)"
  by (induction t) auto

lemma postorder_eq_Nil [simp]: "postorder t = [] \<longleftrightarrow> t = Leaf"
  by (cases t) auto

lemma left_deepest_ok:
  "rep (mem s) p t \<Longrightarrow> t \<noteq> Leaf \<Longrightarrow> rb_left_deepest_node (rootp t) s = Some (hd0 (postorder t))"
proof (induction t arbitrary: p)
  case (Node l a c r)
  then have na: "node_at (mem s) a p c (rootp l) (rootp r)" and lr: "rep (mem s) a l" "rep (mem s) a r"
    by auto
  show ?case
    using Node.IH(1)[OF lr(1)] Node.IH(2)[OF lr(2)] rep_rootp_0[OF lr(1)] rep_rootp_0[OF lr(2)] node_at_ops[OF na]
    by (cases "l = Leaf"; cases "r = Leaf") (auto simp: rb_left_deepest_node.simps[of a] hd0_append)
qed simp

lemma rb_first_postorder_ok: "tree_rep s t \<Longrightarrow> rb_first_postorder s = Some (hd0 (postorder t))"
  using left_deepest_ok[of s 0 t] rep_rootp_0[of "mem s" 0 t]
  by (cases "t = Leaf") (auto simp: tree_rep_def rb_first_postorder_def)

lemma rb_next_postorder_plug:
  assumes "tree_rep s (plug (Node l a c r) k)"
  shows "rb_next_postorder a s = Some (hd0 (ppost k))"
proof -
  from assms have na: "node_at (mem s) a (cpar k) c (rootp l) (rootp r)"
    and cr: "crep (mem s) (rb_root s) k a"
    and d: "distinct (cpre k @ (inorder l @ a # inorder r) @ cpost k)"
    by (simp_all add: tree_rep_plug)
  have a0: "a \<noteq> 0" using na by (simp add: node_at_def)
  show ?thesis
  proof (cases k rule: ctx_cases)
    case Nil
    then show ?thesis using a0 node_at_ops[OF na] by (simp add: rb_next_postorder_def)
  next
    case (LHole b d' t k')
    with cr have nb: "node_at (mem s) b (cpar k') d' a (rootp t)" and t: "rep (mem s) b t" by auto
    then have "b \<noteq> 0" by (simp add: node_at_def)
    then show ?thesis
      using LHole a0 node_at_ops[OF na] node_at_ops[OF nb] rep_rootp_0[OF t] left_deepest_ok[OF t]
      by (cases "t = Leaf") (auto simp: rb_next_postorder_def hd0_append)
  next
    case (RHole t b d' k')
    with cr have nb: "node_at (mem s) b (cpar k') d' (rootp t) a" and t: "rep (mem s) b t" by auto
    have "rootp t \<noteq> a" by (rule rootp_notin) (use d RHole a0 in auto)
    moreover have "b \<noteq> 0" using nb by (simp add: node_at_def)
    ultimately show ?thesis
      using RHole a0 node_at_ops[OF na] node_at_ops[OF nb]
      by (auto simp: rb_next_postorder_def)
  qed
qed

lemma rb_next_postorder_ok:
  assumes "tree_rep s t" and "postorder t = xs @ a # ys"
  shows "rb_next_postorder a s = Some (hd0 ys)"
proof -
  have "a \<in> set (postorder t)" using assms(2) by simp
  then obtain k l c r where t: "t = plug (Node l a c r) k"
    using node_context[of a t] by auto
  then have "xs @ a # ys = (ppre k @ postorder l @ postorder r) @ a # ppost k"
    using assms(2) by (simp add: postorder_plug)
  moreover have "distinct (xs @ a # ys)"
    using assms distinct_postorder[of t] by (simp add: tree_rep_def)
  ultimately have "ys = ppost k" using distinct_split by metis
  with rb_next_postorder_plug t assms(1) show ?thesis by simp
qed


section \<open>Properties\<close>

text \<open>C23: \<open>rb_first\<close> and \<open>rb_next\<close> enumerate the tree: the first node in order comes first, every node is
  followed by its successor, the last by NULL; the climbs end.\<close>

theorem rb_next_enumerates:
  assumes "tree_rep s t"
  shows "rb_first s = Some (hd0 (inorder t)) \<and> (\<forall>xs a ys. inorder t = xs @ a # ys \<longrightarrow> rb_next a s = Some (hd0 ys))"
  using rb_first_ok rb_next_ok assms by blast

theorem rb_next_enumerates_witness:
  "rb_first (three (\<lambda>_. ())) = Some 8 \<and> rb_next 16 (three (\<lambda>_. ())) = Some 24"
  using rb_next_enumerates[OF three_rep[of "\<lambda>_. ()"]]
    rb_next_enumerates[OF three_rep[of "\<lambda>_. ()"], THEN conjunct2, rule_format, of "[8]" 16 "[24]"]
  by (simp add: tree3_inorder)

text \<open>\<open>rb_last\<close> and \<open>rb_prev\<close> enumerate it backwards.\<close>

theorem rb_prev_enumerates:
  assumes "tree_rep s t"
  shows "rb_last s = Some (last0 (inorder t)) \<and> (\<forall>xs a ys. inorder t = xs @ a # ys \<longrightarrow> rb_prev a s = Some (last0 xs))"
  using rb_last_ok rb_prev_ok assms by blast

theorem rb_prev_enumerates_witness:
  "rb_last (three (\<lambda>_. ())) = Some 24 \<and> rb_prev 16 (three (\<lambda>_. ())) = Some 8"
  using rb_prev_enumerates[OF three_rep[of "\<lambda>_. ()"]]
    rb_prev_enumerates[OF three_rep[of "\<lambda>_. ()"], THEN conjunct2, rule_format, of "[8]" 16 "[24]"]
  by (simp add: tree3_inorder)

text \<open>\<open>rb_first_postorder\<close> and \<open>rb_next_postorder\<close> visit every node after its children.\<close>

theorem rb_postorder_enumerates:
  assumes "tree_rep s t"
  shows "rb_first_postorder s = Some (hd0 (postorder t)) \<and>
    (\<forall>xs a ys. postorder t = xs @ a # ys \<longrightarrow> rb_next_postorder a s = Some (hd0 ys))"
  using rb_first_postorder_ok rb_next_postorder_ok assms by blast

theorem rb_postorder_enumerates_witness:
  "rb_first_postorder (three (\<lambda>_. ())) = Some 8 \<and> rb_next_postorder 8 (three (\<lambda>_. ())) = Some 24"
  using rb_postorder_enumerates[OF three_rep[of "\<lambda>_. ()"]]
    rb_postorder_enumerates[OF three_rep[of "\<lambda>_. ()"], THEN conjunct2, rule_format, of "[]" 8 "[24, 16]"]
  by (simp add: tree3_def)

text \<open>\<open>rb_replace_node\<close> puts a fresh node in the place of a node of the tree: same shape, same colours,
  the victim's name replaced.\<close>

theorem rb_replace_node_correct:
  assumes "tree_rep s (plug (Node l a c r) k)" and "b \<noteq> 0" "aligned b" "mem s b = Some n"
    and "b \<notin> set (inorder (plug (Node l a c r) k))"
  shows "\<exists>s'. rb_replace_node a b s = Some s' \<and> tree_rep s' (plug (Node l b c r) k) \<and> mores (mem s') = mores (mem s)"
  by (rule rb_replace_node_ok[OF assms])

theorem rb_replace_node_correct_witness:
  "\<exists>s'. rb_replace_node 16 32 (three (\<lambda>_. ())) = Some s' \<and>
    tree_rep s' (Node (Node Leaf 8 Red Leaf) 32 Black (Node Leaf 24 Red Leaf)) \<and>
    mores (mem s') = mores (mem (three (\<lambda>_. ())))"
  using rb_replace_node_correct[of "three (\<lambda>_. ())" "Node Leaf 8 Red Leaf" 16 Black "Node Leaf 24 Red Leaf" "[]" 32]
    three_rep[of "\<lambda>_. ()"] aligned_32 three_32[of "\<lambda>_. ()"]
  by (simp add: tree3_def)

end
