(* ===== verification/Bytes.thy ===== *)
theory Bytes
  imports Prelude
begin

text \<open>Integers as little-endian byte strings, the way the files of the two halves hold them.\<close>

fun le_bytes :: "nat \<Rightarrow> nat \<Rightarrow> u8 list" where
  "le_bytes 0 n = []"
| "le_bytes (Suc k) n = of_nat n # le_bytes k (n div 256)"

fun of_le :: "u8 list \<Rightarrow> nat" where
  "of_le [] = 0"
| "of_le (b # bs) = unat b + 256 * of_le bs"

lemma length_le_bytes [simp]: "length (le_bytes k n) = k"
  by (induction k n rule: le_bytes.induct) auto

lemma of_le_bytes: "of_le (le_bytes k n) = n mod 256 ^ k"
proof (induction k n rule: le_bytes.induct)
  case (2 k n)
  have "n mod 256 + 256 * (n div 256 mod 256 ^ k) = n mod 256 ^ Suc k"
    by (simp add: mod_mult2_eq)
  with 2 show ?case by (simp add: unat_of_nat)
qed simp

lemma of_le_unat [simp]: "of_le (le_bytes 8 (unat (x :: 64 word))) = unat x"
  using unsigned_less[of x, where 'a = nat] by (simp add: of_le_bytes)

lemma word_of_le [simp]: "(of_nat (of_le (le_bytes 8 (unat x))) :: 64 word) = x"
  by simp

text \<open>Reading from a file: \<open>n\<close> bytes at a position, fewer at the end.\<close>

definition fread :: "u8 list \<Rightarrow> nat \<Rightarrow> nat \<Rightarrow> u8 list" where
  "fread file pos n = take n (drop pos file)"

lemma fread_append: "fread (xs @ bs @ ys) (length xs) (length bs) = bs"
  by (simp add: fread_def)

lemma fread_at: "file = xs @ bs @ ys \<Longrightarrow> pos = length xs \<Longrightarrow> n = length bs \<Longrightarrow> fread file pos n = bs"
  by (simp add: fread_def)

end
