(* ===== verification/Report.thy ===== *)
theory Report
  imports Bytes "HOL-Library.Sublist"
begin

text \<open>
  Reports: \<open>RaceInfo\<close> of \<open>tools/sword-tool-common.h\<close>, \<open>ReportRace\<close> and \<open>SaveReport\<close> of
  \<open>tools/sword-race-analysis.cc\<close>, and the reading and filtering of \<open>tools/sword-print-report.cc\<close>.
  \<open>boost::hash_combine\<close> is the parameter \<open>hc\<close>, the texts printed are not modelled.
\<close>

section \<open>Recording a race\<close>

record race_info =
  ri_address :: "64 word"
  ri_rw1 :: u8
  ri_size1 :: u8
  ri_pc1 :: "64 word"
  ri_rw2 :: u8
  ri_size2 :: u8
  ri_pc2 :: "64 word"

definition mk_race_info :: "64 word \<Rightarrow> u8 \<Rightarrow> u8 \<Rightarrow> 64 word \<Rightarrow> u8 \<Rightarrow> u8 \<Rightarrow> 64 word \<Rightarrow> race_info" where
  "mk_race_info address rw1 sz1 pc1 rw2 sz2 pc2 =
     \<lparr>ri_address = address, ri_rw1 = rw1, ri_size1 = sz1, ri_pc1 = pc1, ri_rw2 = rw2, ri_size2 = sz2, ri_pc2 = pc2\<rparr>"

text \<open>The globals \<open>hash_races\<close> and \<open>races\<close>.\<close>

record report_state =
  hash_races :: "64 word set"
  races :: "race_info list"

type_synonym hash_fun = "64 word \<Rightarrow> 64 word \<Rightarrow> 64 word"

definition ReportRace ::
    "hash_fun \<Rightarrow> 64 word \<Rightarrow> u8 \<Rightarrow> u8 \<Rightarrow> u8 \<Rightarrow> u8 \<Rightarrow> 64 word \<Rightarrow> 64 word \<Rightarrow> report_state \<Rightarrow> report_state" where
  "ReportRace hc address rw1 rw2 sz1 sz2 pc1 pc2 s =
     (let hash1 = hc (hc 0 pc1) pc2; hash2 = hc (hc 0 pc2) pc1;
          reported = (hash1 \<in> hash_races s \<or> hash2 \<in> hash_races s) in
      if \<not> reported then
        s\<lparr>hash_races := insert hash2 (insert hash1 (hash_races s)),
          races := races s @ [mk_race_info address rw1 sz1 pc1 rw2 sz2 pc2]\<rparr>
      else s)"

section \<open>The report file\<close>

text \<open>
  A \<open>RaceInfo\<close> takes 40 bytes; the compiler pads each pair of bytes with six more, whose contents \<open>pad\<close>
  are whatever memory held.
\<close>

definition race_bytes :: "u8 list \<Rightarrow> race_info \<Rightarrow> u8 list" where
  "race_bytes pad r =
     le_bytes 8 (unat (ri_address r)) @ [ri_rw1 r, ri_size1 r] @ pad @ le_bytes 8 (unat (ri_pc1 r)) @
     [ri_rw2 r, ri_size2 r] @ pad @ le_bytes 8 (unat (ri_pc2 r))"

definition SaveReport :: "u8 list \<Rightarrow> race_info list \<Rightarrow> u8 list" where
  "SaveReport pad rs = le_bytes 8 (length rs) @ concat (map (race_bytes pad) rs)"

definition read_race :: "u8 list \<Rightarrow> race_info" where
  "read_race bs =
     (let w = (\<lambda>i. of_nat (of_le (fread bs i 8))) in
      mk_race_info (w 0) (bs ! 8) (bs ! 9) (w 16) (bs ! 24) (bs ! 25) (w 32))"

text \<open>
  The races of one file, added to those read so far. The vector is grown first, by objects whose members are all 0, and
  what the file holds is read over them, so that a short file leaves zeroed entries. With less than 8 bytes the number
  stays uninitialised, and with more entries than a vector can have \<open>resize\<close> throws (\<open>None\<close>). An empty file is skipped.
\<close>

fun read_races :: "nat \<Rightarrow> u8 list \<Rightarrow> race_info list" where
  "read_races 0 bs = []"
| "read_races (Suc n) bs = read_race (take 40 (bs @ replicate 40 0)) # read_races n (drop 40 bs)"

definition max_races :: nat where
  "max_races = (2 ^ 63 - 1) div 40"

definition read_report :: "u8 list \<Rightarrow> race_info list \<Rightarrow> race_info list option" where
  "read_report file rs =
     (if length file > 0 then
        if length file < 8 then None
        else let size = of_le (fread file 0 8) in
          if length rs + size > max_races then None
          else Some (rs @ read_races size (drop 8 file))
      else Some rs)"

text \<open>The files of the report folder, by path; those of other tools are skipped by name.\<close>

definition report_path :: "string \<Rightarrow> bool" where
  "report_path path \<longleftrightarrow> \<not> sublist ''overhead'' path \<and> \<not> sublist ''time_cluster'' path"

fun read_reports :: "(string \<times> u8 list) list \<Rightarrow> race_info list \<Rightarrow> race_info list option" where
  "read_reports [] rs = Some rs"
| "read_reports ((path, f) # fs) rs =
     (if report_path path then do { rs \<leftarrow> read_report f rs; read_reports fs rs }
      else read_reports fs rs)"

section \<open>Printing\<close>

definition print_hash :: "hash_fun \<Rightarrow> race_info \<Rightarrow> 64 word" where
  "print_hash hc r =
     (if ri_pc1 r < ri_pc2 r then hc (hc 0 (ri_pc1 r)) (ri_pc2 r) else hc (hc 0 (ri_pc2 r)) (ri_pc1 r))"

fun print_races :: "hash_fun \<Rightarrow> race_info list \<Rightarrow> 64 word set \<Rightarrow> race_info list" where
  "print_races hc [] seen = []"
| "print_races hc (r # rs) seen =
     (if print_hash hc r \<notin> seen then r # print_races hc rs (insert (print_hash hc r) seen)
      else print_races hc rs seen)"

definition PrintReport :: "hash_fun \<Rightarrow> (string \<times> u8 list) list \<Rightarrow> race_info list option" where
  "PrintReport hc files = map_option (\<lambda>rs. print_races hc rs {}) (read_reports files [])"

section \<open>Round trip of the report file\<close>

lemma length_race_bytes: "length pad = 6 \<Longrightarrow> length (race_bytes pad r) = 40"
  by (simp add: race_bytes_def)

lemma read_race_bytes:
  assumes "length pad = 6"
  shows "read_race (race_bytes pad r) = r"
proof -
  let ?A = "le_bytes 8 (unat (ri_address r))" and ?B = "le_bytes 8 (unat (ri_pc1 r))" and ?C = "le_bytes 8 (unat (ri_pc2 r))"
  let ?bs = "race_bytes pad r"
  have "fread ?bs 0 8 = ?A"
    by (rule fread_at[of _ "[]" _ "[ri_rw1 r, ri_size1 r] @ pad @ ?B @ [ri_rw2 r, ri_size2 r] @ pad @ ?C"])
      (simp_all add: race_bytes_def)
  moreover have "fread ?bs 16 8 = ?B"
    by (rule fread_at[of _ "?A @ [ri_rw1 r, ri_size1 r] @ pad" _ "[ri_rw2 r, ri_size2 r] @ pad @ ?C"])
      (simp_all add: race_bytes_def assms)
  moreover have "fread ?bs 32 8 = ?C"
    by (rule fread_at[of _ "?A @ [ri_rw1 r, ri_size1 r] @ pad @ ?B @ [ri_rw2 r, ri_size2 r] @ pad" _ "[]"])
      (simp_all add: race_bytes_def assms)
  moreover have "?bs ! 8 = ri_rw1 r" "?bs ! 9 = ri_size1 r" "?bs ! 24 = ri_rw2 r" "?bs ! 25 = ri_size2 r"
    by (simp_all add: race_bytes_def nth_append assms)
  ultimately show ?thesis by (simp add: read_race_def mk_race_info_def)
qed

lemma read_races_ok:
  "length pad = 6 \<Longrightarrow> read_races (length rs) (concat (map (race_bytes pad) rs) @ xs) = rs"
proof (induction rs)
  case (Cons r rs)
  then show ?case by (simp add: length_race_bytes read_race_bytes)
qed simp

lemma read_report_ok:
  assumes "length pad = 6" "length rs0 + length rs \<le> max_races"
  shows "read_report (SaveReport pad rs) rs0 = Some (rs0 @ rs)"
proof -
  have "fread (SaveReport pad rs) 0 8 = le_bytes 8 (length rs)"
    by (rule fread_at[of _ "[]" _ "concat (map (race_bytes pad) rs)"]) (simp_all add: SaveReport_def)
  moreover have "of_le (le_bytes 8 (length rs)) = length rs" using assms(2) by (simp add: of_le_bytes max_races_def)
  moreover have "length (SaveReport pad rs) \<ge> 8" by (simp add: SaveReport_def)
  moreover have "drop 8 (SaveReport pad rs) = concat (map (race_bytes pad) rs)" by (simp add: SaveReport_def)
  ultimately show ?thesis
    using read_races_ok[OF assms(1), of rs "[]"] assms(2) by (auto simp: read_report_def Let_def)
qed

lemma read_reports_ok:
  "length pad = 6 \<Longrightarrow> length rs0 + length (concat (map snd (filter (\<lambda>(path, rs). report_path path) rss))) \<le> max_races \<Longrightarrow>
   read_reports (map (\<lambda>(path, rs). (path, SaveReport pad rs)) rss) rs0 =
     Some (rs0 @ concat (map snd (filter (\<lambda>(path, rs). report_path path) rss)))"
  by (induction rss arbitrary: rs0) (auto simp: read_report_ok)

section \<open>One entry per pair of program counters\<close>

definition pc_pair :: "race_info \<Rightarrow> 64 word set" where
  "pc_pair r = {ri_pc1 r, ri_pc2 r}"

definition pair_hashes :: "hash_fun \<Rightarrow> 64 word \<Rightarrow> 64 word \<Rightarrow> 64 word set" where
  "pair_hashes hc p q = {hc (hc 0 p) q, hc (hc 0 q) p}"

definition report_inv :: "hash_fun \<Rightarrow> report_state \<Rightarrow> bool" where
  "report_inv hc s \<longleftrightarrow> distinct (map pc_pair (races s)) \<and>
     hash_races s = (\<Union>r\<in>set (races s). pair_hashes hc (ri_pc1 r) (ri_pc2 r))"

type_synonym race_args = "64 word \<times> u8 \<times> u8 \<times> u8 \<times> u8 \<times> 64 word \<times> 64 word"

fun report_all :: "hash_fun \<Rightarrow> race_args list \<Rightarrow> report_state \<Rightarrow> report_state" where
  "report_all hc [] s = s"
| "report_all hc ((a, rw1, rw2, sz1, sz2, pc1, pc2) # xs) s = report_all hc xs (ReportRace hc a rw1 rw2 sz1 sz2 pc1 pc2 s)"

fun args_pair :: "race_args \<Rightarrow> 64 word set" where
  "args_pair (a, rw1, rw2, sz1, sz2, pc1, pc2) = {pc1, pc2}"

lemma ReportRace_inv:
  assumes "report_inv hc s"
  shows "report_inv hc (ReportRace hc a rw1 rw2 sz1 sz2 pc1 pc2 s)"
proof -
  have "{pc1, pc2} \<notin> pc_pair ` set (races s)"
    if "hc (hc 0 pc1) pc2 \<notin> hash_races s" "hc (hc 0 pc2) pc1 \<notin> hash_races s"
    using that assms by (force simp: report_inv_def pc_pair_def pair_hashes_def doubleton_eq_iff)
  then show ?thesis
    using assms
    by (auto simp: ReportRace_def Let_def report_inv_def mk_race_info_def pair_hashes_def) (auto simp: pc_pair_def)
qed

lemma report_all_inv: "report_inv hc s \<Longrightarrow> report_inv hc (report_all hc xs s)"
  by (induction hc xs s rule: report_all.induct) (simp_all add: ReportRace_inv)


text \<open>Hashes of different ordered pairs of program counters of \<open>P\<close> differ.\<close>

definition no_collision :: "hash_fun \<Rightarrow> 64 word set \<Rightarrow> bool" where
  "no_collision hc P \<longleftrightarrow> inj_on (\<lambda>(p, q). hc (hc 0 p) q) (P \<times> P)"

lemma no_collisionD:
  "no_collision hc P \<Longrightarrow> {p, q, p', q'} \<subseteq> P \<Longrightarrow> hc (hc 0 p) q = hc (hc 0 p') q' \<Longrightarrow> p = p' \<and> q = q'"
  by (auto simp: no_collision_def dest: inj_onD[of _ _ "(p, q)" "(p', q')"])

lemma no_collision_subset: "no_collision hc P \<Longrightarrow> Q \<subseteq> P \<Longrightarrow> no_collision hc Q"
  unfolding no_collision_def by (erule inj_on_subset) auto

lemma pair_hashes_meet:
  assumes "no_collision hc P" "{p, q, p', q'} \<subseteq> P" "hc (hc 0 p) q \<in> pair_hashes hc p' q'"
  shows "{p, q} = {p', q'}"
  using assms no_collisionD[OF assms(1), of p q p' q'] no_collisionD[OF assms(1), of p q q' p']
  by (auto simp: pair_hashes_def)

lemma ReportRace_pairs:
  assumes "report_inv hc s" "no_collision hc P" "{pc1, pc2} \<subseteq> P" "\<Union>(pc_pair ` set (races s)) \<subseteq> P"
  shows "pc_pair ` set (races (ReportRace hc a rw1 rw2 sz1 sz2 pc1 pc2 s)) = insert {pc1, pc2} (pc_pair ` set (races s))"
proof (cases "hc (hc 0 pc1) pc2 \<in> hash_races s \<or> hc (hc 0 pc2) pc1 \<in> hash_races s")
  case True
  then obtain r where r: "r \<in> set (races s)"
    "hc (hc 0 pc1) pc2 \<in> pair_hashes hc (ri_pc1 r) (ri_pc2 r) \<or> hc (hc 0 pc2) pc1 \<in> pair_hashes hc (ri_pc1 r) (ri_pc2 r)"
    using assms(1) by (auto simp: report_inv_def)
  have P: "{pc1, pc2, ri_pc1 r, ri_pc2 r} \<subseteq> P" using assms(3,4) r(1) by (auto simp: pc_pair_def)
  then have "{pc1, pc2} = {ri_pc1 r, ri_pc2 r}"
    using r(2) pair_hashes_meet[OF assms(2), of pc1 pc2 "ri_pc1 r" "ri_pc2 r"]
      pair_hashes_meet[OF assms(2), of pc2 pc1 "ri_pc1 r" "ri_pc2 r"] by (auto simp: insert_commute)
  then have "{pc1, pc2} \<in> pc_pair ` set (races s)" using r(1) by (auto simp: pc_pair_def)
  with True show ?thesis by (auto simp: ReportRace_def Let_def)
next
  case False
  then show ?thesis by (simp add: ReportRace_def Let_def mk_race_info_def pc_pair_def)
qed

lemma report_all_pairs:
  assumes "report_inv hc s" "no_collision hc P" "\<Union>(args_pair ` set xs) \<subseteq> P" "\<Union>(pc_pair ` set (races s)) \<subseteq> P"
  shows "pc_pair ` set (races (report_all hc xs s)) = args_pair ` set xs \<union> pc_pair ` set (races s)"
  using assms
proof (induction hc xs s rule: report_all.induct)
  case (2 hc a rw1 rw2 sz1 sz2 pc1 pc2 xs s)
  have "pc_pair ` set (races (ReportRace hc a rw1 rw2 sz1 sz2 pc1 pc2 s)) = insert {pc1, pc2} (pc_pair ` set (races s))"
    using 2 by (intro ReportRace_pairs) auto
  with 2 show ?case by (simp add: ReportRace_inv)
qed simp

text \<open>The filter of \<open>PrintReport\<close> prints one race of each pair.\<close>

lemma print_hash_pair: "ri_pc1 r' = ri_pc2 r \<Longrightarrow> ri_pc2 r' = ri_pc1 r \<Longrightarrow> print_hash hc r = print_hash hc r'"
  by (auto simp: print_hash_def not_less)

lemma print_hash_form: "\<exists>p q. print_hash hc r = hc (hc 0 p) q \<and> {p, q} = pc_pair r"
proof (cases "ri_pc1 r < ri_pc2 r")
  case True
  then show ?thesis by (intro exI[of _ "ri_pc1 r"] exI[of _ "ri_pc2 r"]) (simp add: print_hash_def pc_pair_def)
next
  case False
  then show ?thesis by (intro exI[of _ "ri_pc2 r"] exI[of _ "ri_pc1 r"]) (auto simp: print_hash_def pc_pair_def)
qed

lemma print_hash_same:
  assumes "pc_pair r = pc_pair r'"
  shows "print_hash hc r = print_hash hc r'"
proof -
  consider "ri_pc1 r = ri_pc1 r'" "ri_pc2 r = ri_pc2 r'" | "ri_pc1 r' = ri_pc2 r" "ri_pc2 r' = ri_pc1 r"
    using assms unfolding pc_pair_def doubleton_eq_iff by metis
  then show ?thesis by cases (simp add: print_hash_def, rule print_hash_pair)
qed

lemma print_hash_in: "print_hash hc r \<in> pair_hashes hc (ri_pc1 r) (ri_pc2 r)"
  by (simp add: print_hash_def pair_hashes_def)

lemma print_races_hashes:
  "set (print_races hc rs seen) \<subseteq> set rs \<and> distinct (map (print_hash hc) (print_races hc rs seen)) \<and>
   print_hash hc ` set (print_races hc rs seen) = print_hash hc ` set rs - seen"
  by (induction hc rs seen rule: print_races.induct) auto

lemma print_races_distinct: "distinct (map pc_pair (print_races hc rs seen))"
proof -
  have "distinct (map (print_hash hc) (print_races hc rs seen))" using print_races_hashes by blast
  then show ?thesis using print_hash_same unfolding distinct_map inj_on_def by blast
qed

text \<open>A race is only left out for a recorded one with a common hash.\<close>

fun args_hashes :: "hash_fun \<Rightarrow> race_args \<Rightarrow> 64 word set" where
  "args_hashes hc (a, rw1, rw2, sz1, sz2, pc1, pc2) = pair_hashes hc pc1 pc2"

lemma report_all_mono: "set (races s) \<subseteq> set (races (report_all hc xs s))"
proof (induction hc xs s rule: report_all.induct)
  case (2 hc a rw1 rw2 sz1 sz2 pc1 pc2 xs s)
  have "set (races s) \<subseteq> set (races (ReportRace hc a rw1 rw2 sz1 sz2 pc1 pc2 s))" by (auto simp: ReportRace_def Let_def)
  with 2 show ?case by auto
qed simp

lemma report_all_hashes:
  "report_inv hc s \<Longrightarrow> \<forall>x\<in>set xs. \<exists>r\<in>set (races (report_all hc xs s)). pair_hashes hc (ri_pc1 r) (ri_pc2 r) \<inter> args_hashes hc x \<noteq> {}"
proof (induction hc xs s rule: report_all.induct)
  case (2 hc a rw1 rw2 sz1 sz2 pc1 pc2 xs s)
  let ?s = "ReportRace hc a rw1 rw2 sz1 sz2 pc1 pc2 s"
  have "\<exists>r\<in>set (races ?s). pair_hashes hc (ri_pc1 r) (ri_pc2 r) \<inter> pair_hashes hc pc1 pc2 \<noteq> {}"
  proof (cases "hc (hc 0 pc1) pc2 \<in> hash_races s \<or> hc (hc 0 pc2) pc1 \<in> hash_races s")
    case True
    then have "\<exists>r\<in>set (races s). pair_hashes hc (ri_pc1 r) (ri_pc2 r) \<inter> pair_hashes hc pc1 pc2 \<noteq> {}"
      using 2(2) by (auto simp: report_inv_def pair_hashes_def)
    then show ?thesis using True by (simp add: ReportRace_def Let_def)
  next
    case False
    then show ?thesis by (auto simp: ReportRace_def Let_def mk_race_info_def pair_hashes_def)
  qed
  then have "\<exists>r\<in>set (races (report_all hc xs ?s)). pair_hashes hc (ri_pc1 r) (ri_pc2 r) \<inter> pair_hashes hc pc1 pc2 \<noteq> {}"
    using report_all_mono[of ?s hc xs] by blast
  with 2 show ?case by (simp add: ReportRace_inv)
qed simp

section \<open>Properties\<close>

definition empty_report :: report_state where
  "empty_report = \<lparr>hash_races = {}, races = []\<rparr>"

lemma empty_report_inv: "report_inv hc empty_report"
  by (simp add: report_inv_def empty_report_def)

text \<open>The end of \<open>main\<close> of the analyser: every race found is reported, and the ones recorded are saved.\<close>

definition region_races :: "hash_fun \<Rightarrow> race_args list \<Rightarrow> race_info list" where
  "region_races hc xs = races (report_all hc xs empty_report)"

lemma region_races_pairs:
  assumes "no_collision hc (\<Union>(args_pair ` set xs))"
  shows "pc_pair ` set (region_races hc xs) = args_pair ` set xs"
  using report_all_pairs[OF empty_report_inv assms order_refl] by (simp add: region_races_def empty_report_def)

lemma length_report_all: "length (races (report_all hc xs s)) \<le> length (races s) + length xs"
proof (induction hc xs s rule: report_all.induct)
  case (2 hc a rw1 rw2 sz1 sz2 pc1 pc2 xs s)
  have "length (races (ReportRace hc a rw1 rw2 sz1 sz2 pc1 pc2 s)) \<le> Suc (length (races s))"
    by (simp add: ReportRace_def Let_def)
  with 2 show ?case by simp
qed simp

lemma length_region_races: "length (region_races hc xs) \<le> length xs"
  using length_report_all[of hc xs empty_report] by (simp add: region_races_def empty_report_def)

fun args_race :: "race_args \<Rightarrow> race_info" where
  "args_race (a, rw1, rw2, sz1, sz2, pc1, pc2) = mk_race_info a rw1 sz1 pc1 rw2 sz2 pc2"

lemma report_all_sub: "set (races (report_all hc xs s)) \<subseteq> args_race ` set xs \<union> set (races s)"
proof (induction hc xs s rule: report_all.induct)
  case (2 hc a rw1 rw2 sz1 sz2 pc1 pc2 xs s)
  then show ?case by (auto simp: ReportRace_def Let_def split: if_splits)
qed simp

lemma region_races_sub: "set (region_races hc xs) \<subseteq> args_race ` set xs"
  using report_all_sub[of hc xs empty_report] by (simp add: region_races_def empty_report_def)

lemma args_hashes_pair: "args_pair x = args_pair y \<Longrightarrow> args_hashes hc x = args_hashes hc y"
  by (cases x rule: args_pair.cases; cases y rule: args_pair.cases) (auto simp: pair_hashes_def doubleton_eq_iff)

text \<open>C31: Whatever the hash function, the races recorded for a region are among the reported ones, field by
  field, and no two of them have the same two program counters; if the hash has no collision on the program
  counters reported, every pair reported is recorded.\<close>
theorem region_races_correct:
  "set (region_races hc xs) \<subseteq> args_race ` set xs \<and>
   distinct (map pc_pair (region_races hc xs)) \<and>
   (no_collision hc (\<Union>(args_pair ` set xs)) \<longrightarrow> pc_pair ` set (region_races hc xs) = args_pair ` set xs)"
  using report_all_sub[of hc xs empty_report] report_all_inv[OF empty_report_inv, of hc xs] region_races_pairs[of hc xs]
  by (simp add: region_races_def report_inv_def empty_report_def)

text \<open>The files that \<open>SaveReport\<close> writes are read back by \<open>PrintReport\<close> as they were, one after the other,
  whatever the padding bytes are; the files of other tools are skipped.\<close>
theorem report_file_roundtrip:
  assumes "length pad = 6" "length (concat (map snd (filter (\<lambda>(path, rs). report_path path) rss))) \<le> max_races"
  shows "read_reports (map (\<lambda>(path, rs). (path, SaveReport pad rs)) rss) [] =
    Some (concat (map snd (filter (\<lambda>(path, rs). report_path path) rss)))"
  using read_reports_ok[OF assms(1), of "[]" rss] assms(2) by simp

lemma args_race_pair: "pc_pair (args_race x) = args_pair x" "pair_hashes hc (ri_pc1 (args_race x)) (ri_pc2 (args_race x)) = args_hashes hc x"
  by (cases x rule: args_race.cases; simp add: mk_race_info_def pc_pair_def)+

text \<open>C27: from the races found in every region to the output, for any hash function: reading the saved reports and
  printing returns; what is printed was reported in some region, field by field; no two of the printed races have the
  same pair of program counters; and a reported pair that is not printed shares a hash with another reported pair.\<close>
theorem print_report_correct:
  fixes xss :: "(string \<times> race_args list) list"
  defines "reported \<equiv> \<lambda>xss. set (concat (map snd xss))"
  assumes "length pad = 6" "\<forall>(path, xs)\<in>set xss. report_path path" "length (concat (map snd xss)) \<le> max_races"
  shows "\<exists>out. PrintReport hc (map (\<lambda>(path, xs). (path, SaveReport pad (region_races hc xs))) xss) = Some out \<and>
    set out \<subseteq> args_race ` reported xss \<and> distinct (map pc_pair out) \<and>
    (\<forall>x\<in>reported xss. args_pair x \<in> pc_pair ` set out \<or>
       (\<exists>y\<in>reported xss. args_pair y \<noteq> args_pair x \<and> args_hashes hc y \<inter> args_hashes hc x \<noteq> {}))"
proof -
  let ?rss = "map (\<lambda>(path, xs). (path, region_races hc xs)) xss"
  let ?all = "concat (map (region_races hc \<circ> snd) xss)" and ?X = "reported xss"
  let ?out = "print_races hc ?all {}"
  have fil: "filter (\<lambda>(path, rs). report_path path) ?rss = ?rss" using assms(3) by (intro filter_True) auto
  have cat: "concat (map snd ?rss) = ?all" by (simp add: comp_def case_prod_beta')
  have "length ?all \<le> length (concat (map snd xss))"
    unfolding length_concat map_map by (intro sum_list_mono) (simp add: length_region_races)
  then have "read_reports (map (\<lambda>(path, rs). (path, SaveReport pad rs)) ?rss) [] = Some ?all"
    using read_reports_ok[OF assms(2), of "[]" ?rss] assms(4) unfolding fil cat by simp
  then have read: "PrintReport hc (map (\<lambda>(path, xs). (path, SaveReport pad (region_races hc xs))) xss) = Some ?out"
    by (simp add: PrintReport_def comp_def case_prod_beta')
  have rec: "\<exists>x\<in>?X. r = args_race x" if "r \<in> set ?all" for r
    using that region_races_sub unfolding reported_def by fastforce
  have out: "set ?out \<subseteq> set ?all" "print_hash hc ` set ?out = print_hash hc ` set ?all"
    using print_races_hashes[where hc = hc and rs = ?all and seen = "{}"] by simp_all
  have "args_pair x \<in> pc_pair ` set ?out \<or> (\<exists>y\<in>?X. args_pair y \<noteq> args_pair x \<and> args_hashes hc y \<inter> args_hashes hc x \<noteq> {})"
    if x: "x \<in> ?X" for x
  proof -
    have "\<exists>r\<in>set ?all. pair_hashes hc (ri_pc1 r) (ri_pc2 r) \<inter> args_hashes hc x \<noteq> {}"
      using x report_all_hashes[OF empty_report_inv, where hc = hc] unfolding reported_def region_races_def by fastforce
    then obtain r where r0: "r \<in> set ?all" "pair_hashes hc (ri_pc1 r) (ri_pc2 r) \<inter> args_hashes hc x \<noteq> {}" by blast
    obtain y where y: "y \<in> ?X" "r = args_race y" using rec[OF r0(1)] by blast
    have "args_hashes hc y \<inter> args_hashes hc x \<noteq> {}" using r0(2) unfolding y(2) args_race_pair(2) .
    note r = r0(1) y this
    show ?thesis
    proof (cases "args_pair y = args_pair x")
      case True
      have "print_hash hc r \<in> print_hash hc ` set ?out" unfolding out(2) using r(1) by (rule imageI)
      then obtain r' where r': "r' \<in> set ?out" "print_hash hc r' = print_hash hc r" by fastforce
      obtain z where z: "z \<in> ?X" "r' = args_race z" using rec[OF subsetD[OF out(1) r'(1)]] by blast
      have "print_hash hc r \<in> args_hashes hc z" "print_hash hc r \<in> args_hashes hc y"
        using print_hash_in[of hc r'] print_hash_in[of hc r] r'(2) unfolding z(2) r(3) args_race_pair(2) by simp_all
      then have h: "args_hashes hc z \<inter> args_hashes hc x \<noteq> {}" using args_hashes_pair[OF True, of hc] by auto
      have "args_pair z \<in> pc_pair ` set ?out" using imageI[OF r'(1), of pc_pair] unfolding z(2) args_race_pair(1) .
      then show ?thesis using z(1) h by (cases "args_pair z = args_pair x") auto
    qed (use r in blast)
  qed
  moreover have "set ?out \<subseteq> args_race ` ?X" using out(1) rec by blast
  ultimately show ?thesis using read print_races_distinct by blast
qed

subsection \<open>A hash and two reports\<close>

definition sample_hash :: hash_fun where
  "sample_hash h x = 31 * h + x"

definition sample_args :: "race_args list" where
  "sample_args = [(64, 2, 3, 0, 0, 5, 9), (72, 3, 2, 0, 0, 9, 5), (80, 3, 3, 2, 2, 5, 5)]"

lemma sample_collision: "no_collision sample_hash {5, 9}"
  by (simp add: no_collision_def inj_on_def sample_hash_def)

lemma region_races_correct_witness:
  "set (region_races sample_hash sample_args) \<subseteq> args_race ` set sample_args \<and>
   distinct (map pc_pair (region_races sample_hash sample_args)) \<and>
   pc_pair ` set (region_races sample_hash sample_args) = {{5, 9}, {5}}"
  using region_races_correct[of sample_hash sample_args] sample_collision
  by (simp add: sample_args_def insert_commute)

lemma sample_paths: "report_path ''race_report_1''" "report_path ''race_report_2''" "\<not> report_path ''overhead''"
  by code_simp+

lemma report_file_roundtrip_witness:
  "read_reports (map (\<lambda>(path, rs). (path, SaveReport [1, 2, 3, 4, 5, 6] rs))
     [(''race_report_1'', region_races sample_hash sample_args), (''overhead'', []), (''race_report_2'', [])]) [] =
   Some (concat [region_races sample_hash sample_args, []])"
  using length_region_races[of sample_hash sample_args]
    report_file_roundtrip[of "[1, 2, 3, 4, 5, 6]"
      "[(''race_report_1'', region_races sample_hash sample_args), (''overhead'', []), (''race_report_2'', [])]"]
  by (simp add: sample_args_def sample_paths max_races_def)

lemma print_report_correct_witness:
  "\<exists>out. PrintReport sample_hash (map (\<lambda>(path, xs). (path, SaveReport [1, 2, 3, 4, 5, 6] (region_races sample_hash xs)))
      [(''race_report_1'', sample_args), (''race_report_2'', sample_args)]) = Some out \<and>
    {5, 9} \<in> pc_pair ` set out \<and> {5} \<in> pc_pair ` set out \<and> distinct (map pc_pair out)"
proof -
  let ?xss = "[(''race_report_1'', sample_args), (''race_report_2'', sample_args)]"
  have 1: "length [1, 2, 3, 4, 5, 6 :: u8] = 6" "\<forall>(path, xs)\<in>set ?xss. report_path path"
    "length (concat (map snd ?xss)) \<le> max_races"
    by (simp_all add: sample_args_def sample_paths max_races_def)
  obtain out where o: "PrintReport sample_hash (map (\<lambda>(path, xs). (path, SaveReport [1, 2, 3, 4, 5, 6] (region_races sample_hash xs))) ?xss)
      = Some out" "distinct (map pc_pair out)"
    "\<forall>x\<in>set (concat (map snd ?xss)). args_pair x \<in> pc_pair ` set out \<or>
       (\<exists>y\<in>set (concat (map snd ?xss)). args_pair y \<noteq> args_pair x \<and> args_hashes sample_hash y \<inter> args_hashes sample_hash x \<noteq> {})"
    using print_report_correct[OF 1, of sample_hash] by blast
  have "args_pair x \<in> pc_pair ` set out" if "x \<in> set sample_args" for x
    using bspec[OF o(3), of x] that by (auto simp: sample_args_def pair_hashes_def sample_hash_def insert_commute)
  from this[of "(64, 2, 3, 0, 0, 5, 9)"] this[of "(80, 3, 3, 2, 2, 5, 5)"]
  have "{5, 9} \<in> pc_pair ` set out" "{5} \<in> pc_pair ` set out" by (simp_all add: sample_args_def)
  then show ?thesis using o(1,2) by blast
qed

end
