(* ===== verification/Metafile.thy ===== *)
theory Metafile
  imports Prelude "HOL-Library.Sublist" "HOL-Library.Char_ord"
begin

text \<open>
  The text format of the metafiles: the line that \<open>fprintf\<close> writes in \<open>rtl/sword_rtl.cc\<close> and the one that
  \<open>getline\<close> and \<open>sscanf\<close> read in \<open>tools/sword-race-analysis.cc\<close>, with the conversions they use.
\<close>

section \<open>Conversions of the C library\<close>

definition digit :: "nat \<Rightarrow> char" where
  "digit n = char_of (48 + n)"

definition is_digit :: "char \<Rightarrow> bool" where
  "is_digit c \<longleftrightarrow> 48 \<le> (of_char c :: nat) \<and> (of_char c :: nat) \<le> 57"

definition digit_value :: "char \<Rightarrow> nat" where
  "digit_value c = of_char c - 48"

definition is_space :: "char \<Rightarrow> bool" where
  "is_space c \<longleftrightarrow> (of_char c :: nat) \<in> {9, 10, 11, 12, 13, 32}"

text \<open>\<open>%lu\<close> and \<open>%u\<close> of \<open>fprintf\<close>; \<open>%d\<close> for an int.\<close>

fun print_nat :: "nat \<Rightarrow> string" where
  "print_nat n = (if n < 10 then [digit n] else print_nat (n div 10) @ [digit (n mod 10)])"

declare print_nat.simps [simp del]

definition print_int :: "int \<Rightarrow> string" where
  "print_int i = (if i < 0 then CHR ''-'' # print_nat (nat (- i)) else print_nat (nat i))"

text \<open>
  The number conversions of \<open>sscanf\<close>: white space is skipped, a sign may follow, then at least one digit; the
  result is the signed value and the rest of the input.
\<close>

definition digits_value :: "string \<Rightarrow> nat" where
  "digits_value ds = foldl (\<lambda>v c. 10 * v + digit_value c) 0 ds"

definition scan_number :: "string \<Rightarrow> (int \<times> string) option" where
  "scan_number s =
     (let s = dropWhile is_space s;
          neg = (s \<noteq> [] \<and> hd s = CHR ''-'');
          s = (if s \<noteq> [] \<and> (hd s = CHR ''-'' \<or> hd s = CHR ''+'') then tl s else s);
          ds = takeWhile is_digit s in
      if ds = [] then None
      else Some (if neg then - int (digits_value ds) else int (digits_value ds), dropWhile is_digit s))"

text \<open>
  \<open>%lu\<close> yields \<open>ULONG_MAX\<close> on overflow, and negates modulo \<open>2^64\<close>; \<open>%u\<close> and \<open>%d\<close> store the low 32 bits
  of it.
\<close>

definition ulong_of :: "int \<Rightarrow> 64 word" where
  "ulong_of v = (if \<bar>v\<bar> < 2 ^ 64 then of_int v else - 1)"

definition scan_ulong :: "string \<Rightarrow> (64 word \<times> string) option" where
  "scan_ulong s = map_option (\<lambda>(v, r). (ulong_of v, r)) (scan_number s)"

definition scan_uint :: "string \<Rightarrow> (uint \<times> string) option" where
  "scan_uint s = map_option (\<lambda>(v, r). (ucast (ulong_of v), r)) (scan_number s)"

definition scan_int :: "string \<Rightarrow> (int \<times> string) option" where
  "scan_int s = map_option (\<lambda>(v, r). (sint (ucast (ulong_of v) :: uint), r)) (scan_number s)"

definition scan_comma :: "string \<Rightarrow> string option" where
  "scan_comma s = (case s of [] \<Rightarrow> None | c # r \<Rightarrow> if c = CHR '','' then Some r else None)"

section \<open>Lines\<close>

record meta_line =
  ml_pid :: "64 word"
  ml_ppid :: "64 word"
  ml_bid :: "64 word"
  ml_offset :: uint
  ml_span :: uint
  ml_level :: int
  ml_begin :: "64 word"
  ml_end :: "64 word"

text \<open>The \<open>fprintf\<close> of the runtime.\<close>

definition newline :: string where
  "newline = [CHR 0x0A]"

definition print_meta :: "meta_line \<Rightarrow> string" where
  "print_meta l =
     print_nat (unat (ml_pid l)) @ '','' @ print_nat (unat (ml_ppid l)) @ '','' @ print_nat (unat (ml_bid l)) @ '','' @
     print_nat (unat (ml_offset l)) @ '','' @ print_nat (unat (ml_span l)) @ '','' @ print_int (ml_level l) @ '','' @
     print_nat (unat (ml_begin l)) @ '','' @ print_nat (unat (ml_end l)) @ newline"

text \<open>\<open>getline\<close> until the end of the file.\<close>

function getlines :: "string \<Rightarrow> string list" where
  "getlines s =
     (if s = [] then []
      else takeWhile (\<lambda>c. c \<noteq> hd newline) s # getlines (drop 1 (dropWhile (\<lambda>c. c \<noteq> hd newline) s)))"

  by pat_completeness auto
termination
proof (relation "measure length")
  fix s :: string
  assume "s \<noteq> []"
  moreover have "length (dropWhile (\<lambda>c. c \<noteq> hd newline) s) \<le> length s" by (rule length_dropWhile_le)
  ultimately show "(drop 1 (dropWhile (\<lambda>c. c \<noteq> hd newline) s), s) \<in> measure length"
    by (cases s) auto
qed simp

declare getlines.simps [simp del]

text \<open>The \<open>sscanf\<close> of the analyser; a field that is not converted stays uninitialised (\<open>None\<close>).\<close>

definition scan_meta :: "string \<Rightarrow> meta_line option" where
  "scan_meta s = do {
     (pid, s) \<leftarrow> scan_ulong s; s \<leftarrow> scan_comma s;
     (ppid, s) \<leftarrow> scan_ulong s; s \<leftarrow> scan_comma s;
     (bid, s) \<leftarrow> scan_ulong s; s \<leftarrow> scan_comma s;
     (offset, s) \<leftarrow> scan_uint s; s \<leftarrow> scan_comma s;
     (span, s) \<leftarrow> scan_uint s; s \<leftarrow> scan_comma s;
     (level, s) \<leftarrow> scan_int s; s \<leftarrow> scan_comma s;
     (obegin, s) \<leftarrow> scan_ulong s; s \<leftarrow> scan_comma s;
     (oend, s) \<leftarrow> scan_ulong s;
     Some \<lparr>ml_pid = pid, ml_ppid = ppid, ml_bid = bid, ml_offset = offset, ml_span = span, ml_level = level,
       ml_begin = obegin, ml_end = oend\<rparr>
   }"

section \<open>Printing and scanning numbers\<close>

lemma of_char_digit: "n < 10 \<Longrightarrow> of_char (digit n) = 48 + n"
  by (simp add: digit_def)

lemma digit_props: "n < 10 \<Longrightarrow> is_digit (digit n) \<and> digit_value (digit n) = n \<and> \<not> is_space (digit n)"
  by (auto simp: is_digit_def digit_value_def is_space_def of_char_digit)

lemma digit_chars:
  "is_digit c \<Longrightarrow> c \<noteq> CHR ''-'' \<and> c \<noteq> CHR ''+'' \<and> c \<noteq> CHR '','' \<and> c \<noteq> hd newline \<and> \<not> is_space c"
  by (auto simp: is_digit_def newline_def is_space_def)

lemma print_nat_digits: "list_all is_digit (print_nat n) \<and> print_nat n \<noteq> []"
proof (induction n rule: print_nat.induct)
  case (1 n)
  then show ?case by (subst (1 2) print_nat.simps) (auto simp: digit_props)
qed

lemma digits_value_snoc: "digits_value (ds @ [c]) = 10 * digits_value ds + digit_value c"
  by (simp add: digits_value_def)

lemma digits_value_print: "digits_value (print_nat n) = n"
proof (induction n rule: print_nat.induct)
  case (1 n)
  show ?case
  proof (cases "n < 10")
    case True
    then show ?thesis by (subst print_nat.simps) (simp add: digits_value_def digit_props)
  next
    case False
    then show ?thesis using 1 by (subst print_nat.simps) (simp add: digits_value_snoc digit_props)
  qed
qed

text \<open>What may follow a number in a line.\<close>

definition ends :: "string \<Rightarrow> bool" where
  "ends r \<longleftrightarrow> r = [] \<or> \<not> is_digit (hd r)"

lemma scan_print_nat:
  assumes "ends r"
  shows "scan_number (print_nat n @ r) = Some (int n, r)"
proof -
  let ?s = "print_nat n"
  have d: "list_all is_digit ?s" "?s \<noteq> []" using print_nat_digits by auto
  then obtain c ds where s: "?s = c # ds" by (cases ?s) auto
  have c: "c \<noteq> CHR ''-''" "c \<noteq> CHR ''+''" "\<not> is_space c" using d s digit_chars[of c] by auto
  have "takeWhile is_digit (?s @ r) = ?s" "dropWhile is_digit (?s @ r) = r"
    using d assms by (cases r; auto simp: ends_def list_all_iff)+
  then show ?thesis using c digits_value_print[of n] by (simp add: scan_number_def s Let_def)
qed

lemma scan_print_int:
  assumes "ends r"
  shows "scan_number (print_int i @ r) = Some (i, r)"
proof (cases "i < 0")
  case False
  then show ?thesis using scan_print_nat[OF assms] by (simp add: print_int_def)
next
  case True
  let ?s = "print_nat (nat (- i))"
  have d: "list_all is_digit ?s" "?s \<noteq> []" using print_nat_digits by auto
  have "takeWhile is_digit (?s @ r) = ?s" "dropWhile is_digit (?s @ r) = r"
    using d assms by (cases r; auto simp: ends_def list_all_iff)+
  moreover have "\<not> is_space (CHR ''-'')" by (simp add: is_space_def)
  ultimately show ?thesis
    using True d digits_value_print[of "nat (- i)"] by (simp add: scan_number_def print_int_def Let_def)
qed

lemma ulong_of_uint: "ulong_of (uint (w :: 64 word)) = w"
  using unsigned_less[of w, where 'a = int] by (simp add: ulong_of_def)

lemma scan_ulong_print: "ends r \<Longrightarrow> scan_ulong (print_nat (unat w) @ r) = Some (w, r)"
  by (simp add: scan_ulong_def scan_print_nat ulong_of_uint)

lemma scan_uint_print:
  assumes "ends r"
  shows "scan_uint (print_nat (unat w) @ r) = Some (w, r)"
proof -
  have "uint w < 2 ^ 64" using unsigned_less[of w, where 'a = int] by simp
  moreover have "ucast (ucast w :: 64 word) = w" by (rule ucast_up_ucast_id) (simp add: is_up)
  ultimately have "ucast (ulong_of (uint w)) = w" by (simp add: ulong_of_def)
  then show ?thesis by (simp add: scan_uint_def scan_print_nat[OF assms])
qed

lemma scan_int_print:
  assumes "ends r" "- (2 ^ 31) \<le> i" "i < 2 ^ 31"
  shows "scan_int (print_int i @ r) = Some (i, r)"
proof -
  have "\<bar>i\<bar> < 2 ^ 64" using assms(2,3) by simp
  moreover have "(ucast (of_int i :: 64 word) :: uint) = of_int i"
    by (simp add: ucast_eq uint_word_of_int_eq word_of_int_eq_iff take_bit_take_bit)
  moreover have "sint (of_int i :: uint) = i"
    using assms(2,3) by (simp add: signed_of_int signed_take_bit_int_eq_self)
  ultimately show ?thesis by (simp add: scan_int_def scan_print_int[OF assms(1)] ulong_of_def)
qed

lemma ends_simps [simp]: "ends []" "ends (CHR '','' # r)" "ends (CHR 0x0A # r)"
  by (simp_all add: ends_def is_digit_def)

lemma scan_comma_simps [simp]: "scan_comma (CHR '','' # r) = Some r"
  by (simp add: scan_comma_def)

definition meta_ok :: "meta_line \<Rightarrow> bool" where
  "meta_ok l \<longleftrightarrow> - (2 ^ 31) \<le> ml_level l \<and> ml_level l < 2 ^ 31"

text \<open>The text of a line without the newline.\<close>

definition meta_text :: "meta_line \<Rightarrow> string" where
  "meta_text l =
     print_nat (unat (ml_pid l)) @ '','' @ print_nat (unat (ml_ppid l)) @ '','' @ print_nat (unat (ml_bid l)) @ '','' @
     print_nat (unat (ml_offset l)) @ '','' @ print_nat (unat (ml_span l)) @ '','' @ print_int (ml_level l) @ '','' @
     print_nat (unat (ml_begin l)) @ '','' @ print_nat (unat (ml_end l))"

lemma scan_meta_text:
  assumes "meta_ok l"
  shows "scan_meta (meta_text l) = Some l"
proof -
  have e: "scan_ulong (print_nat (unat w)) = Some (w, [])" for w using scan_ulong_print[of "[]" w] by simp
  show ?thesis
    using assms by (simp add: scan_meta_def meta_text_def meta_ok_def scan_ulong_print scan_uint_print scan_int_print e)
qed

lemma no_newline_text: "hd newline \<notin> set (meta_text l)"
proof -
  have n: "hd newline \<notin> set (print_nat n)" for n
    using print_nat_digits[of n] digit_chars by (auto simp: list_all_iff)
  moreover have "hd newline \<notin> set (print_int i)" for i
    using n by (auto simp: print_int_def newline_def)
  ultimately show ?thesis by (simp add: meta_text_def) (simp add: newline_def)
qed

lemma getlines_line:
  assumes "hd newline \<notin> set x"
  shows "getlines (x @ newline @ ys) = x # getlines ys"
proof -
  have "newline = [hd newline]" by (simp add: newline_def)
  then obtain c where nl: "newline = [c]" by metis
  have "takeWhile (\<lambda>d. d \<noteq> c) (x @ c # ys) = x" "dropWhile (\<lambda>d. d \<noteq> c) (x @ c # ys) = c # ys"
    using assms by (auto simp: nl takeWhile_append dropWhile_append)
  then show ?thesis by (subst getlines.simps) (simp add: nl)
qed

lemma print_meta_text: "print_meta l = meta_text l @ newline"
  by (simp add: print_meta_def meta_text_def)

lemma getlines_metas: "getlines (concat (map print_meta ls)) = map meta_text ls"
  by (induction ls) (simp_all add: print_meta_text getlines_line no_newline_text, simp add: getlines.simps)

section \<open>Properties\<close>

text \<open>C33: the lines that the runtime prints in a metafile are read back by the analyser, in order, with every
  field as it was.\<close>
theorem metafile_roundtrip:
  assumes "\<forall>l\<in>set ls. - (2 ^ 31) \<le> ml_level l \<and> ml_level l < 2 ^ 31"
  shows "map scan_meta (getlines (concat (map print_meta ls))) = map Some ls"
  using assms by (simp add: getlines_metas comp_def scan_meta_text meta_ok_def)

definition sample_line :: meta_line where
  "sample_line = \<lparr>ml_pid = 3, ml_ppid = 0, ml_bid = 1, ml_offset = 2, ml_span = 4, ml_level = 1, ml_begin = 120, ml_end = 99999\<rparr>"

lemma metafile_roundtrip_witness:
  "map scan_meta (getlines (concat (map print_meta [sample_line, sample_line\<lparr>ml_level := - 7\<rparr>]))) =
     [Some sample_line, Some (sample_line\<lparr>ml_level := - 7\<rparr>)]"
  using metafile_roundtrip[of "[sample_line, sample_line\<lparr>ml_level := - 7\<rparr>]"] by (simp add: sample_line_def)

end
