(* ===== verification/Options.thy ===== *)
theory Options
  imports Metafile
begin

text \<open>
  The command lines of the two tools: the loops over \<open>argv\<close> at the start of \<open>main\<close> in
  \<open>tools/sword-race-analysis.cc\<close> and \<open>tools/sword-print-report.cc\<close>, with the \<open>strtoull\<close> of the C library. The
  texts printed are not modelled.
\<close>

section \<open>The number conversion\<close>

definition hex_value :: "char \<Rightarrow> nat option" where
  "hex_value c =
     (let n = (of_char c :: nat) in
      if is_digit c then Some (n - 48)
      else if 97 \<le> n \<and> n \<le> 102 then Some (n - 87)
      else if 65 \<le> n \<and> n \<le> 70 then Some (n - 55)
      else None)"

definition digit_in :: "nat \<Rightarrow> char \<Rightarrow> bool" where
  "digit_in b c = (case hex_value c of Some v \<Rightarrow> v < b | None \<Rightarrow> False)"

definition base_value :: "nat \<Rightarrow> string \<Rightarrow> nat" where
  "base_value b ds = foldl (\<lambda>v c. b * v + (case hex_value c of Some d \<Rightarrow> d | None \<Rightarrow> 0)) 0 ds"

text \<open>\<open>strtoull(s, NULL, 0)\<close>: the prefix of the digits chooses the base; 0 when there is no digit.\<close>

definition strtoull :: "string \<Rightarrow> 64 word" where
  "strtoull s =
     (let s = dropWhile is_space s;
          neg = (s \<noteq> [] \<and> hd s = CHR ''-'');
          s = (if s \<noteq> [] \<and> (hd s = CHR ''-'' \<or> hd s = CHR ''+'') then tl s else s);
          hex = (2 < length s \<and> hd s = CHR ''0'' \<and> (s ! 1 = CHR ''x'' \<or> s ! 1 = CHR ''X'') \<and> digit_in 16 (s ! 2));
          b = (if hex then 16 else if s \<noteq> [] \<and> hd s = CHR ''0'' then 8 else 10);
          v = base_value b (takeWhile (digit_in b) (if hex then drop 2 s else s)) in
      ulong_of (if neg then - int v else int v))"

section \<open>The loops over the arguments\<close>

record options =
  op_report :: string
  op_traces :: string
  op_executable :: string
  op_pregion :: "64 word"
  op_bid :: "64 word"
  op_nested :: string
  op_print :: bool
  op_unknown :: string

text \<open>The globals and the local \<open>unknown_option\<close> at the start.\<close>

definition no_options :: options where
  "no_options = \<lparr>op_report = [], op_traces = [], op_executable = [], op_pregion = 0, op_bid = 0, op_nested = [], op_print = False, op_unknown = []\<rparr>"

datatype option_exit = HelpShown | MissingArgument string | UnknownOption string

text \<open>The value \<open>main\<close> returns.\<close>

primrec exit_code :: "option_exit \<Rightarrow> int" where
  "exit_code HelpShown = 0"
| "exit_code (MissingArgument opt) = - 1"
| "exit_code (UnknownOption opt) = - 1"

text \<open>The paths and the text options are appended to, the numbers overwritten.\<close>

definition set_option :: "string \<Rightarrow> string \<Rightarrow> options \<Rightarrow> options option" where
  "set_option opt v o' =
     (if opt = ''--report-path'' then Some (o'\<lparr>op_report := op_report o' @ v\<rparr>)
      else if opt = ''--traces-path'' then Some (o'\<lparr>op_traces := op_traces o' @ v\<rparr>)
      else if opt = ''--executable'' then Some (o'\<lparr>op_executable := op_executable o' @ v\<rparr>)
      else if opt = ''--pregion'' then Some (o'\<lparr>op_pregion := strtoull v\<rparr>)
      else if opt = ''--bid'' then Some (o'\<lparr>op_bid := strtoull v\<rparr>)
      else if opt = ''--nested'' then Some (o'\<lparr>op_nested := op_nested o' @ v\<rparr>)
      else None)"

text \<open>
  \<open>--print\<close> is always there: \<open>interval_tree.h\<close> defines \<open>PRINT\<close> as 0 and the code asks whether it is defined. An
  unknown option is remembered, and the argument after it is skipped.
\<close>

fun parse_options :: "string list \<Rightarrow> options \<Rightarrow> option_exit + options" where
  "parse_options [] o' = Inr o'"
| "parse_options (a # as) o' =
     (if a = ''--help'' then Inl HelpShown
      else if set_option a [] o' \<noteq> None then
        (case as of
           [] \<Rightarrow> Inl (MissingArgument a)
         | v # as' \<Rightarrow> parse_options as' (the (set_option a v o')))
      else if a = ''--print'' then parse_options as (o'\<lparr>op_print := True\<rparr>)
      else parse_options (drop 1 as) (o'\<lparr>op_unknown := a\<rparr>))"

definition check_unknown :: "option_exit + options \<Rightarrow> option_exit + options" where
  "check_unknown r =
     (case r of
        Inl e \<Rightarrow> Inl e
      | Inr o' \<Rightarrow> if op_unknown o' \<noteq> [] then Inl (UnknownOption (op_unknown o')) else Inr o')"

definition analysis_options :: "string list \<Rightarrow> option_exit + options" where
  "analysis_options argv = check_unknown (parse_options argv no_options)"

text \<open>The printing tool knows two options.\<close>

fun parse_print_options :: "string list \<Rightarrow> options \<Rightarrow> option_exit + options" where
  "parse_print_options [] o' = Inr o'"
| "parse_print_options (a # as) o' =
     (if a = ''--help'' then Inl HelpShown
      else if a = ''--report-path'' then
        (case as of
           [] \<Rightarrow> Inl (MissingArgument a)
         | v # as' \<Rightarrow> parse_print_options as' (o'\<lparr>op_report := op_report o' @ v\<rparr>))
      else if a = ''--executable'' then
        (case as of
           [] \<Rightarrow> Inl (MissingArgument a)
         | v # as' \<Rightarrow> parse_print_options as' (o'\<lparr>op_executable := op_executable o' @ v\<rparr>))
      else parse_print_options (drop 1 as) (o'\<lparr>op_unknown := a\<rparr>))"

definition report_options :: "string list \<Rightarrow> option_exit + options" where
  "report_options argv = check_unknown (parse_print_options argv no_options)"

text \<open>What the tool checks next; \<open>is_directory\<close> and \<open>exists\<close> are those of the file system, \<open>None\<close> when they throw.\<close>

datatype print_exit = OptionExit option_exit | NoReportFolder | NoExecutable | FileSystemError

definition print_checks ::
    "(string \<Rightarrow> bool option) \<Rightarrow> (string \<Rightarrow> bool option) \<Rightarrow> string list \<Rightarrow> print_exit + options" where
  "print_checks is_directory file_exists argv =
     (case report_options argv of
        Inl e \<Rightarrow> Inl (OptionExit e)
      | Inr o' \<Rightarrow>
          (case is_directory (op_report o') of
             None \<Rightarrow> Inl FileSystemError
           | Some False \<Rightarrow> Inl NoReportFolder
           | Some True \<Rightarrow>
               (case file_exists (op_executable o') of
                  None \<Rightarrow> Inl FileSystemError
                | Some False \<Rightarrow> Inl NoExecutable
                | Some True \<Rightarrow> Inr o')))"

section \<open>Lemmas\<close>

lemma set_option_unknown: "set_option a v o' = Some p \<Longrightarrow> op_unknown p = op_unknown o'"
  by (auto simp: set_option_def split: if_splits)

lemma help_unknown: "set_option ''--help'' v o' = None"
  by (simp add: set_option_def)

text \<open>The options given as pairs of a known option and its argument.\<close>

definition known :: "string \<Rightarrow> bool" where
  "known opt \<longleftrightarrow> set_option opt [] no_options \<noteq> None"

definition apply_option :: "string \<times> string \<Rightarrow> options \<Rightarrow> options" where
  "apply_option p o' = the (set_option (fst p) (snd p) o')"

definition argv_of :: "(string \<times> string) list \<Rightarrow> string list" where
  "argv_of ps = concat (map (\<lambda>(opt, v). [opt, v]) ps)"

lemma argv_of_simps [simp]: "argv_of [] = []" "argv_of (p # ps) = fst p # snd p # argv_of ps"
  by (auto simp: argv_of_def split: prod.splits)

lemma knownE:
  assumes "known a"
  obtains q where "set_option a v o' = Some q"
  using assms by (auto simp: known_def set_option_def split: if_splits)

lemma parse_known:
  assumes "known a"
  shows "parse_options (a # v # as) o' = parse_options as (apply_option (a, v) o')"
proof -
  obtain q where "set_option a [] o' = Some q" by (rule knownE[OF assms])
  then show ?thesis using help_unknown by (auto simp: apply_option_def)
qed

lemma parse_pairs:
  "\<forall>p\<in>set ps. known (fst p) \<Longrightarrow> parse_options (argv_of ps @ as) o' = parse_options as (fold apply_option ps o')"
proof (induction ps arbitrary: o')
  case (Cons p ps)
  then show ?case using parse_known[of "fst p" "snd p" "argv_of ps @ as" o'] by (simp del: parse_options.simps)
qed simp

lemma apply_option_unknown:
  assumes "known (fst p)"
  shows "op_unknown (apply_option p o') = op_unknown o'"
proof -
  obtain q where "set_option (fst p) (snd p) o' = Some q" by (rule knownE[OF assms])
  then show ?thesis by (simp add: apply_option_def set_option_unknown)
qed

lemma fold_option_unknown: "\<forall>p\<in>set ps. known (fst p) \<Longrightarrow> op_unknown (fold apply_option ps o') = op_unknown o'"
  by (induction ps arbitrary: o') (simp_all add: apply_option_unknown)

lemma parse_unknown:
  assumes "a \<noteq> ''--help''" "a \<noteq> ''--print''" "\<not> known a"
  shows "parse_options (a # as) o' = parse_options (drop 1 as) (o'\<lparr>op_unknown := a\<rparr>)"
proof -
  have "set_option a [] o' = None" using assms(3) by (auto simp: known_def set_option_def split: if_splits)
  then show ?thesis using assms(1,2) by simp
qed

section \<open>Properties\<close>

text \<open>C20: known options with their arguments are applied in order; a known option at the end is reported as missing
  its argument; an unknown one ends the program with an error whatever follows it is, so a \<open>--help\<close> right after it
  is not seen.\<close>
theorem analysis_options_correct:
  assumes "\<forall>p\<in>set ps. known (fst p)" "\<forall>p\<in>set qs. known (fst p)" "known opt"
    and "u \<noteq> []" "u \<noteq> ''--help''" "u \<noteq> ''--print''" "\<not> known u"
  shows "analysis_options (argv_of ps) = Inr (fold apply_option ps no_options) \<and>
    analysis_options (argv_of ps @ [''--print'']) = Inr ((fold apply_option ps no_options)\<lparr>op_print := True\<rparr>) \<and>
    analysis_options (argv_of ps @ ''--help'' # as) = Inl HelpShown \<and>
    analysis_options (argv_of ps @ [opt]) = Inl (MissingArgument opt) \<and>
    analysis_options (argv_of ps @ u # v # argv_of qs) = Inl (UnknownOption u)"
proof -
  have n: "op_unknown (fold apply_option ps no_options) = []"
    using fold_option_unknown[OF assms(1)] by (simp add: no_options_def)
  have "parse_options [opt] o' = Inl (MissingArgument opt)" for o'
  proof -
    obtain q where "set_option opt [] o' = Some q" by (rule knownE[OF assms(3)])
    then show ?thesis using help_unknown by auto
  qed
  moreover have "parse_options (u # v # argv_of qs) o' = Inr (fold apply_option qs (o'\<lparr>op_unknown := u\<rparr>))" for o'
    using parse_pairs[OF assms(2), of "[]" "o'\<lparr>op_unknown := u\<rparr>"] parse_unknown[OF assms(5-7), of "v # argv_of qs" o']
    by simp
  moreover have "op_unknown (fold apply_option qs (o'\<lparr>op_unknown := u\<rparr>)) = u" for o'
    using fold_option_unknown[OF assms(2)] by simp
  moreover have "parse_options (''--help'' # as) o' = Inl HelpShown" for o' by simp
  moreover have "parse_options [''--print''] o' = Inr (o'\<lparr>op_print := True\<rparr>)" for o'
    by (simp add: set_option_def)
  ultimately show ?thesis
    using parse_pairs[OF assms(1), of "[]" no_options] n assms(4)
    by (simp add: analysis_options_def parse_pairs[OF assms(1)] check_unknown_def del: parse_options.simps(2))
qed

lemma analysis_options_correct_witness:
  "analysis_options [''--pregion'', ''0x1F'', ''--bid'', ''7''] = Inr (no_options\<lparr>op_pregion := 31, op_bid := 7\<rparr>) \<and>
   analysis_options [''--pregion'', ''0x1F'', ''--bid'', ''7'', ''--traces-path''] = Inl (MissingArgument ''--traces-path'') \<and>
   analysis_options [''--pregion'', ''0x1F'', ''--bid'', ''7'', ''-v'', ''--help''] = Inl (UnknownOption ''-v'')"
proof -
  let ?ps = "[(''--pregion'', ''0x1F''), (''--bid'', ''7'')]"
  have k: "known ''--pregion''" "known ''--bid''" "known ''--traces-path''" "\<not> known ''-v''"
    by (simp_all add: known_def set_option_def)
  have "strtoull ''0x1F'' = 31" "strtoull ''7'' = 7" by code_simp+
  then have "fold apply_option ?ps no_options = no_options\<lparr>op_pregion := 31, op_bid := 7\<rparr>"
    by (simp add: apply_option_def set_option_def)
  then show ?thesis
    using analysis_options_correct[of ?ps "[]" "''--traces-path''" "''-v''" "[]" "''--help''"] k by (simp add: argv_of_def)
qed

end
