(* ===== verification/IntervalTree.thy ===== *)
theory IntervalTree
  imports RbIter
begin

text \<open>
  The interval tree of \<open>tools/interval_tree.h\<close> and \<open>tools/interval_tree_generic.h\<close>: the node data, the
  augmented maximum and its callbacks, plain insertion and the two queries.
\<close>

section \<open>Node data\<close>

text \<open>
  The fields of \<open>struct interval_tree_node\<close> beside the embedded \<open>struct rb_node rb\<close>; a node is a
  \<open>rb_node\<close> whose rest is this data, and a pointer to a node is the pointer to its \<open>rb\<close>
  (\<open>rb_entry\<close> is an address computation). The debug number \<open>key\<close>, read by the dot printer only, is
  not kept. \<open>std::set\<close> is a HOL set.
\<close>

record it_data =
  it_start :: size_t
  it_last :: size_t
  subtree_last :: size_t
  count :: uint
  size_type :: u8
  diff :: uint
  pc :: size_t
  mutex :: "size_t set"

type_synonym it_state = "it_data rbs"

definition END_of :: "it_data \<Rightarrow> size_t" where
  "END_of d = it_start d + ucast (diff d * (count d - 1))"

text \<open>The constructor; \<open>__subtree_last\<close> is set by the caller.\<close>

definition interval_tree_node :: "size_t \<Rightarrow> size_t \<Rightarrow> u8 \<Rightarrow> size_t \<Rightarrow> size_t set \<Rightarrow> it_data" where
  "interval_tree_node s l t p mtx =
     \<lparr>it_start = s, it_last = l, subtree_last = 0, count = 1, size_type = t, diff = 0, pc = p, mutex = mtx\<rparr>"

definition itf :: "(it_data \<Rightarrow> 'b) \<Rightarrow> ptr \<Rightarrow> it_state \<Rightarrow> 'b option" where
  "itf f p s = ld (\<lambda>n. f (rb_node.more n)) p s"

definition itu :: "(it_data \<Rightarrow> it_data) \<Rightarrow> ptr \<Rightarrow> it_state \<Rightarrow> it_state option" where
  "itu f p s = st (rb_node.more_update f) p s"

section \<open>Augmentation\<close>

definition compute_subtree_last :: "ptr \<Rightarrow> it_state \<Rightarrow> size_t option" where
  "compute_subtree_last node s = do {
     mx \<leftarrow> itf it_last node s;
     l \<leftarrow> ld rb_left node s;
     mx \<leftarrow> (if l \<noteq> 0 then do {
              subtree_last \<leftarrow> itf subtree_last l s;
              Some (if mx < subtree_last then subtree_last else mx) }
            else Some mx);
     r \<leftarrow> ld rb_right node s;
     if r \<noteq> 0 then do {
       subtree_last \<leftarrow> itf subtree_last r s;
       Some (if mx < subtree_last then subtree_last else mx) }
     else Some mx
   }"

text \<open>The three callbacks that \<open>RB_DECLARE_CALLBACKS\<close> defines.\<close>

partial_function (option) augment_propagate :: "ptr \<Rightarrow> ptr \<Rightarrow> it_state \<Rightarrow> it_state option" where
  "augment_propagate rb stop s =
     (if rb = stop then Some s
      else do {
        augmented \<leftarrow> compute_subtree_last rb s;
        old \<leftarrow> itf subtree_last rb s;
        if old = augmented then Some s
        else do {
          s \<leftarrow> itu (subtree_last_update (\<lambda>_. augmented)) rb s;
          rb \<leftarrow> rb_parent rb s;
          augment_propagate rb stop s
        }
      })"

definition augment_copy :: "ptr \<Rightarrow> ptr \<Rightarrow> it_state \<Rightarrow> it_state option" where
  "augment_copy old newn s = do {
     v \<leftarrow> itf subtree_last old s;
     itu (subtree_last_update (\<lambda>_. v)) newn s
   }"

definition augment_rotate :: "it_data rotate_cb" where
  "augment_rotate old newn s = do {
     v \<leftarrow> itf subtree_last old s;
     s \<leftarrow> itu (subtree_last_update (\<lambda>_. v)) newn s;
     v \<leftarrow> compute_subtree_last old s;
     itu (subtree_last_update (\<lambda>_. v)) old s
   }"

section \<open>Insertion\<close>

text \<open>The descent: it raises \<open>__subtree_last\<close> on the path and ends at the link to fill.\<close>

partial_function (option) it_descend ::
    "size_t \<Rightarrow> size_t \<Rightarrow> link \<Rightarrow> ptr \<Rightarrow> it_state \<Rightarrow> (link \<times> ptr \<times> it_state) option" where
  "it_descend start lst link rbp s = do {
     parent \<leftarrow> get_link link s;
     if parent = 0 then Some (link, rbp, s)
     else do {
       sub \<leftarrow> itf subtree_last parent s;
       s \<leftarrow> (if sub < lst then itu (subtree_last_update (\<lambda>_. lst)) parent s else Some s);
       pstart \<leftarrow> itf it_start parent s;
       if start < pstart then it_descend start lst (LeftLink parent) parent s
       else it_descend start lst (RightLink parent) parent s
     }
   }"

definition interval_tree_insert :: "ptr \<Rightarrow> it_state \<Rightarrow> it_state option" where
  "interval_tree_insert node s = do {
     start \<leftarrow> itf it_start node s;
     lst \<leftarrow> itf it_last node s;
     (link, rbp, s) \<leftarrow> it_descend start lst RootLink 0 s;
     s \<leftarrow> itu (subtree_last_update (\<lambda>_. lst)) node s;
     s \<leftarrow> rb_link_node node rbp link s;
     rb_insert_augmented augment_rotate node s
   }"

section \<open>Queries\<close>

partial_function (option) subtree_search :: "size_t \<Rightarrow> size_t \<Rightarrow> ptr \<Rightarrow> it_state \<Rightarrow> ptr option" where
  "subtree_search start lst node s = do {
     l \<leftarrow> ld rb_left node s;
     lsub \<leftarrow> (if l \<noteq> 0 then do { v \<leftarrow> itf subtree_last l s; Some (start \<le> v) } else Some False);
     if lsub then subtree_search start lst l s
     else do {
       nstart \<leftarrow> itf it_start node s;
       nlast \<leftarrow> itf it_last node s;
       if nstart \<le> lst then
         (if start \<le> nlast then Some node
          else do {
            r \<leftarrow> ld rb_right node s;
            if r \<noteq> 0 then do {
              v \<leftarrow> itf subtree_last r s;
              if start \<le> v then subtree_search start lst r s else Some 0
            } else Some 0
          })
       else Some 0
     }
   }"

definition iter_first :: "size_t \<Rightarrow> size_t \<Rightarrow> it_state \<Rightarrow> ptr option" where
  "iter_first start lst s =
     (if rb_root s = 0 then Some 0
      else do {
        v \<leftarrow> itf subtree_last (rb_root s) s;
        if v < start then Some 0 else subtree_search start lst (rb_root s) s
      })"

text \<open>The inner \<open>do .. while\<close>: climb until the node is not a right child; NULL at the root.\<close>

partial_function (option) iter_climb :: "ptr \<Rightarrow> it_state \<Rightarrow> ptr option" where
  "iter_climb node s = do {
     rb \<leftarrow> rb_parent node s;
     if rb = 0 then Some 0
     else do {
       r \<leftarrow> ld rb_right rb s;
       if node = r then iter_climb rb s else Some rb
     }
   }"

partial_function (option) iter_next :: "ptr \<Rightarrow> size_t \<Rightarrow> size_t \<Rightarrow> it_state \<Rightarrow> ptr option" where
  "iter_next node start lst s = do {
     rb \<leftarrow> ld rb_right node s;
     rsub \<leftarrow> (if rb \<noteq> 0 then do { v \<leftarrow> itf subtree_last rb s; Some (start \<le> v) } else Some False);
     if rsub then subtree_search start lst rb s
     else do {
       up \<leftarrow> iter_climb node s;
       if up = 0 then Some 0
       else do {
         nstart \<leftarrow> itf it_start up s;
         nlast \<leftarrow> itf it_last up s;
         if lst < nstart then Some 0
         else if start \<le> nlast then Some up
         else iter_next up start lst s
       }
     }
   }"

section \<open>The augmented invariant\<close>

text \<open>
  What the tree stores is a map from addresses to data. \<open>tmax\<close> is the largest \<open>last\<close> of a
  subtree, \<open>aug_ok\<close> says that every node caches it, and \<open>caug m k v\<close> says so of a context whose hole
  is to take a subtree with maximum \<open>v\<close>.
\<close>

type_synonym it_map = "ptr \<Rightarrow> it_data option"

abbreviation dat :: "it_map \<Rightarrow> ptr \<Rightarrow> it_data" where
  "dat m a \<equiv> the (m a)"

fun tmax :: "it_map \<Rightarrow> ptree \<Rightarrow> size_t" where
  "tmax m Leaf = 0"
| "tmax m (Node l a c r) = max (it_last (dat m a)) (max (tmax m l) (tmax m r))"

fun aug_ok :: "it_map \<Rightarrow> ptree \<Rightarrow> bool" where
  "aug_ok m Leaf \<longleftrightarrow> True"
| "aug_ok m (Node l a c r) \<longleftrightarrow>
     subtree_last (dat m a) = tmax m (Node l a c r) \<and> aug_ok m l \<and> aug_ok m r"

fun caug :: "it_map \<Rightarrow> frame list \<Rightarrow> size_t \<Rightarrow> bool" where
  "caug m [] v \<longleftrightarrow> True"
| "caug m (LHole a c r # k) v \<longleftrightarrow>
     subtree_last (dat m a) = max (it_last (dat m a)) (max v (tmax m r)) \<and> aug_ok m r \<and>
     caug m k (subtree_last (dat m a))"
| "caug m (RHole l a c # k) v \<longleftrightarrow>
     subtree_last (dat m a) = max (it_last (dat m a)) (max (tmax m l) v) \<and> aug_ok m l \<and>
     caug m k (subtree_last (dat m a))"

lemma aug_ok_plug: "aug_ok m (plug t k) \<longleftrightarrow> aug_ok m t \<and> caug m k (tmax m t)"
proof (induction k arbitrary: t)
  case (Cons f k)
  then show ?case by (cases f) (auto simp: Cons.IH)
qed simp

lemma tmax_cong: "(\<And>a. a \<in> set (inorder t) \<Longrightarrow> it_last (dat m a) = it_last (dat m' a)) \<Longrightarrow> tmax m t = tmax m' t"
  by (induction t) auto

lemma aug_ok_cong: "(\<And>a. a \<in> set (inorder t) \<Longrightarrow> m a = m' a) \<Longrightarrow> aug_ok m t = aug_ok m' t"
proof (induction t)
  case (Node l a c r)
  then have "tmax m l = tmax m' l" "tmax m r = tmax m' r" "m a = m' a" by (auto intro!: tmax_cong)
  with Node show ?case by simp
qed simp

lemma caug_cong: "(\<And>a. a \<in> set (cpre k) \<union> set (cpost k) \<Longrightarrow> m a = m' a) \<Longrightarrow> caug m k v = caug m' k v"
proof (induction k arbitrary: v)
  case (Cons f k)
  have k: "caug m k v = caug m' k v" for v by (rule Cons.IH) (use Cons.prems in \<open>cases f; auto\<close>)
  show ?case
  proof (cases f)
    case (LHole a c r)
    then have "aug_ok m r = aug_ok m' r" "tmax m r = tmax m' r" "m a = m' a"
      using Cons.prems by (auto intro!: tmax_cong aug_ok_cong)
    with k LHole show ?thesis by simp
  next
    case (RHole l a c)
    then have "aug_ok m l = aug_ok m' l" "tmax m l = tmax m' l" "m a = m' a"
      using Cons.prems by (auto intro!: tmax_cong aug_ok_cong)
    with k RHole show ?thesis by simp
  qed
qed simp

lemma aug_ok_blacken: "aug_ok m (blacken t) = aug_ok m t"
proof -
  have "tmax m (blacken t) = tmax m t" for t by (induction t) auto
  then show ?thesis by (induction t) auto
qed

section \<open>The callbacks keep their contract\<close>

text \<open>Everything but the cached maximum.\<close>

definition strip :: "it_data \<Rightarrow> it_data" where
  "strip d = d\<lparr>subtree_last := 0\<rparr>"

definition stripm :: "it_map \<Rightarrow> it_map" where
  "stripm m = (\<lambda>a. map_option strip (m a))"

lemma strip_update [simp]: "strip (d\<lparr>subtree_last := v\<rparr>) = strip d"
  by (simp add: strip_def)

lemma stripm_upd: "m a = Some d \<Longrightarrow> strip d' = strip d \<Longrightarrow> stripm (m(a \<mapsto> d')) = stripm m"
  by (auto simp: stripm_def)

lemma strip_fields:
  "strip d = strip d' \<Longrightarrow> it_start d = it_start d' \<and> it_last d = it_last d' \<and> count d = count d' \<and>
     size_type d = size_type d' \<and> diff d = diff d' \<and> pc d = pc d' \<and> mutex d = mutex d'"
  by (cases d; cases d') (auto simp: strip_def)

lemma stripm_Some: "stripm m = stripm m' \<Longrightarrow> m a = Some d \<Longrightarrow> \<exists>d'. m' a = Some d' \<and> strip d' = strip d"
  unfolding stripm_def by (metis (no_types, lifting) map_option_eq_Some)

definition sub_of :: "it_map \<Rightarrow> ptr \<Rightarrow> size_t" where
  "sub_of m p = (if p = 0 then 0 else subtree_last (dat m p))"

definition rot_more :: "ptr \<Rightarrow> ptr \<Rightarrow> ptr \<Rightarrow> ptr \<Rightarrow> it_map \<Rightarrow> it_map" where
  "rot_more old l r newn m =
     (let m1 = m(newn \<mapsto> (dat m newn)\<lparr>subtree_last := subtree_last (dat m old)\<rparr>) in
      m1(old \<mapsto> (dat m1 old)\<lparr>subtree_last := max (it_last (dat m1 old)) (max (sub_of m1 l) (sub_of m1 r))\<rparr>))"

definition it_aok :: "it_map \<Rightarrow> bool \<Rightarrow> it_map \<Rightarrow> ptree \<Rightarrow> bool" where
  "it_aok m0 b m t \<longleftrightarrow> stripm m = m0 \<and> (\<forall>a\<in>set (inorder t). m a \<noteq> None) \<and> (b \<longrightarrow> aug_ok m t)"

lemma mores_Some: "mem s a = Some n \<Longrightarrow> mores (mem s) a = Some (rb_node.more n)"
  by (simp add: mores_def)

lemma itf_Some [heap_simps]: "p \<noteq> 0 \<Longrightarrow> mem s p = Some n \<Longrightarrow> itf f p s = Some (f (rb_node.more n))"
  by (simp add: itf_def ld_def)

lemma itu_ok:
  assumes "p \<noteq> 0" "mem s p = Some n"
  shows "\<exists>s'. itu f p s = Some s' \<and> rb_root s' = rb_root s \<and> links (mem s') = links (mem s) \<and>
    mores (mem s') = (mores (mem s))(p \<mapsto> f (rb_node.more n)) \<and> dom (mem s') = dom (mem s)"
  using assms by (auto simp: itu_def st_def links_def mores_def fun_eq_iff)

lemma links_mem:
  assumes "links h' = links h" and "h a = Some n"
  shows "\<exists>n'. h' a = Some n' \<and> rb_parent_color n' = rb_parent_color n \<and> rb_left n' = rb_left n \<and> rb_right n' = rb_right n"
proof -
  have "links h' a = Some (rb_parent_color n, rb_left n, rb_right n)"
    using assms by (simp add: links_def)
  then show ?thesis by (simp add: links_Some)
qed

lemma mores_mem: "mem s p = Some n \<Longrightarrow> mores (mem s) = m \<Longrightarrow> rb_node.more n = dat m p"
  by (auto simp: mores_def)

lemma itf_mores: "itf f p s = (if p = 0 then None else map_option f (mores (mem s) p))"
  by (cases "mem s p") (auto simp: itf_def ld_def mores_def)

lemma max_sub_ok:
  "valid_ptr (mem s) p \<Longrightarrow>
   (if p \<noteq> 0 then do { v \<leftarrow> itf subtree_last p s; Some (if x < v then v else x) } else Some x)
     = Some (max x (sub_of (mores (mem s)) p))"
  by (auto simp: valid_ptr_def itf_mores mores_def sub_of_def max_def word_gt_0)

lemma compute_subtree_last_ok:
  assumes "p \<noteq> 0" "mem s p = Some n" "valid_ptr (mem s) (rb_left n)" "valid_ptr (mem s) (rb_right n)"
  shows "compute_subtree_last p s = Some (max (it_last (dat (mores (mem s)) p))
    (max (sub_of (mores (mem s)) (rb_left n)) (sub_of (mores (mem s)) (rb_right n))))"
  using assms
  by (simp add: compute_subtree_last_def itf_Some ld_Some max_sub_ok max.assoc mores_Some del: if_not_P)

lemma augment_rotate_ok:
  assumes "old \<noteq> 0" "newn \<noteq> 0" "mem s old = Some n" "mem s newn = Some nn"
    and v: "valid_ptr (mem s) (rb_left n)" "valid_ptr (mem s) (rb_right n)"
  shows "\<exists>s'. augment_rotate old newn s = Some s' \<and> rb_root s' = rb_root s \<and> links (mem s') = links (mem s) \<and>
    mores (mem s') = rot_more old (rb_left n) (rb_right n) newn (mores (mem s))"
proof -
  let ?m = "mores (mem s)"
  obtain s1 where s1: "itu (subtree_last_update (\<lambda>_. subtree_last (rb_node.more n))) newn s = Some s1"
    "rb_root s1 = rb_root s" "links (mem s1) = links (mem s)"
    "mores (mem s1) = ?m(newn \<mapsto> (rb_node.more nn)\<lparr>subtree_last := subtree_last (rb_node.more n)\<rparr>)"
    "dom (mem s1) = dom (mem s)"
    using itu_ok[OF assms(2,4), of "subtree_last_update (\<lambda>_. subtree_last (rb_node.more n))"] by blast
  obtain n1 where n1: "mem s1 old = Some n1" "rb_left n1 = rb_left n" "rb_right n1 = rb_right n"
    using links_mem[OF s1(3) assms(3)] by blast
  have v1: "valid_ptr (mem s1) (rb_left n1)" "valid_ptr (mem s1) (rb_right n1)"
    using v s1(5) n1(2,3) by (auto simp: valid_ptr_def dom_def)
  obtain s2 where "itu (subtree_last_update (\<lambda>_. max (it_last (dat (mores (mem s1)) old))
      (max (sub_of (mores (mem s1)) (rb_left n)) (sub_of (mores (mem s1)) (rb_right n))))) old s1 = Some s2"
    "rb_root s2 = rb_root s1" "links (mem s2) = links (mem s1)"
    "mores (mem s2) = (mores (mem s1))(old \<mapsto> (rb_node.more n1)\<lparr>subtree_last :=
      max (it_last (dat (mores (mem s1)) old))
      (max (sub_of (mores (mem s1)) (rb_left n)) (sub_of (mores (mem s1)) (rb_right n)))\<rparr>)"
    using itu_ok[OF assms(1) n1(1)] by blast
  moreover have "dat (mores (mem s1)) old = rb_node.more n1" using n1(1) by (simp add: mores_def)
  moreover have "dat ?m newn = rb_node.more nn" "dat ?m old = rb_node.more n"
    using assms(3,4) by (simp_all add: mores_def)
  ultimately show ?thesis
    using s1 compute_subtree_last_ok[OF assms(1) n1(1) v1] n1(2,3) assms(1,3)
    by (simp add: augment_rotate_def itf_Some rot_more_def Let_def del: fun_upd_apply)
qed

lemma rot_more_other: "a \<noteq> old \<Longrightarrow> a \<noteq> newn \<Longrightarrow> rot_more old l r newn m a = m a"
  by (simp add: rot_more_def Let_def)

lemma stripm_rot: "m old \<noteq> None \<Longrightarrow> m newn \<noteq> None \<Longrightarrow> stripm (rot_more old l r newn m) = stripm m"
  by (auto simp: rot_more_def Let_def stripm_def)

lemma stripm_None: "stripm m = stripm m' \<Longrightarrow> m x = None \<longleftrightarrow> m' x = None"
  by (drule fun_cong[of _ _ x]) (cases "m x"; cases "m' x"; simp add: stripm_def)

lemma rot_more_dat:
  assumes "old \<noteq> newn" "l \<noteq> newn" "r \<noteq> newn"
  shows "dat (rot_more old l r newn m) newn = (dat m newn)\<lparr>subtree_last := subtree_last (dat m old)\<rparr>"
    and "dat (rot_more old l r newn m) old =
      (dat m old)\<lparr>subtree_last := max (it_last (dat m old)) (max (sub_of m l) (sub_of m r))\<rparr>"
  using assms by (auto simp: rot_more_def Let_def sub_of_def)

lemma sub_of_rootp: "aug_ok m t \<Longrightarrow> 0 \<notin> set (inorder t) \<Longrightarrow> sub_of m (rootp t) = tmax m t"
  by (cases t) (auto simp: sub_of_def)

lemma rootp_neq: "q \<notin> set (inorder t) \<Longrightarrow> q \<noteq> 0 \<Longrightarrow> rootp t \<noteq> q"
  by (cases t) auto

lemma aug_rot:
  assumes d: "distinct (inorder A @ inorder B @ inorder C @ cpre k @ cpost k @ [p, q])"
    and z: "0 \<notin> set (inorder A) \<union> set (inorder B) \<union> set (inorder C) \<union> {p, q}"
    and a: "aug_ok m A" "aug_ok m B" "aug_ok m C" "caug m k (subtree_last (dat m p))"
    and sub: "subtree_last (dat m p) = max (it_last (dat m p)) (max (it_last (dat m q)) (max (tmax m A) (max (tmax m B) (tmax m C))))"
    and bc: "{l, r} = {rootp B, rootp C}"
  defines "m' \<equiv> rot_more p l r q m"
  shows "aug_ok m' A" "aug_ok m' B" "aug_ok m' C" "caug m' k (subtree_last (dat m p))"
    and "subtree_last (dat m' q) = subtree_last (dat m p)"
    and "subtree_last (dat m' p) = max (it_last (dat m p)) (max (tmax m B) (tmax m C))"
    and "it_last (dat m' p) = it_last (dat m p)" "it_last (dat m' q) = it_last (dat m q)"
    and "tmax m' A = tmax m A" "tmax m' B = tmax m B" "tmax m' C = tmax m C"
proof -
  have o: "m' x = m x" if "x \<noteq> p" "x \<noteq> q" for x using that by (simp add: m'_def rot_more_other)
  have pq: "p \<noteq> q" using d by auto
  have oA: "m' x = m x" if "x \<in> set (inorder A)" for x using that d by (intro o) auto
  have oB: "m' x = m x" if "x \<in> set (inorder B)" for x using that d by (intro o) auto
  have oC: "m' x = m x" if "x \<in> set (inorder C)" for x using that d by (intro o) auto
  have ok: "m' x = m x" if "x \<in> set (cpre k) \<union> set (cpost k)" for x using that d by (intro o) auto
  show "tmax m' A = tmax m A" "tmax m' B = tmax m B" "tmax m' C = tmax m C"
    by (auto intro!: tmax_cong simp: oA oB oC)
  show "aug_ok m' A" "aug_ok m' B" "aug_ok m' C"
    using a aug_ok_cong[OF oA] aug_ok_cong[OF oB] aug_ok_cong[OF oC] by auto
  show "caug m' k (subtree_last (dat m p))"
    using a caug_cong[OF ok] by auto
  have "rootp B \<noteq> q" "rootp C \<noteq> q" using d z by (auto intro!: rootp_neq)
  then have lr: "l \<noteq> q" "r \<noteq> q" using bc by (auto simp: doubleton_eq_iff)
  note D = rot_more_dat[OF pq lr, of m, folded m'_def]
  have "sub_of m (rootp B) = tmax m B" "sub_of m (rootp C) = tmax m C"
    using a z by (auto intro!: sub_of_rootp)
  then have "max (sub_of m l) (sub_of m r) = max (tmax m B) (tmax m C)"
    using bc by (auto simp: doubleton_eq_iff max.commute)
  then show "subtree_last (dat m' p) = max (it_last (dat m p)) (max (tmax m B) (tmax m C))"
    using D(2) by simp
  show "subtree_last (dat m' q) = subtree_last (dat m p)" "it_last (dat m' p) = it_last (dat m p)"
    "it_last (dat m' q) = it_last (dat m q)" using D by simp_all
qed

lemma it_aok_rot_right:
  assumes d: "distinct (inorder (plug (Node (Node A q c B) p d C) k))"
    and z: "0 \<notin> set (inorder (plug (Node (Node A q c B) p d C) k))"
    and a: "it_aok m0 b m (plug (Node (Node A q c B) p d C) k)"
  shows "it_aok m0 b (rot_more p (rootp B) (rootp C) q m) (plug (Node A q d (Node B p c C)) k)"
proof -
  have "m p \<noteq> None" "m q \<noteq> None" and m0: "stripm m = m0"
    using a by (auto simp: it_aok_def inorder_plug)
  then have s: "stripm (rot_more p (rootp B) (rootp C) q m) = m0" by (simp add: stripm_rot)
  then have n: "rot_more p (rootp B) (rootp C) q m x \<noteq> None \<longleftrightarrow> m x \<noteq> None" for x
    using m0 stripm_None by metis
  have "aug_ok (rot_more p (rootp B) (rootp C) q m) (plug (Node A q d (Node B p c C)) k)" if b
  proof -
    have au: "aug_ok m (Node (Node A q c B) p d C)" "caug m k (tmax m (Node (Node A q c B) p d C))"
      using a that by (simp_all add: it_aok_def aug_ok_plug del: tmax.simps)
    have d': "distinct (inorder A @ inorder B @ inorder C @ cpre k @ cpost k @ [p, q])"
      using d by (auto simp: inorder_plug)
    have z': "0 \<notin> set (inorder A) \<union> set (inorder B) \<union> set (inorder C) \<union> {p, q}"
      using z by (auto simp: inorder_plug)
    have "aug_ok m A" "aug_ok m B" "aug_ok m C" "caug m k (subtree_last (dat m p))"
      "subtree_last (dat m p) = max (it_last (dat m p)) (max (it_last (dat m q)) (max (tmax m A) (max (tmax m B) (tmax m C))))"
      using au by (simp_all add: ac_simps)
    from aug_rot[OF d' z' this refl] show ?thesis
      using au by (simp add: aug_ok_plug ac_simps)
  qed
  with s n a show ?thesis by (auto simp: it_aok_def inorder_plug)
qed

lemma it_aok_rot_left:
  assumes d: "distinct (inorder (plug (Node A p d (Node B q c C)) k))"
    and z: "0 \<notin> set (inorder (plug (Node A p d (Node B q c C)) k))"
    and a: "it_aok m0 b m (plug (Node A p d (Node B q c C)) k)"
  shows "it_aok m0 b (rot_more p (rootp A) (rootp B) q m) (plug (Node (Node A p c B) q d C) k)"
proof -
  have "m p \<noteq> None" "m q \<noteq> None" and m0: "stripm m = m0"
    using a by (auto simp: it_aok_def inorder_plug)
  then have s: "stripm (rot_more p (rootp A) (rootp B) q m) = m0" by (simp add: stripm_rot)
  then have n: "rot_more p (rootp A) (rootp B) q m x \<noteq> None \<longleftrightarrow> m x \<noteq> None" for x
    using m0 stripm_None by metis
  have "aug_ok (rot_more p (rootp A) (rootp B) q m) (plug (Node (Node A p c B) q d C) k)" if b
  proof -
    have au: "aug_ok m (Node A p d (Node B q c C))" "caug m k (tmax m (Node A p d (Node B q c C)))"
      using a that by (simp_all add: it_aok_def aug_ok_plug del: tmax.simps)
    have d': "distinct (inorder C @ inorder B @ inorder A @ cpre k @ cpost k @ [p, q])"
      using d by (auto simp: inorder_plug)
    have z': "0 \<notin> set (inorder C) \<union> set (inorder B) \<union> set (inorder A) \<union> {p, q}"
      using z by (auto simp: inorder_plug)
    have "aug_ok m C" "aug_ok m B" "aug_ok m A" "caug m k (subtree_last (dat m p))"
      "subtree_last (dat m p) = max (it_last (dat m p)) (max (it_last (dat m q)) (max (tmax m C) (max (tmax m B) (tmax m A))))"
      using au by (simp_all add: ac_simps)
    from aug_rot[OF d' z' this insert_commute] show ?thesis
      using au by (simp add: aug_ok_plug ac_simps)
  qed
  with s n a show ?thesis by (auto simp: it_aok_def inorder_plug)
qed

lemma inorder_blacken [simp]: "inorder (blacken t) = inorder t"
  by (induction t) auto

lemma it_aok_color: "blacken t = blacken t' \<Longrightarrow> it_aok m0 b m t = it_aok m0 b m t'"
  unfolding it_aok_def by (metis aug_ok_blacken inorder_blacken)

interpretation it: rb_augment augment_rotate rot_more "it_aok m0 b" for m0 b
  by unfold_locales
    (rule augment_rotate_ok it_aok_rot_right it_aok_rot_left it_aok_color; assumption)+

section \<open>Insertion keeps the search order and the maxima\<close>

abbreviation start_of :: "it_map \<Rightarrow> ptr \<Rightarrow> size_t" where
  "start_of m a \<equiv> it_start (dat m a)"

definition by_start :: "it_map \<Rightarrow> ptree \<Rightarrow> bool" where
  "by_start m t \<longleftrightarrow> sorted (map (start_of m) (inorder t))"

lemma get_link_ok: "crep (mem s) (rb_root s) k x \<Longrightarrow> get_link (clink k) s = Some x"
  by (cases k rule: ctx_cases) (auto simp: node_at_ops)

lemma raise_sub_ok:
  assumes "x \<noteq> 0" "mem s x = Some n"
  shows "\<exists>s'. (if subtree_last (rb_node.more n) < lst then itu (subtree_last_update (\<lambda>_. lst)) x s else Some s) = Some s' \<and>
    rb_root s' = rb_root s \<and> links (mem s') = links (mem s) \<and>
    mores (mem s') = (mores (mem s))(x \<mapsto> (rb_node.more n)\<lparr>subtree_last := max (subtree_last (rb_node.more n)) lst\<rparr>)"
proof (cases "subtree_last (rb_node.more n) < lst")
  case True
  with itu_ok[OF assms, of "subtree_last_update (\<lambda>_. lst)"] show ?thesis by (auto simp: max_def)
next
  case False
  then have "mores (mem s) = (mores (mem s))(x \<mapsto> (rb_node.more n)\<lparr>subtree_last := max (subtree_last (rb_node.more n)) lst\<rparr>)"
    using assms(2) by (simp add: mores_def max_def map_upd_triv not_less antisym fun_upd_idem)
  with False show ?thesis by simp
qed

definition placed :: "(ptr \<Rightarrow> size_t) \<Rightarrow> frame list \<Rightarrow> size_t \<Rightarrow> bool" where
  "placed key k v \<longleftrightarrow> (\<forall>x\<in>set (cpre k). key x \<le> v) \<and> (\<forall>x\<in>set (cpost k). v < key x)"

lemma stripm_dat:
  assumes "stripm m = stripm m'" and "m a \<noteq> None"
  shows "strip (dat m a) = strip (dat m' a)"
proof -
  obtain d where d: "m a = Some d" using assms(2) by auto
  from stripm_Some[OF assms(1) d] obtain d' where "m' a = Some d'" "strip d' = strip d" by blast
  with d show ?thesis by simp
qed

lemma start_of_stripm: "stripm m = stripm m' \<Longrightarrow> m a \<noteq> None \<Longrightarrow> start_of m a = start_of m' a"
  by (drule (1) stripm_dat, drule strip_fields) simp

lemma placed_LHole:
  assumes "placed key k v" "sorted (map key (inorder (Node l x c r)))" "v < key x"
  shows "placed key (LHole x c r # k) v"
proof -
  have "key x \<le> key y" if "y \<in> set (inorder r)" for y using assms(2) that by (simp add: sorted_append)
  with assms(1,3) show ?thesis by (auto simp: placed_def intro: less_le_trans[OF assms(3)])
qed

lemma placed_RHole:
  assumes "placed key k v" "sorted (map key (inorder (Node l x c r)))" "key x \<le> v"
  shows "placed key (RHole l x c # k) v"
proof -
  have "key y \<le> key x" if "y \<in> set (inorder l)" for y using assms(2) that by (simp add: sorted_append)
  with assms(1,3) show ?thesis by (auto simp: placed_def intro: order_trans[OF _ assms(3)])
qed

lemma caug_raise:
  assumes d: "distinct (cpre k @ inorder (Node l x c r) @ cpost k)"
    and a: "aug_ok m (Node l x c r)" "caug m k (max v (tmax m (Node l x c r)))"
  defines "m1 \<equiv> m(x \<mapsto> (dat m x)\<lparr>subtree_last := max (subtree_last (dat m x)) v\<rparr>)"
  shows "aug_ok m1 l" "aug_ok m1 r" "caug m1 (LHole x c r # k) (max v (tmax m1 l))"
    "caug m1 (RHole l x c # k) (max v (tmax m1 r))"
proof -
  have o: "m1 y = m y" if "y \<in> set (cpre k) \<union> set (cpost k) \<union> set (inorder l) \<union> set (inorder r)" for y
    using that d by (auto simp: m1_def)
  have lr: "aug_ok m1 l" "aug_ok m1 r" "tmax m1 l = tmax m l" "tmax m1 r = tmax m r"
    using a aug_ok_cong[of l m1 m] aug_ok_cong[of r m1 m] tmax_cong[of l m1 m] tmax_cong[of r m1 m]
    by (auto simp: o)
  then show "aug_ok m1 l" "aug_ok m1 r" by simp_all
  have x: "dat m1 x = (dat m x)\<lparr>subtree_last := max v (tmax m (Node l x c r))\<rparr>"
    using a(1) by (simp add: m1_def max.commute)
  have k: "caug m1 k (max v (tmax m (Node l x c r)))"
    using a(2) caug_cong[of k m1 m] by (auto simp: o)
  show "caug m1 (LHole x c r # k) (max v (tmax m1 l))" "caug m1 (RHole l x c # k) (max v (tmax m1 r))"
    using lr x k by (simp_all add: ac_simps)
qed

definition descended :: "size_t \<Rightarrow> size_t \<Rightarrow> ptree \<Rightarrow> frame list \<Rightarrow> it_state \<Rightarrow> frame list \<Rightarrow> it_state \<Rightarrow> bool" where
  "descended start lst t k s k' s' \<longleftrightarrow> plug Leaf k' = plug t k \<and> rb_root s' = rb_root s \<and>
     links (mem s') = links (mem s) \<and> stripm (mores (mem s')) = stripm (mores (mem s)) \<and>
     (\<forall>x. x \<notin> set (inorder (plug t k)) \<longrightarrow> mores (mem s') x = mores (mem s) x) \<and>
     (aug_ok (mores (mem s)) t \<and> caug (mores (mem s)) k (max lst (tmax (mores (mem s)) t)) \<longrightarrow>
        caug (mores (mem s')) k' lst) \<and>
     (sorted (map (start_of (mores (mem s))) (inorder t)) \<and> placed (start_of (mores (mem s))) k start \<longrightarrow>
        placed (start_of (mores (mem s))) k' start)"

lemma descended_step:
  assumes "descended start lst t1 k1 s1 k' s'" and "plug t1 k1 = plug t k"
    and "rb_root s1 = rb_root s" "links (mem s1) = links (mem s)"
    and "stripm (mores (mem s1)) = stripm (mores (mem s))"
    and "\<forall>x. x \<notin> set (inorder (plug t k)) \<longrightarrow> mores (mem s1) x = mores (mem s) x"
    and "start_of (mores (mem s1)) = start_of (mores (mem s))"
    and "aug_ok (mores (mem s)) t \<Longrightarrow> caug (mores (mem s)) k (max lst (tmax (mores (mem s)) t)) \<Longrightarrow>
      aug_ok (mores (mem s1)) t1 \<and> caug (mores (mem s1)) k1 (max lst (tmax (mores (mem s1)) t1))"
    and "sorted (map (start_of (mores (mem s))) (inorder t)) \<Longrightarrow> placed (start_of (mores (mem s))) k start \<Longrightarrow>
      sorted (map (start_of (mores (mem s))) (inorder t1)) \<and> placed (start_of (mores (mem s))) k1 start"
  shows "descended start lst t k s k' s'"
  using assms by (simp add: descended_def)

lemma it_descend_ok:
  "tree_rep s (plug t k) \<Longrightarrow>
   \<exists>s' k'. it_descend start lst (clink k) (cpar k) s = Some (clink k', cpar k', s') \<and> descended start lst t k s k' s'"
proof (induction t arbitrary: k s)
  case Leaf
  then have "crep (mem s) (rb_root s) k 0" by (simp add: tree_rep_plug)
  from get_link_ok[OF this] show ?case
    by (auto simp: it_descend.simps[of start lst "clink k"] descended_def)
next
  case (Node l x c r)
  let ?m = "mores (mem s)"
  have na: "node_at (mem s) x (cpar k) c (rootp l) (rootp r)" and cr: "crep (mem s) (rb_root s) k x"
    and d: "distinct (cpre k @ inorder (Node l x c r) @ cpost k)"
    using Node.prems by (auto simp: tree_rep_plug)
  then obtain n where n: "mem s x = Some n" "x \<noteq> 0" by (auto simp: node_at_mem)
  then have dx: "rb_node.more n = dat ?m x" and mx: "?m x = Some (dat ?m x)" by (simp_all add: mores_def)
  obtain s1 where s1: "(if subtree_last (dat ?m x) < lst then itu (subtree_last_update (\<lambda>_. lst)) x s else Some s) = Some s1"
    "rb_root s1 = rb_root s" "links (mem s1) = links (mem s)"
    "mores (mem s1) = ?m(x \<mapsto> (dat ?m x)\<lparr>subtree_last := max (subtree_last (dat ?m x)) lst\<rparr>)"
    using raise_sub_ok[OF n(2,1), of lst] dx by auto
  have sm: "stripm (mores (mem s1)) = stripm ?m" using s1(4) mx by (simp add: stripm_upd del: fun_upd_apply)
  have st1: "start_of (mores (mem s1)) = start_of ?m"
    by (rule ext) (simp add: s1(4))
  have f: "itf subtree_last x s = Some (subtree_last (dat ?m x))" using n dx by (simp add: itf_Some)
  have f1: "itf it_start x s1 = Some (start_of ?m x)" using n(2) by (simp add: itf_mores s1(4))
  have run: "it_descend start lst (clink k) (cpar k) s =
      (if start < start_of ?m x then it_descend start lst (LeftLink x) x s1 else it_descend start lst (RightLink x) x s1)"
    using get_link_ok[OF cr] n(2) s1(1) f f1
    by (simp add: it_descend.simps[of start lst "clink k"])
  have tr: "tree_rep s1 (plug l (LHole x c r # k))" "tree_rep s1 (plug r (RHole l x c # k))"
    using Node.prems tree_rep_links[OF s1(3,2)] by simp_all
  note au = caug_raise[OF d, of ?m lst, folded s1(4)]
  show ?case
  proof (cases "start < start_of ?m x")
    case True
    obtain s' k' where r: "it_descend start lst (LeftLink x) x s1 = Some (clink k', cpar k', s')"
      and D: "descended start lst l (LHole x c r # k) s1 k' s'"
      using Node.IH(1)[OF tr(1)] by auto
    have "descended start lst (Node l x c r) k s k' s'"
    proof (rule descended_step[OF D _ s1(2,3) sm _ st1])
      show "\<forall>y. y \<notin> set (inorder (plug (Node l x c r) k)) \<longrightarrow> mores (mem s1) y = ?m y"
        by (simp add: s1(4) inorder_plug)
    qed (use au(1,3) placed_LHole[of "start_of ?m" k start l x c r] True in \<open>simp_all add: sorted_append del: caug.simps\<close>)
    with run True r show ?thesis by auto
  next
    case False
    obtain s' k' where r: "it_descend start lst (RightLink x) x s1 = Some (clink k', cpar k', s')"
      and D: "descended start lst r (RHole l x c # k) s1 k' s'"
      using Node.IH(2)[OF tr(2)] by auto
    have "descended start lst (Node l x c r) k s k' s'"
    proof (rule descended_step[OF D _ s1(2,3) sm _ st1])
      show "\<forall>y. y \<notin> set (inorder (plug (Node l x c r) k)) \<longrightarrow> mores (mem s1) y = ?m y"
        by (simp add: s1(4) inorder_plug)
    qed (use au(2,4) placed_RHole[of "start_of ?m" k start l x c r] False in \<open>simp_all add: sorted_append del: caug.simps\<close>)
    with run False r show ?thesis by auto
  qed
qed


lemma interval_tree_insert_ok:
  assumes t: "tree_rep s t" "rb_tree t" "by_start (mores (mem s)) t"
    and a: "a \<noteq> 0" "aligned a" "mem s a = Some n" "a \<notin> set (inorder t)"
  shows "\<exists>s' xs ys T. interval_tree_insert a s = Some s' \<and> inorder t = xs @ ys \<and> inorder T = xs @ a # ys \<and>
    tree_rep s' T \<and> rb_tree T \<and> by_start (mores (mem s')) T \<and> stripm (mores (mem s')) = stripm (mores (mem s)) \<and>
    (aug_ok (mores (mem s)) t \<longrightarrow> aug_ok (mores (mem s')) T)"
proof -
  let ?m = "mores (mem s)" and ?d = "rb_node.more n"
  obtain s1 k where s1: "it_descend (it_start ?d) (it_last ?d) RootLink 0 s = Some (clink k, cpar k, s1)"
    and D: "descended (it_start ?d) (it_last ?d) t [] s k s1"
    using it_descend_ok[of s t "[]" "it_start ?d" "it_last ?d"] t(1) by auto
  from D have lk: "links (mem s1) = links (mem s)" and rt: "rb_root s1 = rb_root s"
    and pk: "plug Leaf k = t" and sm1: "stripm (mores (mem s1)) = stripm ?m"
    and ma: "mores (mem s1) a = Some ?d"
    and cg: "aug_ok ?m t \<Longrightarrow> caug (mores (mem s1)) k (it_last ?d)"
    and pl: "placed (start_of ?m) k (it_start ?d)"
    using a t(3) by (auto simp: descended_def mores_def by_start_def placed_def)
  have io: "inorder t = cpre k @ cpost k" using pk inorder_plug[of Leaf k] by simp
  obtain n1 where n1: "mem s1 a = Some n1" "rb_node.more n1 = ?d" using ma by (auto simp: mores_def)
  obtain s2 where s2: "itu (subtree_last_update (\<lambda>_. it_last ?d)) a s1 = Some s2" "rb_root s2 = rb_root s1"
    "links (mem s2) = links (mem s1)" "mores (mem s2) = (mores (mem s1))(a \<mapsto> ?d\<lparr>subtree_last := it_last ?d\<rparr>)"
    using itu_ok[OF a(1) n1(1)] n1(2) by metis
  have t2: "tree_rep s2 (plug Leaf k)"
    using t(1) pk tree_rep_links[of s s2 t] lk rt s2(2,3) by simp
  obtain n2 where n2: "mem s2 a = Some n2" using s2(4) by (auto simp: mores_def)
      (metis (no_types, lifting) fun_upd_same map_option_eq_Some)
  have ak: "a \<notin> set (cpre k)" "a \<notin> set (cpost k)" using a(4) io by auto
  have sm2: "stripm (mores (mem s2)) = stripm ?m"
    using ma sm1 by (simp add: s2(4) stripm_upd del: fun_upd_apply)
  obtain s' T where fin: "Option.bind (rb_link_node a (cpar k) (clink k) s2) (rb_insert_augmented augment_rotate a) = Some s'"
    "tree_rep s' T" "rb_tree T" "inorder T = cpre k @ a # cpost k"
    and ao: "it_aok (stripm ?m) (aug_ok ?m t) (mores (mem s2)) (plug (Node Leaf a Red Leaf) k) \<longrightarrow>
      it_aok (stripm ?m) (aug_ok ?m t) (mores (mem s')) T"
    using it.link_insert_ok[OF t2 _ a(1,2) n2 ak, of "stripm ?m" "aug_ok ?m t"] pk t(2) by blast
  have "aug_ok (mores (mem s2)) (plug (Node Leaf a Red Leaf) k)" if "aug_ok ?m t"
  proof -
    have "caug (mores (mem s2)) k (it_last ?d) = caug (mores (mem s1)) k (it_last ?d)"
      using ak by (intro caug_cong) (auto simp: s2(4))
    with cg[OF that] show ?thesis by (simp add: aug_ok_plug s2(4))
  qed
  moreover have some: "mores (mem s) x \<noteq> None" if "x \<in> set (cpre k @ a # cpost k)" for x
    using that t(1) rep_mem[of "mem s" 0 t x] a(3) io by (auto simp: tree_rep_def mores_def)
  moreover have "mores (mem s2) x \<noteq> None" if "x \<in> set (cpre k @ a # cpost k)" for x
    using some[OF that] stripm_None[OF sm2] by simp
  ultimately have "it_aok (stripm ?m) (aug_ok ?m t) (mores (mem s2)) (plug (Node Leaf a Red Leaf) k)"
    using sm2 by (auto simp: it_aok_def inorder_plug)
  with ao have sm: "stripm (mores (mem s')) = stripm ?m" and au: "aug_ok ?m t \<longrightarrow> aug_ok (mores (mem s')) T"
    by (auto simp: it_aok_def)
  have st': "map (start_of (mores (mem s'))) (inorder T) = map (start_of ?m) (inorder T)"
    using some sm[symmetric] fin(4) by (intro map_cong refl start_of_stripm[symmetric]) auto
  have "start_of ?m a = it_start ?d" using a(3) by (simp add: mores_def)
  then have "sorted (map (start_of ?m) (cpre k @ a # cpost k))"
    using t(3) pl io by (auto simp: by_start_def placed_def sorted_append intro: less_imp_le)
  then have "by_start (mores (mem s')) T" unfolding by_start_def fin(4) st'[unfolded fin(4)] .
  moreover have "itf it_start a s = Some (it_start ?d)" "itf it_last a s = Some (it_last ?d)"
    using a by (simp_all add: itf_Some)
  then have "interval_tree_insert a s = Some s'"
    using s1 s2(1) fin(1) by (simp add: interval_tree_insert_def)
  ultimately show ?thesis using fin(2-4) io sm au by blast
qed


section \<open>The queries find the intersecting intervals in order\<close>

definition hit :: "it_map \<Rightarrow> size_t \<Rightarrow> size_t \<Rightarrow> ptr \<Rightarrow> bool" where
  "hit m start lst a \<longleftrightarrow> it_start (dat m a) \<le> lst \<and> start \<le> it_last (dat m a)"

lemma tmax_attained: "t \<noteq> Leaf \<Longrightarrow> \<exists>a\<in>set (inorder t). it_last (dat m a) = tmax m t"
proof (induction t)
  case (Node l a c r)
  then show ?case by (cases "l = Leaf"; cases "r = Leaf") (auto simp: max_def)
qed simp

lemma tmax_ge: "a \<in> set (inorder t) \<Longrightarrow> it_last (dat m a) \<le> tmax m t"
  by (induction t) (auto simp: le_max_iff_disj)

lemma no_hit_below: "tmax m t < start \<Longrightarrow> filter (hit m start lst) (inorder t) = []"
  using tmax_ge[of _ t m] by (fastforce simp: filter_empty_conv hit_def)

lemma no_hit_right: "\<forall>y\<in>set ys. lst < start_of m y \<Longrightarrow> filter (hit m start lst) ys = []"
  by (auto simp: filter_empty_conv hit_def)

text \<open>A subtree that reaches \<open>start\<close> and has no hit lies beyond \<open>lst\<close>, and so does all after it.\<close>

lemma no_hit_after:
  assumes "start \<le> tmax m t" "t \<noteq> Leaf" "filter (hit m start lst) (inorder t) = []"
    and "sorted (map (start_of m) (inorder t @ ys))"
  shows "filter (hit m start lst) ys = []"
proof -
  obtain a where a: "a \<in> set (inorder t)" "start \<le> it_last (dat m a)"
    using tmax_attained[OF assms(2), of m] assms(1) by auto
  with assms(3) have "lst < start_of m a" by (auto simp: filter_empty_conv hit_def)
  with a assms(4) show ?thesis
    by (intro no_hit_right) (auto simp: sorted_append intro: less_le_trans)
qed

lemma hd0_filter_append:
  "(xs' = [] \<Longrightarrow> filter P ys = []) \<Longrightarrow> filter P xs = xs' \<Longrightarrow> hd0 (filter P (xs @ ys)) = hd0 xs'"
  by (auto simp: hd0_append)

lemma itf_rep: "rep (mem s) p t \<Longrightarrow> a \<in> set (inorder t) \<Longrightarrow> itf f a s = Some (f (dat (mores (mem s)) a))"
  using rep_mem[of "mem s" p t a] rep_nonnull[of "mem s" p t a] by (auto simp: itf_mores mores_def)

lemma itf_sub:
  "rep (mem s) p t \<Longrightarrow> aug_ok (mores (mem s)) t \<Longrightarrow> t \<noteq> Leaf \<Longrightarrow>
   itf subtree_last (rootp t) s = Some (tmax (mores (mem s)) t)"
  using itf_rep[of s p t "rootp t" subtree_last] by (cases t) auto

lemma sub_check:
  assumes "rep (mem s) p t" "aug_ok (mores (mem s)) t"
  shows "(if rootp t \<noteq> 0 then do { v \<leftarrow> itf subtree_last (rootp t) s; Some (start \<le> v) } else Some False)
    = Some (t \<noteq> Leaf \<and> start \<le> tmax (mores (mem s)) t)"
  using assms itf_rep[OF assms(1), of "rootp t" subtree_last] rep_rootp_0[OF assms(1)]
  by (cases t) auto

lemma subtree_search_ok:
  "rep (mem s) p t \<Longrightarrow> t \<noteq> Leaf \<Longrightarrow> aug_ok (mores (mem s)) t \<Longrightarrow>
   sorted (map (start_of (mores (mem s))) (inorder t)) \<Longrightarrow>
   subtree_search start lst (rootp t) s = Some (hd0 (filter (hit (mores (mem s)) start lst) (inorder t)))"
proof (induction t arbitrary: p)
  case (Node l x c r)
  let ?m = "mores (mem s)"
  let ?f = "filter (hit ?m start lst)"
  have na: "node_at (mem s) x p c (rootp l) (rootp r)" and l: "rep (mem s) x l" and r: "rep (mem s) x r"
    and au: "aug_ok ?m l" "aug_ok ?m r"
    using Node.prems by auto
  have so: "sorted (map (start_of ?m) (inorder l @ x # inorder r))" using Node.prems(4) by simp
  have fx: "itf f x s = Some (f (dat ?m x))" for f
    by (rule itf_rep[OF Node.prems(1)]) simp
  note run = subtree_search.simps[of start lst x s] node_at_ops(1,2)[OF na] fx sub_check[OF l au(1)]
  have R: "(if rootp r \<noteq> 0 then itf subtree_last (rootp r) s \<bind> (\<lambda>v. if start \<le> v then subtree_search start lst (rootp r) s else Some 0)
      else Some 0) = Some (hd0 (?f (inorder r)))"
  proof (cases "r = Leaf")
    case False
    have "subtree_search start lst (rootp r) s = Some (hd0 (?f (inorder r)))"
      using Node.IH(2)[OF r False au(2)] so by (simp add: sorted_append)
    moreover have "itf subtree_last (rootp r) s = Some (tmax ?m r)"
      by (rule itf_sub[OF r au(2) False])
    ultimately show ?thesis
      using rep_rootp_0[OF r] False no_hit_below[of ?m r start lst] by (auto simp: not_le)
  qed simp
  show ?case
  proof (cases "l \<noteq> Leaf \<and> start \<le> tmax ?m l")
    case True
    have "subtree_search start lst (rootp l) s = Some (hd0 (?f (inorder l)))"
      using Node.IH(1)[OF l _ au(1)] True so by (simp add: sorted_append)
    moreover have "hd0 (?f (inorder l @ (x # inorder r))) = hd0 (?f (inorder l))"
    proof (rule hd0_filter_append[OF _ refl])
      assume e: "?f (inorder l) = []"
      show "?f (x # inorder r) = []"
        by (rule no_hit_after[OF _ _ e]) (use True so in auto)
    qed
    ultimately show ?thesis using True by (simp add: run)
  next
    case False
    then have nl: "?f (inorder l) = []" using no_hit_below[of ?m l start lst] by (auto simp: not_le)
    show ?thesis
    proof (cases "start_of ?m x \<le> lst")
      case True
      with False nl R show ?thesis by (auto simp: run hit_def[of ?m start lst x])
    next
      case far: False
      have "?f (inorder r) = []"
        by (rule no_hit_right) (use far so in \<open>auto simp: sorted_append not_le intro: less_le_trans\<close>)
      with False nl far show ?thesis by (auto simp: run hit_def[of ?m start lst x])
    qed
  qed
qed simp

lemma iter_first_ok:
  assumes "tree_rep s t" "aug_ok (mores (mem s)) t" "by_start (mores (mem s)) t"
  shows "iter_first start lst s = Some (hd0 (filter (hit (mores (mem s)) start lst) (inorder t)))"
proof (cases "t = Leaf")
  case False
  have r: "rep (mem s) 0 t" "rb_root s = rootp t" using assms(1) by (simp_all add: tree_rep_def)
  have "itf subtree_last (rootp t) s = Some (tmax (mores (mem s)) t)"
    by (rule itf_sub[OF r(1) assms(2) False])
  then show ?thesis
    using subtree_search_ok[OF r(1) False assms(2)] assms(3) rep_rootp_0[OF r(1)] False r(2)
      no_hit_below[of "mores (mem s)" t start lst]
    by (auto simp: iter_first_def by_start_def)
qed (use assms in \<open>simp add: iter_first_def tree_rep_def\<close>)

fun up_left :: "frame list \<Rightarrow> frame list" where
  "up_left [] = []"
| "up_left (RHole l a c # k) = up_left k"
| "up_left (LHole a c r # k) = LHole a c r # k"

lemma cpost_up_left: "cpost (up_left k) = cpost k"
  by (induction k rule: up_left.induct) auto

lemma up_left_cases: "(\<exists>b c r k'. up_left k = LHole b c r # k') \<or> up_left k = []"
  by (induction k rule: up_left.induct) auto

lemma up_left_plug: "up_left k = LHole b c r # k' \<Longrightarrow> \<exists>t'. plug t k = plug (Node t' b c r) k' \<and> length k' < length k"
proof (induction k arbitrary: t rule: up_left.induct)
  case (2 l a c' k)
  then show ?case by (metis fill.simps(2) length_Cons less_SucI plug.simps(2) up_left.simps(2))
qed auto

lemma iter_climb_ok:
  "rb_parent x s = Some (cpar k) \<Longrightarrow> crep (mem s) (rb_root s) k x \<Longrightarrow> x \<noteq> 0 \<Longrightarrow>
   distinct (cpre k @ x # cpost k) \<Longrightarrow> iter_climb x s = Some (cpar (up_left k))"
proof (induction k arbitrary: x)
  case Nil
  then show ?case by (simp add: iter_climb.simps)
next
  case (Cons f k)
  show ?case
  proof (cases f)
    case (LHole a c r)
    with Cons.prems have na: "node_at (mem s) a (cpar k) c x (rootp r)" by simp
    then have "a \<noteq> 0" "x \<noteq> rootp r" using Cons.prems LHole by (auto simp: node_at_def) (cases r; auto)
    then show ?thesis
      using Cons.prems LHole node_at_ops[OF na] by (simp add: iter_climb.simps)
  next
    case (RHole l a c)
    with Cons.prems have na: "node_at (mem s) a (cpar k) c (rootp l) x" by simp
    then have "a \<noteq> 0" by (simp add: node_at_def)
    then show ?thesis
      using Cons RHole node_at_ops[OF na] by (auto simp: iter_climb.simps[of x] disj_simps)
  qed
qed


lemma iter_next_plug:
  "tree_rep s (plug (Node l a c r) k) \<Longrightarrow> aug_ok (mores (mem s)) (plug (Node l a c r) k) \<Longrightarrow>
   by_start (mores (mem s)) (plug (Node l a c r) k) \<Longrightarrow>
   iter_next a start lst s = Some (hd0 (filter (hit (mores (mem s)) start lst) (inorder r @ cpost k)))"
proof (induction "length k" arbitrary: l a c r k rule: less_induct)
  case less
  let ?m = "mores (mem s)"
  let ?f = "filter (hit ?m start lst)"
  have na: "node_at (mem s) a (cpar k) c (rootp l) (rootp r)" and r: "rep (mem s) a r"
    and cr: "crep (mem s) (rb_root s) k a" and d: "distinct (cpre k @ inorder (Node l a c r) @ cpost k)"
    using less.prems(1) by (auto simp: tree_rep_plug)
  have au: "aug_ok ?m r" using less.prems(2) by (simp add: aug_ok_plug)
  have so: "sorted (map (start_of ?m) (inorder r @ cpost k))"
    using less.prems(3) by (simp add: by_start_def inorder_plug sorted_append)
  have a0: "a \<noteq> 0" using na by (simp add: node_at_def)
  have up: "iter_climb a s = Some (cpar (up_left k))"
    by (rule iter_climb_ok[OF node_at_ops(3)[OF na] cr a0]) (use d in auto)
  note run = iter_next.simps[of a start lst s] node_at_ops(2)[OF na] sub_check[OF r au] up
  show ?case
  proof (cases "r \<noteq> Leaf \<and> start \<le> tmax ?m r")
    case True
    have "subtree_search start lst (rootp r) s = Some (hd0 (?f (inorder r)))"
      using subtree_search_ok[OF r _ au] True so by (simp add: sorted_append)
    moreover have "hd0 (?f (inorder r @ cpost k)) = hd0 (?f (inorder r))"
    proof (rule hd0_filter_append[OF _ refl])
      assume e: "?f (inorder r) = []"
      show "?f (cpost k) = []"
        by (rule no_hit_after[OF _ _ e]) (use True so in auto)
    qed
    ultimately show ?thesis using True by (simp add: run)
  next
    case False
    then have nr: "?f (inorder r) = []" using no_hit_below[of ?m r start lst] by (auto simp: not_le)
    show ?thesis
    proof (cases "up_left k = []")
      case True
      then have "cpost k = []" using cpost_up_left[of k] by simp
      with False True nr show ?thesis by (auto simp: run)
    next
      case upn: False
      then obtain b cb rb k' where ub: "up_left k = LHole b cb rb # k'" using up_left_cases by blast
      obtain t' where pl: "plug (Node l a c r) k = plug (Node t' b cb rb) k'" and len: "length k' < length k"
        using up_left_plug[OF ub] by blast
      have pk: "cpost k = b # inorder rb @ cpost k'" using cpost_up_left[of k] ub by simp
      have fb: "itf f b s = Some (f (dat ?m b))" for f
        using itf_rep[of s 0 "plug (Node l a c r) k" b f] less.prems(1) by (auto simp: tree_rep_def pl inorder_plug)
      have "rep (mem s) 0 (plug (Node l a c r) k)" using less.prems(1) by (simp add: tree_rep_def)
      then have b0: "b \<noteq> 0" by (rule rep_nonnull) (simp add: pl inorder_plug)
      have ih: "iter_next b start lst s = Some (hd0 (?f (inorder rb @ cpost k')))"
        using less.hyps[OF len] less.prems unfolding pl .
      have "?f (inorder rb @ cpost k') = []" if "lst < start_of ?m b"
        by (rule no_hit_right) (use that so pk in \<open>auto simp: sorted_append intro: less_le_trans\<close>)
      with False nr ub b0 fb[of it_start] fb[of it_last] ih pk show ?thesis by (auto simp: run hit_def[of ?m start lst b] not_le not_less)
    qed
  qed
qed

lemma iter_next_ok:
  assumes "tree_rep s t" "aug_ok (mores (mem s)) t" "by_start (mores (mem s)) t" "inorder t = xs @ a # ys"
  shows "iter_next a start lst s = Some (hd0 (filter (hit (mores (mem s)) start lst) ys))"
proof -
  obtain k l c r where t: "t = plug (Node l a c r) k"
    using node_context[of a t] assms(4) by auto
  then have "xs @ a # ys = (cpre k @ inorder l) @ a # (inorder r @ cpost k)"
    using assms(4) by (simp add: inorder_plug)
  moreover have "distinct (xs @ a # ys)" using assms(1,4) by (simp add: tree_rep_def)
  ultimately have "ys = inorder r @ cpost k" using distinct_split by metis
  with iter_next_plug t assms(1-3) show ?thesis by simp
qed


section \<open>Properties\<close>

definition it_sample :: "ptr \<Rightarrow> it_data" where
  "it_sample a =
     (if a = 8 then (interval_tree_node 100 150 0x31 7 {})\<lparr>subtree_last := 150\<rparr>
      else if a = 16 then (interval_tree_node 200 210 0x31 8 {})\<lparr>subtree_last := 400\<rparr>
      else if a = 24 then (interval_tree_node 300 400 0x31 9 {})\<lparr>subtree_last := 400\<rparr>
      else interval_tree_node 250 260 0x31 10 {})"

lemma it_sample_ok: "aug_ok (mores (mem (three it_sample))) tree3" "by_start (mores (mem (three it_sample))) tree3"
  by (simp_all add: three_def tree3_def mores_def mk_node_def it_sample_def interval_tree_node_def by_start_def)

text \<open>C14: \<open>interval_tree_insert\<close> puts a new interval into an interval tree: it ends without a bad access, the tree
  stays red-black and ordered by start, holds the old nodes and the new one, no field but \<open>__subtree_last\<close>
  changes, and every \<open>__subtree_last\<close> is again the largest \<open>last\<close> of its subtree.\<close>

theorem interval_tree_insert_correct:
  assumes "tree_rep s t" "rb_tree t" "by_start (mores (mem s)) t" "aug_ok (mores (mem s)) t"
    and "a \<noteq> 0" "aligned a" "mem s a = Some n" "a \<notin> set (inorder t)"
  shows "\<exists>s' T xs ys. interval_tree_insert a s = Some s' \<and> tree_rep s' T \<and> rb_tree T \<and>
    inorder t = xs @ ys \<and> inorder T = xs @ a # ys \<and> by_start (mores (mem s')) T \<and>
    aug_ok (mores (mem s')) T \<and> stripm (mores (mem s')) = stripm (mores (mem s))"
  using interval_tree_insert_ok[OF assms(1-3,5-8)] assms(4) by blast

theorem interval_tree_insert_correct_witness:
  "\<exists>s' T. interval_tree_insert 32 (three it_sample) = Some s' \<and> tree_rep s' T \<and> rb_tree T \<and>
    aug_ok (mores (mem s')) T"
  using interval_tree_insert_correct[OF three_rep tree3_rb it_sample_ok(2,1) _ aligned_32 three_32]
  by (auto simp: tree3_inorder)

text \<open>C21: \<open>interval_tree_iter_first\<close> returns the first node in order whose interval meets \<open>[start, last]\<close>, NULL when
  there is none.\<close>

theorem iter_first_correct:
  assumes "tree_rep s t" "by_start (mores (mem s)) t" "aug_ok (mores (mem s)) t"
  shows "iter_first start lst s = Some (hd0 (filter (hit (mores (mem s)) start lst) (inorder t)))"
  by (rule iter_first_ok[OF assms(1,3,2)])

theorem iter_first_correct_witness: "iter_first 205 320 (three it_sample) = Some 16"
  using iter_first_correct[OF three_rep it_sample_ok(2,1), of 205 320]
  by (simp add: tree3_inorder hit_def three_def mores_def mk_node_def it_sample_def interval_tree_node_def)

text \<open>C22: \<open>interval_tree_iter_next\<close> returns the next node in order that meets the interval, NULL after the last,
  so that the two functions together list all intersecting nodes.\<close>

theorem iter_next_correct:
  assumes "tree_rep s t" "by_start (mores (mem s)) t" "aug_ok (mores (mem s)) t" "inorder t = xs @ a # ys"
  shows "iter_next a start lst s = Some (hd0 (filter (hit (mores (mem s)) start lst) ys))"
  by (rule iter_next_ok[OF assms(1,3,2,4)])

theorem iter_next_correct_witness: "iter_next 16 205 320 (three it_sample) = Some 24"
  using iter_next_correct[OF three_rep it_sample_ok(2,1), of "[8]" 16 "[24]" 205 320]
  by (simp add: tree3_inorder hit_def three_def mores_def mk_node_def it_sample_def interval_tree_node_def)

end
