(* ===== verification/IntervalData.thy ===== *)
theory IntervalData
  imports IntervalTree
begin

text \<open>
  \<open>interval_tree_insert_data\<close> of \<open>tools/interval_tree_generic.h\<close>: recording one access, which may be absorbed
  by a strided interval of the same program site on the search path; what the tree then represents.
\<close>

section \<open>The code\<close>

definition same_site :: "it_data \<Rightarrow> it_data \<Rightarrow> bool" where
  "same_site node parent \<longleftrightarrow>
     size_type node = size_type parent \<and> pc node = pc parent \<and> mutex node = mutex parent"

text \<open>
  The body of the test on a node of the same site: whether the function returns, and the node data
  after the assignments.
\<close>

definition absorb :: "it_data \<Rightarrow> it_data \<Rightarrow> bool \<times> it_data" where
  "absorb node parent =
     (if diff parent \<noteq> 0 then
        let fin = END_of parent in
        if it_start node = fin + ucast (diff parent) then
          let parent = parent\<lparr>count := count parent + 1\<rparr> in
          (True, parent\<lparr>it_last := END_of parent\<rparr>)
        else if it_start parent \<le> it_start node \<and> it_start node \<le> fin then (True, parent)
        else if it_start node = it_start parent - ucast (diff parent) then
          (True, parent\<lparr>it_start := it_start node, count := count parent + 1\<rparr>)
        else (False, parent)
      else
        let d = it_start node - it_start parent in
        if d \<noteq> 0 \<and> d < 64 then
          let fin = END_of parent; parent = parent\<lparr>diff := ucast d\<rparr> in
          if it_start node = fin + d then
            let parent = parent\<lparr>count := count parent + 1\<rparr> in
            (True, parent\<lparr>it_last := END_of parent\<rparr>)
          else if it_start parent \<le> it_start node \<and> it_start node \<le> fin then (True, parent)
          else if it_start node = it_start parent - ucast (diff parent) then
            (True, parent\<lparr>it_start := it_start node, count := count parent + 1\<rparr>)
          else (False, parent)
        else (True, parent))"

text \<open>The loop: \<open>None\<close> when the access was absorbed, else the link to fill and its parent.\<close>

partial_function (option) insert_data_descend ::
    "it_data \<Rightarrow> link \<Rightarrow> ptr \<Rightarrow> it_state \<Rightarrow> ((link \<times> ptr) option \<times> it_state) option" where
  "insert_data_descend node link rbp s = do {
     x \<leftarrow> get_link link s;
     if x = 0 then Some (Some (link, rbp), s)
     else do {
       parent \<leftarrow> itf (\<lambda>d. d) x s;
       (ret, s) \<leftarrow> (if same_site node parent then do {
                      s \<leftarrow> itu (\<lambda>_. snd (absorb node parent)) x s;
                      Some (fst (absorb node parent), s) }
                    else Some (False, s));
       if ret then Some (None, s)
       else do {
         sub \<leftarrow> itf subtree_last x s;
         s \<leftarrow> (if sub < it_last node then itu (subtree_last_update (\<lambda>_. it_last node)) x s else Some s);
         pstart \<leftarrow> itf it_start x s;
         if it_start node < pstart then insert_data_descend node (LeftLink x) x s
         else insert_data_descend node (RightLink x) x s
       }
     }
   }"

text \<open>\<open>new\<close>: \<open>newp\<close> is the address the allocator returns, which must be unused.\<close>

definition alloc_node :: "ptr \<Rightarrow> it_data \<Rightarrow> it_state \<Rightarrow> it_state option" where
  "alloc_node newp d s =
     (if newp = 0 \<or> mem s newp \<noteq> None then None else Some (s\<lparr>mem := (mem s)(newp \<mapsto> mk_node 0 0 0 d)\<rparr>))"

definition interval_tree_insert_data :: "ptr \<Rightarrow> it_data \<Rightarrow> it_state \<Rightarrow> it_state option" where
  "interval_tree_insert_data newp node s = do {
     (r, s) \<leftarrow> insert_data_descend node RootLink 0 s;
     case r of
       None \<Rightarrow> Some s
     | Some (link, rbp) \<Rightarrow> do {
         s \<leftarrow> alloc_node newp ((interval_tree_node (it_start node) (it_last node) (size_type node)
                (pc node) (mutex node))\<lparr>subtree_last := it_last node\<rparr>) s;
         s \<leftarrow> rb_link_node newp rbp link s;
         rb_insert_augmented augment_rotate newp s
       }
   }"

section \<open>What a node stands for\<close>

definition site :: "it_data \<Rightarrow> u8 \<times> size_t \<times> size_t set" where
  "site d = (size_type d, pc d, mutex d)"

text \<open>The addresses of the strided interval, as numbers.\<close>

definition addrs :: "it_data \<Rightarrow> nat set" where
  "addrs d = {unat (it_start d) + i * unat (diff d) |i. i < unat (count d)}"

text \<open>A node that stands for at most \<open>N\<close> accesses, none of its fields wrapped around.\<close>

definition node_ok :: "nat \<Rightarrow> it_data \<Rightarrow> bool" where
  "node_ok N d \<longleftrightarrow> 0 < unat (count d) \<and> unat (count d) \<le> N \<and> unat (diff d) < 64 \<and>
     (diff d = 0 \<longrightarrow> count d = 1) \<and>
     unat (it_last d) = unat (it_start d) + unat (diff d) * (unat (count d) - 1) \<and>
     unat (it_last d) < 2 ^ 62"

lemma same_site_iff: "same_site a b \<longleftrightarrow> site a = site b"
  by (auto simp: same_site_def site_def)

lemma site_strip: "strip d = strip d' \<Longrightarrow> site d = site d' \<and> addrs d = addrs d' \<and> node_ok N d = node_ok N d'"
  by (drule strip_fields) (simp add: site_def addrs_def node_ok_def)

lemma absorb_False: "absorb node parent = (False, p) \<Longrightarrow> p = parent"
  by (auto simp: absorb_def Let_def END_of_def split: if_splits)

lemma unat_ucast_32_64 [simp]: "unat (ucast (x :: 32 word) :: 64 word) = unat x"
proof -
  have "take_bit 64 (unat x) = unat x"
    by (rule take_bit_nat_eq_self) (use unsigned_less[of x, where 'a = nat] in simp)
  then show ?thesis by (simp add: unsigned_ucast_eq unsigned_take_bit_eq)
qed

lemma unat_ucast_64_32: "unat x < 2 ^ 32 \<Longrightarrow> unat (ucast (x :: 64 word) :: 32 word) = unat x"
  by (simp add: unsigned_ucast_eq unsigned_take_bit_eq take_bit_nat_eq_self)

lemma END_nat:
  assumes "0 < unat (count d)" and "unat (diff d) * (unat (count d) - 1) < 2 ^ 32"
    and "unat (it_start d) + unat (diff d) * (unat (count d) - 1) < 2 ^ 64"
  shows "unat (END_of d) = unat (it_start d) + unat (diff d) * (unat (count d) - 1)"
proof -
  have "count d \<noteq> 0" using assms(1) by auto
  then have "unat (count d - 1) = unat (count d) - 1" by (rule unat_minus_one)
  then have "unat (diff d * (count d - 1)) = unat (diff d) * (unat (count d) - 1)"
    using assms(2) by (simp add: unat_word_ariths)
  moreover have "unat (diff d) * (unat (count d) - 1) < 2 ^ 64" using assms(3) by linarith
  ultimately show ?thesis
    using assms(3) by (simp add: END_of_def unat_word_ariths)
qed

lemma stride_bound:
  assumes "a < 64" "c \<le> N" "N < 2 ^ 26"
  shows "a * (c - 1) < (2::nat) ^ 32" "a * c < (2::nat) ^ 32"
proof -
  have "a * (c - 1) \<le> 63 * 2 ^ 26" "a * c \<le> 63 * 2 ^ 26" using assms by (intro mult_le_mono; simp)+
  then show "a * (c - 1) < (2::nat) ^ 32" "a * c < (2::nat) ^ 32" by simp_all
qed

lemma node_ok_END:
  assumes "node_ok N d" "N < 2 ^ 26"
  shows "END_of d = it_last d"
proof -
  have "unat (END_of d) = unat (it_last d)"
    using assms stride_bound(1)[of "unat (diff d)" "unat (count d)" N]
    by (subst END_nat) (auto simp: node_ok_def)
  then show ?thesis by (simp add: word_unat_eq_iff)
qed


section \<open>Absorbing an access\<close>

lemma unat_Suc_32: "unat x < 2 ^ 32 - 1 \<Longrightarrow> unat (x + 1 :: 32 word) = Suc (unat x)"
  by (simp add: unat_word_ariths)

lemma addrs_up:
  "it_start p = it_start d \<Longrightarrow> diff p = diff d \<Longrightarrow> unat (count p) = Suc (unat (count d)) \<Longrightarrow>
   addrs p = insert (unat (it_start d) + unat (count d) * unat (diff d)) (addrs d)"
  by (auto simp: addrs_def less_Suc_eq)

lemma grow_up:
  assumes ok: "node_ok N d" and N: "N < 2 ^ 26" and a: "unat a < 2 ^ 62" "a = it_last d + ucast (diff d)"
    and nz: "diff d \<noteq> 0"
  defines "p \<equiv> d\<lparr>count := count d + 1\<rparr>"
  defines "q \<equiv> p\<lparr>it_last := END_of p\<rparr>"
  shows "node_ok (Suc N) q" and "addrs q = insert (unat a) (addrs d)"
proof -
  let ?s = "unat (it_start d)" and ?D = "unat (diff d)" and ?c = "unat (count d)"
  note B = stride_bound[of ?D ?c N]
  have D: "?D < 64" "?c \<le> N" "0 < ?c" "unat (it_last d) = ?s + ?D * (?c - 1)" "unat (it_last d) < 2 ^ 62"
    using ok by (auto simp: node_ok_def)
  have c: "unat (count p) = Suc ?c" using D(2) N by (simp add: p_def unat_Suc_32)
  have "unat a = unat (it_last d) + ?D" using a(2) D(1,5) by (simp add: unat_word_ariths)
  also have "\<dots> = ?s + ?D * ?c" using D(3,4) by (cases ?c) auto
  finally have ua: "unat a = ?s + ?D * ?c" .
  have "unat (END_of p) = unat (it_start p) + unat (diff p) * (unat (count p) - 1)"
    by (rule END_nat) (use c B(2) D(1,2) N ua a(1) in \<open>simp_all add: p_def\<close>)
  then have e: "unat (END_of p) = unat a" using c ua by (simp add: p_def)
  show "node_ok (Suc N) q" using D c e ua a(1) nz by (simp add: node_ok_def q_def p_def)
  show "addrs q = insert (unat a) (addrs d)"
    using addrs_up[of q d] c ua by (simp add: q_def p_def mult.commute)
qed

lemma grow_down:
  assumes ok: "node_ok N d" and N: "N < 2 ^ 26" and a: "unat a < 2 ^ 62" "a = it_start d - ucast (diff d)"
    and nz: "diff d \<noteq> 0"
  defines "p \<equiv> d\<lparr>it_start := a, count := count d + 1\<rparr>"
  shows "node_ok (Suc N) p" and "addrs p = insert (unat a) (addrs d)"
proof -
  let ?s = "unat (it_start d)" and ?D = "unat (diff d)" and ?c = "unat (count d)"
  have D: "?D < 64" "?c \<le> N" "0 < ?c" "unat (it_last d) = ?s + ?D * (?c - 1)" "unat (it_last d) < 2 ^ 62"
    using ok by (auto simp: node_ok_def)
  have c: "unat (count p) = Suc ?c" using D(2) N by (simp add: p_def unat_Suc_32)
  have sum: "it_start d = a + ucast (diff d)" using a(2) by simp
  have "unat (it_start d) = unat a + ?D" unfolding sum using a(1) D(1) by (simp add: unat_word_ariths)
  then have s: "?s = unat a + ?D" .
  show "node_ok (Suc N) p"
    using D c s a(1) nz by (cases ?c) (auto simp: node_ok_def p_def)
  have "addrs p = {unat a + i * ?D |i. i < Suc ?c}" using c by (simp add: addrs_def p_def)
  also have "\<dots> = insert (unat a) {unat a + Suc i * ?D |i. i < ?c}"
    by (auto simp: less_Suc_eq_0_disj) (metis mult_Suc)+
  also have "{unat a + Suc i * ?D |i. i < ?c} = addrs d" by (simp add: addrs_def s ac_simps)
  finally show "addrs p = insert (unat a) (addrs d)" .
qed

text \<open>
  The accesses the code gives up: inside the hull of an interval (whether or not on its stride), or
  64 bytes or more above, or below, a single access of the same site.
\<close>

definition dropped :: "it_data \<Rightarrow> size_t \<Rightarrow> bool" where
  "dropped d a \<longleftrightarrow> (if diff d \<noteq> 0 then it_start d \<le> a \<and> a \<le> it_last d else \<not> a - it_start d < 64)"

definition absorbed_well :: "nat \<Rightarrow> size_t \<Rightarrow> it_data \<Rightarrow> it_data \<Rightarrow> bool" where
  "absorbed_well N a d p \<longleftrightarrow> node_ok (Suc N) p \<and> site p = site d \<and> subtree_last p = subtree_last d \<and>
     addrs d \<subseteq> addrs p \<and> addrs p \<subseteq> insert (unat a) (addrs d) \<and> (unat a \<in> addrs p \<or> dropped d a)"

lemma node_ok_Suc: "node_ok N d \<Longrightarrow> node_ok (Suc N) d"
  by (simp add: node_ok_def)

lemma absorb_stride:
  assumes ok: "node_ok N d" and N: "N < 2 ^ 26" and a: "unat (it_start node) < 2 ^ 62" and nz: "diff d \<noteq> 0"
    and ret: "fst (absorb node d)"
  shows "absorbed_well N (it_start node) d (snd (absorb node d))"
proof -
  let ?a = "it_start node"
  have e: "END_of d = it_last d" by (rule node_ok_END[OF ok N])
  consider (up) "?a = it_last d + ucast (diff d)"
    | (mid) "?a \<noteq> it_last d + ucast (diff d)" "it_start d \<le> ?a" "?a \<le> it_last d"
    | (down) "?a \<noteq> it_last d + ucast (diff d)" "\<not> (it_start d \<le> ?a \<and> ?a \<le> it_last d)" "?a = it_start d - ucast (diff d)"
    using ret nz e by (auto simp: absorb_def Let_def split: if_splits)
  then show ?thesis
  proof cases
    case up
    with nz e grow_up[OF ok N a up nz] show ?thesis
      by (auto simp: absorbed_well_def absorb_def Let_def site_def)
  next
    case mid
    with nz e node_ok_Suc[OF ok] show ?thesis
      by (auto simp: absorbed_well_def absorb_def Let_def dropped_def)
  next
    case down
    then have "snd (absorb node d) = d\<lparr>it_start := ?a, count := count d + 1\<rparr>"
      using nz e by (simp add: absorb_def Let_def del: de_Morgan_conj)
    with grow_down[OF ok N a down(3) nz] show ?thesis
      by (auto simp: absorbed_well_def site_def)
  qed
qed

lemma absorb_single:
  assumes ok: "node_ok N d" and N: "N < 2 ^ 26" and a: "unat (it_start node) < 2 ^ 62" and z: "diff d = 0"
  shows "absorbed_well N (it_start node) d (snd (absorb node d))"
proof (cases "it_start node - it_start d \<noteq> 0 \<and> it_start node - it_start d < 64")
  case False
  have "unat (it_start d) \<in> addrs d"
    using ok by (auto simp: addrs_def node_ok_def intro!: exI[of _ 0])
  with False z node_ok_Suc[OF ok] show ?thesis
    by (auto simp: absorbed_well_def absorb_def Let_def dropped_def)
next
  case True
  let ?\<delta> = "it_start node - it_start d"
  let ?d = "d\<lparr>diff := ucast ?\<delta>\<rparr>"
  have dl: "unat ?\<delta> < 64" using True by (simp add: word_less_nat_alt)
  have u: "unat (ucast ?\<delta> :: 32 word) = unat ?\<delta>"
    using dl by (simp add: unat_ucast_64_32)
  have ok': "node_ok N ?d" "addrs ?d = addrs d"
    using ok z dl u by (auto simp: node_ok_def addrs_def)
  have nz: "diff ?d \<noteq> 0" using True u by (metis it_data.select_convs(6) it_data.surjective it_data.update_convs(6) unat_eq_0 unsigned_0)
  have "END_of d = it_start d" using z by (simp add: END_of_def)
  have ls: "it_last d = it_start d" using node_ok_END[OF ok N] \<open>END_of d = it_start d\<close> by simp
  have bk: "ucast (ucast ?\<delta> :: 32 word) = ?\<delta>" by (simp add: word_unat_eq_iff u)
  have upx: "it_start node = it_last ?d + ucast (diff ?d)" using ls bk by simp
  have "snd (absorb node d) = (let p = ?d\<lparr>count := count ?d + 1\<rparr> in p\<lparr>it_last := END_of p\<rparr>)"
    using True z \<open>END_of d = it_start d\<close> by (simp add: absorb_def Let_def)
  with grow_up[OF ok'(1) N a upx nz] ok'(2) show ?thesis
    by (auto simp: absorbed_well_def site_def Let_def)
qed

lemma absorb_ok:
  assumes "node_ok N d" "N < 2 ^ 26" "unat (it_start node) < 2 ^ 62" "fst (absorb node d)"
  shows "absorbed_well N (it_start node) d (snd (absorb node d))"
  using absorb_stride absorb_single assms by (cases "diff d = 0") auto


section \<open>The descent\<close>

definition data_descended ::
    "it_data \<Rightarrow> ptree \<Rightarrow> frame list \<Rightarrow> it_state \<Rightarrow> (link \<times> ptr) option \<Rightarrow> it_state \<Rightarrow> bool" where
  "data_descended node t k s r s' \<longleftrightarrow> rb_root s' = rb_root s \<and> links (mem s') = links (mem s) \<and>
     (\<forall>y. y \<notin> set (inorder t) \<longrightarrow> mores (mem s') y = mores (mem s) y) \<and>
     (let m = mores (mem s); m' = mores (mem s') in
      case r of
        Some (link, rbp) \<Rightarrow> stripm m' = stripm m \<and>
          (\<exists>k'. link = clink k' \<and> rbp = cpar k' \<and> plug Leaf k' = plug t k)
      | None \<Rightarrow> \<exists>x\<in>set (inorder t). same_site node (dat m x) \<and> fst (absorb node (dat m x)) \<and>
          stripm m' = (stripm m)(x \<mapsto> strip (snd (absorb node (dat m x)))))"

lemma data_descended_step:
  assumes "data_descended node t1 k1 s1 r s'" and "rb_root s1 = rb_root s" "links (mem s1) = links (mem s)"
    and "stripm (mores (mem s1)) = stripm (mores (mem s))"
    and out: "\<And>y. y \<noteq> x \<Longrightarrow> mores (mem s1) y = mores (mem s) y" "x \<notin> set (inorder t1)" "x \<in> set (inorder t)"
    and "plug t1 k1 = plug t k" "set (inorder t1) \<subseteq> set (inorder t)"
  shows "data_descended node t k s r s'"
proof -
  have 1: "mores (mem s1) y = mores (mem s) y" if "y \<in> set (inorder t1)" for y
    by (rule out(1)) (use that out(2) in auto)
  have 2: "mores (mem s') y = mores (mem s) y" if "y \<notin> set (inorder t)" for y
  proof -
    have "y \<notin> set (inorder t1)" "y \<noteq> x" using that assms(9) out(3) by auto
    then show ?thesis using assms(1) out(1)[of y] by (simp add: data_descended_def)
  qed
  show ?thesis using assms(1-4,8,9) 1 2 by (cases r) (auto simp: data_descended_def Let_def)
qed

lemma stripm_upd_Some: "stripm (m(x \<mapsto> d)) = (stripm m)(x \<mapsto> strip d)"
  by (auto simp: stripm_def)

lemma insert_data_descend_ok:
  "tree_rep s (plug t k) \<Longrightarrow>
   \<exists>r s'. insert_data_descend node (clink k) (cpar k) s = Some (r, s') \<and> data_descended node t k s r s'"
proof (induction t arbitrary: k s)
  case Leaf
  then have "crep (mem s) (rb_root s) k 0" by (simp add: tree_rep_plug)
  from get_link_ok[OF this] show ?case
    by (auto simp: insert_data_descend.simps[of node "clink k"] data_descended_def)
next
  case (Node l x c r)
  let ?m = "mores (mem s)"
  let ?d = "dat ?m x"
  have na: "node_at (mem s) x (cpar k) c (rootp l) (rootp r)" and cr: "crep (mem s) (rb_root s) k x"
    and d: "distinct (inorder l @ x # inorder r)"
    using Node.prems by (auto simp: tree_rep_plug)
  then obtain n where n: "mem s x = Some n" "x \<noteq> 0" by (auto simp: node_at_mem)
  then have mx: "?m x = Some (rb_node.more n)" and dx: "rb_node.more n = ?d" by (simp_all add: mores_Some)
  have fx: "itf f x s = Some (f ?d)" for f using n dx by (simp add: itf_Some)
  obtain s0 where s0: "itu (\<lambda>_. snd (absorb node ?d)) x s = Some s0" "rb_root s0 = rb_root s"
    "links (mem s0) = links (mem s)" "mores (mem s0) = ?m(x \<mapsto> snd (absorb node ?d))"
    using itu_ok[OF n(2,1), of "\<lambda>_. snd (absorb node ?d)"] by blast
  note run = insert_data_descend.simps[of node "clink k" "cpar k" s] get_link_ok[OF cr]
  show ?case
  proof (cases "same_site node ?d \<and> fst (absorb node ?d)")
    case True
    then have "insert_data_descend node (clink k) (cpar k) s = Some (None, s0)"
      using n(2) fx[of "\<lambda>d. d"] s0(1) by (simp add: run)
    moreover have "data_descended node (Node l x c r) k s None s0"
      using True s0(2-4) by (auto simp: data_descended_def Let_def stripm_upd_Some)
    ultimately show ?thesis by blast
  next
    case False
    let ?s0 = "if same_site node ?d then s0 else s"
    have same0: "rb_root ?s0 = rb_root s" "links (mem ?s0) = links (mem s)" "mores (mem ?s0) = ?m"
      using s0 False absorb_False[of node ?d "snd (absorb node ?d)"] mx[unfolded dx]
      by (auto simp: prod_eq_iff intro: map_upd_triv)
    obtain n0 where n0: "mem ?s0 x = Some n0" using links_mem[OF same0(2) n(1)] by blast
    have dn0: "rb_node.more n0 = ?d" using n0 same0(3) by (metis mores_Some option.sel)
    obtain s1 where s1: "(if subtree_last ?d < it_last node then itu (subtree_last_update (\<lambda>_. it_last node)) x ?s0 else Some ?s0) = Some s1"
      "rb_root s1 = rb_root s" "links (mem s1) = links (mem s)"
      "mores (mem s1) = ?m(x \<mapsto> ?d\<lparr>subtree_last := max (subtree_last ?d) (it_last node)\<rparr>)"
      using raise_sub_ok[OF n(2) n0, of "it_last node"] dn0 same0 by auto
    have f0: "itf subtree_last x ?s0 = Some (subtree_last ?d)" using n(2) n0 dn0 by (simp add: itf_Some)
    have f1: "itf it_start x s1 = Some (it_start ?d)" using n(2) by (simp add: itf_mores s1(4))
    have body: "(if same_site node ?d then do {
                      s \<leftarrow> itu (\<lambda>_. snd (absorb node ?d)) x s;
                      Some (fst (absorb node ?d), s) }
                    else Some (False, s)) = Some (False, ?s0)"
      using False s0(1) by simp
    have step: "insert_data_descend node (clink k) (cpar k) s =
      (if it_start node < it_start ?d then insert_data_descend node (LeftLink x) x s1
       else insert_data_descend node (RightLink x) x s1)"
      using n(2) fx[of "\<lambda>d. d"] f0 f1 s1(1) body by (simp add: run)
    have sm: "stripm (mores (mem s1)) = stripm ?m"
      using mx dx s1(4) by (simp add: stripm_upd del: fun_upd_apply)
    have tr: "tree_rep s1 (plug l (LHole x c r # k))" "tree_rep s1 (plug r (RHole l x c # k))"
      using Node.prems tree_rep_links[OF s1(3,2)] by simp_all
    have out: "mores (mem s1) y = ?m y" if "y \<noteq> x" for y using that s1(4) by simp
    show ?thesis
    proof (cases "it_start node < it_start ?d")
      case True
      obtain q s' where q: "insert_data_descend node (LeftLink x) x s1 = Some (q, s')"
        "data_descended node l (LHole x c r # k) s1 q s'"
        using Node.IH(1)[OF tr(1)] by auto
      have "data_descended node (Node l x c r) k s q s'"
        by (rule data_descended_step[OF q(2) s1(2,3) sm out]) (use d in auto)
      with step True q(1) show ?thesis by auto
    next
      case False
      obtain q s' where q: "insert_data_descend node (RightLink x) x s1 = Some (q, s')"
        "data_descended node r (RHole l x c # k) s1 q s'"
        using Node.IH(2)[OF tr(2)] by auto
      have "data_descended node (Node l x c r) k s q s'"
        by (rule data_descended_step[OF q(2) s1(2,3) sm out]) (use d in auto)
      with step False q(1) show ?thesis by auto
    qed
  qed
qed


section \<open>Recording an access\<close>

text \<open>The accesses a tree stands for: site and address.\<close>

definition accesses :: "it_map \<Rightarrow> ptree \<Rightarrow> ((u8 \<times> size_t \<times> size_t set) \<times> nat) set" where
  "accesses m t = (\<Union>a\<in>set (inorder t). {site (dat m a)} \<times> addrs (dat m a))"

definition data_tree :: "nat \<Rightarrow> it_state \<Rightarrow> ptree \<Rightarrow> bool" where
  "data_tree N s t \<longleftrightarrow> tree_rep s t \<and> rb_tree t \<and> (\<forall>a\<in>set (inorder t). node_ok N (dat (mores (mem s)) a))"

definition lost :: "it_map \<Rightarrow> ptree \<Rightarrow> it_data \<Rightarrow> bool" where
  "lost m t node \<longleftrightarrow> (\<exists>a\<in>set (inorder t). same_site node (dat m a) \<and> dropped (dat m a) (it_start node))"

definition recorded :: "nat \<Rightarrow> it_data \<Rightarrow> it_state \<Rightarrow> ptree \<Rightarrow> it_state \<Rightarrow> ptree \<Rightarrow> bool" where
  "recorded N node s t s' T \<longleftrightarrow>
     (let m = mores (mem s); m' = mores (mem s'); new = (site node, unat (it_start node)) in
      data_tree (Suc N) s' T \<and> accesses m t \<subseteq> accesses m' T \<and> accesses m' T \<subseteq> insert new (accesses m t) \<and>
      (new \<in> accesses m' T \<or> lost m t node))"

lemma dom_mores: "dom (mores h) = dom h"
  by (auto simp: mores_def dom_def)

lemma dom_stripm: "dom (stripm m) = dom m"
  by (auto simp: stripm_def dom_def)

lemma mem_links: "links h x = links h' x \<Longrightarrow> mores h x = mores h' x \<Longrightarrow> h x = h' x"
  by (cases "h x"; cases "h' x") (auto simp: links_def mores_def)

lemma dom_links: "dom (links h) = dom h"
  by (auto simp: links_def dom_def)

text \<open>The two outcomes: a node changes in place, or a node is added.\<close>

lemma recorded_absorbed:
  assumes dt: "data_tree N s t" and N: "N < 2 ^ 26" and a: "unat (it_start node) < 2 ^ 62"
    and D: "data_descended node t [] s None s'"
  shows "recorded N node s t s' t"
proof -
  let ?m = "mores (mem s)" and ?m' = "mores (mem s')"
  obtain x where x: "x \<in> set (inorder t)" "same_site node (dat ?m x)" "fst (absorb node (dat ?m x))"
    and sm: "stripm ?m' = (stripm ?m)(x \<mapsto> strip (snd (absorb node (dat ?m x))))"
    and l: "rb_root s' = rb_root s" "links (mem s') = links (mem s)"
    using D by (auto simp: data_descended_def Let_def)
  let ?p = "snd (absorb node (dat ?m x))"
  have tr: "tree_rep s' t" using dt tree_rep_links[of s s' t] l by (simp add: data_tree_def)
  have some: "?m y \<noteq> None" "?m' y \<noteq> None" if "y \<in> set (inorder t)" for y
    using that dt tr rep_mem[of "mem s" 0 t y] rep_mem[of "mem s'" 0 t y]
    by (auto simp: data_tree_def tree_rep_def mores_def)
  have W: "absorbed_well N (it_start node) (dat ?m x) ?p"
    using absorb_ok[OF _ N a x(3)] dt x(1) by (simp add: data_tree_def)
  have sx: "strip (dat ?m' x) = strip ?p"
    using fun_cong[OF sm, of x] some(2)[OF x(1)] by (auto simp: stripm_def)
  have sy: "strip (dat ?m' y) = strip (dat ?m y)" if "y \<in> set (inorder t)" "y \<noteq> x" for y
    using fun_cong[OF sm, of y] some[OF that(1)] that(2) by (auto simp: stripm_def)
  have px: "site (dat ?m' x) = site (dat ?m x)" "addrs (dat ?m' x) = addrs ?p" "node_ok (Suc N) (dat ?m' x)"
    using W site_strip[OF sx] by (auto simp: absorbed_well_def)
  have py: "site (dat ?m' y) = site (dat ?m y)" "addrs (dat ?m' y) = addrs (dat ?m y)" "node_ok (Suc N) (dat ?m' y)"
    if "y \<in> set (inorder t)" "y \<noteq> x" for y
    using site_strip[OF sy[OF that]] dt that by (auto simp: data_tree_def intro: node_ok_Suc)
  have dt': "data_tree (Suc N) s' t"
    using dt tr px(3) py(3) by (fastforce simp: data_tree_def)
  have nx: "site node = site (dat ?m x)" using x(2) by (simp add: same_site_iff)
  have sub: "accesses ?m t \<subseteq> accesses ?m' t"
  proof
    fix e assume "e \<in> accesses ?m t"
    then obtain y v where e: "e = (site (dat ?m y), v)" "y \<in> set (inorder t)" "v \<in> addrs (dat ?m y)"
      by (auto simp: accesses_def)
    then have "site (dat ?m' y) = site (dat ?m y)" "v \<in> addrs (dat ?m' y)"
      using px py W by (cases "y = x"; auto simp: absorbed_well_def)+
    with e show "e \<in> accesses ?m' t" by (force simp: accesses_def)
  qed
  have sup: "accesses ?m' t \<subseteq> insert (site node, unat (it_start node)) (accesses ?m t)"
  proof
    fix e assume "e \<in> accesses ?m' t"
    then obtain y v where e: "e = (site (dat ?m' y), v)" "y \<in> set (inorder t)" "v \<in> addrs (dat ?m' y)"
      by (auto simp: accesses_def)
    then have "site (dat ?m' y) = site (dat ?m y)" "v \<in> addrs (dat ?m y) \<or> y = x \<and> v = unat (it_start node)"
      using px py W by (cases "y = x"; auto simp: absorbed_well_def)+
    with e nx show "e \<in> insert (site node, unat (it_start node)) (accesses ?m t)" by (force simp: accesses_def)
  qed
  have "unat (it_start node) \<in> addrs (dat ?m' x) \<or> dropped (dat ?m x) (it_start node)"
    using W px(2) by (auto simp: absorbed_well_def)
  then have "(site node, unat (it_start node)) \<in> accesses ?m' t \<or> lost ?m t node"
    using x(1,2) px(1) nx by (force simp: accesses_def lost_def)
  with dt' sub sup show ?thesis by (simp add: recorded_def)
qed

lemma recorded_added:
  assumes dt: "data_tree N s t" and a: "unat (it_start node) < 2 ^ 62" "it_last node = it_start node"
    and p: "mem s newp = None" and T: "tree_rep s' T" "rb_tree T" "set (inorder T) = insert newp (set (inorder t))"
    and sm: "stripm (mores (mem s')) = (stripm (mores (mem s)))(newp \<mapsto> strip
      (interval_tree_node (it_start node) (it_last node) (size_type node) (pc node) (mutex node)))"
  shows "recorded N node s t s' T"
proof -
  let ?m = "mores (mem s)" and ?m' = "mores (mem s')"
  let ?n = "interval_tree_node (it_start node) (it_last node) (size_type node) (pc node) (mutex node)"
  have some: "?m y \<noteq> None" if "y \<in> set (inorder t)" for y
    using that dt rep_mem[of "mem s" 0 t y] by (auto simp: data_tree_def tree_rep_def mores_def)
  have np: "newp \<notin> set (inorder t)" using some[of newp] p by (auto simp: mores_def)
  have some': "?m' y \<noteq> None" if "y \<in> set (inorder T)" for y
    using that T(1) rep_mem[of "mem s'" 0 T y] by (auto simp: tree_rep_def mores_def)
  have sn: "strip (dat ?m' newp) = strip ?n"
    using fun_cong[OF sm, of newp] some'[of newp] T(3) by (auto simp: stripm_def)
  have sy: "strip (dat ?m' y) = strip (dat ?m y)" if "y \<in> set (inorder t)" for y
    using fun_cong[OF sm, of y] some[OF that] some'[of y] T(3) that np by (auto simp: stripm_def split: if_splits)
  have n: "site ?n = site node" "addrs ?n = {unat (it_start node)}" "node_ok (Suc N) ?n"
    using a by (auto simp: site_def interval_tree_node_def addrs_def node_ok_def)
  note N = site_strip[OF sn, of "Suc N"] and Y = site_strip[OF sy, of _ "Suc N"]
  have "data_tree (Suc N) s' T"
    using dt T N n(3) Y by (auto simp: data_tree_def intro: node_ok_Suc)
  moreover have "accesses ?m' T = insert (site node, unat (it_start node)) (accesses ?m t)"
    using N n Y by (auto simp: accesses_def T(3))
  ultimately show ?thesis by (auto simp: recorded_def Let_def)
qed


text \<open>A node allocated and linked at a free link, whatever the order of the starts.\<close>

lemma add_node_ok:
  assumes tr: "tree_rep s (plug Leaf k)" and rb: "rb_tree (plug Leaf k)"
    and p: "newp \<noteq> 0" "aligned newp" "mem s newp = None"
  shows "\<exists>s2 s' T. alloc_node newp d s = Some s2 \<and>
    Option.bind (rb_link_node newp (cpar k) (clink k) s2) (rb_insert_augmented augment_rotate newp) = Some s' \<and>
    tree_rep s' T \<and> rb_tree T \<and> inorder T = cpre k @ newp # cpost k \<and>
    stripm (mores (mem s')) = (stripm (mores (mem s)))(newp \<mapsto> strip d)"
proof -
  let ?t = "plug Leaf k"
  let ?s2 = "s\<lparr>mem := (mem s)(newp \<mapsto> mk_node 0 0 0 d)\<rparr>"
  have al: "alloc_node newp d s = Some ?s2" using p(1,3) by (simp add: alloc_node_def)
  have io: "inorder ?t = cpre k @ cpost k" using inorder_plug[of Leaf k] by simp
  have r: "rep (mem s) 0 ?t" using tr by (simp add: tree_rep_def)
  then have npt: "newp \<notin> set (inorder ?t)" using rep_mem[of "mem s" 0 ?t newp] p(3) by auto
  have t2: "tree_rep ?s2 ?t" using tr npt by (simp add: tree_rep_def)
  have m2: "mores (mem ?s2) = (mores (mem s))(newp \<mapsto> d)" by (auto simp: mores_def mk_node_def)
  obtain s' T where fin: "Option.bind (rb_link_node newp (cpar k) (clink k) ?s2) (rb_insert_augmented augment_rotate newp) = Some s'"
    "tree_rep s' T" "rb_tree T" "inorder T = cpre k @ newp # cpost k"
    and ao: "it_aok (stripm (mores (mem ?s2))) False (mores (mem ?s2)) (plug (Node Leaf newp Red Leaf) k) \<longrightarrow>
      it_aok (stripm (mores (mem ?s2))) False (mores (mem s')) T"
    using it.link_insert_ok[OF t2 _ p(1,2), of "mk_node 0 0 0 d" "stripm (mores (mem ?s2))" False] rb npt io by auto
  have "mores (mem ?s2) y \<noteq> None" if "y \<in> set (inorder (plug (Node Leaf newp Red Leaf) k))" for y
    using that r rep_mem[of "mem s" 0 ?t y] io by (auto simp: m2 inorder_plug mores_def)
  then have "it_aok (stripm (mores (mem ?s2))) False (mores (mem s')) T" using ao by (simp add: it_aok_def)
  then have "stripm (mores (mem s')) = stripm (mores (mem ?s2))" by (simp add: it_aok_def)
  also have "\<dots> = (stripm (mores (mem s)))(newp \<mapsto> strip d)" unfolding m2 stripm_upd_Some ..
  finally show ?thesis using al fin by blast
qed

lemma insert_data_ok:
  assumes dt: "data_tree N s t" and N: "N < 2 ^ 26"
    and a: "unat (it_start node) < 2 ^ 62" "it_last node = it_start node"
    and p: "newp \<noteq> 0" "aligned newp" "mem s newp = None"
  shows "\<exists>s' T. interval_tree_insert_data newp node s = Some s' \<and> recorded N node s t s' T \<and>
    dom (mem s') \<subseteq> insert newp (dom (mem s)) \<and> set (inorder T) \<subseteq> insert newp (set (inorder t))"
proof -
  let ?m = "mores (mem s)"
  let ?n = "(interval_tree_node (it_start node) (it_last node) (size_type node) (pc node) (mutex node))
    \<lparr>subtree_last := it_last node\<rparr>"
  have tr: "tree_rep s (plug t [])" using dt by (simp add: data_tree_def)
  obtain r s1 where r: "insert_data_descend node RootLink 0 s = Some (r, s1)"
    and D: "data_descended node t [] s r s1"
    using insert_data_descend_ok[OF tr, of node] by auto
  then have lk: "rb_root s1 = rb_root s" "links (mem s1) = links (mem s)"
    by (auto simp: data_descended_def)
  have dm: "dom (mem s1) = dom (mem s)" using lk(2) by (metis dom_links)
  show ?thesis
  proof (cases r)
    case None
    have "recorded N node s t s1 t" by (rule recorded_absorbed[OF dt N a(1)]) (use D None in simp)
    moreover have "interval_tree_insert_data newp node s = Some s1"
      using r None by (simp add: interval_tree_insert_data_def)
    ultimately show ?thesis using dm by (intro exI[of _ s1] exI[of _ t]) auto
  next
    case (Some lp)
    then obtain k where k: "r = Some (clink k, cpar k)" "plug Leaf k = t" and sm1: "stripm (mores (mem s1)) = stripm ?m"
      using D by (cases lp) (auto simp: data_descended_def Let_def)
    have p1: "mem s1 newp = None" using p(3) dm by (metis domIff)
    have io: "inorder t = cpre k @ cpost k" using k(2) inorder_plug[of Leaf k] by simp
    have t1: "tree_rep s1 (plug Leaf k)" "rb_tree (plug Leaf k)"
      using tr tree_rep_links[of s s1 t] lk k(2) dt by (simp_all add: data_tree_def)
    obtain s2 s' T where al: "alloc_node newp ?n s1 = Some s2"
      and fin: "Option.bind (rb_link_node newp (cpar k) (clink k) s2) (rb_insert_augmented augment_rotate newp) = Some s'"
        "tree_rep s' T" "rb_tree T" "inorder T = cpre k @ newp # cpost k"
      and sm': "stripm (mores (mem s')) = (stripm (mores (mem s1)))(newp \<mapsto> strip ?n)"
      using add_node_ok[OF t1 p(1,2) p1, of ?n] by blast
    have sm: "stripm (mores (mem s')) = (stripm ?m)(newp \<mapsto> strip ?n)" using sm' sm1 by simp
    have "recorded N node s t s' T"
      by (rule recorded_added[OF dt a p(3) fin(2,3)]) (use fin(4) io sm in simp_all)
    moreover have "interval_tree_insert_data newp node s = Some s'"
      using r k(1) al fin(1) by (simp add: interval_tree_insert_data_def)
    moreover have "dom (mem s') = insert newp (dom (mem s))"
      using arg_cong[OF sm, of dom] by (simp add: dom_stripm dom_mores)
    moreover have "set (inorder T) \<subseteq> insert newp (set (inorder t))" using fin(4) io by auto
    ultimately show ?thesis by (intro exI[of _ s'] exI[of _ T]) simp
  qed
qed


text \<open>Two same-site singles 64 bytes or more apart: the second is forgotten at once.\<close>

lemma itu_same: "x \<noteq> 0 \<Longrightarrow> mem s x = Some n \<Longrightarrow> itu (\<lambda>_. rb_node.more n) x s = Some s"
  by (cases n; cases s) (auto simp: itu_def st_def map_upd_triv)

lemma insert_data_far_ok:
  assumes "tree_rep s (Node l x c r)" "same_site node (dat (mores (mem s)) x)"
    and "diff (dat (mores (mem s)) x) = 0" "64 \<le> it_start node - it_start (dat (mores (mem s)) x)"
  shows "interval_tree_insert_data newp node s = Some s"
proof -
  obtain n where n: "mem s x = Some n" "x \<noteq> 0" "rb_root s = x"
    using assms(1) by (auto simp: tree_rep_def node_at_mem)
  then have d: "dat (mores (mem s)) x = rb_node.more n" by (simp add: mores_def)
  have "absorb node (rb_node.more n) = (True, rb_node.more n)"
    using assms(3,4) by (auto simp: d absorb_def Let_def not_less[symmetric])
  then have "insert_data_descend node RootLink 0 s = Some (None, s)"
    using n assms(2) itu_same[OF n(2,1)]
    by (simp add: insert_data_descend.simps d itf_Some)
  then show ?thesis by (simp add: interval_tree_insert_data_def)
qed

section \<open>Properties\<close>

text \<open>A strided interval at 16 (two accesses, at 1000 and 1008) with a single of another site at 8 below it.\<close>

definition two_sites :: it_state where
  "two_sites = \<lparr>rb_root = 16, mem =
     [8 \<mapsto> mk_node 16 0 0 ((interval_tree_node 996 996 0x31 7 {})\<lparr>subtree_last := 996\<rparr>),
      16 \<mapsto> mk_node 1 8 0 ((interval_tree_node 1000 1008 0x31 5 {})\<lparr>subtree_last := 1008, count := 2, diff := 8\<rparr>)]\<rparr>"

definition two_tree :: ptree where
  "two_tree = Node (Node Leaf 8 Red Leaf) 16 Black Leaf"

lemmas two_defs = two_sites_def two_tree_def mk_node_def interval_tree_node_def mores_def

lemma two_sites_ok: "data_tree 2 two_sites two_tree"
  by (simp add: two_defs data_tree_def tree_rep_def node_at_def links_def aligned_def rb_tree_def node_ok_def)

text \<open>C7: recording an access never fails: the tree stays red-black with no field wrapped around, it stands for
  everything it stood for before, for nothing that was not recorded, and for the new access too unless a
  node of the same site dropped it (inside its hull, or 64 bytes or more from a single access).\<close>

theorem insert_data_correct:
  assumes "data_tree N s t" "N < 2 ^ 26" "unat (it_start node) < 2 ^ 62" "it_last node = it_start node"
    and "newp \<noteq> 0" "aligned newp" "mem s newp = None"
  shows "\<exists>s' T. interval_tree_insert_data newp node s = Some s' \<and> data_tree (Suc N) s' T \<and>
    accesses (mores (mem s)) t \<subseteq> accesses (mores (mem s')) T \<and>
    accesses (mores (mem s')) T \<subseteq> insert (site node, unat (it_start node)) (accesses (mores (mem s)) t) \<and>
    ((site node, unat (it_start node)) \<in> accesses (mores (mem s')) T \<or> lost (mores (mem s)) t node)"
  using insert_data_ok[OF assms] by (auto simp: recorded_def Let_def)

theorem insert_data_correct_witness:
  "\<exists>s' T. interval_tree_insert_data 24 (interval_tree_node 1016 1016 0x31 5 {}) two_sites = Some s' \<and>
    data_tree 3 s' T \<and> ((0x31, 5, {}), 1000) \<in> accesses (mores (mem s')) T"
proof -
  let ?n = "interval_tree_node 1016 1016 0x31 5 {}"
  have "((0x31, 5, {}), 1000) \<in> accesses (mores (mem two_sites)) two_tree"
    by (auto simp: two_defs accesses_def site_def addrs_def intro!: exI[of _ 0])
  with insert_data_correct[OF two_sites_ok, of ?n 24] show ?thesis
    by (auto simp: interval_tree_node_def two_sites_def aligned_def)
qed

text \<open>An access 64 bytes or more above (or anywhere below) a single access of the same site at the root is
  forgotten: the tree does not change.\<close>

theorem insert_data_drops_far:
  assumes "tree_rep s (Node l x c r)" "same_site node (dat (mores (mem s)) x)"
    and "diff (dat (mores (mem s)) x) = 0" "64 \<le> it_start node - it_start (dat (mores (mem s)) x)"
  shows "interval_tree_insert_data newp node s = Some s"
  by (rule insert_data_far_ok[OF assms])

theorem insert_data_drops_far_witness:
  "interval_tree_insert_data 40 (interval_tree_node 5000 5000 0x31 8 {}) (three it_sample) = Some (three it_sample)"
  by (rule insert_data_drops_far[OF three_rep[unfolded tree3_def]])
    (simp_all add: three_def mores_def mk_node_def it_sample_def interval_tree_node_def same_site_def)

text \<open>Extending an interval downwards can break the search order: here 992 joins the interval at 1000, whose
  left child starts at 996.\<close>

theorem insert_data_breaks_order:
  "by_start (mores (mem two_sites)) two_tree \<and>
   (\<exists>s'. interval_tree_insert_data 24 (interval_tree_node 992 992 0x31 5 {}) two_sites = Some s' \<and>
      tree_rep s' two_tree \<and> \<not> by_start (mores (mem s')) two_tree)"
  by (simp add: two_defs by_start_def interval_tree_insert_data_def insert_data_descend.simps itf_def ld_def itu_def st_def
      same_site_def absorb_def Let_def END_of_def tree_rep_def node_at_def links_def aligned_def)

text \<open>Extending an interval upwards leaves a stale \<open>__subtree_last\<close>: after 1016 has joined the interval at 1000,
  the root still says 1008.\<close>

theorem insert_data_breaks_max:
  "aug_ok (mores (mem two_sites)) two_tree \<and>
   (\<exists>s'. interval_tree_insert_data 24 (interval_tree_node 1016 1016 0x31 5 {}) two_sites = Some s' \<and>
      tree_rep s' two_tree \<and> \<not> aug_ok (mores (mem s')) two_tree)"
  by (simp add: two_defs interval_tree_insert_data_def insert_data_descend.simps itf_def ld_def itu_def st_def
      same_site_def absorb_def Let_def END_of_def tree_rep_def node_at_def links_def aligned_def)

end
