(* ===== verification/SwordCommon.thy ===== *)
theory SwordCommon
  imports Prelude
begin

text \<open>
  The trace records of \<open>rtl/sword_common.h\<close>: packed accesses, mutex events, the tagged union
  \<open>TraceItem\<close>, equality and hashing. \<open>boost::hash_combine\<close> is a parameter.
\<close>

section \<open>Accesses\<close>

datatype AccessSize = size1 | size2 | size4 | size8 | size16

datatype AccessType = unsafe_read | unsafe_write | atomic_read | atomic_write

primrec size_code :: "AccessSize \<Rightarrow> u8" where
  "size_code size1 = 0"
| "size_code size2 = 1"
| "size_code size4 = 2"
| "size_code size8 = 3"
| "size_code size16 = 4"

primrec type_code :: "AccessType \<Rightarrow> u8" where
  "type_code unsafe_read = 0"
| "type_code unsafe_write = 1"
| "type_code atomic_read = 2"
| "type_code atomic_write = 3"

text \<open>\<open>Int48\<close> is a bit field of 48 bits: assigning to it truncates.\<close>

record access =
  acc_size_type :: u8
  acc_address :: size_t
  acc_pc :: "48 word"

definition access_default :: access where
  "access_default = \<lparr>acc_size_type = 0, acc_address = 0, acc_pc = 0\<rparr>"

definition mk_access :: "AccessSize \<Rightarrow> AccessType \<Rightarrow> size_t \<Rightarrow> size_t \<Rightarrow> access" where
  "mk_access as at a p =
     \<lparr>acc_size_type = push_bit 4 (size_code as) OR type_code at, acc_address = a, acc_pc = ucast p\<rparr>"

definition setData :: "AccessSize \<Rightarrow> AccessType \<Rightarrow> size_t \<Rightarrow> size_t \<Rightarrow> access \<Rightarrow> access" where
  "setData as at a p acc =
     acc\<lparr>acc_size_type := push_bit 4 (size_code as) OR type_code at, acc_address := a, acc_pc := ucast p\<rparr>"

definition getAccessSizeType :: "access \<Rightarrow> u8" where
  "getAccessSizeType a = acc_size_type a"

definition getAccessSize :: "access \<Rightarrow> u8" where
  "getAccessSize a = drop_bit 4 (acc_size_type a)"

definition getAccessType :: "access \<Rightarrow> u8" where
  "getAccessType a = acc_size_type a AND 0x0F"

definition getAddress :: "access \<Rightarrow> size_t" where
  "getAddress a = acc_address a"

definition getPC :: "access \<Rightarrow> size_t" where
  "getPC a = ucast (acc_pc a)"

definition access_eq :: "access \<Rightarrow> access \<Rightarrow> bool" where
  "access_eq a b \<longleftrightarrow> getAccessSizeType a = getAccessSizeType b \<and> getAddress a = getAddress b \<and> getPC a = getPC b"

text \<open>\<open>hash_combine hc seed v\<close>: \<open>hc\<close> mixes the hash of a value into a seed; integers hash to themselves.\<close>

type_synonym hash_combine = "64 word \<Rightarrow> 64 word \<Rightarrow> 64 word"

definition hash_access :: "hash_combine \<Rightarrow> access \<Rightarrow> 64 word" where
  "hash_access hc a = hc (hc (hc 0 (getAddress a)) (ucast (getAccessSizeType a))) (getPC a)"

section \<open>Events\<close>

record parallel_rec =
  par_id :: "64 word"
  par_team_size :: uint

record mutex_region =
  mr_kind :: uint
  mr_wait_id :: "64 word"

definition getKind :: "mutex_region \<Rightarrow> uint" where
  "getKind m = mr_kind m"

definition getWaitId :: "mutex_region \<Rightarrow> 64 word" where
  "getWaitId m = mr_wait_id m"

definition mutex_eq :: "mutex_region \<Rightarrow> mutex_region \<Rightarrow> bool" where
  "mutex_eq a b \<longleftrightarrow> getKind a = getKind b \<and> getWaitId a = getWaitId b"

definition hash_mutex :: "hash_combine \<Rightarrow> mutex_region \<Rightarrow> 64 word" where
  "hash_mutex hc a = hc (hc 0 (ucast (getKind a))) (getWaitId a)"

record task_dependence =
  td_task_id :: "64 word"
  td_variable_addr :: "64 word"
  td_flags :: uint

text \<open>The constructor with arguments stores the task, not the variable and the flags.\<close>

definition mk_task_dependence :: "64 word \<Rightarrow> 64 word \<Rightarrow> uint \<Rightarrow> task_dependence" where
  "mk_task_dependence tid va df = \<lparr>td_task_id = tid, td_variable_addr = 0, td_flags = 0\<rparr>"

datatype CallbackType =
    data_access | parallel_begin | parallel_end | work | master | sync_region
  | mutex_acquired | mutex_released | task_create | task_schedule | task_dep | os_label

primrec callback_code :: "CallbackType \<Rightarrow> u8" where
  "callback_code data_access = 0"
| "callback_code parallel_begin = 1"
| "callback_code parallel_end = 2"
| "callback_code work = 3"
| "callback_code master = 4"
| "callback_code sync_region = 5"
| "callback_code mutex_acquired = 6"
| "callback_code mutex_released = 7"
| "callback_code task_create = 8"
| "callback_code task_schedule = 9"
| "callback_code task_dep = 10"
| "callback_code os_label = 11"

text \<open>The union keeps the member that was stored last.\<close>

datatype item_data = Access access | Parallel parallel_rec | Mutex mutex_region

record trace_item =
  item_type :: u8
  item_data :: item_data

definition item_access :: "CallbackType \<Rightarrow> access \<Rightarrow> trace_item" where
  "item_access t a = \<lparr>item_type = callback_code t, item_data = Access a\<rparr>"

definition item_parallel :: "CallbackType \<Rightarrow> parallel_rec \<Rightarrow> trace_item" where
  "item_parallel t a = \<lparr>item_type = callback_code t, item_data = Parallel a\<rparr>"

definition item_mutex :: "CallbackType \<Rightarrow> mutex_region \<Rightarrow> trace_item" where
  "item_mutex t a = \<lparr>item_type = callback_code t, item_data = Mutex a\<rparr>"

definition setType :: "CallbackType \<Rightarrow> trace_item \<Rightarrow> trace_item" where
  "setType t i = i\<lparr>item_type := callback_code t\<rparr>"

definition getType :: "trace_item \<Rightarrow> u8" where
  "getType i = item_type i"

text \<open>
  Equality and hash look at the member the tag names. Reading a member that was not stored last is
  undefined in C++; such items (they are never built) compare unequal and hash by their tag here.
\<close>

definition item_eq :: "trace_item \<Rightarrow> trace_item \<Rightarrow> bool" where
  "item_eq a b \<longleftrightarrow>
     (if getType a \<noteq> getType b then False
      else if getType a = callback_code data_access then
        (case (item_data a, item_data b) of (Access x, Access y) \<Rightarrow> access_eq x y | _ \<Rightarrow> False)
      else if getType a = callback_code mutex_acquired \<or> getType a = callback_code mutex_released then
        (case (item_data a, item_data b) of (Mutex x, Mutex y) \<Rightarrow> mutex_eq x y | _ \<Rightarrow> False)
      else False)"

definition hash_item :: "hash_combine \<Rightarrow> trace_item \<Rightarrow> 64 word" where
  "hash_item hc a =
     (let val = hc 0 (ucast (getType a)) in
      if getType a = callback_code data_access then
        (case item_data a of Access x \<Rightarrow> hc val (hash_access hc x) | _ \<Rightarrow> val)
      else if getType a = callback_code mutex_acquired \<or> getType a = callback_code mutex_released then
        (case item_data a of Mutex x \<Rightarrow> hc val (hash_mutex hc x) | _ \<Rightarrow> val)
      else val)"

section \<open>Packing\<close>

lemma size_nibble: "drop_bit 4 (push_bit 4 (size_code as) OR type_code at) = size_code as"
  by (cases as; cases at) (simp_all add: push_bit_eq_mult)

lemma type_nibble: "(push_bit 4 (size_code as) OR type_code at) AND 0x0F = type_code at"
  by (cases as; cases at) (simp_all add: push_bit_eq_mult)

lemma size_code_inj [simp]: "size_code a = size_code b \<longleftrightarrow> a = b"
  by (cases a; cases b) simp_all

lemma type_code_inj [simp]: "type_code a = type_code b \<longleftrightarrow> a = b"
  by (cases a; cases b) simp_all

lemma callback_code_inj [simp]: "callback_code a = callback_code b \<longleftrightarrow> a = b"
  by (cases a; cases b) simp_all

lemma ucast_48_64 [simp]: "unat (ucast (x :: 48 word) :: 64 word) = unat x"
proof -
  have "take_bit 64 (unat x) = unat x"
    by (rule take_bit_nat_eq_self) (use unsigned_less[of x, where 'a = nat] in simp)
  then show ?thesis by (simp add: unsigned_ucast_eq unsigned_take_bit_eq)
qed

lemma getPC_mk: "unat (getPC (mk_access as at a p)) = unat p mod 2 ^ 48"
  by (simp add: getPC_def mk_access_def) (simp add: unsigned_ucast_eq unsigned_take_bit_eq take_bit_eq_mod)

lemma getAccessSize_mk: "getAccessSize (mk_access as at a p) = size_code as"
  by (simp only: getAccessSize_def mk_access_def access.simps size_nibble)

lemma getAccessType_mk: "getAccessType (mk_access as at a p) = type_code at"
  by (simp only: getAccessType_def mk_access_def access.simps type_nibble)

lemma access_eq_iff: "access_eq a b \<longleftrightarrow> a = b"
proof -
  have "ucast (acc_pc a) = (ucast (acc_pc b) :: 64 word) \<longleftrightarrow> acc_pc a = acc_pc b"
    by (metis ucast_48_64 word_unat_eq_iff)
  then show ?thesis
    by (cases a; cases b) (auto simp: access_eq_def getAccessSizeType_def getAddress_def getPC_def)
qed

lemma mutex_eq_iff: "mutex_eq a b \<longleftrightarrow> a = b"
  by (cases a; cases b) (auto simp: mutex_eq_def getKind_def getWaitId_def)

text \<open>The items the runtime writes: an access, or a mutex event.\<close>

definition logged_item :: "trace_item \<Rightarrow> bool" where
  "logged_item i \<longleftrightarrow> (\<exists>a. i = item_access data_access a) \<or>
     (\<exists>m. i = item_mutex mutex_acquired m) \<or> (\<exists>m. i = item_mutex mutex_released m)"

lemmas item_defs = item_access_def item_mutex_def getType_def

lemma item_eq_iff: "logged_item a \<Longrightarrow> logged_item b \<Longrightarrow> item_eq a b \<longleftrightarrow> a = b"
  unfolding logged_item_def
  by (elim disjE exE) (auto simp: item_eq_def item_defs access_eq_iff mutex_eq_iff)

section \<open>Properties\<close>

text \<open>C32: packing an access loses nothing but the program counter's bits above 48: size, kind and address are read
  back, and the constructor and \<open>setData\<close> agree.\<close>

theorem access_roundtrip:
  "getAccessSize (mk_access as at a p) = size_code as \<and> getAccessType (mk_access as at a p) = type_code at \<and>
   getAddress (mk_access as at a p) = a \<and> unat (getPC (mk_access as at a p)) = unat p mod 2 ^ 48 \<and>
   setData as at a p acc = mk_access as at a p"
  by (simp add: getPC_mk getAccessSize_mk getAccessType_mk, cases acc)
    (simp add: getAddress_def mk_access_def setData_def)

text \<open>On the items the runtime writes \<open>operator==\<close> is equality, and equal items have equal hashes, whatever
  \<open>hash_combine\<close> does.\<close>

theorem item_eq_hash:
  assumes "logged_item a" "logged_item b"
  shows "(item_eq a b \<longleftrightarrow> a = b) \<and> (item_eq a b \<longrightarrow> hash_item hc a = hash_item hc b)"
  using item_eq_iff[OF assms] by auto

theorem item_eq_hash_witness:
  "item_eq (item_access data_access (mk_access size4 unsafe_write 0x1000 7)) (item_access data_access (mk_access size4 unsafe_write 0x1000 7)) \<and>
   \<not> item_eq (item_access data_access (mk_access size4 unsafe_write 0x1000 7)) (item_access data_access (mk_access size4 unsafe_write 0x1008 7))"
proof -
  let ?a = "item_access data_access (mk_access size4 unsafe_write 0x1000 7)"
    and ?b = "item_access data_access (mk_access size4 unsafe_write 0x1008 7)"
  have "logged_item ?a" "logged_item ?b" by (auto simp: logged_item_def)
  then show ?thesis using item_eq_hash[of ?a ?a] item_eq_hash[of ?a ?b]
    by (simp add: item_access_def mk_access_def)
qed

end
