(* ===== verification/Overlap.thy ===== *)
theory Overlap
  imports IntervalData
begin

text \<open>
  Comparing two trees: \<open>interval_tree_overlap\<close> and \<open>solve_mip\<close> of \<open>tools/interval_tree_generic.h\<close>. GLPK is
  a parameter.
\<close>

section \<open>Conflicting accesses\<close>

text \<open>\<open>overlap\<close> on mutex sets: some element of the first is found in the second.\<close>

definition overlap_sets :: "size_t set \<Rightarrow> size_t set \<Rightarrow> bool" where
  "overlap_sets s1 s2 \<longleftrightarrow> (\<exists>i\<in>s1. i \<in> s2)"

abbreviation (input) unsafe_read :: u8 where "unsafe_read \<equiv> 0"
abbreviation (input) unsafe_write :: u8 where "unsafe_write \<equiv> 1"
abbreviation (input) atomic_read :: u8 where "atomic_read \<equiv> 2"
abbreviation (input) atomic_write :: u8 where "atomic_write \<equiv> 3"

definition get_access_type :: "it_data \<Rightarrow> u8" where
  "get_access_type d = size_type d AND 0x0F"

definition race :: "it_data \<Rightarrow> it_data \<Rightarrow> bool" where
  "race node1 node2 \<longleftrightarrow>
     get_access_type node1 = unsafe_write \<or>
     get_access_type node2 = unsafe_write \<or>
     (get_access_type node1 = atomic_write \<and> get_access_type node2 = unsafe_read) \<or>
     (get_access_type node2 = atomic_write \<and> get_access_type node1 = unsafe_read)"

section \<open>The integer program\<close>

text \<open>
  One row that is fixed to \<open>rhs\<close>, columns with bounds, row coefficient and objective coefficient. All numbers
  are integers that GLPK keeps as doubles; \<open>to_double\<close> is the conversion of the row bound, the only
  one that may exceed 53 bits.
\<close>

record mip_col =
  col_lb :: int
  col_ub :: int
  col_ar :: int
  col_obj :: int

record mip =
  row_rhs :: int
  cols :: "mip_col list"

record glpk =
  to_double :: "int \<Rightarrow> int"
  glp_exact :: "mip \<Rightarrow> int"
  glp_intopt :: "mip \<Rightarrow> int"
  glp_mip_status :: "mip \<Rightarrow> int"

abbreviation (input) GLP_FEAS :: int where "GLP_FEAS \<equiv> 2"
abbreviation (input) GLP_OPT :: int where "GLP_OPT \<equiv> 5"

definition access_size :: "it_data \<Rightarrow> nat" where
  "access_size d = 2 ^ unat (drop_bit 4 (size_type d))"

definition mip_problem :: "glpk \<Rightarrow> it_data \<Rightarrow> it_data \<Rightarrow> mip" where
  "mip_problem g node1 node2 =
     (let d = sint (it_start node1 - it_start node2) in
      \<lparr>row_rhs = to_double g (- 1 * d),
       cols =
        [\<lparr>col_lb = 0, col_ub = uint (count node1), col_ar = uint (diff node1), col_obj = uint (diff node1)\<rparr>,
         \<lparr>col_lb = 0, col_ub = uint (count node2), col_ar = - uint (diff node2), col_obj = uint (diff node2)\<rparr>,
         \<lparr>col_lb = 0, col_ub = int (access_size node1) - 1, col_ar = 1, col_obj = 0\<rparr>,
         \<lparr>col_lb = 0, col_ub = int (access_size node2) - 1, col_ar = - 1, col_obj = 0\<rparr>]\<rparr>)"

definition solve_mip :: "glpk \<Rightarrow> it_data \<Rightarrow> it_data \<Rightarrow> bool" where
  "solve_mip g node1 node2 =
     (let p = mip_problem g node1 node2 in
      if glp_exact g p = 0 then
        if glp_intopt g p = 0 then
          glp_mip_status g p = GLP_FEAS \<or> glp_mip_status g p = GLP_OPT
        else False
      else False)"

section \<open>Comparing\<close>

definition report_test :: "glpk \<Rightarrow> it_data \<Rightarrow> it_data \<Rightarrow> size_t \<Rightarrow> size_t \<Rightarrow> bool" where
  "report_test g node parent start lst =
     (let overlapping = (if mutex node \<noteq> {} \<and> mutex parent \<noteq> {} then overlap_sets (mutex node) (mutex parent) else False) in
      if race node parent \<and> \<not> overlapping then
        if start \<le> it_last parent \<and> it_start parent \<le> lst then
          let has_overlapping = (count parent = 1 \<and> count node = 1) in
          if \<not> has_overlapping then
            if it_start parent \<ge> start then solve_mip g parent node else solve_mip g node parent
          else has_overlapping
        else False
      else False)"

text \<open>
  The walk of one node of the second tree down the first, and the loop over the second tree. Both trees
  live in one store; the root in the state is that of the first tree.
\<close>

partial_function (option) overlap_walk ::
    "glpk \<Rightarrow> ptr \<Rightarrow> size_t \<Rightarrow> size_t \<Rightarrow> link \<Rightarrow> (it_data \<times> it_data) list \<Rightarrow> it_state \<Rightarrow>
       ((it_data \<times> it_data) list \<times> it_state) option" where
  "overlap_walk g node2 start lst link races s = do {
     x \<leftarrow> get_link link s;
     if x = 0 then Some (races, s)
     else do {
       parent \<leftarrow> itf (\<lambda>d. d) x s;
       node \<leftarrow> itf (\<lambda>d. d) node2 s;
       let races = (if report_test g node parent start lst then races @ [(node, parent)] else races);
       sub \<leftarrow> itf subtree_last x s;
       s \<leftarrow> (if sub < lst then itu (subtree_last_update (\<lambda>_. lst)) x s else Some s);
       pstart \<leftarrow> itf it_start x s;
       if start < pstart then overlap_walk g node2 start lst (LeftLink x) races s
       else overlap_walk g node2 start lst (RightLink x) races s
     }
   }"

partial_function (option) overlap_loop ::
    "glpk \<Rightarrow> ptr \<Rightarrow> (it_data \<times> it_data) list \<Rightarrow> it_state \<Rightarrow> ((it_data \<times> it_data) list \<times> it_state) option" where
  "overlap_loop g node2 races s =
     (if node2 = 0 then Some (races, s)
      else do {
        start \<leftarrow> itf it_start node2 s;
        lst \<leftarrow> itf it_last node2 s;
        (races, s) \<leftarrow> overlap_walk g node2 start lst RootLink races s;
        node2 \<leftarrow> rb_next node2 s;
        overlap_loop g node2 races s
      })"

definition interval_tree_overlap ::
    "glpk \<Rightarrow> ptr \<Rightarrow> (it_data \<times> it_data) list \<Rightarrow> it_state \<Rightarrow> ((it_data \<times> it_data) list \<times> it_state) option" where
  "interval_tree_overlap g root2 races s = do {
     node2 \<leftarrow> rb_first (s\<lparr>rb_root := root2\<rparr>);
     overlap_loop g node2 races s
   }"

section \<open>What the solver decides\<close>

text \<open>GLPK's documented behaviour: on a problem whose double-bounded columns have lower bound below upper bound
  the search succeeds exactly when an integer point exists; other problems are refused
  (\<open>GLP_EBOUND\<close>).\<close>

definition feasible :: "mip \<Rightarrow> bool" where
  "feasible p \<longleftrightarrow> (\<exists>xs. length xs = length (cols p) \<and>
     list_all2 (\<lambda>x c. col_lb c \<le> x \<and> x \<le> col_ub c) xs (cols p) \<and>
     (\<Sum>(x, c)\<leftarrow>zip xs (cols p). col_ar c * x) = row_rhs p)"

definition proper_bounds :: "mip \<Rightarrow> bool" where
  "proper_bounds p \<longleftrightarrow> list_all (\<lambda>c. col_lb c < col_ub c) (cols p)"

definition accepts :: "glpk \<Rightarrow> mip \<Rightarrow> bool" where
  "accepts g p \<longleftrightarrow> glp_exact g p = 0 \<and> glp_intopt g p = 0 \<and> (glp_mip_status g p = GLP_FEAS \<or> glp_mip_status g p = GLP_OPT)"

definition glpk_spec :: "glpk \<Rightarrow> mip \<Rightarrow> bool" where
  "glpk_spec g p \<longleftrightarrow> (proper_bounds p \<longrightarrow> (accepts g p \<longleftrightarrow> feasible p)) \<and> (\<not> proper_bounds p \<longrightarrow> glp_exact g p \<noteq> 0)"

definition exact_doubles :: "glpk \<Rightarrow> bool" where
  "exact_doubles g \<longleftrightarrow> (\<forall>x. \<bar>x\<bar> \<le> 2 ^ 53 \<longrightarrow> to_double g x = x)"

lemma solve_mip_accepts: "solve_mip g a b = accepts g (mip_problem g a b)"
  by (simp add: solve_mip_def accepts_def Let_def)

lemma feasible_mip:
  "feasible (mip_problem g a b) \<longleftrightarrow> (\<exists>x1 x2 b1 b2.
     0 \<le> x1 \<and> x1 \<le> uint (count a) \<and> 0 \<le> x2 \<and> x2 \<le> uint (count b) \<and>
     0 \<le> b1 \<and> b1 < int (access_size a) \<and> 0 \<le> b2 \<and> b2 < int (access_size b) \<and>
     uint (diff a) * x1 - uint (diff b) * x2 + b1 - b2 = to_double g (- sint (it_start a - it_start b)))"
  (is "_ \<longleftrightarrow> ?R")
proof
  assume "feasible (mip_problem g a b)"
  then obtain x1 x2 b1 b2 where
    "0 \<le> x1" "x1 \<le> uint (count a)" "0 \<le> x2" "x2 \<le> uint (count b)"
    "0 \<le> b1" "b1 \<le> int (access_size a) - 1" "0 \<le> b2" "b2 \<le> int (access_size b) - 1"
    "uint (diff a) * x1 + (- uint (diff b) * x2 + (b1 + - b2)) = to_double g (- sint (it_start a - it_start b))"
    by (auto simp: feasible_def mip_problem_def Let_def list_all2_Cons2)
  then show ?R by (intro exI[of _ x1] exI[of _ x2] exI[of _ b1] exI[of _ b2]) auto
next
  assume ?R
  then obtain x1 x2 b1 b2 where
    "0 \<le> x1 \<and> x1 \<le> uint (count a) \<and> 0 \<le> x2 \<and> x2 \<le> uint (count b) \<and>
     0 \<le> b1 \<and> b1 < int (access_size a) \<and> 0 \<le> b2 \<and> b2 < int (access_size b)"
    "uint (diff a) * x1 - uint (diff b) * x2 + b1 - b2 = to_double g (- sint (it_start a - it_start b))"
    by blast
  then show "feasible (mip_problem g a b)"
    unfolding feasible_def by (intro exI[of _ "[x1, x2, b1, b2]"]) (auto simp: mip_problem_def Let_def)
qed


lemma sint_diff:
  fixes a b :: size_t
  assumes "unat a \<le> 2 ^ 53" "unat b \<le> 2 ^ 53"
  shows "sint (a - b) = int (unat a) - int (unat b)"
proof -
  have "sint (word_of_int k :: 64 word) = signed_take_bit 63 k" for k by (transfer, simp)
  moreover have "a - b = word_of_int (uint a - uint b)" by (simp add: wi_hom_sub[symmetric] word_of_int_uint)
  ultimately have "sint (a - b) = signed_take_bit 63 (int (unat a) - int (unat b))"
    by (metis uint_nat)
  also have "\<dots> = int (unat a) - int (unat b)"
  proof -
    have "signed_take_bit 63 (int x - int y) = int x - int y" if "x \<le> 2 ^ 53" "y \<le> 2 ^ 53" for x y :: nat
      using that by (intro signed_take_bit_int_eq_self) auto
    from this[OF assms] show ?thesis .
  qed
  finally show ?thesis .
qed

text \<open>Two strided accesses, with \<open>m\<close> and \<open>n\<close> strides, touch a common byte.\<close>

definition meet :: "nat \<Rightarrow> nat \<Rightarrow> it_data \<Rightarrow> it_data \<Rightarrow> bool" where
  "meet m n a b \<longleftrightarrow> (\<exists>i<m. \<exists>j<n. \<exists>b1<access_size a. \<exists>b2<access_size b.
     unat (it_start a) + i * unat (diff a) + b1 = unat (it_start b) + j * unat (diff b) + b2)"

lemma solve_mip_meet:
  assumes g: "exact_doubles g" "glpk_spec g (mip_problem g a b)"
    and p: "0 < count a" "0 < count b" "1 < access_size a" "1 < access_size b"
    and s: "unat (it_start a) \<le> 2 ^ 53" "unat (it_start b) \<le> 2 ^ 53"
  shows "solve_mip g a b \<longleftrightarrow> meet (Suc (unat (count a))) (Suc (unat (count b))) a b"
proof -
  have pr: "proper_bounds (mip_problem g a b)"
    using p by (auto simp: proper_bounds_def mip_problem_def Let_def word_less_def)
  have "\<bar>- (int x - int y)\<bar> \<le> 2 ^ 53" if "x \<le> 2 ^ 53" "y \<le> 2 ^ 53" for x y :: nat using that by auto
  from this[OF s]
  have rhs: "to_double g (- sint (it_start a - it_start b)) = int (unat (it_start b)) - int (unat (it_start a))"
    using g(1) s by (simp add: exact_doubles_def sint_diff)
  have "solve_mip g a b \<longleftrightarrow> feasible (mip_problem g a b)"
    using g(2) pr by (simp add: glpk_spec_def solve_mip_accepts)
  also have "\<dots> \<longleftrightarrow> meet (Suc (unat (count a))) (Suc (unat (count b))) a b" (is "?L \<longleftrightarrow> ?M")
  proof
    assume ?L
    from this[unfolded feasible_mip rhs] obtain x1 x2 b1 b2 where x: "0 \<le> x1" "x1 \<le> uint (count a)" "0 \<le> x2" "x2 \<le> uint (count b)"
      "0 \<le> b1" "b1 < int (access_size a)" "0 \<le> b2" "b2 < int (access_size b)"
      "uint (diff a) * x1 - uint (diff b) * x2 + b1 - b2 = int (unat (it_start b)) - int (unat (it_start a))"
      by blast
    define i j c1 c2 where "i = nat x1" "j = nat x2" "c1 = nat b1" "c2 = nat b2"
    then have n: "x1 = int i" "x2 = int j" "b1 = int c1" "b2 = int c2" using x(1,3,5,7) by simp_all
    have "int (unat (it_start a) + i * unat (diff a) + c1) = int (unat (it_start b) + j * unat (diff b) + c2)"
      using x(9) by (simp add: n algebra_simps)
    moreover have "i \<le> unat (count a)" "j \<le> unat (count b)"
      using x(2,4) unfolding n uint_nat of_nat_le_iff by simp_all
    moreover have "c1 < access_size a" "c2 < access_size b" using x(6,8) by (simp_all add: n)
    ultimately show ?M unfolding meet_def of_nat_eq_iff less_Suc_eq_le by blast
  next
    assume ?M
    then obtain i j c1 c2 where x: "i < Suc (unat (count a))" "j < Suc (unat (count b))"
      "c1 < access_size a" "c2 < access_size b"
      "unat (it_start a) + i * unat (diff a) + c1 = unat (it_start b) + j * unat (diff b) + c2"
      unfolding meet_def by blast
    have "uint (diff a) * int i - uint (diff b) * int j + int c1 - int c2 = int (unat (it_start b)) - int (unat (it_start a))"
      using arg_cong[OF x(5), of int] by (simp add: algebra_simps)
    moreover have "int i \<le> uint (count a)" "int j \<le> uint (count b)"
      using x(1,2) unfolding uint_nat of_nat_le_iff less_Suc_eq_le by simp_all
    ultimately show ?L unfolding feasible_mip rhs using x
      by (intro exI[of _ "int i"] exI[of _ "int j"] exI[of _ "int c1"] exI[of _ "int c2"]) auto
  qed
  finally show ?thesis .
qed

lemma solve_mip_iff:
  assumes "exact_doubles g" "glpk_spec g (mip_problem g a b)"
    and "unat (it_start a) \<le> 2 ^ 53" "unat (it_start b) \<le> 2 ^ 53"
  shows "solve_mip g a b \<longleftrightarrow> 0 < count a \<and> 0 < count b \<and> 1 < access_size a \<and> 1 < access_size b \<and>
    meet (Suc (unat (count a))) (Suc (unat (count b))) a b"
proof (cases "0 < count a \<and> 0 < count b \<and> 1 < access_size a \<and> 1 < access_size b")
  case True
  then show ?thesis using solve_mip_meet[OF assms(1,2) _ _ _ _ assms(3,4)] by simp
next
  case False
  then have "\<not> proper_bounds (mip_problem g a b)"
    by (auto simp: proper_bounds_def mip_problem_def Let_def word_less_def)
  then have "\<not> solve_mip g a b" using assms(2) by (simp add: glpk_spec_def solve_mip_accepts accepts_def)
  then show ?thesis using False by blast
qed

lemma solve_mip_byte:
  assumes "glpk_spec g (mip_problem g a b)" "access_size a = 1 \<or> access_size b = 1"
  shows "\<not> solve_mip g a b"
proof -
  have "\<not> proper_bounds (mip_problem g a b)"
    using assms(2) by (auto simp: proper_bounds_def mip_problem_def Let_def)
  with assms(1) show ?thesis by (simp add: glpk_spec_def solve_mip_accepts accepts_def)
qed


section \<open>The walk is exact on the search path\<close>

fun path :: "(ptr \<Rightarrow> size_t) \<Rightarrow> size_t \<Rightarrow> ptree \<Rightarrow> ptr list" where
  "path key v Leaf = []"
| "path key v (Node l x c r) = x # (if v < key x then path key v l else path key v r)"

lemma path_cong: "(\<And>x. x \<in> set (inorder t) \<Longrightarrow> f x = g x) \<Longrightarrow> path f v t = path g v t"
  by (induction t) auto

lemma path_subset: "set (path key v t) \<subseteq> set (inorder t)"
  by (induction t) auto

definition found :: "glpk \<Rightarrow> it_map \<Rightarrow> ptr \<Rightarrow> ptree \<Rightarrow> (it_data \<times> it_data) list" where
  "found g m a t = [(dat m a, dat m x). x \<leftarrow> path (start_of m) (start_of m a) t,
     report_test g (dat m a) (dat m x) (it_start (dat m a)) (it_last (dat m a))]"

lemma overlap_walk_ok:
  "tree_rep s (plug t k) \<Longrightarrow> a \<noteq> 0 \<Longrightarrow> mores (mem s) a = Some nd \<Longrightarrow> a \<notin> set (inorder t) \<Longrightarrow>
   \<exists>s'. overlap_walk g a (it_start nd) (it_last nd) (clink k) races s
      = Some (races @ found g (mores (mem s)) a t, s') \<and>
     rb_root s' = rb_root s \<and> links (mem s') = links (mem s) \<and> stripm (mores (mem s')) = stripm (mores (mem s)) \<and>
     (\<forall>y. y \<notin> set (inorder t) \<longrightarrow> mores (mem s') y = mores (mem s) y)"
proof (induction t arbitrary: k s races)
  case Leaf
  then have "crep (mem s) (rb_root s) k 0" by (simp add: tree_rep_plug)
  from get_link_ok[OF this] show ?case
    by (auto simp: overlap_walk.simps[of g a "it_start nd" "it_last nd" "clink k"] found_def)
next
  case (Node l x c r)
  let ?m = "mores (mem s)"
  let ?d = "dat ?m x"
  let ?R = "if report_test g nd ?d (it_start nd) (it_last nd) then races @ [(nd, ?d)] else races"
  have na: "node_at (mem s) x (cpar k) c (rootp l) (rootp r)" and cr: "crep (mem s) (rb_root s) k x"
    and d: "distinct (inorder l @ x # inorder r)"
    using Node.prems by (auto simp: tree_rep_plug)
  then obtain n where n: "mem s x = Some n" "x \<noteq> 0" by (auto simp: node_at_mem)
  then have mx: "?m x = Some (rb_node.more n)" and dx: "rb_node.more n = ?d" by (simp_all add: mores_Some)
  have fx: "itf f x s = Some (f ?d)" for f using n dx by (simp add: itf_Some)
  have fa: "itf f a s = Some (f nd)" for f using Node.prems(2,3) by (simp add: itf_mores)
  have da: "dat ?m a = nd" using Node.prems(3) by simp
  obtain s1 where s1: "(if subtree_last ?d < it_last nd then itu (subtree_last_update (\<lambda>_. it_last nd)) x s else Some s) = Some s1"
    "rb_root s1 = rb_root s" "links (mem s1) = links (mem s)"
    "mores (mem s1) = ?m(x \<mapsto> ?d\<lparr>subtree_last := max (subtree_last ?d) (it_last nd)\<rparr>)"
    using raise_sub_ok[OF n(2,1), of "it_last nd"] dx by auto
  have f1: "itf it_start x s1 = Some (it_start ?d)" using n(2) by (simp add: itf_mores s1(4))
  have step: "overlap_walk g a (it_start nd) (it_last nd) (clink k) races s =
      (if it_start nd < it_start ?d then overlap_walk g a (it_start nd) (it_last nd) (LeftLink x) ?R s1
       else overlap_walk g a (it_start nd) (it_last nd) (RightLink x) ?R s1)"
    using get_link_ok[OF cr] n(2) fx[of "\<lambda>d. d"] fx[of subtree_last] fa[of "\<lambda>d. d"] f1 s1(1)
    by (simp add: overlap_walk.simps[of g a "it_start nd" "it_last nd" "clink k"] Let_def)
  have sm: "stripm (mores (mem s1)) = stripm ?m"
    using mx dx s1(4) by (simp add: stripm_upd del: fun_upd_apply)
  have ax: "a \<noteq> x" "a \<notin> set (inorder l)" "a \<notin> set (inorder r)" using Node.prems(4) by auto
  have na1: "mores (mem s1) a = Some nd" using Node.prems(3) ax s1(4) by simp
  have fnd: "found g (mores (mem s1)) a u = found g ?m a u" if "x \<notin> set (inorder u)" for u
  proof -
    have e: "mores (mem s1) y = ?m y" if "y \<noteq> x" for y using that s1(4) by simp
    have "path (start_of (mores (mem s1))) v u = path (start_of ?m) v u" for v
      by (rule path_cong) (simp add: s1(4))
    moreover have "dat (mores (mem s1)) y = dat ?m y" if "y \<in> set (path (start_of ?m) v u)" for y v
      by (subst e) (use path_subset[of "start_of ?m" v u] that \<open>x \<notin> set (inorder u)\<close> in auto)
    moreover have "dat (mores (mem s1)) a = dat ?m a" using e[OF ax(1)] by simp
    ultimately show ?thesis unfolding found_def by (intro arg_cong[where f = concat] map_cong) auto
  qed
  have tr: "tree_rep s1 (plug l (LHole x c r # k))" "tree_rep s1 (plug r (RHole l x c # k))"
    using Node.prems(1) tree_rep_links[OF s1(3,2)] by simp_all
  have out: "mores (mem s1) y = ?m y" if "y \<noteq> x" for y using that s1(4) by simp
  have R: "?R = races @ (if report_test g nd ?d (it_start nd) (it_last nd) then [(nd, ?d)] else [])" by simp
  show ?case
  proof (cases "it_start nd < it_start ?d")
    case True
    then have F: "?R @ found g (mores (mem s1)) a l = races @ found g ?m a (Node l x c r)"
      using fnd[of l] d da by (simp add: found_def)
    show ?thesis
      using Node.IH(1)[OF tr(1) Node.prems(2) na1 ax(2), of ?R] True step s1(2,3) sm out unfolding F by auto
  next
    case False
    then have F: "?R @ found g (mores (mem s1)) a r = races @ found g ?m a (Node l x c r)"
      using fnd[of r] d da by (simp add: found_def)
    show ?thesis
      using Node.IH(2)[OF tr(2) Node.prems(2) na1 ax(3), of ?R] False step s1(2,3) sm out unfolding F by auto
  qed
qed


section \<open>The loop over the second tree\<close>

lemma ld_root [simp]: "ld f p (s\<lparr>rb_root := r\<rparr>) = ld f p s"
  by (simp add: ld_def)

lemma go_left_root:
  assumes "go_left n s = Some y"
  shows "go_left n (s\<lparr>rb_root := r\<rparr>) = Some y"
proof (rule go_left.raw_induct[OF _ assms, where P = "\<lambda>n s y. go_left n (s\<lparr>rb_root := r\<rparr>) = Some y"])
  fix f :: "ptr \<Rightarrow> 'a rbs \<Rightarrow> ptr option" and n s y
  assume IH: "\<And>n s y. f n s = Some y \<Longrightarrow> go_left n (s\<lparr>rb_root := r\<rparr>) = Some y"
    and "do { l \<leftarrow> ld rb_left n s; if l \<noteq> 0 then f l s else Some n } = Some y"
  then show "go_left n (s\<lparr>rb_root := r\<rparr>) = Some y"
    by (auto simp: go_left.simps[of n] bind_eq_Some_conv split: if_splits)
qed

lemma climb_right_root:
  assumes "climb_right n s = Some y"
  shows "climb_right n (s\<lparr>rb_root := r\<rparr>) = Some y"
proof (rule climb_right.raw_induct[OF _ assms, where P = "\<lambda>n s y. climb_right n (s\<lparr>rb_root := r\<rparr>) = Some y"])
  fix f :: "ptr \<Rightarrow> 'a rbs \<Rightarrow> ptr option" and n s y
  assume IH: "\<And>n s y. f n s = Some y \<Longrightarrow> climb_right n (s\<lparr>rb_root := r\<rparr>) = Some y"
    and "do { parent \<leftarrow> rb_parent n s; if parent = 0 then Some parent
          else do { q \<leftarrow> ld rb_right parent s; if n = q then f parent s else Some parent } } = Some y"
  then show "climb_right n (s\<lparr>rb_root := r\<rparr>) = Some y"
    by (auto simp: climb_right.simps[of n] bind_eq_Some_conv rb_parent_def split: if_splits)
qed

text \<open>\<open>rb_next\<close> takes a node only: it does not depend on the root.\<close>

lemma rb_next_root:
  assumes "rb_next n s = Some y"
  shows "rb_next n (s\<lparr>rb_root := r\<rparr>) = Some y"
proof (cases "rb_empty_node n s = Some True")
  case True
  with assms show ?thesis by (simp add: rb_next_def rb_empty_node_def)
next
  case False
  with assms obtain q where q: "rb_empty_node n s = Some False" "ld rb_right n s = Some q"
    "(if q \<noteq> 0 then go_left q s else climb_right n s) = Some y"
    by (auto simp: rb_next_def bind_eq_Some_conv)
  have "(if q \<noteq> 0 then go_left q (s\<lparr>rb_root := r\<rparr>) else climb_right n (s\<lparr>rb_root := r\<rparr>)) = Some y"
    using q(3) go_left_root[of q s y r] climb_right_root[of n s y r] by (cases "q = 0") auto
  with q(1,2) show ?thesis by (simp add: rb_next_def rb_empty_node_def)
qed

definition strip2 :: "it_data \<times> it_data \<Rightarrow> it_data \<times> it_data" where
  "strip2 = map_prod strip strip"

lemma strip_eqD: "strip a = strip a' \<Longrightarrow> a' = a\<lparr>subtree_last := subtree_last a'\<rparr>"
  by (cases a; cases a') (auto simp: strip_def)

lemma mip_problem_sub: "mip_problem g (a\<lparr>subtree_last := x\<rparr>) (b\<lparr>subtree_last := y\<rparr>) = mip_problem g a b"
  by (simp add: mip_problem_def access_size_def Let_def)

lemma solve_mip_sub: "solve_mip g (a\<lparr>subtree_last := x\<rparr>) (b\<lparr>subtree_last := y\<rparr>) = solve_mip g a b"
  by (simp add: solve_mip_accepts mip_problem_sub)

lemma race_sub: "race (a\<lparr>subtree_last := x\<rparr>) (b\<lparr>subtree_last := y\<rparr>) = race a b"
  by (simp add: race_def get_access_type_def)

lemma report_test_sub: "report_test g (a\<lparr>subtree_last := x\<rparr>) (b\<lparr>subtree_last := y\<rparr>) v w = report_test g a b v w"
  by (simp add: report_test_def race_sub solve_mip_sub)

lemma report_test_strip:
  assumes "strip a = strip a'" "strip b = strip b'"
  shows "report_test g a' b' v w = report_test g a b v w"
proof -
  obtain x y where "a' = a\<lparr>subtree_last := x\<rparr>" "b' = b\<lparr>subtree_last := y\<rparr>"
    using strip_eqD[OF assms(1)] strip_eqD[OF assms(2)] by blast
  then show ?thesis by (simp add: report_test_sub)
qed

lemma found_strip:
  assumes sm: "stripm m' = stripm m" and a: "m a \<noteq> None" and t: "\<forall>x\<in>set (inorder t). m x \<noteq> None"
  shows "map strip2 (found g m' a t) = map strip2 (found g m a t)"
proof -
  have d: "strip (dat m' x) = strip (dat m x)" if "m x \<noteq> None" for x
    using stripm_dat[OF sm[symmetric] that] by simp
  note f = strip_fields[OF d]
  have p: "path (start_of m') v t = path (start_of m) v t" for v
    using t f by (intro path_cong) auto
  have some: "m x \<noteq> None" if "x \<in> set (path (start_of m) v t)" for x v
    using path_subset[of "start_of m" v t] t that by auto
  have e: "map strip2 (if report_test g (dat m' a) (dat m' x) (it_start (dat m a)) (it_last (dat m a)) then [(dat m' a, dat m' x)] else [])
      = map strip2 (if report_test g (dat m a) (dat m x) (it_start (dat m a)) (it_last (dat m a)) then [(dat m a, dat m x)] else [])"
    if "m x \<noteq> None" for x
    using report_test_strip[OF d[OF a] d[OF that]] d[OF a] d[OF that] by (simp add: strip2_def)
  have sl: "it_start (dat m' a) = it_start (dat m a)" "it_last (dat m' a) = it_last (dat m a)" using f[OF a] by auto
  show ?thesis
    unfolding found_def map_concat map_map comp_def p sl
    by (rule arg_cong[where f = concat], rule map_cong[OF refl], rule e, erule some)
qed

lemma overlap_loop_ok:
  assumes t2: "tree_rep (s2\<lparr>rb_root := root2\<rparr>) t2" and t1: "tree_rep s t1"
    and dis: "set (inorder t1) \<inter> set (inorder t2) = {}"
  shows "inorder t2 = xs @ ys \<Longrightarrow> rb_root s = rb_root s2 \<Longrightarrow> links (mem s) = links (mem s2) \<Longrightarrow>
    stripm (mores (mem s)) = stripm (mores (mem s2)) \<Longrightarrow>
    (\<forall>y. y \<notin> set (inorder t1) \<longrightarrow> mores (mem s) y = mores (mem s2) y) \<Longrightarrow>
   \<exists>R s'. overlap_loop g (hd0 ys) races s = Some (races @ R, s') \<and>
     map strip2 R = concat (map (\<lambda>a. map strip2 (found g (mores (mem s2)) a t1)) ys) \<and>
     rb_root s' = rb_root s2 \<and> links (mem s') = links (mem s2) \<and> stripm (mores (mem s')) = stripm (mores (mem s2)) \<and>
     (\<forall>y. y \<notin> set (inorder t1) \<longrightarrow> mores (mem s') y = mores (mem s2) y)"
  using t1
proof (induction ys arbitrary: xs s races)
  case Nil
  then show ?case by (simp add: overlap_loop.simps)
next
  case (Cons a ys)
  let ?m = "mores (mem s)" and ?m2 = "mores (mem s2)"
  have r2: "rep (mem s2) 0 t2" and r1: "rep (mem s) 0 t1" using t2 Cons.prems(6) by (simp_all add: tree_rep_def)
  have ain: "a \<in> set (inorder t2)" using Cons.prems(1) by simp
  have a0: "a \<noteq> 0" by (rule rep_nonnull[OF r2 ain])
  have "?m2 a \<noteq> None" using rep_mem[OF r2 ain] by (auto simp: mores_def)
  then have some: "?m a \<noteq> None" using stripm_None[OF Cons.prems(4)] by simp
  then obtain nd where nd: "?m a = Some nd" by auto
  have an: "a \<notin> set (inorder t1)" using dis ain by auto
  obtain s' where s': "overlap_walk g a (it_start nd) (it_last nd) RootLink races s = Some (races @ found g ?m a t1, s')"
    "rb_root s' = rb_root s" "links (mem s') = links (mem s)" "stripm (mores (mem s')) = stripm ?m"
    "\<forall>y. y \<notin> set (inorder t1) \<longrightarrow> mores (mem s') y = ?m y"
    using overlap_walk_ok[of s t1 "[]" a nd g races] Cons.prems(6) a0 nd an by auto
  have "tree_rep (s'\<lparr>rb_root := root2\<rparr>) t2"
    using t2 tree_rep_links[of "s'\<lparr>rb_root := root2\<rparr>" "s2\<lparr>rb_root := root2\<rparr>"] s'(3) Cons.prems(3) by simp
  then have "rb_next a (s'\<lparr>rb_root := root2\<rparr>) = Some (hd0 ys)"
    using rb_next_ok Cons.prems(1) by blast
  from rb_next_root[OF this, of "rb_root s'"] have nx: "rb_next a s' = Some (hd0 ys)" by simp
  have t1': "tree_rep s' t1" using Cons.prems(6) tree_rep_links[of s' s] s'(2,3) by simp
  obtain R s'' where R: "overlap_loop g (hd0 ys) (races @ found g ?m a t1) s' = Some ((races @ found g ?m a t1) @ R, s'')"
    "map strip2 R = concat (map (\<lambda>a. map strip2 (found g ?m2 a t1)) ys)"
    "rb_root s'' = rb_root s2" "links (mem s'') = links (mem s2)" "stripm (mores (mem s'')) = stripm ?m2"
    "\<forall>y. y \<notin> set (inorder t1) \<longrightarrow> mores (mem s'') y = ?m2 y"
    using Cons.IH[of "xs @ [a]" s' "races @ found g ?m a t1"] Cons.prems s' t1' by auto
  have "map strip2 (found g ?m a t1) = map strip2 (found g ?m2 a t1)"
  proof (rule found_strip[OF Cons.prems(4)])
    show "?m2 a \<noteq> None" by fact
    have "mem s2 x \<noteq> None" if "x \<in> set (inorder t1)" for x
      using rep_mem[OF r1 that] stripm_None[OF Cons.prems(4), of x] by (auto simp: mores_def)
    then show "\<forall>x\<in>set (inorder t1). ?m2 x \<noteq> None" by (auto simp: mores_def)
  qed
  moreover have "overlap_loop g (hd0 (a # ys)) races s = Some (races @ (found g ?m a t1 @ R), s'')"
    using a0 nd s'(1) nx R(1) by (simp add: overlap_loop.simps[of g a] itf_mores)
  ultimately show ?case using R by (intro exI[of _ "found g ?m a t1 @ R"] exI[of _ s'']) simp
qed


lemma interval_tree_overlap_ok:
  assumes t1: "tree_rep s t1" and t2: "tree_rep (s\<lparr>rb_root := root2\<rparr>) t2"
    and dis: "set (inorder t1) \<inter> set (inorder t2) = {}"
  shows "\<exists>R s'. interval_tree_overlap g root2 races s = Some (races @ R, s') \<and>
    map strip2 R = concat (map (\<lambda>a. map strip2 (found g (mores (mem s)) a t1)) (inorder t2)) \<and>
    tree_rep s' t1 \<and> tree_rep (s'\<lparr>rb_root := root2\<rparr>) t2 \<and> stripm (mores (mem s')) = stripm (mores (mem s)) \<and>
    (\<forall>y. y \<notin> set (inorder t1) \<longrightarrow> mem s' y = mem s y)"
proof -
  obtain R s' where R: "overlap_loop g (hd0 (inorder t2)) races s = Some (races @ R, s')"
    "map strip2 R = concat (map (\<lambda>a. map strip2 (found g (mores (mem s)) a t1)) (inorder t2))"
    "rb_root s' = rb_root s" "links (mem s') = links (mem s)" "stripm (mores (mem s')) = stripm (mores (mem s))"
    "\<forall>y. y \<notin> set (inorder t1) \<longrightarrow> mores (mem s') y = mores (mem s) y"
    using overlap_loop_ok[OF t2 t1 dis, of "[]" "inorder t2" g races] by auto
  have "tree_rep s' t1" using t1 tree_rep_links[of s' s] R(3,4) by simp
  moreover have "tree_rep (s'\<lparr>rb_root := root2\<rparr>) t2"
    using t2 tree_rep_links[of "s'\<lparr>rb_root := root2\<rparr>" "s\<lparr>rb_root := root2\<rparr>"] R(4) by simp
  moreover have "\<forall>y. y \<notin> set (inorder t1) \<longrightarrow> mem s' y = mem s y" using R(4,6) by (auto intro: mem_links)
  ultimately show ?thesis
    using R rb_first_ok[OF t2] by (auto simp: interval_tree_overlap_def)
qed

section \<open>What a report means\<close>

lemma meet_sym: "meet m n a b = meet n m b a"
  unfolding meet_def by metis

lemma solve_mip_sound:
  assumes g: "exact_doubles g" "glpk_spec g (mip_problem g a b)"
    and s: "unat (it_start a) \<le> 2 ^ 53" "unat (it_start b) \<le> 2 ^ 53" and r: "solve_mip g a b"
  shows "meet (Suc (unat (count a))) (Suc (unat (count b))) a b"
proof -
  have "proper_bounds (mip_problem g a b)"
    using g(2) r by (auto simp: glpk_spec_def solve_mip_accepts accepts_def)
  then have "0 < count a" "0 < count b" "1 < access_size a" "1 < access_size b"
    by (auto simp: proper_bounds_def mip_problem_def Let_def word_less_def)
  with solve_mip_meet[OF g _ _ _ _ s] r show ?thesis by simp
qed

text \<open>What the kinds mean: bit 0 is set for a write, bit 1 for an atomic access. Two accesses conflict when one of them
  writes and they are not both atomic.\<close>

definition is_write :: "it_data \<Rightarrow> bool" where
  "is_write d \<longleftrightarrow> bit (size_type d) 0"

definition is_atomic :: "it_data \<Rightarrow> bool" where
  "is_atomic d \<longleftrightarrow> bit (size_type d) 1"

definition kinds_conflict :: "it_data \<Rightarrow> it_data \<Rightarrow> bool" where
  "kinds_conflict a b \<longleftrightarrow> (is_write a \<or> is_write b) \<and> \<not> (is_atomic a \<and> is_atomic b)"

lemma kind_bits: "is_write d \<longleftrightarrow> bit (get_access_type d) 0" "is_atomic d \<longleftrightarrow> bit (get_access_type d) 1"
  by (simp_all add: is_write_def is_atomic_def get_access_type_def bit_and_iff)

lemma race_kinds: "race a b \<Longrightarrow> kinds_conflict a b"
  by (auto simp: race_def kinds_conflict_def kind_bits)

lemma kind_cases: "get_access_type d < 4 \<Longrightarrow> get_access_type d \<in> {0, 1, 2, 3}"
proof -
  assume "get_access_type d < 4"
  then have "unat (get_access_type d) \<in> {0, 1, 2, 3}" by (auto simp: word_less_nat_alt)
  then show ?thesis by (auto simp: word_unat_eq_iff)
qed

lemma kinds_race: "get_access_type a < 4 \<Longrightarrow> get_access_type b < 4 \<Longrightarrow> kinds_conflict a b \<Longrightarrow> race a b"
  using kind_cases[of a] kind_cases[of b] by (auto simp: race_def kinds_conflict_def kind_bits)

definition common_lock :: "it_data \<Rightarrow> it_data \<Rightarrow> bool" where
  "common_lock a b \<longleftrightarrow> mutex a \<inter> mutex b \<noteq> {}"

lemma report_testI:
  "report_test g a b (it_start a) (it_last a) \<longleftrightarrow>
     race a b \<and> \<not> common_lock a b \<and> it_start a \<le> it_last b \<and> it_start b \<le> it_last a \<and>
     (count b = 1 \<and> count a = 1 \<or>
      (if it_start b \<ge> it_start a then solve_mip g b a else solve_mip g a b))"
  by (auto simp: report_test_def Let_def overlap_sets_def common_lock_def)

lemma report_sound:
  assumes "exact_doubles g" "\<And>p. glpk_spec g p"
    and "unat (it_start a) \<le> 2 ^ 53" "unat (it_start b) \<le> 2 ^ 53"
    and "report_test g a b (it_start a) (it_last a)"
  shows "race a b \<and> \<not> common_lock a b \<and> it_start a \<le> it_last b \<and> it_start b \<le> it_last a \<and>
    (count a = 1 \<and> count b = 1 \<or> meet (Suc (unat (count a))) (Suc (unat (count b))) a b)"
  using assms solve_mip_sound[of g a b] solve_mip_sound[of g b a] meet_sym
  by (auto simp: report_testI split: if_splits)

lemma addrs_bounds:
  assumes "node_ok N d" "v \<in> addrs d"
  shows "unat (it_start d) \<le> v \<and> v \<le> unat (it_last d)"
proof -
  obtain i where i: "i < unat (count d)" "v = unat (it_start d) + i * unat (diff d)"
    using assms(2) by (auto simp: addrs_def)
  then have "i * unat (diff d) \<le> (unat (count d) - 1) * unat (diff d)" by (intro mult_le_mono1) simp
  with i assms(1) show ?thesis by (simp add: node_ok_def mult.commute)
qed

text \<open>Two well-formed intervals that touch a common address are reported once they are compared.\<close>

lemma report_complete:
  assumes g: "exact_doubles g" "\<And>p. glpk_spec g p"
    and ok: "node_ok N a" "node_ok N b" and s: "unat (it_last a) \<le> 2 ^ 53" "unat (it_last b) \<le> 2 ^ 53"
    and sz: "1 < access_size a" "1 < access_size b"
    and v: "v \<in> addrs a" "v \<in> addrs b" and r: "race a b" "\<not> common_lock a b"
  shows "report_test g a b (it_start a) (it_last a)"
proof -
  obtain i j where ij: "i < unat (count a)" "j < unat (count b)"
    "v = unat (it_start a) + i * unat (diff a)" "v = unat (it_start b) + j * unat (diff b)"
    using v by (auto simp: addrs_def)
  have la: "unat (it_last d) = unat (it_start d) + unat (diff d) * (unat (count d) - 1)" "0 < count d" if "node_ok N d" for d
    using that by (auto simp: node_ok_def word_less_nat_alt)
  note le = addrs_bounds[OF ok(1) v(1)] addrs_bounds[OF ok(2) v(2)]
  have hull: "it_start a \<le> it_last b" "it_start b \<le> it_last a"
    using le by (simp_all add: word_le_nat_alt)
  have st: "unat (it_start a) \<le> 2 ^ 53" "unat (it_start b) \<le> 2 ^ 53" using s la(1)[OF ok(1)] la(1)[OF ok(2)] by simp_all
  have "meet (Suc (unat (count a))) (Suc (unat (count b))) a b"
    unfolding meet_def using ij sz by (intro exI[of _ i] exI[of _ j] exI[of _ 0] conjI) auto
  then have "solve_mip g a b" "solve_mip g b a"
    using solve_mip_meet[OF g(1) g(2) la(2)[OF ok(1)] la(2)[OF ok(2)] sz st]
      solve_mip_meet[OF g(1) g(2) la(2)[OF ok(2)] la(2)[OF ok(1)] sz(2,1) st(2,1)] meet_sym by auto
  with r hull show ?thesis by (simp add: report_testI)
qed

definition reported_ok :: "it_map \<Rightarrow> ptr set \<Rightarrow> ptr set \<Rightarrow> it_data \<Rightarrow> it_data \<Rightarrow> bool" where
  "reported_ok m A B d e \<longleftrightarrow> (\<exists>a\<in>B. strip d = strip (dat m a)) \<and> (\<exists>x\<in>A. strip e = strip (dat m x)) \<and>
     kinds_conflict d e \<and> mutex d \<inter> mutex e = {} \<and> it_start d \<le> it_last e \<and> it_start e \<le> it_last d \<and>
     (count d = 1 \<and> count e = 1 \<or> meet (Suc (unat (count d))) (Suc (unat (count e))) d e)"

lemma meet_strip: "strip d = strip d' \<Longrightarrow> strip e = strip e' \<Longrightarrow> meet m n d e = meet m n d' e'"
  using strip_fields[of d d'] strip_fields[of e e'] by (simp add: meet_def access_size_def)

lemma reported_strip:
  assumes "strip d = strip d'" "strip e = strip e'" "reported_ok m A B d e"
  shows "reported_ok m A B d' e'"
  using assms(3) strip_fields[OF assms(1)] strip_fields[OF assms(2)] meet_strip[OF assms(1,2)] assms(1,2)
  by (simp add: reported_ok_def kinds_conflict_def is_write_def is_atomic_def)

lemma found_reported:
  assumes g: "exact_doubles g" "\<forall>p. glpk_spec g p"
    and a: "a \<in> B" and ok: "\<forall>x\<in>set (inorder t) \<union> B. node_ok N (dat m x) \<and> unat (it_last (dat m x)) \<le> 2 ^ 53"
    and f: "(d', e') \<in> set (found g m a t)" and s: "strip d' = strip d" "strip e' = strip e"
  shows "reported_ok m (set (inorder t)) B d e"
proof -
  obtain x where x: "x \<in> set (path (start_of m) (start_of m a) t)" "d' = dat m a" "e' = dat m x"
    "report_test g d' e' (it_start d') (it_last d')"
    using f by (auto simp: found_def split: if_splits)
  have xt: "x \<in> set (inorder t)" using x(1) path_subset by blast
  have le: "unat (it_start (dat m y)) \<le> 2 ^ 53" if "y \<in> set (inorder t) \<union> B" for y
    using ok[rule_format, OF that] by (simp add: node_ok_def)
  have "reported_ok m (set (inorder t)) B d' e'"
    using report_sound[OF g(1) _ _ _ x(4)] g(2) le[of a] le[of x] a xt race_kinds
    unfolding reported_ok_def x(2,3) common_lock_def by blast
  then show ?thesis by (rule reported_strip[OF s])
qed

lemma found_complete:
  assumes "exact_doubles g" "\<forall>p. glpk_spec g p" "x \<in> set (path (start_of m) (start_of m a) t)"
    and "node_ok N (dat m a)" "node_ok N (dat m x)" "unat (it_last (dat m a)) \<le> 2 ^ 53" "unat (it_last (dat m x)) \<le> 2 ^ 53"
    and "1 < access_size (dat m a)" "1 < access_size (dat m x)" "addrs (dat m a) \<inter> addrs (dat m x) \<noteq> {}"
    and "race (dat m a) (dat m x)" "\<not> common_lock (dat m a) (dat m x)"
  shows "(dat m a, dat m x) \<in> set (found g m a t)"
proof -
  obtain v where "v \<in> addrs (dat m a)" "v \<in> addrs (dat m x)" using assms(10) by blast
  then have "report_test g (dat m a) (dat m x) (it_start (dat m a)) (it_last (dat m a))"
    using report_complete[OF assms(1) _ assms(4-9)] assms(2,11,12) by blast
  with assms(3) show ?thesis by (auto simp: found_def)
qed

section \<open>A reference solver\<close>

text \<open>Exhaustive search over the bounds: GLPK as documented, for the examples.\<close>

fun search :: "mip_col list \<Rightarrow> int \<Rightarrow> bool" where
  "search [] r \<longleftrightarrow> r = 0"
| "search (c # cs) r \<longleftrightarrow> list_ex (\<lambda>x. search cs (r - col_ar c * x)) [col_lb c..col_ub c]"

definition ref_glpk :: glpk where
  "ref_glpk = \<lparr>to_double = (\<lambda>x. x), glp_exact = (\<lambda>p. if proper_bounds p then 0 else 4),
     glp_intopt = (\<lambda>p. 0), glp_mip_status = (\<lambda>p. if search (cols p) (row_rhs p) then 5 else 4)\<rparr>"

lemma search_iff:
  "search cs r \<longleftrightarrow> (\<exists>xs. length xs = length cs \<and> list_all2 (\<lambda>x c. col_lb c \<le> x \<and> x \<le> col_ub c) xs cs \<and>
     (\<Sum>(x, c)\<leftarrow>zip xs cs. col_ar c * x) = r)"
proof (induction cs arbitrary: r)
  case (Cons c cs)
  show ?case (is "?L \<longleftrightarrow> ?R")
  proof
    assume ?L
    then obtain x where "col_lb c \<le> x" "x \<le> col_ub c" "search cs (r - col_ar c * x)"
      by (auto simp: list_ex_iff)
    moreover then obtain xs where "length xs = length cs" "list_all2 (\<lambda>x c. col_lb c \<le> x \<and> x \<le> col_ub c) xs cs"
      "(\<Sum>(x, c)\<leftarrow>zip xs cs. col_ar c * x) = r - col_ar c * x"
      using Cons.IH by blast
    ultimately show ?R by (intro exI[of _ "x # xs"]) simp
  next
    assume ?R
    then obtain x xs where "length xs = length cs" "list_all2 (\<lambda>x c. col_lb c \<le> x \<and> x \<le> col_ub c) xs cs"
      "col_lb c \<le> x" "x \<le> col_ub c" "col_ar c * x + (\<Sum>(x, c)\<leftarrow>zip xs cs. col_ar c * x) = r"
      by (auto simp: list_all2_Cons2)
    moreover then have "search cs (r - col_ar c * x)" unfolding Cons.IH by (intro exI[of _ xs]) simp
    ultimately show ?L by (auto simp: list_ex_iff)
  qed
qed auto

lemma ref_glpk_ok: "exact_doubles ref_glpk" "glpk_spec ref_glpk p"
  by (auto simp: exact_doubles_def glpk_spec_def ref_glpk_def accepts_def feasible_def search_iff)


section \<open>Properties\<close>

text \<open>C24: \<open>interval_tree_overlap\<close> compares every node of the second tree, in order, with exactly the nodes of the
  first tree on its search path, reports those that pass the test, and leaves both trees as they were but for
  cached maxima of the first.\<close>

theorem interval_tree_overlap_correct:
  assumes "tree_rep s t1" "tree_rep (s\<lparr>rb_root := root2\<rparr>) t2" "set (inorder t1) \<inter> set (inorder t2) = {}"
  shows "\<exists>R s'. interval_tree_overlap g root2 races s = Some (races @ R, s') \<and>
    map strip2 R = concat (map (\<lambda>a. map strip2 (found g (mores (mem s)) a t1)) (inorder t2)) \<and>
    tree_rep s' t1 \<and> tree_rep (s'\<lparr>rb_root := root2\<rparr>) t2 \<and> stripm (mores (mem s')) = stripm (mores (mem s))"
  using interval_tree_overlap_ok[OF assms] by blast

text \<open>Two trees in one store: \<open>three\<close> with an interval 160, 220, 280 at 8 and singles at 16 and 24, and the node at
  32 alone in a second tree.\<close>

definition two_data :: "size_t \<Rightarrow> ptr \<Rightarrow> it_data" where
  "two_data v a =
     (if a = 8 then (interval_tree_node 160 280 0x31 7 {})\<lparr>subtree_last := 280, count := 3, diff := 60\<rparr>
      else if a = 16 then (interval_tree_node 200 200 0x31 8 {})\<lparr>subtree_last := 400\<rparr>
      else if a = 24 then (interval_tree_node 400 400 0x31 9 {})\<lparr>subtree_last := 400\<rparr>
      else (interval_tree_node v v 0x31 10 {})\<lparr>subtree_last := v\<rparr>)"

definition two_trees :: "size_t \<Rightarrow> it_state" where
  "two_trees v = (let s = three (two_data v) in s\<lparr>mem := (mem s)(32 \<mapsto> mk_node 1 0 0 (two_data v 32))\<rparr>)"

definition tree1 :: ptree where
  "tree1 = Node Leaf 32 Black Leaf"

lemmas two_trees_defs = two_trees_def two_data_def three_def mk_node_def interval_tree_node_def mores_def Let_def

lemma two_trees_rep: "tree_rep (two_trees v) tree3" "tree_rep (two_trees v\<lparr>rb_root := 32\<rparr>) tree1"
  "set (inorder tree3) \<inter> set (inorder tree1) = {}"
  by (simp_all add: two_trees_defs tree3_def tree1_def tree_rep_def node_at_def links_def aligned_def)

lemma two_trees_found: "found g (mores (mem (two_trees 280))) 32 tree3 = []"
  by (simp add: found_def tree3_def two_trees_defs report_test_def)

theorem interval_tree_overlap_correct_witness:
  "\<exists>R s'. interval_tree_overlap ref_glpk 32 [] (two_trees 200) = Some (R, s') \<and> length R = 1"
proof -
  have "length (found ref_glpk (mores (mem (two_trees 200))) 32 tree3) = 1"
    by (simp add: found_def tree3_def two_trees_defs report_test_def race_def get_access_type_def overlap_sets_def)
  moreover obtain R s' where "interval_tree_overlap ref_glpk 32 [] (two_trees 200) = Some (R, s')"
    "map strip2 R = map strip2 (found ref_glpk (mores (mem (two_trees 200))) 32 tree3)"
    using interval_tree_overlap_correct[OF two_trees_rep, where g = ref_glpk and races = "[]" and v1 = 200]
    by (auto simp: tree1_def)
  ultimately show ?thesis by (metis length_map)
qed


lemma two_nodes_ok: "\<forall>x\<in>set (inorder tree3) \<union> set (inorder tree1). node_ok 3 (dat (mores (mem (two_trees 200))) x) \<and>
    unat (it_last (dat (mores (mem (two_trees 200))) x)) \<le> 2 ^ 53 \<and> get_access_type (dat (mores (mem (two_trees 200))) x) < 4"
  by (simp add: tree3_def tree1_def two_trees_defs node_ok_def get_access_type_def)


text \<open>Nodes off the search path are never compared: the access at 280 of the second tree conflicts with the
  interval 160, 220, 280 of the first, and nothing is reported.\<close>

theorem overlap_misses_conflict:
  "\<exists>R s'. interval_tree_overlap g 32 [] (two_trees 280) = Some (R, s') \<and> R = [] \<and>
     race (two_data 280 32) (two_data 280 8) \<and> \<not> common_lock (two_data 280 32) (two_data 280 8) \<and>
     280 \<in> addrs (two_data 280 32) \<inter> addrs (two_data 280 8)"
proof -
  have "280 \<in> addrs (two_data 280 32)" by (auto simp: addrs_def two_data_def interval_tree_node_def)
  moreover have "280 \<in> addrs (two_data 280 8)"
    by (auto simp: addrs_def two_data_def interval_tree_node_def intro!: exI[of _ 2])
  ultimately show ?thesis
    using interval_tree_overlap_ok[OF two_trees_rep, of g "[]" 280] two_trees_found[of g]
    by (auto simp: tree1_def race_def get_access_type_def common_lock_def two_data_def interval_tree_node_def)
qed

text \<open>C26: with a solver as documented, and starts that a double holds exactly, \<open>solve_mip\<close> answers yes exactly when
  both intervals have at least one access, both access more than one byte at a time, and the two strided accesses touch
  a common byte, where each may take one step more than it has. Of two intervals one of which consists of one-byte
  accesses it says that they do not overlap, whatever their addresses.\<close>

theorem solve_mip_correct:
  assumes "exact_doubles g" "glpk_spec g (mip_problem g a b)"
    and "unat (it_start a) \<le> 2 ^ 53" "unat (it_start b) \<le> 2 ^ 53"
  shows "solve_mip g a b \<longleftrightarrow> 0 < count a \<and> 0 < count b \<and> 1 < access_size a \<and> 1 < access_size b \<and>
    meet (Suc (unat (count a))) (Suc (unat (count b))) a b"
  by (rule solve_mip_iff[OF assms])

text \<open>The strides 100, 108, 116 and 104, 124 of two-byte accesses have no byte in common.\<close>

definition stride_a :: it_data where
  "stride_a = (interval_tree_node 100 116 0x11 1 {})\<lparr>count := 3, diff := 8\<rparr>"

definition stride_b :: it_data where
  "stride_b = (interval_tree_node 104 124 0x11 2 {})\<lparr>count := 2, diff := 20\<rparr>"

lemmas stride_defs = stride_a_def stride_b_def interval_tree_node_def access_size_def

lemma strides_meet: "meet 4 3 stride_a stride_b"
  unfolding meet_def
  by (intro exI[of _ 3] exI[of _ 1] exI[of _ 0] conjI) (simp_all add: stride_defs)

lemma strides_apart: "\<not> meet 3 2 stride_a stride_b"
proof -
  have "access_size stride_a = 2" "access_size stride_b = 2" by (simp_all add: stride_defs)
  moreover have "unat (it_start stride_a) = 100" "unat (it_start stride_b) = 104"
    "unat (diff stride_a) = 8" "unat (diff stride_b) = 20" by (simp_all add: stride_defs)
  ultimately show ?thesis unfolding meet_def by presburger
qed

theorem solve_mip_correct_witness: "solve_mip ref_glpk stride_a stride_b"
  using solve_mip_correct[of ref_glpk stride_a stride_b] ref_glpk_ok strides_meet
  by (simp add: stride_defs)

text \<open>The extra step gives false alarms: \<open>solve_mip\<close> accepts two intervals whose hulls intersect and whose
  accesses have no byte in common.\<close>

theorem solve_mip_false_alarm:
  "solve_mip ref_glpk stride_a stride_b \<and> \<not> meet (unat (count stride_a)) (unat (count stride_b)) stride_a stride_b \<and>
   it_start stride_a \<le> it_last stride_b \<and> it_start stride_b \<le> it_last stride_a"
  using solve_mip_meet[of ref_glpk stride_a stride_b] ref_glpk_ok strides_meet strides_apart
  by (simp add: stride_defs)

text \<open>For accesses of one byte the size column has equal bounds and GLPK refuses the problem, so strided byte
  accesses are never found to overlap.\<close>

theorem solve_mip_rejects_bytes:
  assumes "glpk_spec g (mip_problem g a b)" "access_size a = 1 \<or> access_size b = 1"
  shows "\<not> solve_mip g a b"
  by (rule solve_mip_byte[OF assms])

theorem solve_mip_rejects_bytes_witness:
  "\<not> solve_mip ref_glpk (interval_tree_node 100 100 0x01 1 {}) (interval_tree_node 100 100 0x01 2 {})"
  by (rule solve_mip_rejects_bytes[OF ref_glpk_ok(2)]) (simp add: access_size_def interval_tree_node_def)

end
