(* ===== verification/RefTree.thy ===== *)
theory RefTree
  imports IntervalData SwordCommon Metafile Overlap
begin

text \<open>
  \<open>tools/sword_intervaltree.h\<close>: an unbalanced interval tree with the same rules for joining accesses, kept beside the
  red-black one that the tools use. Its nodes have no parent pointers and are reached from one place only, so a tree
  is a value here: the walks that update nodes in place return the updated tree.
\<close>

section \<open>Intervals\<close>

record Interval =
  iv_key :: uint
  iv_address :: size_t
  iv_count :: uint
  iv_size_type :: u8
  iv_diff :: size_t
  iv_pc :: "48 word"
  iv_max :: size_t
  iv_mutex :: "size_t set"

definition GET_END :: "Interval \<Rightarrow> size_t" where
  "GET_END p = iv_address p + iv_diff p * ucast (iv_count p - 1)"

text \<open>The constructors; \<open>key\<close> is the value of \<open>++global_key\<close>, an \<open>int\<close>.\<close>

definition mk_Interval :: "uint \<Rightarrow> size_t \<Rightarrow> u8 \<Rightarrow> size_t \<Rightarrow> Interval" where
  "mk_Interval key addr t p =
     \<lparr>iv_key = key, iv_address = addr, iv_count = 1, iv_size_type = t, iv_diff = 0, iv_pc = ucast p, iv_max = addr,
      iv_mutex = {}\<rparr>"

definition Interval_of :: "uint \<Rightarrow> access \<Rightarrow> size_t set \<Rightarrow> Interval" where
  "Interval_of key item mtx =
     \<lparr>iv_key = key, iv_address = acc_address item, iv_count = 1, iv_size_type = acc_size_type item, iv_diff = 0,
      iv_pc = acc_pc item, iv_max = acc_address item, iv_mutex = mtx\<rparr>"

definition iv_getAccessSize :: "Interval \<Rightarrow> u8" where
  "iv_getAccessSize p = drop_bit 4 (iv_size_type p)"

definition tostring :: "Interval \<Rightarrow> string" where
  "tostring p = ''['' @ print_nat (unat (iv_address p)) @ '','' @ print_nat (unat (GET_END p)) @ '','' @
     print_nat (unat (iv_max p)) @ '','' @ print_nat (unat (iv_count p)) @ '','' @ print_nat (unat (iv_diff p)) @ '']'' @ [CHR 0x0A]"

section \<open>Insertion\<close>

datatype itree = Null | Iv itree Interval itree

text \<open>\<open>if(GET_END(ptr) > ptr->max) ptr->max = GET_END(ptr)\<close>, and the same with the address of the access.\<close>

definition bump_max :: "Interval \<Rightarrow> Interval" where
  "bump_max p = (if GET_END p > iv_max p then p\<lparr>iv_max := GET_END p\<rparr> else p)"

definition raise_max :: "access \<Rightarrow> Interval \<Rightarrow> Interval" where
  "raise_max item p = (if acc_address item > iv_max p then p\<lparr>iv_max := acc_address item\<rparr> else p)"

definition iv_same_site :: "access \<Rightarrow> size_t set \<Rightarrow> Interval \<Rightarrow> bool" where
  "iv_same_site item mtx p \<longleftrightarrow> acc_size_type item = iv_size_type p \<and> acc_pc item = iv_pc p \<and> mtx = iv_mutex p"

text \<open>The body of the branch for the same site: whether it returns, and the node after the assignments.\<close>

definition iv_absorb :: "access \<Rightarrow> Interval \<Rightarrow> bool \<times> Interval" where
  "iv_absorb item p =
     (let a = acc_address item in
      if iv_diff p \<noteq> 0 then
        let fin = GET_END p in
        if a = fin + iv_diff p then (True, bump_max (p\<lparr>iv_count := iv_count p + 1\<rparr>))
        else if iv_address p \<le> a \<and> a \<le> fin then (True, p)
        else if a = iv_address p - iv_diff p then (True, bump_max (p\<lparr>iv_address := a, iv_count := iv_count p + 1\<rparr>))
        else (False, p)
      else
        let d = a - iv_address p in
        if d \<noteq> 0 \<and> d < 64 then
          let fin = GET_END p; p = p\<lparr>iv_diff := a - iv_address p\<rparr> in
          if a = fin + d then (True, bump_max (p\<lparr>iv_count := iv_count p + 1\<rparr>))
          else if iv_address p \<le> a \<and> a \<le> fin then (True, p)
          else if a = iv_address p - iv_diff p then (True, bump_max (p\<lparr>iv_address := a, iv_count := iv_count p + 1\<rparr>))
          else (False, p)
        else (True, p))"

text \<open>The loop, with \<open>global_key\<close>.\<close>

fun insertNode :: "access \<Rightarrow> size_t set \<Rightarrow> uint \<Rightarrow> itree \<Rightarrow> uint \<times> itree" where
  "insertNode item mtx key Null = (key + 1, Iv Null (Interval_of (key + 1) item mtx) Null)"
| "insertNode item mtx key (Iv l p r) =
     (let p = raise_max item p;
          (ret, p) = (if iv_same_site item mtx p then iv_absorb item p else (False, p)) in
      if ret then (key, Iv l p r)
      else if iv_address p < acc_address item then let (key, r) = insertNode item mtx key r in (key, Iv l p r)
      else let (key, l) = insertNode item mtx key l in (key, Iv l p r))"

section \<open>Queries\<close>

fun findHeight :: "itree \<Rightarrow> int" where
  "findHeight Null = - 1"
| "findHeight (Iv l p r) =
     (let lefth = findHeight l; righth = findHeight r in if lefth > righth then lefth + 1 else righth + 1)"

fun getfullCount :: "itree \<Rightarrow> uint" where
  "getfullCount Null = 0"
| "getfullCount (Iv l p r) = getfullCount l + getfullCount r + 1"

definition iv_race :: "Interval \<Rightarrow> Interval \<Rightarrow> bool" where
  "iv_race a b \<longleftrightarrow>
     (let ta = iv_size_type a AND 0x0F; tb = iv_size_type b AND 0x0F in
      ta = 1 \<or> tb = 1 \<or> ta = 3 \<and> tb = 0 \<or> tb = 3 \<and> ta = 0)"

text \<open>The test of one node of the first tree against a node of the second.\<close>

definition iv_conflict :: "Interval \<Rightarrow> Interval \<Rightarrow> bool" where
  "iv_conflict node node2 =
     (let overlapping = (if iv_mutex node \<noteq> {} \<and> iv_mutex node2 \<noteq> {} then overlap_sets (iv_mutex node) (iv_mutex node2) else False) in
      iv_race node node2 \<and> \<not> overlapping \<and> iv_address node \<le> GET_END node2 \<and> iv_address node2 \<le> GET_END node)"

text \<open>The loop over the stack, whose top is the head of the list; only nodes are ever pushed.\<close>

function intersect_loop :: "Interval \<Rightarrow> itree list \<Rightarrow> (Interval \<times> Interval) list \<Rightarrow> (Interval \<times> Interval) list" where
  "intersect_loop node2 [] res = res"
| "intersect_loop node2 (Null # stack) res = intersect_loop node2 stack res"
| "intersect_loop node2 (Iv l p r # stack) res =
     (let res = (if iv_conflict p node2 then res @ [(p, node2)] else res);
          stack = (case l of Iv ll q lr \<Rightarrow> if iv_max q \<ge> iv_address node2 then l # stack else stack | Null \<Rightarrow> stack);
          stack = (if r \<noteq> Null then r # stack else stack) in
      intersect_loop node2 stack res)"
  by pat_completeness auto
termination
  by (relation "measure (\<lambda>(n, stack, res). sum_list (map (\<lambda>t. 1 + 2 * size t) stack))") (auto split: itree.splits)

definition intersectInterval :: "itree \<Rightarrow> Interval \<Rightarrow> (Interval \<times> Interval) list \<Rightarrow> (Interval \<times> Interval) list" where
  "intersectInterval node1 node2 res = (if node1 = Null then res else intersect_loop node2 [node1] res)"

function intersects_loop :: "itree \<Rightarrow> itree list \<Rightarrow> (Interval \<times> Interval) list \<Rightarrow> (Interval \<times> Interval) list" where
  "intersects_loop t1 [] res = res"
| "intersects_loop t1 (Null # stack) res = intersects_loop t1 stack res"
| "intersects_loop t1 (Iv l p r # stack) res =
     (let res = intersectInterval t1 p res;
          stack = (if r \<noteq> Null then r # stack else stack);
          stack = (if l \<noteq> Null then l # stack else stack) in
      intersects_loop t1 stack res)"
  by pat_completeness auto
termination
  by (relation "measure (\<lambda>(n, stack, res). sum_list (map (\<lambda>t. 1 + 2 * size t) stack))") auto

definition intersectIntervals :: "itree \<Rightarrow> itree \<Rightarrow> (Interval \<times> Interval) list \<Rightarrow> (Interval \<times> Interval) list" where
  "intersectIntervals t1 t2 res = (if t1 = Null \<or> t2 = Null then res else intersects_loop t1 [t2] res)"

section \<open>Printing\<close>

fun printTree :: "itree \<Rightarrow> string" where
  "printTree Null = []"
| "printTree (Iv l p r) =
     (if l \<noteq> Null then printTree l else []) @ tostring p @ (if r \<noteq> Null then printTree r else [])"

text \<open>The graph for \<open>dot\<close>. The table of the access kinds has four entries, an index behind them is undefined.\<close>

definition endl :: string where
  "endl = [CHR 0x0A]"

definition AccessTypeValue :: "u8 \<Rightarrow> string option" where
  "AccessTypeValue n =
     (if n = 0 then Some ''R'' else if n = 1 then Some ''W'' else if n = 2 then Some ''AR''
      else if n = 3 then Some ''AW'' else None)"

definition bst_label :: "Interval \<Rightarrow> string option" where
  "bst_label p = do {
     ty \<leftarrow> AccessTypeValue (iv_size_type p AND 0x0F);
     Some (print_int (sint (iv_key p)) @ '' [label=\"['' @ print_nat (unat (iv_address p)) @ '','' @ print_nat (unat (GET_END p)) @ ''],'' @
       print_nat (unat (iv_count p)) @ endl @ print_nat (unat (iv_max p)) @ endl @ ty @ '','' @
       print_nat (unat (drop_bit 4 (iv_size_type p))) @ '','' @ print_nat (unat (iv_pc p)) @ ''\"]'' @ endl)
   }"

definition bst_print_dot_null :: "uint \<Rightarrow> nat \<Rightarrow> string" where
  "bst_print_dot_null key nullcount =
     ''    null'' @ print_nat nullcount @ '' [shape=point];'' @ endl @
     ''    '' @ print_int (sint key) @ '' -> null'' @ print_nat nullcount @ '';'' @ endl"

definition bst_edge :: "Interval \<Rightarrow> Interval \<Rightarrow> string option" where
  "bst_edge p q = do {
     lp \<leftarrow> bst_label p;
     lq \<leftarrow> bst_label q;
     Some (''    '' @ print_int (sint (iv_key p)) @ '' -> '' @ print_int (sint (iv_key q)) @ '';'' @ endl @ lp @ lq)
   }"

text \<open>\<open>nullcount\<close> is static: it goes on from call to call.\<close>

fun bst_print_dot_aux :: "itree \<Rightarrow> nat \<Rightarrow> (string \<times> nat) option" where
  "bst_print_dot_aux Null k = None"
| "bst_print_dot_aux (Iv l p r) k = do {
     (s1, k) \<leftarrow> (case l of
        Iv ll q lr \<Rightarrow> do { e \<leftarrow> bst_edge p q; (s, k) \<leftarrow> bst_print_dot_aux l k; Some (e @ s, k) }
      | Null \<Rightarrow> Some (bst_print_dot_null (iv_key p) k, k + 1));
     (s2, k) \<leftarrow> (case r of
        Iv rl q rr \<Rightarrow> do { e \<leftarrow> bst_edge p q; (s, k) \<leftarrow> bst_print_dot_aux r k; Some (e @ s, k) }
      | Null \<Rightarrow> Some (bst_print_dot_null (iv_key p) k, k + 1));
     Some (s1 @ s2, k)
   }"

definition bst_print_dot :: "itree \<Rightarrow> nat \<Rightarrow> (string \<times> nat) option" where
  "bst_print_dot t k = do {
     (s, k) \<leftarrow> (case t of
        Null \<Rightarrow> Some (endl @ endl, k)
      | Iv l p r \<Rightarrow>
          if r = Null \<and> l = Null then Some (''    '' @ print_int (sint (iv_key p)) @ '';'' @ endl, k)
          else bst_print_dot_aux t k);
     Some (''digraph BST {'' @ endl @ endl @ ''    node [fontname=\"Arial\"];'' @ endl @ endl @ s @ ''}'' @ endl, k)
   }"

section \<open>Intersection finds every conflict\<close>

fun nodes :: "itree \<Rightarrow> Interval list" where
  "nodes Null = []"
| "nodes (Iv l p r) = nodes l @ p # nodes r"

text \<open>The orders in which the two loops visit the nodes.\<close>

fun rpre :: "itree \<Rightarrow> Interval list" where
  "rpre Null = []"
| "rpre (Iv l p r) = p # rpre r @ rpre l"

fun pre :: "itree \<Rightarrow> Interval list" where
  "pre Null = []"
| "pre (Iv l p r) = p # pre l @ pre r"

lemma mset_orders: "mset (rpre t) = mset (nodes t)" "mset (pre t) = mset (nodes t)"
  by (induction t) auto

lemma set_orders [simp]: "set (rpre t) = set (nodes t)" "set (pre t) = set (nodes t)"
  using mset_orders[of t] by (metis set_mset_mset)+

text \<open>\<open>max\<close> is an upper bound of the ends in the subtree.\<close>

fun max_ok :: "itree \<Rightarrow> bool" where
  "max_ok Null \<longleftrightarrow> True"
| "max_ok (Iv l p r) \<longleftrightarrow> (\<forall>d\<in>set (nodes (Iv l p r)). GET_END d \<le> iv_max p) \<and> max_ok l \<and> max_ok r"

definition hits :: "Interval \<Rightarrow> itree list \<Rightarrow> (Interval \<times> Interval) list" where
  "hits node2 stack = concat (map (\<lambda>t. map (\<lambda>p. (p, node2)) (filter (\<lambda>p. iv_conflict p node2) (rpre t))) stack)"

lemma hits_simps [simp]: "hits n [] = []"
  "hits n (t # ts) = map (\<lambda>p. (p, n)) (filter (\<lambda>p. iv_conflict p n) (rpre t)) @ hits n ts"
  by (simp_all add: hits_def)

lemma hits_pruned:
  assumes "max_ok (Iv l p r)" "\<not> iv_max p \<ge> iv_address n"
  shows "hits n [Iv l p r] = []"
proof -
  have "\<not> iv_conflict d n" if "d \<in> set (nodes (Iv l p r))" for d
  proof -
    have "GET_END d \<le> iv_max p" using assms(1) that by auto
    then have "\<not> iv_address n \<le> GET_END d" using assms(2) by auto
    then show ?thesis by (simp add: iv_conflict_def Let_def)
  qed
  then have "filter (\<lambda>p. iv_conflict p n) (rpre (Iv l p r)) = []"
    using set_orders(1)[of "Iv l p r"] by (metis filter_False)
  then show ?thesis by (simp del: rpre.simps)
qed

lemma hits_left:
  assumes "max_ok l"
  shows "hits n (case l of Iv ll q lr \<Rightarrow> if iv_max q \<ge> iv_address n then l # stk else stk | Null \<Rightarrow> stk) = hits n (l # stk)"
proof (cases l)
  case (Iv ll q lr)
  show ?thesis
  proof (cases "iv_max q \<ge> iv_address n")
    case False
    have "hits n (l # stk) = hits n [l] @ hits n stk" by simp
    then show ?thesis using hits_pruned[of ll q lr n] assms Iv False by simp
  qed (simp add: Iv)
qed simp

lemma hits_right: "hits n (if r \<noteq> Null then r # stk else stk) = hits n (r # stk)"
  by simp

lemma intersect_loop_ok:
  "\<forall>t\<in>set stack. max_ok t \<Longrightarrow> intersect_loop n stack res = res @ hits n stack"
proof (induction n stack res rule: intersect_loop.induct)
  case (3 node2 l p r stack res)
  let ?res = "if iv_conflict p node2 then res @ [(p, node2)] else res"
  let ?s1 = "case l of Iv ll q lr \<Rightarrow> if iv_max q \<ge> iv_address node2 then l # stack else stack | Null \<Rightarrow> stack"
  let ?s2 = "if r \<noteq> Null then r # ?s1 else ?s1"
  have "\<forall>t\<in>set ?s2. max_ok t" using "3.prems" by (auto split: itree.splits if_splits)
  from "3.IH"[OF refl refl refl this]
  have "intersect_loop node2 (Iv l p r # stack) res = ?res @ hits node2 ?s2" by (simp only: intersect_loop.simps Let_def)
  also have "hits node2 ?s2 = hits node2 (r # ?s1)" by (rule hits_right)
  also have "\<dots> = hits node2 (r # l # stack)" using hits_left[of l node2 stack] "3.prems" by simp
  also have "?res @ \<dots> = res @ hits node2 (Iv l p r # stack)" by simp
  finally show ?case .
qed simp_all

lemma intersectInterval_ok: "max_ok t \<Longrightarrow> intersectInterval t n res = res @ hits n [t]"
  using intersect_loop_ok[of "[t]" n res] by (simp add: intersectInterval_def)

lemma intersects_loop_ok:
  "max_ok t1 \<Longrightarrow> intersects_loop t1 stack res = res @ concat (map (\<lambda>t. concat (map (\<lambda>n. hits n [t1]) (pre t))) stack)"
proof (induction t1 stack res rule: intersects_loop.induct)
  case (3 t1 l p r stack res)
  let ?s1 = "if r \<noteq> Null then r # stack else stack"
  let ?s2 = "if l \<noteq> Null then l # ?s1 else ?s1"
  from "3.IH"[OF refl refl refl "3.prems"]
  have "intersects_loop t1 (Iv l p r # stack) res =
      intersectInterval t1 p res @ concat (map (\<lambda>t. concat (map (\<lambda>n. hits n [t1]) (pre t))) ?s2)"
    by (simp only: intersects_loop.simps Let_def)
  also have "\<dots> = res @ concat (map (\<lambda>t. concat (map (\<lambda>n. hits n [t1]) (pre t))) (Iv l p r # stack))"
    using intersectInterval_ok[OF "3.prems", of p res] by simp
  finally show ?case .
qed simp_all

lemma intersectIntervals_ok:
  "max_ok t1 \<Longrightarrow> intersectIntervals t1 t2 res =
     res @ concat (map (\<lambda>n. map (\<lambda>p. (p, n)) (filter (\<lambda>p. iv_conflict p n) (rpre t1))) (pre t2))"
  using intersects_loop_ok[of t1 "[t2]" res] by (auto simp: intersectIntervals_def)

section \<open>The same joins as in the red-black tree\<close>

text \<open>An interval as the data of a node of \<open>interval_tree.h\<close>, which has \<open>last\<close> and a shorter stride.\<close>

definition to_it :: "Interval \<Rightarrow> it_data" where
  "to_it p = \<lparr>it_start = iv_address p, it_last = GET_END p, subtree_last = 0, count = iv_count p,
     size_type = iv_size_type p, diff = ucast (iv_diff p), pc = ucast (iv_pc p), mutex = iv_mutex p\<rparr>"

definition access_node :: "access \<Rightarrow> size_t set \<Rightarrow> it_data" where
  "access_node item mtx = interval_tree_node (acc_address item) (acc_address item) (acc_size_type item)
     (ucast (acc_pc item)) mtx"

definition iv_ok :: "nat \<Rightarrow> Interval \<Rightarrow> bool" where
  "iv_ok N p \<longleftrightarrow> node_ok N (to_it p) \<and> unat (iv_diff p) < 64"

lemma ucast_diff: "unat (iv_diff p) < 64 \<Longrightarrow> ucast (ucast (iv_diff p) :: 32 word) = iv_diff p"
  by (simp add: word_unat_eq_iff unat_ucast_64_32)

lemma END_to_it:
  assumes "unat (iv_diff p) < 64" "0 < unat (iv_count p)" "unat (iv_count p) \<le> 2 ^ 26"
  shows "END_of (to_it p) = GET_END p"
proof -
  have c: "unat (iv_count p - 1) = unat (iv_count p) - 1"
    using assms(2) by (simp add: unat_sub_if_size word_size)
  have "unat (iv_diff p) * (unat (iv_count p) - 1) \<le> 63 * 2 ^ 26" using assms by (intro mult_le_mono) simp_all
  then have m: "unat (iv_diff p) * (unat (iv_count p) - 1) < 2 ^ 32" by simp
  have "unat (ucast ((ucast (iv_diff p) :: 32 word) * (iv_count p - 1)) :: 64 word) = unat (iv_diff p) * (unat (iv_count p) - 1)"
    using m c assms(1) by (simp add: unat_ucast_64_32 unat_word_ariths)
  moreover have "unat (iv_diff p * ucast (iv_count p - 1)) = unat (iv_diff p) * (unat (iv_count p) - 1)"
    using m c by (simp add: unat_word_ariths)
  ultimately have "ucast ((ucast (iv_diff p) :: 32 word) * (iv_count p - 1)) = iv_diff p * ucast (iv_count p - 1)"
    by (simp add: word_unat_eq_iff)
  then show ?thesis by (simp add: END_of_def GET_END_def to_it_def)
qed

lemma to_it_bump [simp]: "to_it (bump_max p) = to_it p" "to_it (raise_max item p) = to_it p"
  by (auto simp: bump_max_def raise_max_def to_it_def GET_END_def)

lemma GET_END_bump [simp]: "GET_END (bump_max p) = GET_END p" "GET_END (raise_max item p) = GET_END p"
  by (auto simp: bump_max_def raise_max_def GET_END_def)

lemma to_it_simps [simp]: "it_start (to_it p) = iv_address p" "it_last (to_it p) = GET_END p" "count (to_it p) = iv_count p"
  "diff (to_it p) = ucast (iv_diff p)"
  by (simp_all add: to_it_def)

lemma access_node_simps [simp]: "it_start (access_node item mtx) = acc_address item" "it_last (access_node item mtx) = acc_address item"
  by (simp_all add: access_node_def interval_tree_node_def)

text \<open>One more stride above, and one below.\<close>

lemma iv_ok_count: "iv_ok N p \<Longrightarrow> 0 < unat (iv_count p) \<and> unat (iv_count p) \<le> N \<and> unat (iv_diff p) < 64"
  by (simp add: iv_ok_def node_ok_def)

lemma ucast_count:
  assumes "0 < unat (iv_count p)"
  shows "(ucast (iv_count p) :: 64 word) = ucast (iv_count p - 1) + 1"
proof -
  have "unat (iv_count p - 1) = unat (iv_count p) - 1" using assms by (simp add: unat_sub_if_size word_size)
  moreover have "unat (iv_count p) < 2 ^ 32" using unsigned_less[of "iv_count p"] by simp
  ultimately show ?thesis using assms by (simp add: word_unat_eq_iff unat_word_ariths)
qed

lemma END_up: "0 < unat (iv_count p) \<Longrightarrow> GET_END (p\<lparr>iv_count := iv_count p + 1\<rparr>) = GET_END p + iv_diff p"
  by (simp add: GET_END_def ucast_count distrib_left)

lemma END_down: "0 < unat (iv_count p) \<Longrightarrow>
   GET_END (p\<lparr>iv_address := iv_address p - iv_diff p, iv_count := iv_count p + 1\<rparr>) = GET_END p"
  by (simp add: GET_END_def ucast_count distrib_left)

lemma to_it_up:
  assumes "unat (iv_diff p) < 64" "0 < unat (iv_count p)" "unat (iv_count p) < 2 ^ 26"
  shows "to_it (p\<lparr>iv_count := iv_count p + 1\<rparr>) =
    (let d = (to_it p)\<lparr>count := count (to_it p) + 1\<rparr> in d\<lparr>it_last := END_of d\<rparr>)"
proof -
  let ?q = "p\<lparr>iv_count := iv_count p + 1\<rparr>"
  have c: "unat (iv_count ?q) = Suc (unat (iv_count p))" using assms(3) by (simp add: unat_Suc_32)
  have "END_of (to_it ?q) = GET_END ?q" by (rule END_to_it) (use assms c in simp_all)
  moreover have "END_of ((to_it p)\<lparr>count := count (to_it p) + 1\<rparr>) = END_of (to_it ?q)" by (simp add: END_of_def to_it_def)
  ultimately show ?thesis by (simp add: to_it_def)
qed

lemma iv_absorb_agrees:
  assumes ok: "iv_ok N p" and N: "N < 2 ^ 26"
  shows "fst (iv_absorb item p) = fst (absorb (access_node item mtx) (to_it p))"
    and "fst (iv_absorb item p) \<Longrightarrow> to_it (snd (iv_absorb item p)) = snd (absorb (access_node item mtx) (to_it p))"
    and "fst (iv_absorb item p) \<Longrightarrow> GET_END (snd (iv_absorb item p)) \<in> {GET_END p, acc_address item}"
    and "\<not> fst (iv_absorb item p) \<Longrightarrow> snd (iv_absorb item p) = p"
proof -
  let ?a = "acc_address item" let ?n = "access_node item mtx" let ?d = "to_it p"
  have c: "0 < unat (iv_count p)" "unat (iv_count p) < 2 ^ 26" and D: "unat (iv_diff p) < 64"
    using iv_ok_count[OF ok] N by auto
  have e: "END_of ?d = GET_END p" by (rule END_to_it) (use c D in simp_all)
  have nz: "diff ?d = 0 \<longleftrightarrow> iv_diff p = 0" using ucast_diff[OF D] by auto
  have u: "ucast (diff ?d) = iv_diff p" using ucast_diff[OF D] by simp
  let ?A = "fst (iv_absorb item p) = fst (absorb ?n ?d) \<and> (fst (iv_absorb item p) \<longrightarrow>
    to_it (snd (iv_absorb item p)) = snd (absorb ?n ?d) \<and> GET_END (snd (iv_absorb item p)) \<in> {GET_END p, ?a}) \<and>
    (\<not> fst (iv_absorb item p) \<longrightarrow> snd (iv_absorb item p) = p)"
  have ?A
  proof (cases "iv_diff p = 0")
    case False
    show ?thesis
    proof (cases "?a = GET_END p + iv_diff p")
      case True
      then show ?thesis using False nz e u END_up[OF c(1)] to_it_up[OF D c]
        by (simp add: iv_absorb_def absorb_def Let_def)
    next
      case up: False
      show ?thesis
      proof (cases "iv_address p \<le> ?a \<and> ?a \<le> GET_END p")
        case True
        then show ?thesis using False nz e u up by (simp add: iv_absorb_def absorb_def Let_def)
      next
        case mid: False
        show ?thesis
        proof (cases "?a = iv_address p - iv_diff p")
          case True
          have "to_it (p\<lparr>iv_address := ?a, iv_count := iv_count p + 1\<rparr>) = ?d\<lparr>it_start := ?a, count := iv_count p + 1\<rparr>"
            using END_down[OF c(1)] by (simp add: True to_it_def)
          then show ?thesis using False nz e u up mid True END_down[OF c(1)]
            by (simp add: iv_absorb_def absorb_def Let_def del: de_Morgan_conj)
        next
          case down: False
          then show ?thesis using False nz e u up mid by (simp add: iv_absorb_def absorb_def Let_def del: de_Morgan_conj)
        qed
      qed
    qed
  next
    case True
    let ?x = "?a - iv_address p"
    have g: "GET_END p = iv_address p" using True by (simp add: GET_END_def)
    show ?thesis
    proof (cases "?x \<noteq> 0 \<and> ?x < 64")
      case False
      then show ?thesis using True nz e by (auto simp: iv_absorb_def absorb_def Let_def)
    next
      case near: True
      let ?p = "p\<lparr>iv_diff := ?x\<rparr>"
      have x: "unat (iv_diff ?p) < 64" using near by (simp add: word_less_nat_alt)
      have "GET_END (?p\<lparr>iv_count := iv_count ?p + 1\<rparr>) = GET_END ?p + ?x" using END_up[of ?p] c(1) by simp
      moreover have "GET_END ?p = iv_address p"
        using True ok by (simp add: GET_END_def iv_ok_def node_ok_def)
      moreover have "to_it ?p = ?d\<lparr>diff := ucast ?x\<rparr>" using calculation(2) g by (simp add: to_it_def)
      ultimately show ?thesis using True nz e near g to_it_up[OF x] c by (simp add: iv_absorb_def absorb_def Let_def)
    qed
  qed
  then show "fst (iv_absorb item p) = fst (absorb ?n ?d)"
    "fst (iv_absorb item p) \<Longrightarrow> to_it (snd (iv_absorb item p)) = snd (absorb ?n ?d)"
    "fst (iv_absorb item p) \<Longrightarrow> GET_END (snd (iv_absorb item p)) \<in> {GET_END p, ?a}"
    "\<not> fst (iv_absorb item p) \<Longrightarrow> snd (iv_absorb item p) = p" by blast+
qed

section \<open>Insertion keeps the maximum and the accesses\<close>

definition iv_accesses :: "itree \<Rightarrow> ((u8 \<times> size_t \<times> size_t set) \<times> nat) set" where
  "iv_accesses t = (\<Union>p\<in>set (nodes t). {site (to_it p)} \<times> addrs (to_it p))"

lemma iv_accesses_simps [simp]: "iv_accesses Null = {}"
  "iv_accesses (Iv l p r) = {site (to_it p)} \<times> addrs (to_it p) \<union> iv_accesses l \<union> iv_accesses r"
  by (auto simp: iv_accesses_def)

definition iv_lost :: "itree \<Rightarrow> access \<Rightarrow> size_t set \<Rightarrow> bool" where
  "iv_lost t item mtx \<longleftrightarrow> (\<exists>p\<in>set (nodes t). site (to_it p) = site (access_node item mtx) \<and> dropped (to_it p) (acc_address item))"

definition iv_recorded :: "nat \<Rightarrow> access \<Rightarrow> size_t set \<Rightarrow> itree \<Rightarrow> itree \<Rightarrow> bool" where
  "iv_recorded N item mtx t T \<longleftrightarrow>
     (let new = (site (access_node item mtx), unat (acc_address item)) in
      (\<forall>d\<in>set (nodes T). iv_ok (Suc N) d \<and> (GET_END d = acc_address item \<or> GET_END d \<in> GET_END ` set (nodes t))) \<and>
      max_ok T \<and> iv_accesses t \<subseteq> iv_accesses T \<and> iv_accesses T \<subseteq> insert new (iv_accesses t) \<and>
      (new \<in> iv_accesses T \<or> iv_lost t item mtx))"

lemma iv_same_site_iff: "iv_same_site item mtx p \<longleftrightarrow> site (access_node item mtx) = site (to_it p)"
  by (auto simp: iv_same_site_def site_def access_node_def interval_tree_node_def to_it_def word_unat_eq_iff unsigned_ucast_eq)

lemma iv_ok_cong: "to_it q = to_it p \<Longrightarrow> iv_diff q = iv_diff p \<Longrightarrow> iv_ok N q = iv_ok N p"
  by (simp add: iv_ok_def)

lemma raise_max_simps: "iv_diff (raise_max item p) = iv_diff p" "iv_max p \<le> iv_max (raise_max item p)"
  "acc_address item \<le> iv_max (raise_max item p)"
  by (auto simp: raise_max_def)

lemma bump_max_le: "iv_max q = iv_max p \<Longrightarrow> iv_max p \<le> iv_max (bump_max q)"
  by (auto simp: bump_max_def)

lemma iv_absorb_max: "iv_max p \<le> iv_max (snd (iv_absorb item p))"
  by (simp add: iv_absorb_def Let_def bump_max_le)

lemma iv_diff_bump [simp]: "iv_diff (bump_max p) = iv_diff p"
  by (simp add: bump_max_def)

lemma unat_less_64: "(d :: size_t) \<noteq> 0 \<and> d < 64 \<Longrightarrow> unat d < 64"
  by (simp add: word_less_nat_alt)

lemma iv_absorb_diff:
  assumes "unat (iv_diff p) < 64"
  shows "unat (iv_diff (snd (iv_absorb item p))) < 64"
proof -
  let ?d = "acc_address item - iv_address p"
  consider (stride) "iv_diff p \<noteq> 0" | (near) "iv_diff p = 0" "?d \<noteq> 0 \<and> ?d < 64" | (far) "iv_diff p = 0" "\<not> (?d \<noteq> 0 \<and> ?d < 64)"
    by blast
  then show ?thesis
  proof cases
    case stride
    then have "iv_diff (snd (iv_absorb item p)) = iv_diff p" by (simp add: iv_absorb_def Let_def)
    then show ?thesis using assms by simp
  next
    case near
    then have "iv_diff (snd (iv_absorb item p)) = ?d" by (simp add: iv_absorb_def Let_def)
    then show ?thesis using unat_less_64[OF near(2)] by (simp only:)
  next
    case far
    then have "iv_absorb item p = (True, p)" by (auto simp: iv_absorb_def Let_def)
    then show ?thesis using assms by simp
  qed
qed

lemma absorbed_interval:
  assumes ok: "iv_ok N p" and N: "N < 2 ^ 26" and a: "unat (acc_address item) < 2 ^ 62" and f: "fst (iv_absorb item p)"
  shows "iv_ok (Suc N) (snd (iv_absorb item p)) \<and>
    absorbed_well N (acc_address item) (to_it p) (to_it (snd (iv_absorb item p)))"
proof -
  let ?n = "access_node item {}"
  note g1 = iv_absorb_agrees(1)[OF ok N, of item "{}"] and g2 = iv_absorb_agrees(2)[OF ok N f, of "{}"]
  have "absorbed_well N (it_start ?n) (to_it p) (snd (absorb ?n (to_it p)))"
    by (rule absorb_ok) (use ok N a f g1 in \<open>simp_all add: iv_ok_def\<close>)
  then have W: "absorbed_well N (acc_address item) (to_it p) (to_it (snd (iv_absorb item p)))" using g2 by simp
  moreover have "unat (iv_diff (snd (iv_absorb item p))) < 64" using iv_absorb_diff ok by (simp add: iv_ok_def)
  ultimately show ?thesis by (simp add: iv_ok_def absorbed_well_def)
qed

lemma iv_recorded_absorbed:
  assumes ok: "\<forall>d\<in>set (nodes (Iv l p r)). iv_ok N d" "max_ok (Iv l p r)" and N: "N < 2 ^ 26"
    and a: "unat (acc_address item) < 2 ^ 62" and ss: "iv_same_site item mtx p"
    and f: "fst (iv_absorb item (raise_max item p))"
  shows "iv_recorded N item mtx (Iv l p r) (Iv l (snd (iv_absorb item (raise_max item p))) r)"
proof -
  let ?p = "raise_max item p" let ?q = "snd (iv_absorb item ?p)"
  have p: "iv_ok N ?p" using ok(1) iv_ok_cong[of ?p p] by (simp add: raise_max_simps)
  have Q: "iv_ok (Suc N) ?q" "absorbed_well N (acc_address item) (to_it p) (to_it ?q)"
    using absorbed_interval[OF p N a f] by simp_all
  have e: "GET_END ?q = GET_END p \<or> GET_END ?q = acc_address item" using iv_absorb_agrees(3)[OF p N f] by simp
  have m: "iv_max p \<le> iv_max ?q" "acc_address item \<le> iv_max ?q"
    using iv_absorb_max[of ?p item] raise_max_simps(2,3) order_trans by blast+
  have "GET_END d \<le> iv_max ?q" if "d \<in> set (nodes (Iv l p r))" for d
  proof -
    have "GET_END d \<le> iv_max p" using ok(2) that by auto
    then show ?thesis using m(1) by simp
  qed
  then have "max_ok (Iv l ?q r)" using ok(2) e m by auto
  moreover have "iv_ok (Suc N) d" if "d \<in> set (nodes l) \<union> set (nodes r)" for d
    using ok(1) that node_ok_Suc by (auto simp: iv_ok_def)
  moreover have "iv_lost (Iv l p r) item mtx" if "dropped (to_it p) (acc_address item)"
    using that ss by (simp add: iv_lost_def iv_same_site_iff)
  moreover have "site (to_it ?q) = site (access_node item mtx)" using ss Q(2) by (simp add: absorbed_well_def iv_same_site_iff)
  ultimately show ?thesis using Q e ss
    unfolding iv_recorded_def absorbed_well_def iv_same_site_iff Let_def by auto
qed

lemma iv_recorded_below:
  assumes ok: "\<forall>d\<in>set (nodes (Iv l p r)). iv_ok N d" "max_ok (Iv l p r)"
  shows "iv_recorded N item mtx r r' \<Longrightarrow> iv_recorded N item mtx (Iv l p r) (Iv l (raise_max item p) r')"
    and "iv_recorded N item mtx l l' \<Longrightarrow> iv_recorded N item mtx (Iv l p r) (Iv l' (raise_max item p) r)"
proof -
  let ?p = "raise_max item p"
  have p: "iv_ok (Suc N) ?p" using ok(1) iv_ok_cong[of ?p p "Suc N"] node_ok_Suc by (auto simp: raise_max_simps iv_ok_def)
  have S: "iv_ok (Suc N) d" if "d \<in> set (nodes l) \<union> set (nodes r)" for d
    using ok(1) that node_ok_Suc by (auto simp: iv_ok_def)
  have m: "GET_END d \<le> iv_max ?p" if "d \<in> set (nodes (Iv l p r))" for d
  proof -
    have "GET_END d \<le> iv_max p" using ok(2) that by auto
    then show ?thesis using raise_max_simps(2)[of p item] by simp
  qed
  have mc: "GET_END d \<le> iv_max ?p" if "GET_END d = acc_address item \<or> GET_END d \<in> GET_END ` set (nodes (Iv l p r))" for d
    using that m raise_max_simps(3)[of item p] by auto
  show "iv_recorded N item mtx (Iv l p r) (Iv l ?p r')" if R: "iv_recorded N item mtx r r'"
  proof -
    have "GET_END d \<le> iv_max ?p" if "d \<in> set (nodes r')" for d
    proof -
      have "GET_END d = acc_address item \<or> GET_END d \<in> GET_END ` set (nodes r)"
        using R that unfolding iv_recorded_def Let_def by blast
      then show ?thesis by (intro mc) auto
    qed
    then have "max_ok (Iv l ?p r')" using R ok(2) m by (auto simp: iv_recorded_def Let_def)
    then show ?thesis using R p S by (auto simp: iv_recorded_def Let_def iv_lost_def)
  qed
  show "iv_recorded N item mtx (Iv l p r) (Iv l' ?p r)" if R: "iv_recorded N item mtx l l'"
  proof -
    have "GET_END d \<le> iv_max ?p" if "d \<in> set (nodes l')" for d
    proof -
      have "GET_END d = acc_address item \<or> GET_END d \<in> GET_END ` set (nodes l)"
        using R that unfolding iv_recorded_def Let_def by blast
      then show ?thesis by (intro mc) auto
    qed
    then have "max_ok (Iv l' ?p r)" using R ok(2) m by (auto simp: iv_recorded_def Let_def)
    then show ?thesis using R p S by (auto simp: iv_recorded_def Let_def iv_lost_def)
  qed
qed

lemma iv_recorded_new: "unat (acc_address item) < 2 ^ 62 \<Longrightarrow> iv_recorded N item mtx Null (Iv Null (Interval_of k item mtx) Null)"
  by (auto simp: iv_recorded_def Interval_of_def iv_ok_def node_ok_def to_it_def GET_END_def site_def access_node_def
      interval_tree_node_def addrs_def)

lemma insertNode_ok:
  assumes N: "N < 2 ^ 26" and a: "unat (acc_address item) < 2 ^ 62"
  shows "\<forall>d\<in>set (nodes t). iv_ok N d \<Longrightarrow> max_ok t \<Longrightarrow> iv_recorded N item mtx t (snd (insertNode item mtx key t))"
proof (induction t)
  case Null
  then show ?case using iv_recorded_new[OF a] by simp
next
  case (Iv l p r)
  let ?p = "raise_max item p"
  have ss: "iv_same_site item mtx ?p = iv_same_site item mtx p" by (simp add: iv_same_site_iff)
  have p: "iv_ok N ?p" using Iv.prems(1) iv_ok_cong[of ?p p] by (simp add: raise_max_simps)
  show ?case
  proof (cases "iv_same_site item mtx p \<and> fst (iv_absorb item ?p)")
    case True
    then have "snd (insertNode item mtx key (Iv l p r)) = Iv l (snd (iv_absorb item ?p)) r"
    proof -
      have "iv_absorb item ?p = (True, snd (iv_absorb item ?p))" using True by (simp add: prod_eq_iff)
      then show ?thesis using True by (simp add: ss Let_def case_prod_beta)
    qed
    then show ?thesis using iv_recorded_absorbed[OF Iv.prems N a] True by simp
  next
    case False
    then have "(if iv_same_site item mtx ?p then iv_absorb item ?p else (False, ?p)) = (False, ?p)"
      using iv_absorb_agrees(4)[OF p N] by (auto simp: ss prod_eq_iff)
    then have "snd (insertNode item mtx key (Iv l p r)) =
      (if iv_address ?p < acc_address item then Iv l ?p (snd (insertNode item mtx key r))
       else Iv (snd (insertNode item mtx key l)) ?p r)"
      by (simp add: Let_def split: prod.splits)
    moreover have "iv_recorded N item mtx r (snd (insertNode item mtx key r))"
      "iv_recorded N item mtx l (snd (insertNode item mtx key l))" using Iv by simp_all
    ultimately show ?thesis using iv_recorded_below[OF Iv.prems] by simp
  qed
qed

section \<open>Properties\<close>

text \<open>C34: inserting an access keeps \<open>max\<close> an upper bound of the ends below every node, wraps no field around, keeps the
  accesses that the tree stands for, invents none, and adds the new one unless a node of its site dropped it.\<close>
theorem insertNode_correct:
  assumes "\<forall>d\<in>set (nodes t). iv_ok N d" "max_ok t" "N < 2 ^ 26" "unat (acc_address item) < 2 ^ 62"
  shows "\<exists>key' T. insertNode item mtx key t = (key', T) \<and> max_ok T \<and> (\<forall>d\<in>set (nodes T). iv_ok (Suc N) d) \<and>
    iv_accesses t \<subseteq> iv_accesses T \<and>
    iv_accesses T \<subseteq> insert (site (access_node item mtx), unat (acc_address item)) (iv_accesses t) \<and>
    ((site (access_node item mtx), unat (acc_address item)) \<in> iv_accesses T \<or> iv_lost t item mtx)"
  using insertNode_ok[OF assms(3,4,1,2), of mtx key] by (cases "insertNode item mtx key t") (simp add: iv_recorded_def Let_def)

text \<open>Three writes of one instruction, eight bytes apart, and one of another.\<close>

definition ref_sample :: itree where
  "ref_sample = snd (insertNode (mk_access size8 SwordCommon.unsafe_write 500 9) {} 1 (snd (insertNode (mk_access size8 SwordCommon.unsafe_write 108 7) {} 1
     (snd (insertNode (mk_access size8 SwordCommon.unsafe_write 100 7) {} 0 Null)))))"

lemma ref_sample_eq: "ref_sample =
  Iv Null \<lparr>iv_key = 1, iv_address = 100, iv_count = 2, iv_size_type = 0x31, iv_diff = 8, iv_pc = 7, iv_max = 500, iv_mutex = {}\<rparr>
    (Iv Null \<lparr>iv_key = 2, iv_address = 500, iv_count = 1, iv_size_type = 0x31, iv_diff = 0, iv_pc = 9, iv_max = 500, iv_mutex = {}\<rparr> Null)"
  by (simp add: ref_sample_def mk_access_def Interval_of_def raise_max_def iv_same_site_def iv_absorb_def Let_def bump_max_def GET_END_def)

lemma ref_sample_ok: "\<forall>d\<in>set (nodes ref_sample). iv_ok 2 d" "max_ok ref_sample"
  by (simp_all add: ref_sample_eq iv_ok_def node_ok_def to_it_def GET_END_def)

lemma insertNode_correct_witness:
  "\<exists>key' T. insertNode (mk_access size8 SwordCommon.unsafe_write 116 7) {} 2 ref_sample = (key', T) \<and> max_ok T"
  using insertNode_correct[OF ref_sample_ok, of "mk_access size8 SwordCommon.unsafe_write 116 7" "{}" 2] by (auto simp: mk_access_def)

text \<open>C35: as long as \<open>max\<close> is such a bound, comparing two of these trees finds exactly the conflicting pairs, all of
  them, in the order of the two walks; the red-black comparison only visits one path.\<close>
theorem intersectIntervals_complete:
  assumes "max_ok t1"
  shows "intersectIntervals t1 t2 res =
    res @ [(p, n). n \<leftarrow> pre t2, p \<leftarrow> filter (\<lambda>p. iv_conflict p n) (rpre t1)] \<and>
    set (rpre t1) = set (nodes t1) \<and> set (pre t2) = set (nodes t2)"
  using intersectIntervals_ok[OF assms, of t2 res] by simp

lemma intersectIntervals_complete_witness:
  "length (intersectIntervals ref_sample (Iv Null (mk_Interval 3 108 0x30 5) Null) []) = 1"
  using intersectIntervals_complete[OF ref_sample_ok(2), of "Iv Null (mk_Interval 3 108 0x30 5) Null" "[]"]
  by (simp add: ref_sample_eq mk_Interval_def iv_conflict_def iv_race_def GET_END_def Let_def)

text \<open>The rules for joining an access with an interval of the same site are those of \<open>interval_tree_insert_data\<close>:
  with no field wrapped around, the same accesses are joined and the intervals agree.\<close>
theorem absorb_agreement:
  assumes "iv_ok N p" "N < 2 ^ 26"
  shows "fst (iv_absorb item p) = fst (absorb (access_node item mtx) (to_it p)) \<and>
    (fst (iv_absorb item p) \<longrightarrow> to_it (snd (iv_absorb item p)) = snd (absorb (access_node item mtx) (to_it p)))"
  using iv_absorb_agrees(1,2)[OF assms] by blast

lemma absorb_agreement_witness:
  "fst (absorb (access_node (mk_access size8 SwordCommon.unsafe_write 108 7) {}) (to_it (mk_Interval 1 100 0x31 7)))"
proof -
  let ?p = "mk_Interval 1 100 0x31 7" and ?i = "mk_access size8 SwordCommon.unsafe_write 108 7"
  have "iv_ok 1 ?p" by (simp add: iv_ok_def node_ok_def to_it_def GET_END_def mk_Interval_def)
  moreover have "fst (iv_absorb ?i ?p)"
    by (simp add: iv_absorb_def mk_Interval_def mk_access_def GET_END_def Let_def)
  ultimately show ?thesis using absorb_agreement[of 1 ?p ?i "{}"] by simp
qed

lemma getfullCount_nodes: "getfullCount t = of_nat (length (nodes t))"
  by (induction t) simp_all

lemma printTree_nodes: "printTree t = concat (map tostring (nodes t))"
  by (induction t) auto

end
