(* ===== verification/HashSet.thy ===== *)
theory HashSet
  imports Prelude
begin

text \<open>
  The open-addressing hash set of \<open>rtl/sword_hashset.h\<close> (\<open>emilib::HashSet\<close>) at key type \<open>uint64_t\<close>, whose
  hash is the key itself.
\<close>

section \<open>State\<close>

datatype bucket_state = INACTIVE | ACTIVE | FILLED

text \<open>
  The arrays are lists of \<open>num_buckets\<close> entries; an index out of range (a NULL array included) is a crash,
  the value \<open>None\<close> of the operations. Sizes are numbers, keys and the mask machine words;
  \<open>max_probe_length\<close> is the C \<open>int\<close>, whose bound \<open>hs_inv\<close> keeps.
\<close>

record hset =
  states :: "bucket_state list"
  keys :: "64 word list"
  num_buckets :: nat
  num_filled :: nat
  max_probe_length :: int
  hmask :: "64 word"

definition empty_hset :: hset where
  "empty_hset = \<lparr>states = [], keys = [], num_buckets = 0, num_filled = 0, max_probe_length = - 1, hmask = 0\<rparr>"

definition at :: "'a list \<Rightarrow> nat \<Rightarrow> 'a option" where
  "at xs i = (if i < length xs then Some (xs ! i) else None)"

definition put :: "'a list \<Rightarrow> nat \<Rightarrow> 'a \<Rightarrow> 'a list option" where
  "put xs i v = (if i < length xs then Some (xs[i := v]) else None)"

definition bucket_of :: "hset \<Rightarrow> 64 word \<Rightarrow> nat \<Rightarrow> nat" where
  "bucket_of h key offset = unat ((key + of_nat offset) AND hmask h)"

section \<open>Probing\<close>

text \<open>\<open>find_filled_bucket\<close>: the inner \<open>None\<close> is the result \<open>(size_t) -1\<close>.\<close>

function find_filled_loop :: "hset \<Rightarrow> 64 word \<Rightarrow> nat \<Rightarrow> nat option option" where
  "find_filled_loop h key offset =
     (if int offset \<le> max_probe_length h then do {
        let bucket = bucket_of h key offset;
        st \<leftarrow> at (states h) bucket;
        if st = FILLED then do {
          k \<leftarrow> at (keys h) bucket;
          if k = key then Some (Some bucket) else find_filled_loop h key (Suc offset)
        }
        else if st = INACTIVE then Some None
        else find_filled_loop h key (Suc offset)
      }
      else Some None)"
  by pat_completeness auto
termination
  by (relation "measure (\<lambda>(h, key, offset). nat (max_probe_length h + 1 - int offset))") auto

definition find_filled_bucket :: "64 word \<Rightarrow> hset \<Rightarrow> nat option option" where
  "find_filled_bucket key h = (if num_filled h = 0 then Some None else find_filled_loop h key 0)"

text \<open>The first loop of \<open>find_or_allocate\<close>: a bucket that is returned, or the hole seen and the offset reached.\<close>

function alloc_scan :: "hset \<Rightarrow> 64 word \<Rightarrow> nat option \<Rightarrow> nat \<Rightarrow> (nat + nat option \<times> nat) option" where
  "alloc_scan h key hole offset =
     (if int offset \<le> max_probe_length h then do {
        let bucket = bucket_of h key offset;
        st \<leftarrow> at (states h) bucket;
        if st = FILLED then do {
          k \<leftarrow> at (keys h) bucket;
          if k = key then Some (Inl bucket) else alloc_scan h key hole (Suc offset)
        }
        else if st = INACTIVE then Some (Inl bucket)
        else alloc_scan h key (if hole = None then Some bucket else hole) (Suc offset)
      }
      else Some (Inr (hole, offset)))"
  by pat_completeness auto
termination
  by (relation "measure (\<lambda>(h, key, hole, offset). nat (max_probe_length h + 1 - int offset))") auto

text \<open>The unbounded loops: the first bucket from \<open>offset\<close> on that is not filled, and its offset.\<close>

partial_function (option) probe :: "hset \<Rightarrow> 64 word \<Rightarrow> nat \<Rightarrow> (nat \<times> nat) option" where
  "probe h key offset = do {
     let bucket = bucket_of h key offset;
     st \<leftarrow> at (states h) bucket;
     if st \<noteq> FILLED then Some (offset, bucket) else probe h key (Suc offset)
   }"

definition find_or_allocate :: "64 word \<Rightarrow> hset \<Rightarrow> (nat \<times> hset) option" where
  "find_or_allocate key h = do {
     r \<leftarrow> alloc_scan h key None 0;
     case r of
       Inl bucket \<Rightarrow> Some (bucket, h)
     | Inr (Some hole, offset) \<Rightarrow> Some (hole, h)
     | Inr (None, offset) \<Rightarrow> do {
         (offset, bucket) \<leftarrow> probe h key offset;
         Some (bucket, h\<lparr>max_probe_length := int offset\<rparr>)
       }
   }"

definition find_empty_bucket :: "64 word \<Rightarrow> hset \<Rightarrow> (nat \<times> hset) option" where
  "find_empty_bucket key h = do {
     (offset, bucket) \<leftarrow> probe h key 0;
     Some (bucket, if int offset > max_probe_length h then h\<lparr>max_probe_length := int offset\<rparr> else h)
   }"

section \<open>Operations\<close>

definition fill_bucket :: "nat \<Rightarrow> 64 word \<Rightarrow> hset \<Rightarrow> hset option" where
  "fill_bucket bucket key h = do {
     sts \<leftarrow> put (states h) bucket FILLED;
     ks \<leftarrow> put (keys h) bucket key;
     Some (h\<lparr>states := sts, keys := ks, num_filled := num_filled h + 1\<rparr>)
   }"

definition check_insert :: "64 word \<Rightarrow> hset \<Rightarrow> (bool \<times> hset) option" where
  "check_insert key h = do {
     (bucket, h) \<leftarrow> find_or_allocate key h;
     st \<leftarrow> at (states h) bucket;
     if st = FILLED then Some (False, h)
     else do { h \<leftarrow> fill_bucket bucket key h; Some (True, h) }
   }"

definition hs_insert :: "64 word \<Rightarrow> hset \<Rightarrow> (nat \<times> bool \<times> hset) option" where
  "hs_insert key h = do {
     (bucket, h) \<leftarrow> find_or_allocate key h;
     st \<leftarrow> at (states h) bucket;
     if st = FILLED then Some (bucket, False, h)
     else do { h \<leftarrow> fill_bucket bucket key h; Some (bucket, True, h) }
   }"

definition insert_unique :: "64 word \<Rightarrow> hset \<Rightarrow> hset option" where
  "insert_unique key h = do {
     (bucket, h) \<leftarrow> find_empty_bucket key h;
     fill_bucket bucket key h
   }"

definition hs_find :: "64 word \<Rightarrow> hset \<Rightarrow> nat option" where
  "hs_find key h = do {
     r \<leftarrow> find_filled_bucket key h;
     case r of None \<Rightarrow> Some (num_buckets h) | Some bucket \<Rightarrow> Some bucket
   }"

definition contains :: "64 word \<Rightarrow> hset \<Rightarrow> bool option" where
  "contains key h = do { r \<leftarrow> find_filled_bucket key h; Some (r \<noteq> None) }"

definition hs_count :: "64 word \<Rightarrow> hset \<Rightarrow> nat option" where
  "hs_count key h = do { r \<leftarrow> find_filled_bucket key h; Some (if r \<noteq> None then 1 else 0) }"

definition empty_bucket :: "nat \<Rightarrow> hset \<Rightarrow> hset option" where
  "empty_bucket bucket h = do {
     sts \<leftarrow> put (states h) bucket ACTIVE;
     Some (h\<lparr>states := sts, num_filled := num_filled h - 1\<rparr>)
   }"

definition erase :: "64 word \<Rightarrow> hset \<Rightarrow> (bool \<times> hset) option" where
  "erase key h = do {
     r \<leftarrow> find_filled_bucket key h;
     case r of
       Some bucket \<Rightarrow> do { h \<leftarrow> empty_bucket bucket h; Some (True, h) }
     | None \<Rightarrow> Some (False, h)
   }"

definition clear :: "hset \<Rightarrow> hset" where
  "clear h = h\<lparr>states := map (\<lambda>st. if st = FILLED then INACTIVE else st) (states h),
     num_filled := 0, max_probe_length := - 1\<rparr>"

fun power_of_two :: "nat \<Rightarrow> nat \<Rightarrow> nat \<Rightarrow> nat" where
  "power_of_two 0 required n = n"
| "power_of_two (Suc fuel) required n = (if n < required then power_of_two fuel required (n * 2) else n)"

text \<open>The rehash loop over the old arrays.\<close>

fun rehash :: "(bucket_state \<times> 64 word) list \<Rightarrow> hset \<Rightarrow> hset option" where
  "rehash [] h = Some h"
| "rehash ((st, k) # old) h =
     (if st = FILLED then do {
        (bucket, h) \<leftarrow> find_empty_bucket k h;
        h \<leftarrow> fill_bucket bucket k h;
        rehash old h
      }
      else rehash old h)"

text \<open>\<open>malloc\<close> returns uninitialised keys: \<open>junk\<close> is what they hold.\<close>

definition reserve :: "(nat \<Rightarrow> 64 word list) \<Rightarrow> nat \<Rightarrow> hset \<Rightarrow> hset option" where
  "reserve junk num_elems h =
     (let required = num_elems + num_elems div 2 + 1 in
      if required \<le> num_buckets h then Some h
      else
        let nb = power_of_two required required 4 in
        rehash (zip (states h) (keys h))
          \<lparr>states = replicate nb INACTIVE, keys = junk nb, num_buckets = nb, num_filled = 0,
           max_probe_length = - 1, hmask = of_nat nb - 1\<rparr>)"

text \<open>Iteration: the next filled bucket from \<open>bucket\<close> on, \<open>num_buckets\<close> (\<open>end()\<close>) when there is none.\<close>

function next_filled :: "hset \<Rightarrow> nat \<Rightarrow> nat" where
  "next_filled h bucket =
     (if bucket < length (states h) \<and> states h ! bucket \<noteq> FILLED then next_filled h (Suc bucket) else bucket)"
  by pat_completeness auto
termination
  by (relation "measure (\<lambda>(h, bucket). length (states h) - bucket)") auto

definition hs_begin :: "hset \<Rightarrow> nat" where
  "hs_begin h = next_filled h 0"

definition goto_next_element :: "hset \<Rightarrow> nat \<Rightarrow> nat" where
  "goto_next_element h bucket = next_filled h (Suc bucket)"

declare find_filled_loop.simps [simp del] alloc_scan.simps [simp del] next_filled.simps [simp del]

section \<open>Invariant\<close>

definition elems :: "hset \<Rightarrow> 64 word set" where
  "elems h = {keys h ! b |b. b < length (states h) \<and> states h ! b = FILLED}"

text \<open>The key in a filled bucket sits on its own probe sequence, within \<open>max_probe_length\<close>, with no bucket before it
  that was never used.\<close>

definition chained :: "hset \<Rightarrow> nat \<Rightarrow> bool" where
  "chained h b \<longleftrightarrow> (\<exists>off. int off \<le> max_probe_length h \<and> bucket_of h (keys h ! b) off = b \<and>
     (\<forall>o'<off. states h ! bucket_of h (keys h ! b) o' \<noteq> INACTIVE))"

definition filled :: "hset \<Rightarrow> nat set" where
  "filled h = {b. b < length (states h) \<and> states h ! b = FILLED}"

definition hs_inv :: "nat \<Rightarrow> hset \<Rightarrow> bool" where
  "hs_inv n h \<longleftrightarrow> n \<le> 30 \<and> num_buckets h = 2 ^ n \<and> length (states h) = 2 ^ n \<and> length (keys h) = 2 ^ n \<and>
     hmask h = mask n \<and> num_filled h = card (filled h) \<and> max_probe_length h < 2 ^ n \<and> - 1 \<le> max_probe_length h \<and>
     inj_on (nth (keys h)) (filled h) \<and> (\<forall>b\<in>filled h. chained h b)"


section \<open>Probe sequences\<close>

lemma unat_mod_mask:
  assumes "n \<le> 64"
  shows "unat ((key + of_nat off) AND mask n :: 64 word) = (unat key + off) mod 2 ^ n"
proof -
  have "unat ((key + of_nat off) AND mask n :: 64 word) = take_bit n (unat (key + of_nat off))"
    by (simp add: take_bit_eq_mask[symmetric] unsigned_take_bit_eq)
  also have "unat (key + of_nat off) = (unat key + off) mod 2 ^ 64"
    by (simp add: unat_word_ariths unat_of_nat mod_simps)
  also have "take_bit n ((unat key + off) mod 2 ^ 64) = (unat key + off) mod 2 ^ n"
    using assms by (simp only: take_bit_eq_mod mod_mod_cancel le_imp_power_dvd)
  finally show ?thesis .
qed

lemma bucket_of_eq: "hs_inv n h \<Longrightarrow> bucket_of h key off = (unat key + off) mod 2 ^ n"
  by (simp add: bucket_of_def hs_inv_def unat_mod_mask)

lemma bucket_of_less: "hs_inv n h \<Longrightarrow> bucket_of h key off < 2 ^ n"
  by (simp add: bucket_of_eq)

text \<open>Every bucket is on every probe sequence, and \<open>2 ^ n\<close> successive buckets are all of them.\<close>

lemma bucket_of_surj:
  assumes "hs_inv n h" "b < 2 ^ n"
  shows "\<exists>off<2 ^ n. bucket_of h key off = b"
proof -
  let ?N = "2 ^ n :: nat"
  let ?o = "(b + (?N - unat key mod ?N)) mod ?N"
  have "(unat key + ?o) mod ?N = (unat key mod ?N + (b + (?N - unat key mod ?N))) mod ?N"
    by (simp add: mod_simps)
  also have "unat key mod ?N + (b + (?N - unat key mod ?N)) = b + ?N"
  proof -
    have "unat key mod ?N < ?N" by simp
    then show ?thesis by linarith
  qed
  finally have "(unat key + ?o) mod ?N = b" using assms(2) by simp
  then show ?thesis using bucket_of_eq[OF assms(1)] by (intro exI[of _ ?o]) simp
qed

lemma probe_steps:
  assumes "hs_inv n h" "\<And>j. j < d \<Longrightarrow> states h ! bucket_of h key (off + j) = FILLED"
    and "states h ! bucket_of h key (off + d) \<noteq> FILLED"
  shows "probe h key off = Some (off + d, bucket_of h key (off + d))"
  using assms(2,3)
proof (induction d arbitrary: off)
  case 0
  then show ?case
    using bucket_of_less[OF assms(1)] assms(1)
    by (simp add: probe.simps[of h key off] at_def hs_inv_def)
next
  case (Suc d)
  have "probe h key (Suc off) = Some (Suc off + d, bucket_of h key (Suc off + d))"
    using Suc.prems(1)[of "Suc j" for j] Suc.prems(2) by (intro Suc.IH) auto
  then show ?case
    using Suc.prems(1)[of 0] bucket_of_less[OF assms(1)] assms(1)
    by (simp add: probe.simps[of h key off] at_def hs_inv_def)
qed

text \<open>With a free bucket left the unbounded loops end, within \<open>2 ^ n\<close> steps from the start of the sequence.\<close>

lemma probe_ok:
  assumes h: "hs_inv n h" "num_filled h < 2 ^ n" and pre: "\<And>j. j < off \<Longrightarrow> states h ! bucket_of h key j = FILLED"
  shows "\<exists>o'. probe h key off = Some (o', bucket_of h key o') \<and> o' < 2 ^ n \<and> off \<le> o' \<and>
    states h ! bucket_of h key o' \<noteq> FILLED \<and> (\<forall>j<o'. states h ! bucket_of h key j = FILLED)"
proof -
  have "\<exists>b<2 ^ n. states h ! b \<noteq> FILLED"
  proof (rule ccontr)
    assume "\<not> ?thesis"
    then have "filled h = {..<2 ^ n}" using h(1) by (auto simp: filled_def hs_inv_def)
    then show False using h by (simp add: hs_inv_def)
  qed
  then obtain b o1 where o1: "o1 < 2 ^ n" "states h ! bucket_of h key o1 \<noteq> FILLED"
    using bucket_of_surj[OF h(1)] by metis
  define o' where "o' = (LEAST o'. states h ! bucket_of h key o' \<noteq> FILLED)"
  have o': "states h ! bucket_of h key o' \<noteq> FILLED" "o' \<le> o1"
    using o1(2) unfolding o'_def by (rule LeastI, rule Least_le)
  have before: "states h ! bucket_of h key j = FILLED" if "j < o'" for j
    using not_less_Least[of j "\<lambda>o'. states h ! bucket_of h key o' \<noteq> FILLED"] that by (simp add: o'_def)
  have "off \<le> o'" using pre[of o'] o'(1) by (meson not_le)
  then obtain d where d: "o' = off + d" using le_Suc_ex by blast
  have "probe h key off = Some (off + d, bucket_of h key (off + d))"
    by (rule probe_steps[OF h(1)]) (use before o'(1) d in auto)
  then show ?thesis using d o' o1(1) before by auto
qed

text \<open>A key that is present is met before any bucket that was never used.\<close>

lemma chained_at:
  assumes "hs_inv n h" "key \<in> elems h"
  shows "\<exists>off. int off \<le> max_probe_length h \<and> bucket_of h key off \<in> filled h \<and> keys h ! bucket_of h key off = key \<and>
    (\<forall>j<off. states h ! bucket_of h key j \<noteq> INACTIVE)"
proof -
  obtain b where b: "b \<in> filled h" "keys h ! b = key" using assms(2) by (auto simp: elems_def filled_def)
  then have "chained h b" using assms(1) by (simp add: hs_inv_def)
  then show ?thesis using b unfolding chained_def by metis
qed

lemma elems_filled: "elems h = nth (keys h) ` filled h"
  by (auto simp: elems_def filled_def)

definition not_before :: "hset \<Rightarrow> 64 word \<Rightarrow> nat \<Rightarrow> bool" where
  "not_before h key off \<longleftrightarrow> (\<forall>j<off. bucket_of h key j \<in> filled h \<longrightarrow> keys h ! bucket_of h key j \<noteq> key)"

lemma not_before_0 [simp]: "not_before h key 0"
  by (simp add: not_before_def)

lemma not_before_Suc:
  "not_before h key (Suc off) \<longleftrightarrow>
     not_before h key off \<and> (bucket_of h key off \<in> filled h \<longrightarrow> keys h ! bucket_of h key off \<noteq> key)"
  by (auto simp: not_before_def less_Suc_eq)

text \<open>The two ways a search gives up are right.\<close>

lemma absent_INACTIVE:
  assumes "hs_inv n h" "not_before h key off" "states h ! bucket_of h key off = INACTIVE"
  shows "key \<notin> elems h"
proof
  assume "key \<in> elems h"
  then obtain o' where o': "bucket_of h key o' \<in> filled h" "keys h ! bucket_of h key o' = key"
    "\<forall>j<o'. states h ! bucket_of h key j \<noteq> INACTIVE"
    using chained_at[OF assms(1)] by blast
  then have "\<not> o' < off" "\<not> off < o'" using assms(2,3) by (auto simp: not_before_def)
  then have "o' = off" by simp
  with o'(1) assms(3) show False by (simp add: filled_def)
qed

lemma absent_end:
  assumes "hs_inv n h" "not_before h key off" "max_probe_length h < int off"
  shows "key \<notin> elems h"
  using chained_at[OF assms(1), of key] assms(2,3) by (fastforce simp: not_before_def)

lemma at_bucket:
  assumes "hs_inv n h"
  shows "at (states h) (bucket_of h key off) = Some (states h ! bucket_of h key off)"
    and "at (keys h) (bucket_of h key off) = Some (keys h ! bucket_of h key off)"
    and "bucket_of h key off \<in> filled h \<longleftrightarrow> states h ! bucket_of h key off = FILLED"
  using bucket_of_less[OF assms] assms by (auto simp: at_def hs_inv_def filled_def)

lemma find_filled_loop_ok:
  assumes h: "hs_inv n h"
  shows "not_before h key off \<Longrightarrow> \<exists>r. find_filled_loop h key off = Some r \<and>
    (case r of None \<Rightarrow> key \<notin> elems h | Some b \<Rightarrow> b \<in> filled h \<and> keys h ! b = key)"
proof (induction "nat (max_probe_length h + 1 - int off)" arbitrary: off rule: less_induct)
  case less
  let ?b = "bucket_of h key off"
  note A = at_bucket[OF h, of key off]
  show ?case
  proof (cases "int off \<le> max_probe_length h")
    case False
    then show ?thesis using absent_end[OF h less.prems] by (simp add: find_filled_loop.simps[of h key off])
  next
    case le: True
    note run = find_filled_loop.simps[of h key off] A(1,2)
    have nxt: "\<exists>r. find_filled_loop h key (Suc off) = Some r \<and>
      (case r of None \<Rightarrow> key \<notin> elems h | Some b \<Rightarrow> b \<in> filled h \<and> keys h ! b = key)"
      if "?b \<in> filled h \<longrightarrow> keys h ! ?b \<noteq> key"
      using less.hyps[of "Suc off"] less.prems le that by (simp add: not_before_Suc)
    show ?thesis
    proof (cases "states h ! ?b")
      case INACTIVE
      then show ?thesis using absent_INACTIVE[OF h less.prems INACTIVE] le by (simp add: run)
    next
      case ACTIVE
      then show ?thesis using nxt A(3) le by (simp add: run)
    next
      case FILLED
      then show ?thesis using nxt A(3) le by (cases "keys h ! ?b = key") (auto simp: run)
    qed
  qed
qed

lemma find_filled_bucket_ok:
  assumes h: "hs_inv n h"
  shows "\<exists>r. find_filled_bucket key h = Some r \<and>
    (case r of None \<Rightarrow> key \<notin> elems h | Some b \<Rightarrow> b \<in> filled h \<and> keys h ! b = key)"
proof (cases "num_filled h = 0")
  case True
  then have "filled h = {}" using h by (auto simp: hs_inv_def filled_def)
  with True show ?thesis by (simp add: find_filled_bucket_def elems_filled)
next
  case False
  with find_filled_loop_ok[OF h, of key 0] show ?thesis by (simp add: find_filled_bucket_def)
qed

text \<open>What \<open>find_or_allocate\<close> returns: the key's bucket, or a free bucket on its probe sequence.\<close>

definition allocated :: "hset \<Rightarrow> 64 word \<Rightarrow> nat \<Rightarrow> hset \<Rightarrow> bool" where
  "allocated h key b h' \<longleftrightarrow> (\<exists>p. h' = h\<lparr>max_probe_length := p\<rparr> \<and> max_probe_length h \<le> p \<and>
     (if b \<in> filled h then keys h ! b = key \<and> p = max_probe_length h
      else key \<notin> elems h \<and> (\<exists>off. int off \<le> p \<and> p < int (length (states h)) \<and> b = bucket_of h key off \<and>
        b < length (states h) \<and> (\<forall>j<off. states h ! bucket_of h key j \<noteq> INACTIVE))))"

definition hole_ok :: "hset \<Rightarrow> 64 word \<Rightarrow> nat option \<Rightarrow> nat \<Rightarrow> bool" where
  "hole_ok h key hole off \<longleftrightarrow> (\<forall>j<off. states h ! bucket_of h key j \<noteq> INACTIVE) \<and>
     (case hole of None \<Rightarrow> \<forall>j<off. states h ! bucket_of h key j = FILLED
      | Some b \<Rightarrow> \<exists>j<off. b = bucket_of h key j \<and> states h ! b \<noteq> FILLED)"

lemma alloc_scan_ok:
  assumes h: "hs_inv n h"
  shows "not_before h key off \<Longrightarrow> hole_ok h key hole off \<Longrightarrow> int off \<le> max_probe_length h + 1 \<Longrightarrow>
    \<exists>r. alloc_scan h key hole off = Some r \<and>
    (case r of Inl b \<Rightarrow> allocated h key b h
     | Inr (hole', o') \<Rightarrow> int o' = max_probe_length h + 1 \<and> key \<notin> elems h \<and> hole_ok h key hole' o')"
proof (induction "nat (max_probe_length h + 1 - int off)" arbitrary: off hole rule: less_induct)
  case less
  let ?b = "bucket_of h key off"
  note A = at_bucket[OF h, of key off]
  have bl: "?b < length (states h)" "max_probe_length h < int (length (states h))"
    using bucket_of_less[OF h] h by (simp_all add: hs_inv_def)
  show ?case
  proof (cases "int off \<le> max_probe_length h")
    case False
    then show ?thesis
      using absent_end[OF h less.prems(1)] less.prems(2,3) by (simp add: alloc_scan.simps[of h key hole off])
  next
    case le: True
    note run = alloc_scan.simps[of h key hole off] A(1,2)
    show ?thesis
    proof (cases "states h ! ?b")
      case INACTIVE
      have "allocated h key ?b h"
        using absent_INACTIVE[OF h less.prems(1) INACTIVE] A(3) INACTIVE less.prems(2) le bl
        by (auto simp: allocated_def hole_ok_def intro!: exI[of _ "max_probe_length h"])
      with INACTIVE le show ?thesis by (simp add: run)
    next
      case ACTIVE
      have "hole_ok h key (if hole = None then Some ?b else hole) (Suc off)"
        using less.prems(2) ACTIVE by (auto simp: hole_ok_def less_Suc_eq split: option.splits if_splits)
      then show ?thesis
        using less.hyps[of "Suc off" "if hole = None then Some ?b else hole"] less.prems(1) ACTIVE A(3) le
        by (simp add: run not_before_Suc)
    next
      case FILLED
      show ?thesis
      proof (cases "keys h ! ?b = key")
        case True
        then have "allocated h key ?b h" using FILLED A(3) by (auto simp: allocated_def)
        with True FILLED le show ?thesis by (simp add: run)
      next
        case False
        have "hole_ok h key hole (Suc off)"
          using less.prems(2) FILLED by (auto simp: hole_ok_def less_Suc_eq split: option.splits)
        then show ?thesis
          using less.hyps[of "Suc off" hole] less.prems(1) FILLED False A(3) le
          by (simp add: run not_before_Suc)
      qed
    qed
  qed
qed


lemma find_or_allocate_ok:
  assumes h: "hs_inv n h" and free: "num_filled h < 2 ^ n"
  shows "\<exists>b h'. find_or_allocate key h = Some (b, h') \<and> allocated h key b h'"
proof -
  have m: "- 1 \<le> max_probe_length h" using h by (simp add: hs_inv_def)
  obtain r where r: "alloc_scan h key None 0 = Some r"
    "case r of Inl b \<Rightarrow> allocated h key b h
     | Inr (hole', o') \<Rightarrow> int o' = max_probe_length h + 1 \<and> key \<notin> elems h \<and> hole_ok h key hole' o'"
    using alloc_scan_ok[OF h, of key 0 None] m by (auto simp: hole_ok_def)
  show ?thesis
  proof (cases r)
    case (Inl b)
    with r show ?thesis by (simp add: find_or_allocate_def)
  next
    case (Inr ho)
    then obtain hole o1 where ho: "r = Inr (hole, o1)" by (cases ho) auto
    with r have o1: "int o1 = max_probe_length h + 1" "key \<notin> elems h" "hole_ok h key hole o1" by auto
    show ?thesis
    proof (cases hole)
      case (Some b)
      then obtain j where j: "j < o1" "b = bucket_of h key j" "states h ! b \<noteq> FILLED"
        "\<forall>i<o1. states h ! bucket_of h key i \<noteq> INACTIVE"
        using o1(3) by (auto simp: hole_ok_def)
      have "allocated h key b h"
        using j o1(1,2) bucket_of_less[OF h] h at_bucket(3)[OF h, of key j]
        by (auto simp: allocated_def hs_inv_def intro!: exI[of _ "max_probe_length h"] exI[of _ j])
      with Some r ho show ?thesis by (simp add: find_or_allocate_def)
    next
      case None
      then obtain o2 where o2: "probe h key o1 = Some (o2, bucket_of h key o2)" "o2 < 2 ^ n" "o1 \<le> o2"
        "states h ! bucket_of h key o2 \<noteq> FILLED" "\<forall>j<o2. states h ! bucket_of h key j = FILLED"
        using probe_ok[OF h free, of o1 key] o1(3) by (auto simp: hole_ok_def)
      have "allocated h key (bucket_of h key o2) (h\<lparr>max_probe_length := int o2\<rparr>)"
        using o2 o1(1,2) bucket_of_less[OF h] h at_bucket(3)[OF h, of key o2]
        by (auto simp: allocated_def hs_inv_def intro!: exI[of _ "int o2"] exI[of _ o2])
      with None r ho o2(1) show ?thesis by (simp add: find_or_allocate_def)
    qed
  qed
qed

lemma fill_bucket_ok:
  assumes h: "hs_inv n h" and al: "allocated h key b h'" and nf: "b \<notin> filled h"
  shows "\<exists>h''. fill_bucket b key h' = Some h'' \<and> hs_inv n h'' \<and> elems h'' = insert key (elems h) \<and>
    num_filled h'' = Suc (num_filled h)"
proof -
  obtain p off where p: "h' = h\<lparr>max_probe_length := p\<rparr>" "max_probe_length h \<le> p" "key \<notin> elems h" "int off \<le> p"
    "p < int (length (states h))" "b = bucket_of h key off" "b < length (states h)"
    "\<forall>j<off. states h ! bucket_of h key j \<noteq> INACTIVE"
    using al nf by (auto simp: allocated_def)
  have len: "length (states h) = 2 ^ n" "length (keys h) = 2 ^ n" using h by (simp_all add: hs_inv_def)
  let ?h = "h'\<lparr>states := (states h)[b := FILLED], keys := (keys h)[b := key], num_filled := Suc (num_filled h)\<rparr>"
  have run: "fill_bucket b key h' = Some ?h" using p(1,7) len by (simp add: fill_bucket_def put_def)
  have bo: "bucket_of ?h = bucket_of h" using p(1) by (auto simp: bucket_of_def fun_eq_iff)
  have fl: "filled ?h = insert b (filled h)"
    using p(7) by (auto simp: filled_def nth_list_update split: if_splits)
  have ks: "keys ?h ! c = (if c = b then key else keys h ! c)" for c using p(7) len by (simp add: nth_list_update)
  have ninact: "states ?h ! c \<noteq> INACTIVE" if "states h ! c \<noteq> INACTIVE" for c
    using that p(7) by (simp add: nth_list_update)
  have keysimg: "nth (keys ?h) ` filled h = elems h"
    using nf ks by (force simp: elems_filled)
  have inj: "inj_on (nth (keys ?h)) (filled ?h)"
  proof -
    have "inj_on (nth (keys ?h)) (filled h)"
      using h nf ks by (auto simp: hs_inv_def inj_on_def)
    moreover have "(keys h)[b := key] ! b = key" using p(7) len by simp
    ultimately show ?thesis using keysimg p(3) nf by (simp add: fl)
  qed
  have chains: "chained ?h c" if "c \<in> filled ?h" for c
  proof (cases "c = b")
    case True
    then show ?thesis unfolding chained_def bo using p(1,4,6,8) ninact ks by (intro exI[of _ off]) auto
  next
    case False
    then have "chained h c" using that h fl by (auto simp: hs_inv_def)
    then obtain q where q: "int q \<le> max_probe_length h" "bucket_of h (keys h ! c) q = c"
      "\<forall>j<q. states h ! bucket_of h (keys h ! c) j \<noteq> INACTIVE" by (auto simp: chained_def)
    have kc: "keys ?h ! c = keys h ! c" using ks False by simp
    show ?thesis unfolding chained_def bo kc
      using q p(1,2) ninact by (intro exI[of _ q]) auto
  qed
  have "finite (filled h)" by (rule finite_subset[of _ "{..<length (states h)}"]) (auto simp: filled_def)
  then have "card (filled ?h) = Suc (num_filled h)" using fl nf h by (simp add: hs_inv_def)
  then have "hs_inv n ?h"
    using h p(1,2,5) inj chains len by (simp add: hs_inv_def)
  moreover have "elems ?h = insert key (elems h)"
    unfolding elems_filled[of ?h] fl image_insert keysimg ks by simp
  ultimately show ?thesis using run by auto
qed

lemma allocated_filled: "allocated h key b h' \<Longrightarrow> b \<in> filled h \<Longrightarrow> h' = h \<and> key \<in> elems h"
  by (auto simp: allocated_def elems_filled)

lemma allocated_free: "allocated h key b h' \<Longrightarrow> b \<notin> filled h \<Longrightarrow> key \<notin> elems h \<and> states h' = states h"
  by (auto simp: allocated_def)

lemma allocated_at: "hs_inv n h \<Longrightarrow> allocated h key b h' \<Longrightarrow> at (states h') b = Some (states h ! b) \<and> (b \<in> filled h \<longleftrightarrow> states h ! b = FILLED)"
  by (auto simp: allocated_def at_def filled_def split: if_splits)

lemma check_insert_ok:
  assumes h: "hs_inv n h" and free: "num_filled h < 2 ^ n"
  shows "\<exists>h'. check_insert key h = Some (key \<notin> elems h, h') \<and> hs_inv n h' \<and> elems h' = insert key (elems h) \<and>
    num_filled h' = (if key \<in> elems h then num_filled h else Suc (num_filled h))"
proof -
  obtain b h1 where b: "find_or_allocate key h = Some (b, h1)" "allocated h key b h1"
    using find_or_allocate_ok[OF h free] by blast
  note A = allocated_at[OF h b(2)]
  show ?thesis
  proof (cases "b \<in> filled h")
    case True
    with allocated_filled[OF b(2) True] A b(1) h show ?thesis by (auto simp: check_insert_def)
  next
    case False
    with allocated_free[OF b(2) False] A b(1) fill_bucket_ok[OF h b(2) False] show ?thesis
      by (auto simp: check_insert_def)
  qed
qed

lemma hs_insert_ok:
  assumes h: "hs_inv n h" and free: "num_filled h < 2 ^ n"
  shows "\<exists>b h'. hs_insert key h = Some (b, key \<notin> elems h, h') \<and> hs_inv n h' \<and> elems h' = insert key (elems h) \<and>
    num_filled h' = (if key \<in> elems h then num_filled h else Suc (num_filled h))"
proof -
  obtain b h1 where b: "find_or_allocate key h = Some (b, h1)" "allocated h key b h1"
    using find_or_allocate_ok[OF h free] by blast
  note A = allocated_at[OF h b(2)]
  show ?thesis
  proof (cases "b \<in> filled h")
    case True
    with allocated_filled[OF b(2) True] A b(1) h show ?thesis by (auto simp: hs_insert_def)
  next
    case False
    with allocated_free[OF b(2) False] A b(1) fill_bucket_ok[OF h b(2) False] show ?thesis
      by (auto simp: hs_insert_def)
  qed
qed

lemma find_empty_bucket_ok:
  assumes h: "hs_inv n h" and free: "num_filled h < 2 ^ n" and new: "key \<notin> elems h"
  shows "\<exists>b h'. find_empty_bucket key h = Some (b, h') \<and> allocated h key b h' \<and> b \<notin> filled h"
proof -
  obtain o2 where o2: "probe h key 0 = Some (o2, bucket_of h key o2)" "o2 < 2 ^ n"
    "states h ! bucket_of h key o2 \<noteq> FILLED" "\<forall>j<o2. states h ! bucket_of h key j = FILLED"
    using probe_ok[OF h free, of 0 key] by auto
  let ?p = "max (max_probe_length h) (int o2)"
  have "allocated h key (bucket_of h key o2) (h\<lparr>max_probe_length := ?p\<rparr>)"
    using o2 new bucket_of_less[OF h] h at_bucket(3)[OF h, of key o2]
    by (auto simp: allocated_def hs_inv_def intro!: exI[of _ ?p] exI[of _ o2])
  moreover have "find_empty_bucket key h = Some (bucket_of h key o2, h\<lparr>max_probe_length := ?p\<rparr>)"
    using o2(1) by (cases h) (auto simp: find_empty_bucket_def max_def)
  ultimately show ?thesis using at_bucket(3)[OF h, of key o2] o2(3) by blast
qed

lemma insert_unique_ok:
  assumes h: "hs_inv n h" and free: "num_filled h < 2 ^ n" and new: "key \<notin> elems h"
  shows "\<exists>h'. insert_unique key h = Some h' \<and> hs_inv n h' \<and> elems h' = insert key (elems h) \<and>
    num_filled h' = Suc (num_filled h)"
  using find_empty_bucket_ok[OF assms] fill_bucket_ok[OF h] by (auto simp: insert_unique_def)


lemma find_filled_bucket_iff: "hs_inv n h \<Longrightarrow> \<exists>r. find_filled_bucket key h = Some r \<and> (r \<noteq> None \<longleftrightarrow> key \<in> elems h)"
  by (drule find_filled_bucket_ok[of n h key], erule exE, rename_tac r, case_tac r) (auto simp: elems_filled)

lemma contains_ok: "hs_inv n h \<Longrightarrow> contains key h = Some (key \<in> elems h)"
  by (drule find_filled_bucket_iff[of n h key]) (auto simp: contains_def)

lemma hs_count_ok: "hs_inv n h \<Longrightarrow> hs_count key h = Some (if key \<in> elems h then 1 else 0)"
  by (drule find_filled_bucket_iff[of n h key]) (auto simp: hs_count_def)

lemma finite_filled [simp]: "finite (filled h)"
  by (rule finite_subset[of _ "{..<length (states h)}"]) (auto simp: filled_def)

lemma empty_bucket_ok:
  assumes h: "hs_inv n h" and b: "b \<in> filled h"
  shows "\<exists>h'. empty_bucket b h = Some h' \<and> hs_inv n h' \<and> elems h' = elems h - {keys h ! b} \<and> filled h' = filled h - {b} \<and>
    num_filled h' = num_filled h - 1 \<and> length (states h') = length (states h)"
proof -
  have bl: "b < length (states h)" using b by (simp add: filled_def)
  let ?h = "h\<lparr>states := (states h)[b := ACTIVE], num_filled := num_filled h - 1\<rparr>"
  have run: "empty_bucket b h = Some ?h" using bl by (simp add: empty_bucket_def put_def)
  have fl: "filled ?h = filled h - {b}"
    using bl by (auto simp: filled_def nth_list_update split: if_splits)
  have inj: "inj_on (nth (keys h)) (filled h)" using h by (simp add: hs_inv_def)
  have el: "elems ?h = elems h - {keys h ! b}"
    unfolding elems_filled[of ?h] elems_filled[of h] fl
    using inj_on_image_set_diff[OF inj, of "filled h" "{b}"] b by simp
  have bo: "bucket_of ?h = bucket_of h" by (auto simp: bucket_of_def fun_eq_iff)
  have "chained ?h c" if "c \<in> filled ?h" for c
  proof -
    have "chained h c" using that h fl by (auto simp: hs_inv_def)
    then show ?thesis unfolding chained_def bo
      using bl by (auto simp: nth_list_update)
  qed
  moreover have "card (filled ?h) = num_filled h - 1" using fl b h by (simp add: hs_inv_def)
  moreover have "inj_on (nth (keys h)) (filled ?h)" by (rule inj_on_subset[OF inj]) (use fl in blast)
  ultimately have "hs_inv n ?h"
    using h by (simp add: hs_inv_def)
  with run el fl show ?thesis by simp
qed

lemma erase_ok:
  assumes h: "hs_inv n h"
  shows "\<exists>h'. erase key h = Some (key \<in> elems h, h') \<and> hs_inv n h' \<and> elems h' = elems h - {key}"
proof -
  obtain r where r: "find_filled_bucket key h = Some r"
    "case r of None \<Rightarrow> key \<notin> elems h | Some b \<Rightarrow> b \<in> filled h \<and> keys h ! b = key"
    using find_filled_bucket_ok[OF h] by blast
  show ?thesis
  proof (cases r)
    case None
    with r h show ?thesis by (auto simp: erase_def)
  next
    case (Some b)
    with r have b: "b \<in> filled h" "keys h ! b = key" by auto
    with r Some empty_bucket_ok[OF h b(1)] show ?thesis by (auto simp: erase_def elems_filled)
  qed
qed

lemma clear_ok:
  assumes "hs_inv n h"
  shows "hs_inv n (clear h) \<and> elems (clear h) = {} \<and> num_filled (clear h) = 0"
proof -
  have "filled (clear h) = {}" by (auto simp: filled_def clear_def)
  then show ?thesis using assms by (auto simp: hs_inv_def elems_filled) (simp_all add: clear_def)
qed

section \<open>Growing\<close>

lemma power_of_two_ok:
  "required \<le> 2 ^ fuel * n \<Longrightarrow> 0 < n \<Longrightarrow> \<exists>k. power_of_two fuel required n = 2 ^ k * n \<and> required \<le> 2 ^ k * n \<and>
     (k = 0 \<or> 2 ^ k * n < 2 * required)"
proof (induction fuel arbitrary: n)
  case 0
  then show ?case by (intro exI[of _ 0]) simp
next
  case (Suc fuel)
  show ?case
  proof (cases "n < required")
    case True
    obtain k where k: "power_of_two fuel required (n * 2) = 2 ^ k * (n * 2)" "required \<le> 2 ^ k * (n * 2)"
      "k = 0 \<or> 2 ^ k * (n * 2) < 2 * required"
      using Suc.IH[of "n * 2"] Suc.prems by auto
    then show ?thesis using True by (intro exI[of _ "Suc k"]) (auto simp: algebra_simps)
  next
    case False
    then show ?thesis by (intro exI[of _ 0]) simp
  qed
qed

lemma fresh_inv:
  assumes "n \<le> 30" "length ks = 2 ^ n"
  shows "hs_inv n \<lparr>states = replicate (2 ^ n) INACTIVE, keys = ks, num_buckets = 2 ^ n, num_filled = 0,
    max_probe_length = - 1, hmask = of_nat (2 ^ n) - 1\<rparr>" (is "hs_inv n ?h")
proof -
  have "filled ?h = {}" by (auto simp: filled_def)
  moreover have "(- 1 :: int) < 2 ^ n" using zero_less_power[of "2::int" n] by linarith
  ultimately show ?thesis using assms by (simp add: hs_inv_def mask_eq_decr_exp)
qed

definition stored :: "(bucket_state \<times> 64 word) list \<Rightarrow> 64 word list" where
  "stored old = map snd (filter (\<lambda>(st, k). st = FILLED) old)"

lemma rehash_ok:
  "hs_inv n h \<Longrightarrow> num_filled h + length (stored old) \<le> 2 ^ n \<Longrightarrow> distinct (stored old) \<Longrightarrow>
   set (stored old) \<inter> elems h = {} \<Longrightarrow>
   \<exists>h'. rehash old h = Some h' \<and> hs_inv n h' \<and> elems h' = set (stored old) \<union> elems h \<and>
     num_filled h' = num_filled h + length (stored old)"
proof (induction old arbitrary: h)
  case Nil
  then show ?case by (simp add: stored_def)
next
  case (Cons e old)
  obtain st k where e: "e = (st, k)" by (cases e) auto
  show ?case
  proof (cases "st = FILLED")
    case True
    have st: "stored (e # old) = k # stored old" using e True by (simp add: stored_def)
    obtain b h1 where b: "find_empty_bucket k h = Some (b, h1)" "allocated h k b h1" "b \<notin> filled h"
      using find_empty_bucket_ok[OF Cons.prems(1), of k] Cons.prems(2,4) st by auto
    obtain h2 where h2: "fill_bucket b k h1 = Some h2" "hs_inv n h2" "elems h2 = insert k (elems h)"
      "num_filled h2 = Suc (num_filled h)" using fill_bucket_ok[OF Cons.prems(1) b(2,3)] by blast
    obtain h3 where "rehash old h2 = Some h3" "hs_inv n h3" "elems h3 = set (stored old) \<union> elems h2"
      "num_filled h3 = num_filled h2 + length (stored old)"
      using Cons.IH[OF h2(2)] Cons.prems(2-4) h2(3,4) st by auto
    with e True st b(1) h2 show ?thesis by auto
  next
    case False
    then have "stored (e # old) = stored old" using e by (simp add: stored_def)
    with Cons e False show ?thesis by auto
  qed
qed

lemma stored_set: "length sts = length ks \<Longrightarrow> set (stored (zip sts ks)) = {ks ! b |b. b < length sts \<and> sts ! b = FILLED}"
  by (auto simp: stored_def set_zip image_def eq_commute[of FILLED])

lemma stored_card:
  "length sts = length ks \<Longrightarrow> length (stored (zip sts ks)) = card {b. b < length sts \<and> sts ! b = FILLED}"
proof -
  assume l: "length sts = length ks"
  have "length (stored (zip sts ks)) = length (filter (\<lambda>(st, k). st = FILLED) (zip sts ks))"
    by (simp add: stored_def)
  also have "\<dots> = card {b. b < length (zip sts ks) \<and> (case zip sts ks ! b of (st, k) \<Rightarrow> st = FILLED)}"
    by (simp add: length_filter_conv_card)
  also have "{b. b < length (zip sts ks) \<and> (case zip sts ks ! b of (st, k) \<Rightarrow> st = FILLED)} =
      {b. b < length sts \<and> sts ! b = FILLED}" using l by auto
  finally show ?thesis .
qed

text \<open>An old table: one that is well-formed, or the empty one a thread starts with.\<close>

definition hs_any :: "hset \<Rightarrow> bool" where
  "hs_any h \<longleftrightarrow> h = empty_hset \<or> (\<exists>n. hs_inv n h)"

lemma reserve_ok:
  assumes h: "hs_any h" and big: "num_elems < 2 ^ 28" "num_filled h \<le> num_elems" and junk: "\<And>n. length (junk n) = n"
  shows "\<exists>n h'. reserve junk num_elems h = Some h' \<and> hs_inv n h' \<and> elems h' = elems h \<and>
    num_filled h' = num_filled h \<and> num_elems < 2 ^ n"
proof (cases "num_elems + num_elems div 2 + 1 \<le> num_buckets h")
  case True
  then obtain n where n: "hs_inv n h" using h by (auto simp: hs_any_def empty_hset_def)
  with True show ?thesis by (intro exI[of _ n] exI[of _ h]) (auto simp: reserve_def hs_inv_def)
next
  case False
  let ?req = "num_elems + num_elems div 2 + 1"
  have "?req \<le> 2 ^ ?req * 4" using less_exp[of ?req] by linarith
  then obtain k where k: "power_of_two ?req ?req 4 = 2 ^ k * 4" "?req \<le> 2 ^ k * 4" "k = 0 \<or> 2 ^ k * 4 < 2 * ?req"
    using power_of_two_ok[of ?req ?req 4] by auto
  define n where "n = k + 2"
  have nb: "power_of_two ?req ?req 4 = 2 ^ n" "?req \<le> 2 ^ n" using k by (simp_all add: n_def power_add)
  have "n \<le> 30"
  proof (cases "k = 0")
    case False
    then have "(2::nat) ^ n < 2 ^ 30" using k(3) big(1) by (simp add: n_def power_add)
    then show ?thesis using power_less_imp_less_exp[of "2::nat" n 30] by simp
  qed (simp add: n_def)
  let ?h = "\<lparr>states = replicate (2 ^ n) INACTIVE, keys = junk (2 ^ n), num_buckets = 2 ^ n, num_filled = 0,
    max_probe_length = - 1, hmask = of_nat (2 ^ n) - 1\<rparr>"
  have fi: "hs_inv n ?h" by (rule fresh_inv[OF \<open>n \<le> 30\<close> junk])
  have fe: "elems ?h = {}" by (auto simp: elems_filled filled_def)
  let ?old = "zip (states h) (keys h)"
  have lk: "length (states h) = length (keys h)" using h by (auto simp: hs_any_def empty_hset_def hs_inv_def)
  have so: "set (stored ?old) = elems h" "length (stored ?old) = num_filled h"
    using stored_set[OF lk] stored_card[OF lk] h
    by (auto simp: elems_def hs_any_def hs_inv_def filled_def empty_hset_def)
  have "card (elems h) = num_filled h"
    using h by (auto simp: hs_any_def hs_inv_def elems_filled card_image empty_hset_def filled_def)
  then have "distinct (stored ?old)" using so by (metis card_distinct)
  moreover have "num_filled h \<le> 2 ^ n" using big(2) nb(2) by linarith
  ultimately obtain h' where "rehash ?old ?h = Some h'" "hs_inv n h'" "elems h' = elems h" "num_filled h' = num_filled h"
    using rehash_ok[OF fi, of ?old] so fe by auto
  moreover have "num_elems < 2 ^ n" using nb(2) by linarith
  ultimately show ?thesis using False nb(1)
    by (intro exI[of _ n] exI[of _ h']) (simp add: reserve_def Let_def)
qed

section \<open>Iteration\<close>

lemma next_filled_ok:
  "b \<le> length (states h) \<Longrightarrow> b \<le> next_filled h b \<and> next_filled h b \<le> length (states h) \<and>
   (\<forall>c. b \<le> c \<and> c < next_filled h b \<longrightarrow> c \<notin> filled h) \<and>
   (next_filled h b < length (states h) \<longrightarrow> next_filled h b \<in> filled h)"
proof (induction h b rule: next_filled.induct)
  case (1 h b)
  show ?case
  proof (cases "b < length (states h) \<and> states h ! b \<noteq> FILLED")
    case True
    let ?n = "next_filled h (Suc b)"
    have ih: "Suc b \<le> ?n" "?n \<le> length (states h)" "\<forall>c. Suc b \<le> c \<and> c < ?n \<longrightarrow> c \<notin> filled h"
      "?n < length (states h) \<longrightarrow> ?n \<in> filled h" using 1(1) True by auto
    have nb: "next_filled h b = ?n" using True by (simp add: next_filled.simps[of h b])
    have "c \<notin> filled h" if "b \<le> c" "c < ?n" for c
      using ih(3) that True by (cases "c = b") (auto simp: filled_def)
    then show ?thesis using ih unfolding nb by auto
  next
    case False
    then show ?thesis using 1(2) by (auto simp: next_filled.simps[of h b] filled_def)
  qed
qed


section \<open>The interface the runtime uses\<close>

text \<open>
  What logging relies on: \<open>chk\<close> tells whether a key is new and adds it, as long as the size is below the
  capacity, and \<open>clr\<close> empties the set.
\<close>

locale seen_set =
  fixes chk :: "'k \<Rightarrow> 's \<Rightarrow> (bool \<times> 's) option"
    and clr :: "'s \<Rightarrow> 's"
    and ok :: "'s \<Rightarrow> bool"
    and els :: "'s \<Rightarrow> 'k set"
    and sz :: "'s \<Rightarrow> nat"
    and cap :: nat
  assumes chk_ok: "ok s \<Longrightarrow> sz s < cap \<Longrightarrow>
      \<exists>s'. chk k s = Some (k \<notin> els s, s') \<and> ok s' \<and> els s' = insert k (els s) \<and>
        sz s' = (if k \<in> els s then sz s else Suc (sz s))"
    and clr_ok: "ok s \<Longrightarrow> ok (clr s) \<and> els (clr s) = {} \<and> sz (clr s) = 0"

text \<open>Checking a list of keys: the answers are \<open>True\<close> exactly at the first occurrences.\<close>

fun check_all :: "('k \<Rightarrow> 's \<Rightarrow> (bool \<times> 's) option) \<Rightarrow> 'k list \<Rightarrow> 's \<Rightarrow> (bool list \<times> 's) option" where
  "check_all chk [] s = Some ([], s)"
| "check_all chk (k # ks) s = do {
     (b, s) \<leftarrow> chk k s;
     (bs, s) \<leftarrow> check_all chk ks s;
     Some (b # bs, s)
   }"

fun firsts :: "'k set \<Rightarrow> 'k list \<Rightarrow> bool list" where
  "firsts A [] = []"
| "firsts A (k # ks) = (k \<notin> A) # firsts (insert k A) ks"

context seen_set
begin

lemma check_all_ok:
  "ok s \<Longrightarrow> sz s + length ks \<le> cap \<Longrightarrow>
   \<exists>s'. check_all chk ks s = Some (firsts (els s) ks, s') \<and> ok s' \<and> els s' = els s \<union> set ks \<and>
     sz s' \<le> sz s + length ks"
proof (induction ks arbitrary: s)
  case Nil
  then show ?case by simp
next
  case (Cons k ks)
  then obtain s1 where s1: "chk k s = Some (k \<notin> els s, s1)" "ok s1" "els s1 = insert k (els s)"
    "sz s1 = (if k \<in> els s then sz s else Suc (sz s))"
    using chk_ok[of s k] by auto
  then have "sz s1 + length ks \<le> cap" using Cons.prems(2) by auto
  from Cons.IH[OF s1(2) this] s1 show ?case by (auto split: if_splits)
qed

end

interpretation hs: seen_set check_insert clear "hs_inv n" elems num_filled "2 ^ n" for n
  by unfold_locales (use check_insert_ok clear_ok in auto)

section \<open>Properties\<close>

definition small_set :: hset where
  "small_set = \<lparr>states = [INACTIVE, INACTIVE, INACTIVE, INACTIVE], keys = [0, 0, 0, 0], num_buckets = 4,
     num_filled = 0, max_probe_length = - 1, hmask = 3\<rparr>"

lemma small_set_inv: "hs_inv 2 small_set"
  using fresh_inv[of 2 "[0, 0, 0, 0]"] by (simp add: small_set_def numeral_eq_Suc)

lemma small_set_elems: "elems small_set = {}" "num_filled small_set = 0"
  by (auto simp: elems_def small_set_def nth_Cons split: nat.splits)

text \<open>C25: while a free bucket is left, \<open>check_insert\<close> ends, answers whether the key is new, and then holds exactly the
  old keys and this one; the table's invariant is kept, so no probe ever runs forever or leaves the arrays.\<close>

theorem check_insert_correct:
  assumes "hs_inv n h" "num_filled h < 2 ^ n"
  shows "\<exists>h'. check_insert key h = Some (key \<notin> elems h, h') \<and> hs_inv n h' \<and> elems h' = insert key (elems h) \<and>
    num_filled h' = (if key \<in> elems h then num_filled h else Suc (num_filled h))"
  by (rule hs.chk_ok[OF assms])

theorem check_insert_correct_witness:
  "\<exists>h'. check_insert 7 small_set = Some (True, h') \<and> elems h' = {7}"
  using check_insert_correct[OF small_set_inv, of 7] small_set_elems by auto

text \<open>C29: \<open>erase\<close> removes exactly the key, reports whether it was there and keeps the invariant; \<open>contains\<close> and
  \<open>count\<close> then answer membership.\<close>

theorem erase_contains_correct:
  assumes "hs_inv n h"
  shows "\<exists>h'. erase key h = Some (key \<in> elems h, h') \<and> hs_inv n h' \<and> elems h' = elems h - {key} \<and>
    contains k h' = Some (k \<in> elems h \<and> k \<noteq> key) \<and> hs_count k h' = Some (if k \<in> elems h \<and> k \<noteq> key then 1 else 0)"
proof -
  obtain h' where h': "erase key h = Some (key \<in> elems h, h')" "hs_inv n h'" "elems h' = elems h - {key}"
    using erase_ok[OF assms] by blast
  then show ?thesis using contains_ok[OF h'(2), of k] hs_count_ok[OF h'(2), of k] by auto
qed

theorem erase_contains_correct_witness:
  "\<exists>h'. erase 7 small_set = Some (False, h') \<and> contains 8 h' = Some False"
  using erase_contains_correct[OF small_set_inv, of 7 8] small_set_elems by auto

text \<open>C30: \<open>reserve\<close> on the empty table of a new thread, or on a table in use, gives a table with room for the asked
  number of elements that holds the same keys.\<close>

theorem reserve_correct:
  assumes "hs_any h" "num_elems < 2 ^ 28" "num_filled h \<le> num_elems" "\<forall>n. length (junk n) = n"
  shows "\<exists>n h'. reserve junk num_elems h = Some h' \<and> hs_inv n h' \<and> elems h' = elems h \<and>
    num_filled h' = num_filled h \<and> num_elems < 2 ^ n"
  using reserve_ok[OF assms(1-3)] assms(4) by blast

theorem reserve_correct_witness:
  "\<exists>n h'. reserve (\<lambda>n. replicate n 0) 87382 empty_hset = Some h' \<and> hs_inv n h' \<and> elems h' = {} \<and> 87382 < (2::nat) ^ n"
proof -
  have "elems empty_hset = {}" "num_filled empty_hset = 0" by (auto simp: elems_def empty_hset_def)
  with reserve_correct[of empty_hset 87382 "\<lambda>n. replicate n 0"] show ?thesis by (auto simp: hs_any_def)
qed

text \<open>Iteration from \<open>begin\<close> or past a bucket stops at the next filled bucket and skips none, or at \<open>end()\<close>.\<close>

theorem iteration_correct:
  assumes "b \<le> length (states h)"
  shows "(\<forall>c. b \<le> c \<and> c < next_filled h b \<longrightarrow> c \<notin> filled h) \<and>
    (next_filled h b \<in> filled h \<or> next_filled h b = length (states h)) \<and> b \<le> next_filled h b"
  using next_filled_ok[OF assms] by (auto simp: le_less)

theorem iteration_correct_witness:
  "hs_begin (small_set\<lparr>states := [INACTIVE, ACTIVE, FILLED, INACTIVE]\<rparr>) = 2"
proof -
  let ?h = "small_set\<lparr>states := [INACTIVE, ACTIVE, FILLED, INACTIVE]\<rparr>"
  have f: "filled ?h = {2}" "length (states ?h) = 4"
    by (auto simp: filled_def less_Suc_eq numeral_eq_Suc)
  have "\<forall>c. 0 \<le> c \<and> c < next_filled ?h 0 \<longrightarrow> c \<noteq> 2" "next_filled ?h 0 = 2 \<or> next_filled ?h 0 = 4"
    using iteration_correct[of 0 ?h] unfolding f by simp_all
  then show ?thesis by (auto simp: hs_begin_def dest: spec[of _ 2])
qed

end
