(* ===== verification/HashSetCopy.thy ===== *)
theory HashSetCopy
  imports HashSet
begin

text \<open>
  The rest of \<open>emilib::HashSet\<close> (\<open>rtl/sword_hashset.h\<close>): the iterators and their constant variants, erasing through
  an iterator, inserting a range, the \<open>reserve\<close> without an argument, copying, assigning, moving and swapping. An
  iterator is the number of its bucket; the set it points into is an argument.
\<close>

section \<open>Iterators\<close>

type_synonym hs_iter = nat

definition iter_incr :: "hset \<Rightarrow> hs_iter \<Rightarrow> hs_iter" where
  "iter_incr h it = goto_next_element h it"

text \<open>The postfix increment: its result and the iterator afterwards.\<close>

definition iter_postincr :: "hset \<Rightarrow> hs_iter \<Rightarrow> hs_iter \<times> hs_iter" where
  "iter_postincr h it = (let old_index = it; it = goto_next_element h it in (old_index, it))"

definition iter_deref :: "hset \<Rightarrow> hs_iter \<Rightarrow> 64 word option" where
  "iter_deref h it = at (keys h) it"

definition iter_eq :: "hs_iter \<Rightarrow> hs_iter \<Rightarrow> bool" where
  "iter_eq it rhs \<longleftrightarrow> it = rhs"

definition iter_neq :: "hs_iter \<Rightarrow> hs_iter \<Rightarrow> bool" where
  "iter_neq it rhs \<longleftrightarrow> it \<noteq> rhs"

definition hs_end :: "hset \<Rightarrow> hs_iter" where
  "hs_end h = num_buckets h"

text \<open>The constant variants are written out a second time.\<close>

definition const_of_iter :: "hs_iter \<Rightarrow> hs_iter" where
  "const_of_iter proto = proto"

function const_next_filled :: "hset \<Rightarrow> nat \<Rightarrow> nat" where
  "const_next_filled h bucket =
     (if bucket < length (states h) \<and> states h ! bucket \<noteq> FILLED then const_next_filled h (Suc bucket) else bucket)"
  by pat_completeness auto
termination
  by (relation "measure (\<lambda>(h, bucket). length (states h) - bucket)") auto

declare const_next_filled.simps [simp del]

definition const_goto_next_element :: "hset \<Rightarrow> hs_iter \<Rightarrow> hs_iter" where
  "const_goto_next_element h bucket = const_next_filled h (Suc bucket)"

definition const_incr :: "hset \<Rightarrow> hs_iter \<Rightarrow> hs_iter" where
  "const_incr h it = const_goto_next_element h it"

definition const_postincr :: "hset \<Rightarrow> hs_iter \<Rightarrow> hs_iter \<times> hs_iter" where
  "const_postincr h it = (let old_index = it; it = const_goto_next_element h it in (old_index, it))"

definition const_deref :: "hset \<Rightarrow> hs_iter \<Rightarrow> 64 word option" where
  "const_deref h it = at (keys h) it"

definition const_eq :: "hs_iter \<Rightarrow> hs_iter \<Rightarrow> bool" where
  "const_eq it rhs \<longleftrightarrow> it = rhs"

definition const_neq :: "hs_iter \<Rightarrow> hs_iter \<Rightarrow> bool" where
  "const_neq it rhs \<longleftrightarrow> it \<noteq> rhs"

definition const_begin :: "hset \<Rightarrow> hs_iter" where
  "const_begin h = const_next_filled h 0"

definition const_end :: "hset \<Rightarrow> hs_iter" where
  "const_end h = num_buckets h"

definition const_find :: "64 word \<Rightarrow> hset \<Rightarrow> hs_iter option" where
  "const_find key h = do {
     r \<leftarrow> find_filled_bucket key h;
     case r of None \<Rightarrow> Some (const_end h) | Some bucket \<Rightarrow> Some bucket
   }"

definition hs_size :: "hset \<Rightarrow> nat" where
  "hs_size h = num_filled h"

definition hs_empty :: "hset \<Rightarrow> bool" where
  "hs_empty h \<longleftrightarrow> num_filled h = 0"

definition bucket_count :: "hset \<Rightarrow> nat" where
  "bucket_count h = num_buckets h"

section \<open>Operations\<close>

definition insert_moved :: "64 word \<Rightarrow> hset \<Rightarrow> (hs_iter \<times> bool \<times> hset) option" where
  "insert_moved key h = do {
     (bucket, h) \<leftarrow> find_or_allocate key h;
     st \<leftarrow> at (states h) bucket;
     if st = FILLED then Some (bucket, False, h)
     else do { h \<leftarrow> fill_bucket bucket key h; Some (bucket, True, h) }
   }"

definition emplace :: "64 word \<Rightarrow> hset \<Rightarrow> (hs_iter \<times> bool \<times> hset) option" where
  "emplace arg h = insert_moved arg h"

text \<open>The loop from \<open>first\<close> to \<open>last\<close>, iterators into \<open>src\<close>.\<close>

partial_function (option) insert_range :: "hset \<Rightarrow> hs_iter \<Rightarrow> hs_iter \<Rightarrow> hset \<Rightarrow> hset option" where
  "insert_range src first lst h =
     (if const_neq first lst then do {
        key \<leftarrow> const_deref src first;
        (it, new, h) \<leftarrow> hs_insert key h;
        insert_range src (const_incr src first) lst h
      }
      else Some h)"

definition erase_iter :: "hs_iter \<Rightarrow> hset \<Rightarrow> (hs_iter \<times> hset) option" where
  "erase_iter it h = do {
     h \<leftarrow> empty_bucket it h;
     Some (iter_incr h it, h)
   }"

text \<open>\<open>N\<close> is the template parameter.\<close>

definition reserve_default :: "(nat \<Rightarrow> 64 word list) \<Rightarrow> nat \<Rightarrow> hset \<Rightarrow> hset option" where
  "reserve_default junk N h =
     (let required = N + N div 2 + 1 in
      if required \<le> num_buckets h then Some h
      else
        let nb = power_of_two required required 4 in
        rehash (zip (states h) (keys h))
          \<lparr>states = replicate nb INACTIVE, keys = junk nb, num_buckets = nb, num_filled = 0,
           max_probe_length = - 1, hmask = of_nat nb - 1\<rparr>)"

definition check_expand_need :: "(nat \<Rightarrow> 64 word list) \<Rightarrow> hset \<Rightarrow> hset option" where
  "check_expand_need junk h = reserve junk (num_filled h + 1) h"

definition hs_swap :: "hset \<Rightarrow> hset \<Rightarrow> hset \<times> hset" where
  "hs_swap h other =
     (h\<lparr>states := states other, keys := keys other, num_buckets := num_buckets other, num_filled := num_filled other,
        max_probe_length := max_probe_length other, hmask := hmask other\<rparr>,
      other\<lparr>states := states h, keys := keys h, num_buckets := num_buckets h, num_filled := num_filled h,
        max_probe_length := max_probe_length h, hmask := hmask h\<rparr>)"

definition hs_copy :: "(nat \<Rightarrow> 64 word list) \<Rightarrow> hset \<Rightarrow> hset option" where
  "hs_copy junk other = do {
     h \<leftarrow> reserve junk (hs_size other) empty_hset;
     insert_range other (const_begin other) (const_end other) h
   }"

text \<open>Assignment; \<open>same\<close> says that both sides are one object, which \<open>clear\<close> then empties for both.\<close>

definition hs_assign :: "(nat \<Rightarrow> 64 word list) \<Rightarrow> bool \<Rightarrow> hset \<Rightarrow> hset \<Rightarrow> hset option" where
  "hs_assign junk same h other = do {
     let h = clear h;
     let other = (if same then h else other);
     h \<leftarrow> reserve junk (hs_size other) h;
     let other = (if same then h else other);
     insert_range other (const_begin other) (const_end other) h
   }"

definition hs_move_assign :: "hset \<Rightarrow> hset \<Rightarrow> hset \<times> hset" where
  "hs_move_assign h other = hs_swap h other"

definition hs_move :: "hset \<Rightarrow> hset \<times> hset" where
  "hs_move other = hs_move_assign empty_hset other"

section \<open>The variants agree\<close>

lemma const_next_filled_same: "const_next_filled h b = next_filled h b"
  by (induction h b rule: const_next_filled.induct) (simp add: const_next_filled.simps next_filled.simps)

lemma const_same: "const_begin = hs_begin" "const_end = hs_end" "const_incr = iter_incr" "const_find = hs_find"
    "insert_moved = hs_insert" "reserve_default = reserve"
proof -
  show e: "const_end = hs_end" by (simp add: fun_eq_iff const_end_def hs_end_def)
  show "const_find = hs_find" unfolding fun_eq_iff const_find_def hs_find_def const_end_def by simp
qed (simp_all add: fun_eq_iff const_begin_def hs_begin_def const_next_filled_same const_incr_def iter_incr_def
      const_goto_next_element_def goto_next_element_def insert_moved_def hs_insert_def reserve_default_def reserve_def)

lemma hs_swap_eq: "hs_swap h other = (other, h)"
  by (cases h; cases other) (simp add: hs_swap_def)

section \<open>Copying\<close>

text \<open>The filled buckets from \<open>b\<close> on.\<close>

definition from_bucket :: "hset \<Rightarrow> nat \<Rightarrow> nat set" where
  "from_bucket h b = {c \<in> filled h. b \<le> c}"

lemma from_bucket_step:
  assumes "b \<in> filled h"
  shows "from_bucket h b = insert b (from_bucket h (next_filled h (Suc b)))"
proof -
  have "Suc b \<le> length (states h)" using assms by (simp add: filled_def)
  note N = next_filled_ok[OF this]
  have "c = b \<or> next_filled h (Suc b) \<le> c" if "c \<in> filled h" "b \<le> c" for c
    using N that by (meson Suc_leI le_neq_implies_less not_le)
  then show ?thesis using assms N by (auto simp: from_bucket_def)
qed

lemma insert_range_ok:
  assumes src: "length (keys src) = length (states src)"
  shows "b \<in> filled src \<or> b = length (states src) \<Longrightarrow> hs_inv n h \<Longrightarrow> num_filled h + card (from_bucket src b) \<le> 2 ^ n \<Longrightarrow>
    \<exists>h'. insert_range src b (length (states src)) h = Some h' \<and> hs_inv n h' \<and>
      elems h' = elems h \<union> nth (keys src) ` from_bucket src b"
proof (induction "length (states src) - b" arbitrary: b h rule: less_induct)
  case less
  show ?case
  proof (cases "b = length (states src)")
    case True
    then have "from_bucket src b = {}" by (auto simp: from_bucket_def filled_def)
    then show ?thesis using True less.prems(2) by (simp add: insert_range.simps[of src "length (states src)"] const_neq_def)
  next
    case False
    then have b: "b \<in> filled src" "b < length (states src)" using less.prems(1) by (auto simp: filled_def)
    let ?c = "next_filled src (Suc b)" and ?k = "keys src ! b"
    have N: "Suc b \<le> ?c" "?c \<in> filled src \<or> ?c = length (states src)"
    proof -
      have "Suc b \<le> length (states src)" using b(2) by simp
      note F = next_filled_ok[OF this]
      show "Suc b \<le> ?c" using F by blast
      show "?c \<in> filled src \<or> ?c = length (states src)" using F le_neq_implies_less by blast
    qed
    have st: "from_bucket src b = insert b (from_bucket src ?c)" by (rule from_bucket_step[OF b(1)])
    have "finite (from_bucket src ?c)" "b \<notin> from_bucket src ?c" using N(1) by (auto simp: from_bucket_def)
    then have cd: "card (from_bucket src b) = Suc (card (from_bucket src ?c))" by (simp add: st)
    then have "num_filled h < 2 ^ n" using less.prems(3) by linarith
    from hs_insert_ok[OF less.prems(2) this, of ?k] obtain i h1 where I: "hs_insert ?k h = Some (i, ?k \<notin> elems h, h1)"
      "hs_inv n h1" "elems h1 = insert ?k (elems h)"
      "num_filled h1 = (if ?k \<in> elems h then num_filled h else Suc (num_filled h))" by blast
    have "num_filled h1 + card (from_bucket src ?c) \<le> 2 ^ n" using I(4) less.prems(3) cd by (simp split: if_splits)
    moreover have "length (states src) - ?c < length (states src) - b" using N(1) b(2) by linarith
    ultimately obtain h' where H: "insert_range src ?c (length (states src)) h1 = Some h'"
      "hs_inv n h'" "elems h' = elems h1 \<union> nth (keys src) ` from_bucket src ?c"
      using less.hyps[OF _ N(2) I(2)] by blast
    have "insert_range src b (length (states src)) h = insert_range src ?c (length (states src)) h1"
      using False b(2) src I(1)
      by (simp add: insert_range.simps[of src b] const_neq_def const_deref_def at_def const_incr_def
          const_goto_next_element_def const_next_filled_same)
    then show ?thesis using H I(3) st by auto
  qed
qed

lemma hs_any_lengths:
  assumes "hs_any h"
  shows "length (keys h) = length (states h)" "num_buckets h = length (states h)" "num_filled h = card (filled h)"
  using assms by (auto simp: hs_any_def hs_inv_def empty_hset_def filled_def)

lemma copy_range_ok:
  assumes src: "hs_any src" and h: "hs_inv n h" "num_filled h + num_filled src \<le> 2 ^ n"
  shows "\<exists>h'. insert_range src (const_begin src) (const_end src) h = Some h' \<and> hs_inv n h' \<and> elems h' = elems h \<union> elems src"
proof -
  let ?b = "next_filled src 0"
  note L = hs_any_lengths[OF src]
  have N: "?b \<in> filled src \<or> ?b = length (states src)" "from_bucket src ?b = filled src"
  proof -
    note F = next_filled_ok[of 0 src, simplified]
    show "?b \<in> filled src \<or> ?b = length (states src)" using F by (auto simp: le_less)
    have "?b \<le> c" if "c \<in> filled src" for c using F that by (meson not_le)
    then show "from_bucket src ?b = filled src" by (auto simp: from_bucket_def)
  qed
  have "num_filled h + card (from_bucket src ?b) \<le> 2 ^ n" using h(2) L(3) N(2) by simp
  from insert_range_ok[OF L(1) N(1) h(1) this]
  show ?thesis using L(2) N(2) by (simp add: const_same hs_begin_def hs_end_def elems_filled)
qed

section \<open>Properties\<close>

text \<open>A copied set has the keys of the original: the copy first makes room for all of them, so no probe fails.
  Assignment to another object does the same whatever the target held before, but assigning a set to itself
  empties it.\<close>
theorem copy_correct:
  assumes "hs_any other" "num_filled other < 2 ^ 28" "hs_inv m h" "\<forall>n. length (junk n) = n"
  shows "\<exists>n h1 h2 h3. hs_copy junk other = Some h1 \<and> hs_inv n h1 \<and> elems h1 = elems other \<and>
    hs_assign junk False h other = Some h2 \<and> hs_any h2 \<and> elems h2 = elems other \<and>
    hs_assign junk True h h = Some h3 \<and> hs_any h3 \<and> elems h3 = {}"
proof -
  have e: "elems empty_hset = {}" "num_filled empty_hset = 0" "hs_any empty_hset"
    by (auto simp: elems_def empty_hset_def hs_any_def)
  have j: "length (junk n) = n" for n using assms(4) by simp
  obtain n r1 where r1: "reserve junk (num_filled other) empty_hset = Some r1" "hs_inv n r1" "elems r1 = {}"
    "num_filled r1 = 0" "num_filled other < 2 ^ n"
    using reserve_ok[OF e(3) assms(2) _ j] e by auto
  obtain h1 where h1: "insert_range other (const_begin other) (const_end other) r1 = Some h1" "hs_inv n h1" "elems h1 = elems other"
    using copy_range_ok[OF assms(1) r1(2)] r1(3-5) by auto
  have c: "hs_inv m (clear h)" "elems (clear h) = {}" "num_filled (clear h) = 0" using clear_ok[OF assms(3)] by simp_all
  then have ca: "hs_any (clear h)" by (auto simp: hs_any_def)
  obtain n2 r2 where r2: "reserve junk (num_filled other) (clear h) = Some r2" "hs_inv n2 r2" "elems r2 = {}"
    "num_filled r2 = 0" "num_filled other < 2 ^ n2"
    using reserve_ok[OF ca assms(2) _ j] c by auto
  obtain h2 where h2: "insert_range other (const_begin other) (const_end other) r2 = Some h2" "hs_inv n2 h2" "elems h2 = elems other"
    using copy_range_ok[OF assms(1) r2(2)] r2(3-5) by auto
  obtain n3 r3 where r3: "reserve junk 0 (clear h) = Some r3" "hs_inv n3 r3" "elems r3 = {}" "num_filled r3 = 0"
    using reserve_ok[OF ca, of 0 junk] j c by auto
  have "hs_any r3" using r3(2) by (auto simp: hs_any_def)
  from copy_range_ok[OF this r3(2)] obtain h3 where h3: "insert_range r3 (const_begin r3) (const_end r3) r3 = Some h3"
    "hs_inv n3 h3" "elems h3 = {}" using r3(3,4) by auto
  have any: "hs_any h2" "hs_any h3" using h2(2) h3(2) by (auto simp: hs_any_def)
  have 1: "hs_copy junk other = Some h1" using r1(1) h1(1) by (simp add: hs_copy_def hs_size_def)
  have 2: "hs_assign junk False h other = Some h2" using r2(1) h2(1) by (simp add: hs_assign_def hs_size_def Let_def)
  have 3: "hs_assign junk True h h = Some h3" using r3(1) h3(1) c(3) by (simp add: hs_assign_def hs_size_def Let_def)
  show ?thesis using 1 2 3 h1(2,3) h2(3) h3(3) any by blast
qed

definition one_set :: hset where
  "one_set = small_set\<lparr>states := [INACTIVE, FILLED, INACTIVE, INACTIVE], keys := [0, 5, 0, 0], num_filled := 1, max_probe_length := 0\<rparr>"

lemma one_set_eq: "check_insert 5 small_set = Some (True, one_set)"
  by (simp add: check_insert_def find_or_allocate_def alloc_scan.simps probe.simps bucket_of_def small_set_def one_set_def
      at_def put_def fill_bucket_def)

lemma one_set_inv: "hs_inv 2 one_set" "elems one_set = {5}" "num_filled one_set = 1"
  using check_insert_ok[OF small_set_inv, of 5] small_set_elems one_set_eq by auto

lemma copy_correct_witness:
  "\<exists>n h1 h3. hs_copy (\<lambda>n. replicate n 0) one_set = Some h1 \<and> hs_inv n h1 \<and> elems h1 = {5} \<and>
    hs_assign (\<lambda>n. replicate n 0) True one_set one_set = Some h3 \<and> elems h3 = {}"
proof -
  have "hs_any one_set" using one_set_inv(1) by (auto simp: hs_any_def)
  then show ?thesis
    using copy_correct[of one_set 2 one_set "\<lambda>n. replicate n 0"] one_set_inv by auto
qed

text \<open>Erasing through an iterator at an element takes exactly its key out, keeps the table, and returns the iterator
  to the next element, or the end.\<close>
theorem erase_iter_correct:
  assumes "hs_inv n h" "it \<in> filled h"
  shows "\<exists>it' h'. erase_iter it h = Some (it', h') \<and> hs_inv n h' \<and> elems h' = elems h - {keys h ! it} \<and>
    num_filled h' = num_filled h - 1 \<and> it < it' \<and> (it' \<in> filled h' \<or> it' = hs_end h') \<and>
    (\<forall>c. it < c \<and> c < it' \<longrightarrow> c \<notin> filled h')"
proof -
  obtain h' where h': "empty_bucket it h = Some h'" "hs_inv n h'" "elems h' = elems h - {keys h ! it}"
    "filled h' = filled h - {it}" "num_filled h' = num_filled h - 1" "length (states h') = length (states h)"
    using empty_bucket_ok[OF assms] by blast
  have "Suc it \<le> length (states h')" using assms(2) h'(6) by (simp add: filled_def)
  note N = next_filled_ok[OF this]
  have e: "hs_end h' = length (states h')" using h'(2) by (simp add: hs_end_def hs_inv_def)
  let ?c = "next_filled h' (Suc it)"
  have "erase_iter it h = Some (?c, h')" using h'(1) by (simp add: erase_iter_def iter_incr_def goto_next_element_def)
  moreover have "it < ?c" using N by simp
  moreover have "?c \<in> filled h' \<or> ?c = hs_end h'" using N e le_neq_implies_less by metis
  moreover have "\<forall>c. it < c \<and> c < ?c \<longrightarrow> c \<notin> filled h'" using N by (simp add: Suc_le_eq)
  ultimately show ?thesis using h'(2,3,5) by blast
qed

lemma erase_iter_correct_witness: "\<exists>h'. erase_iter 1 one_set = Some (4, h') \<and> elems h' = {}"
proof -
  have f: "1 \<in> filled one_set" by (simp add: filled_def one_set_def small_set_def)
  obtain it' h' where "erase_iter 1 one_set = Some (it', h')" "hs_inv 2 h'" "elems h' = {5} - {keys one_set ! 1}"
    "it' \<in> filled h' \<or> it' = hs_end h'" "num_filled h' = 0"
    using erase_iter_correct[OF one_set_inv(1) f] one_set_inv(2,3) by auto
  moreover have "filled h' = {}" using \<open>hs_inv 2 h'\<close> \<open>num_filled h' = 0\<close> by (simp add: hs_inv_def)
  ultimately show ?thesis by (auto simp: hs_end_def hs_inv_def one_set_def)
qed

end
