(* ===== verification/RbErase.thy ===== *)
theory RbErase
  imports RbIter
begin

text \<open>
  Removal, first part: \<open>____rb_erase_color\<close> of \<open>tools/rbtree.c\<close> on the heap and the same rebalancing on trees
  with a context (\<open>del_fix\<close>). The focus of the context is the black node whose paths lack one black node.
\<close>

section \<open>Rebalancing: the code\<close>

text \<open>Case 1 of a left child: left rotate at the parent. It returns the new sibling.\<close>

definition er_case1_left :: "'a rotate_cb \<Rightarrow> ptr \<Rightarrow> ptr \<Rightarrow> 'a rbs \<Rightarrow> (ptr \<times> 'a rbs) option" where
  "er_case1_left augment_rotate parent sibling s = do {
     tmp1 \<leftarrow> ld rb_left sibling s;
     s \<leftarrow> set_right parent tmp1 s;
     s \<leftarrow> set_left sibling parent s;
     s \<leftarrow> rb_set_parent_color tmp1 parent RB_BLACK s;
     s \<leftarrow> rb_rotate_set_parents parent sibling RB_RED s;
     s \<leftarrow> augment_rotate parent sibling s;
     Some (tmp1, s)
   }"

text \<open>Case 3: right rotate at the sibling. It returns the new \<open>tmp1\<close> and \<open>sibling\<close>.\<close>

definition er_case3_left ::
    "'a rotate_cb \<Rightarrow> ptr \<Rightarrow> ptr \<Rightarrow> ptr \<Rightarrow> 'a rbs \<Rightarrow> (ptr \<times> ptr \<times> 'a rbs) option" where
  "er_case3_left augment_rotate parent sibling tmp2 s = do {
     tmp1 \<leftarrow> ld rb_right tmp2 s;
     s \<leftarrow> set_left sibling tmp1 s;
     s \<leftarrow> set_right tmp2 sibling s;
     s \<leftarrow> set_right parent tmp2 s;
     s \<leftarrow> (if tmp1 \<noteq> 0 then rb_set_parent_color tmp1 sibling RB_BLACK s else Some s);
     s \<leftarrow> augment_rotate sibling tmp2 s;
     Some (sibling, tmp2, s)
   }"

text \<open>Case 4: left rotate at the parent and colour flips.\<close>

definition er_case4_left :: "'a rotate_cb \<Rightarrow> ptr \<Rightarrow> ptr \<Rightarrow> ptr \<Rightarrow> 'a rbs \<Rightarrow> 'a rbs option" where
  "er_case4_left augment_rotate parent sibling tmp1 s = do {
     tmp2 \<leftarrow> ld rb_left sibling s;
     s \<leftarrow> set_right parent tmp2 s;
     s \<leftarrow> set_left sibling parent s;
     s \<leftarrow> rb_set_parent_color tmp1 sibling RB_BLACK s;
     s \<leftarrow> (if tmp2 \<noteq> 0 then rb_set_parent tmp2 parent s else Some s);
     s \<leftarrow> rb_rotate_set_parents parent sibling RB_BLACK s;
     augment_rotate parent sibling s
   }"

definition null_or_black :: "ptr \<Rightarrow> 'a rbs \<Rightarrow> bool option" where
  "null_or_black tmp s = (if tmp = 0 then Some True else rb_is_black tmp s)"

text \<open>
  Case 2: the sibling turns red. A black parent is the node of the next turn: the result is its parent, and NULL
  ends the loop.
\<close>

definition er_case2 :: "ptr \<Rightarrow> ptr \<Rightarrow> 'a rbs \<Rightarrow> (ptr \<times> 'a rbs) option" where
  "er_case2 parent sibling s = do {
     s \<leftarrow> rb_set_parent_color sibling parent RB_RED s;
     red \<leftarrow> rb_is_red parent s;
     if red then do { s \<leftarrow> rb_set_black parent s; Some (0, s) }
     else do { up \<leftarrow> rb_parent parent s; Some (up, s) }
   }"

definition er_black_left :: "'a rotate_cb \<Rightarrow> ptr \<Rightarrow> ptr \<Rightarrow> 'a rbs \<Rightarrow> (ptr \<times> 'a rbs) option" where
  "er_black_left augment_rotate parent sibling s = do {
     tmp1 \<leftarrow> ld rb_right sibling s;
     black1 \<leftarrow> null_or_black tmp1 s;
     if black1 then do {
       tmp2 \<leftarrow> ld rb_left sibling s;
       black2 \<leftarrow> null_or_black tmp2 s;
       if black2 then er_case2 parent sibling s
       else do {
         (tmp1, sibling, s) \<leftarrow> er_case3_left augment_rotate parent sibling tmp2 s;
         s \<leftarrow> er_case4_left augment_rotate parent sibling tmp1 s;
         Some (0, s)
       }
     }
     else do {
       s \<leftarrow> er_case4_left augment_rotate parent sibling tmp1 s;
       Some (0, s)
     }
   }"

definition er_left :: "'a rotate_cb \<Rightarrow> ptr \<Rightarrow> ptr \<Rightarrow> 'a rbs \<Rightarrow> (ptr \<times> 'a rbs) option" where
  "er_left augment_rotate parent sibling s = do {
     red \<leftarrow> rb_is_red sibling s;
     (sibling, s) \<leftarrow> (if red then er_case1_left augment_rotate parent sibling s else Some (sibling, s));
     er_black_left augment_rotate parent sibling s
   }"

text \<open>The same for a right child.\<close>

definition er_case1_right :: "'a rotate_cb \<Rightarrow> ptr \<Rightarrow> ptr \<Rightarrow> 'a rbs \<Rightarrow> (ptr \<times> 'a rbs) option" where
  "er_case1_right augment_rotate parent sibling s = do {
     tmp1 \<leftarrow> ld rb_right sibling s;
     s \<leftarrow> set_left parent tmp1 s;
     s \<leftarrow> set_right sibling parent s;
     s \<leftarrow> rb_set_parent_color tmp1 parent RB_BLACK s;
     s \<leftarrow> rb_rotate_set_parents parent sibling RB_RED s;
     s \<leftarrow> augment_rotate parent sibling s;
     Some (tmp1, s)
   }"

definition er_case3_right ::
    "'a rotate_cb \<Rightarrow> ptr \<Rightarrow> ptr \<Rightarrow> ptr \<Rightarrow> 'a rbs \<Rightarrow> (ptr \<times> ptr \<times> 'a rbs) option" where
  "er_case3_right augment_rotate parent sibling tmp2 s = do {
     tmp1 \<leftarrow> ld rb_left tmp2 s;
     s \<leftarrow> set_right sibling tmp1 s;
     s \<leftarrow> set_left tmp2 sibling s;
     s \<leftarrow> set_left parent tmp2 s;
     s \<leftarrow> (if tmp1 \<noteq> 0 then rb_set_parent_color tmp1 sibling RB_BLACK s else Some s);
     s \<leftarrow> augment_rotate sibling tmp2 s;
     Some (sibling, tmp2, s)
   }"

definition er_case4_right :: "'a rotate_cb \<Rightarrow> ptr \<Rightarrow> ptr \<Rightarrow> ptr \<Rightarrow> 'a rbs \<Rightarrow> 'a rbs option" where
  "er_case4_right augment_rotate parent sibling tmp1 s = do {
     tmp2 \<leftarrow> ld rb_right sibling s;
     s \<leftarrow> set_left parent tmp2 s;
     s \<leftarrow> set_right sibling parent s;
     s \<leftarrow> rb_set_parent_color tmp1 sibling RB_BLACK s;
     s \<leftarrow> (if tmp2 \<noteq> 0 then rb_set_parent tmp2 parent s else Some s);
     s \<leftarrow> rb_rotate_set_parents parent sibling RB_BLACK s;
     augment_rotate parent sibling s
   }"

definition er_black_right :: "'a rotate_cb \<Rightarrow> ptr \<Rightarrow> ptr \<Rightarrow> 'a rbs \<Rightarrow> (ptr \<times> 'a rbs) option" where
  "er_black_right augment_rotate parent sibling s = do {
     tmp1 \<leftarrow> ld rb_left sibling s;
     black1 \<leftarrow> null_or_black tmp1 s;
     if black1 then do {
       tmp2 \<leftarrow> ld rb_right sibling s;
       black2 \<leftarrow> null_or_black tmp2 s;
       if black2 then er_case2 parent sibling s
       else do {
         (tmp1, sibling, s) \<leftarrow> er_case3_right augment_rotate parent sibling tmp2 s;
         s \<leftarrow> er_case4_right augment_rotate parent sibling tmp1 s;
         Some (0, s)
       }
     }
     else do {
       s \<leftarrow> er_case4_right augment_rotate parent sibling tmp1 s;
       Some (0, s)
     }
   }"

definition er_right :: "'a rotate_cb \<Rightarrow> ptr \<Rightarrow> ptr \<Rightarrow> 'a rbs \<Rightarrow> (ptr \<times> 'a rbs) option" where
  "er_right augment_rotate parent sibling s = do {
     red \<leftarrow> rb_is_red sibling s;
     (sibling, s) \<leftarrow> (if red then er_case1_right augment_rotate parent sibling s else Some (sibling, s));
     er_black_right augment_rotate parent sibling s
   }"

partial_function (option) rb_erase_color ::
    "'a rotate_cb \<Rightarrow> ptr \<Rightarrow> ptr \<Rightarrow> 'a rbs \<Rightarrow> 'a rbs option" where
  "rb_erase_color augment_rotate node parent s = do {
     sibling \<leftarrow> ld rb_right parent s;
     (up, s) \<leftarrow>
       (if node \<noteq> sibling then er_left augment_rotate parent sibling s
        else do { sibling \<leftarrow> ld rb_left parent s; er_right augment_rotate parent sibling s });
     if up \<noteq> 0 then rb_erase_color augment_rotate parent up s else Some s
   }"

section \<open>Rebalancing on trees\<close>

text \<open>The subtree that the end of the loop leaves in place of the parent, with a black sibling.\<close>

fun bal_left :: "ptree \<Rightarrow> ptr \<Rightarrow> color \<Rightarrow> ptree \<Rightarrow> ptree" where
  "bal_left t p cp (Node sl x cx sr) =
     (if tcolor sr = Red then Node (Node t p Black sl) x cp (paint Black sr)
      else (case sl of
              Node a b Red c \<Rightarrow> Node (Node t p Black a) b cp (Node (paint Black c) x Black sr)
            | _ \<Rightarrow> Node t p Black (Node sl x Red sr)))"
| "bal_left t p cp Leaf = Leaf"

fun bal_right :: "ptree \<Rightarrow> ptr \<Rightarrow> color \<Rightarrow> ptree \<Rightarrow> ptree" where
  "bal_right (Node sl x cx sr) p cp t =
     (if tcolor sl = Red then Node (paint Black sl) x cp (Node sr p Black t)
      else (case sr of
              Node a b Red c \<Rightarrow> Node (Node sl x Black (paint Black a)) b cp (Node c p Black t)
            | _ \<Rightarrow> Node (Node sl x Red sr) p Black t))"
| "bal_right Leaf p cp t = Leaf"

fun black_children :: "ptree \<Rightarrow> bool" where
  "black_children Leaf \<longleftrightarrow> True"
| "black_children (Node l a c r) \<longleftrightarrow> tcolor l = Black \<and> tcolor r = Black"

text \<open>The focus is black and lacks one black node on its paths.\<close>

fun del_fix :: "ptree \<Rightarrow> frame list \<Rightarrow> ptree" where
  "del_fix t [] = t"
| "del_fix t (LHole p cp s # k) =
     (case s of
        Node sl x Red sr \<Rightarrow> plug (bal_left t p Red sl) (LHole x cp sr # k)
      | _ \<Rightarrow>
          if cp = Black \<and> black_children s then del_fix (Node t p Black (paint Red s)) k
          else plug (bal_left t p cp s) k)"
| "del_fix t (RHole s p cp # k) =
     (case s of
        Node sl x Red sr \<Rightarrow> plug (bal_right sr p Red t) (RHole sl x cp # k)
      | _ \<Rightarrow>
          if cp = Black \<and> black_children s then del_fix (Node (paint Red s) p Black t) k
          else plug (bal_right s p cp t) k)"

definition del_focus :: "ptree \<Rightarrow> frame list \<Rightarrow> bool" where
  "del_focus t k \<longleftrightarrow> kinv k (Suc (bheight t)) \<and> invc t \<and> invh t \<and> tcolor t = Black \<and>
     (k \<noteq> [] \<longrightarrow> fcolor (last k) = Black)"

lemma bheight_pos: "tcolor t = Black \<Longrightarrow> bheight t = Suc n \<Longrightarrow> \<exists>l a r. t = Node l a Black r"
  by (cases t) auto

lemma red_node: "tcolor t = Red \<Longrightarrow> \<exists>l a r. t = Node l a Red r"
  by (cases t) auto

text \<open>The replacement of the parent, for a black sibling of the right height.\<close>

definition bal_good :: "ptree \<Rightarrow> color \<Rightarrow> nat \<Rightarrow> bool" where
  "bal_good T cp n \<longleftrightarrow> invc T \<and> invh T \<and> bheight T = hstep cp n \<and> (cp = Black \<longrightarrow> tcolor T = Black)"

lemma bal_left_good:
  assumes "invc t" "invh t" "tcolor t = Black" "invc s" "invh s" "bheight s = Suc (bheight t)" "tcolor s = Black"
    and "cp = Red \<or> \<not> black_children s"
  shows "bal_good (bal_left t p cp s) cp (Suc (bheight t)) \<and> inorder (bal_left t p cp s) = inorder t @ p # inorder s"
proof -
  obtain sl x sr where s: "s = Node sl x Black sr" using assms(6,7) bheight_pos by blast
  show ?thesis
  proof (cases "tcolor sr = Red")
    case True
    then obtain l a r where "sr = Node l a Red r" using red_node by blast
    then show ?thesis using assms s by (cases cp) (auto simp: bal_good_def)
  next
    case False
    then show ?thesis
    proof (cases "tcolor sl = Red")
      case True
      then obtain a b c where "sl = Node a b Red c" using red_node by blast
      then show ?thesis using assms s False by (cases cp; cases c) (auto simp: bal_good_def)
    next
      case sl: False
      then have "cp = Red" using assms(8) False s by auto
      then show ?thesis using assms s False sl by (cases sl) (auto simp: bal_good_def split: color.splits)
    qed
  qed
qed

lemma bal_right_good:
  assumes "invc t" "invh t" "tcolor t = Black" "invc s" "invh s" "bheight s = Suc (bheight t)" "tcolor s = Black"
    and "cp = Red \<or> \<not> black_children s"
  shows "bal_good (bal_right s p cp t) cp (Suc (bheight t)) \<and> inorder (bal_right s p cp t) = inorder s @ p # inorder t"
proof -
  obtain sl x sr where s: "s = Node sl x Black sr" using assms(6,7) bheight_pos by blast
  show ?thesis
  proof (cases "tcolor sl = Red")
    case True
    then obtain l a r where "sl = Node l a Red r" using red_node by blast
    then show ?thesis using assms s by (cases cp) (auto simp: bal_good_def)
  next
    case False
    then show ?thesis
    proof (cases "tcolor sr = Red")
      case True
      then obtain a b c where "sr = Node a b Red c" using red_node by blast
      then show ?thesis using assms s False by (cases cp; cases a) (auto simp: bal_good_def)
    next
      case sr: False
      then have "cp = Red" using assms(8) False s by auto
      then show ?thesis using assms s False sr by (cases sr) (auto simp: bal_good_def split: color.splits)
    qed
  qed
qed

lemma plug_good:
  assumes "bal_good T cp n" "kinv k (hstep cp n)" "cp = Red \<longrightarrow> ccolor k = Black" "k = [] \<longrightarrow> cp = Black"
    "k \<noteq> [] \<longrightarrow> fcolor (last k) = Black"
  shows "rb_tree (plug T k)"
proof (rule plug_rb)
  show "ccolor k = Red \<longrightarrow> tcolor T = Black" "k = [] \<longrightarrow> tcolor T = Black"
    using assms by (cases cp; auto simp: bal_good_def)+
qed (use assms in \<open>auto simp: bal_good_def\<close>)

lemma del_fix_good: "del_focus t k \<Longrightarrow> rb_tree (del_fix t k) \<and> inorder (del_fix t k) = inorder (plug t k)"
proof (induction t k rule: del_fix.induct)
  case (1 t)
  then show ?case by (simp add: del_focus_def rb_tree_def)
next
  case (2 t p cp s k)
  have s: "invc s" "invh s" "bheight s = Suc (bheight t)" and cp: "cp = Red \<longrightarrow> tcolor s = Black \<and> ccolor k = Black"
    and k: "kinv k (hstep cp (Suc (bheight t)))" and t: "invc t" "invh t" "tcolor t = Black"
    and lk: "k \<noteq> [] \<longrightarrow> fcolor (last k) = Black" "k = [] \<longrightarrow> cp = Black"
    using "2.prems" by (auto simp: del_focus_def split: if_splits)
  show ?case
  proof (cases "tcolor s = Red")
    case True
    then obtain sl x sr where sx: "s = Node sl x Red sr" using red_node by blast
    have sl: "invc sl" "invh sl" "bheight sl = Suc (bheight t)" "tcolor sl = Black" and sr: "invc sr" "invh sr"
      "bheight sr = Suc (bheight t)" "tcolor sr = Black"
      using s sx by auto
    have cb: "cp = Black" using cp True by (cases cp) auto
    note b = bal_left_good[OF t sl, of Red p, simplified]
    have "rb_tree (plug (bal_left t p Red sl) (LHole x Black sr # k))"
      by (rule plug_good[OF b[THEN conjunct1]]) (use sr k cb lk in auto)
    then show ?thesis using sx cb b by (simp add: inorder_plug)
  next
    case False
    then have sb: "tcolor s = Black" by simp
    then obtain sl x sr where sx: "s = Node sl x Black sr" using bheight_pos[OF sb s(3)] by blast
    show ?thesis
    proof (cases "cp = Black \<and> black_children s")
      case True
      have fx: "del_fix t (LHole p cp s # k) = del_fix (Node t p Black (paint Red s)) k" using True sx by simp
      have "del_focus (Node t p Black (paint Red s)) k"
        using True sx s t k lk by (auto simp: del_focus_def)
      then show ?thesis using "2.IH"(2)[OF sx refl True] sx fx by (simp add: inorder_plug)
    next
      case c: False
      have fx: "del_fix t (LHole p cp s # k) = plug (bal_left t p cp s) k" using c sx by auto
      have "cp = Red \<or> \<not> black_children s" using c by auto
      note b = bal_left_good[OF t s sb this, of p]
      have "rb_tree (plug (bal_left t p cp s) k)"
        by (rule plug_good[OF b[THEN conjunct1] k]) (use cp lk in auto)
      then show ?thesis using fx b by (simp add: inorder_plug)
    qed
  qed
next
  case (3 t s p cp k)
  have s: "invc s" "invh s" "bheight s = Suc (bheight t)" and cp: "cp = Red \<longrightarrow> tcolor s = Black \<and> ccolor k = Black"
    and k: "kinv k (hstep cp (Suc (bheight t)))" and t: "invc t" "invh t" "tcolor t = Black"
    and lk: "k \<noteq> [] \<longrightarrow> fcolor (last k) = Black" "k = [] \<longrightarrow> cp = Black"
    using "3.prems" by (auto simp: del_focus_def split: if_splits)
  show ?case
  proof (cases "tcolor s = Red")
    case True
    then obtain sl x sr where sx: "s = Node sl x Red sr" using red_node by blast
    have sr: "invc sr" "invh sr" "bheight sr = Suc (bheight t)" "tcolor sr = Black" and sl: "invc sl" "invh sl"
      "bheight sl = Suc (bheight t)" "tcolor sl = Black"
      using s sx by auto
    have cb: "cp = Black" using cp True by (cases cp) auto
    note b = bal_right_good[OF t sr, of Red p, simplified]
    have "rb_tree (plug (bal_right sr p Red t) (RHole sl x Black # k))"
      by (rule plug_good[OF b[THEN conjunct1]]) (use sl k cb lk in auto)
    then show ?thesis using sx cb b by (simp add: inorder_plug)
  next
    case False
    then have sb: "tcolor s = Black" by simp
    then obtain sl x sr where sx: "s = Node sl x Black sr" using bheight_pos[OF sb s(3)] by blast
    show ?thesis
    proof (cases "cp = Black \<and> black_children s")
      case True
      have fx: "del_fix t (RHole s p cp # k) = del_fix (Node (paint Red s) p Black t) k" using True sx by simp
      have "del_focus (Node (paint Red s) p Black t) k"
        using True sx s t k lk by (auto simp: del_focus_def)
      then show ?thesis using "3.IH"(2)[OF sx refl True] sx fx by (simp add: inorder_plug)
    next
      case c: False
      have fx: "del_fix t (RHole s p cp # k) = plug (bal_right s p cp t) k" using c sx by auto
      have "cp = Red \<or> \<not> black_children s" using c by auto
      note b = bal_right_good[OF t s sb this, of p]
      have "rb_tree (plug (bal_right s p cp t) k)"
        by (rule plug_good[OF b[THEN conjunct1] k]) (use cp lk in auto)
      then show ?thesis using fx b by (simp add: inorder_plug)
    qed
  qed
qed

section \<open>Rebalancing on the heap\<close>

lemma col_tag [simp]: "col c AND - 4 = 0" "col c AND 1 = col c"
  by (cases c; simp)+

lemma col_or: "col c OR p = p OR col c"
  by (rule or.commute)

lemma null_or_black_ok: "rep (mem s) q u \<Longrightarrow> null_or_black (rootp u) s = Some (tcolor u = Black)"
  by (cases u) (auto simp: null_or_black_def node_at_ops(5), auto simp: node_at_def)

lemma er_case1_left_ok:
  assumes "rep (mem s) (cpar k) (Node t p cp (Node sl x Red sr))" "crep (mem s) (rb_root s) k p" "sl \<noteq> Leaf"
    and "distinct (cpre k @ inorder (Node t p cp (Node sl x Red sr)) @ cpost k)"
  shows "\<exists>s'. er_case1_left dummy_rotate p x s = Some (rootp sl, s') \<and>
    rep (mem s') (cpar k) (Node (Node t p Red (paint Black sl)) x cp sr) \<and> crep (mem s') (rb_root s') k x \<and>
    mores (mem s') = mores (mem s)"
  using assms crep_aligned[OF assms(2)]
  by (cases k rule: ctx_cases; cases sl) (auto simp: er_case1_left_def step_simps)

lemma er_case1_right_ok:
  assumes "rep (mem s) (cpar k) (Node (Node sl x Red sr) p cp t)" "crep (mem s) (rb_root s) k p" "sr \<noteq> Leaf"
    and "distinct (cpre k @ inorder (Node (Node sl x Red sr) p cp t) @ cpost k)"
  shows "\<exists>s'. er_case1_right dummy_rotate p x s = Some (rootp sr, s') \<and>
    rep (mem s') (cpar k) (Node sl x cp (Node (paint Black sr) p Red t)) \<and> crep (mem s') (rb_root s') k x \<and>
    mores (mem s') = mores (mem s)"
  using assms crep_aligned[OF assms(2)]
  by (cases k rule: ctx_cases; cases sr) (auto simp: er_case1_right_def step_simps)

text \<open>The nodes of a context, and heaps that agree outside some nodes.\<close>

definition knodes :: "frame list \<Rightarrow> ptr set" where
  "knodes k = set (cpre k) \<union> set (cpost k)"

lemma cpar_knodes: "cpar k \<in> knodes k \<or> cpar k = 0"
  by (cases k rule: ctx_cases) (auto simp: knodes_def)

lemma same_at_crep': "same_at A s s' \<Longrightarrow> A \<inter> knodes k = {} \<Longrightarrow> crep (mem s') rt k x = crep (mem s) rt k x"
  by (rule same_at_crep) (auto simp: knodes_def)

lemma rotate_set_parents_ok:
  assumes p: "node_at (mem s) p (cpar k) cp l r" and x: "links (mem s) x = Some (y, xl, xr)" "x \<noteq> 0"
    and k: "crep (mem s) (rb_root s) k p" and d: "distinct (cpre k @ p # cpost k)" "x \<notin> knodes k" "x \<noteq> p"
  shows "\<exists>s'. rb_rotate_set_parents p x c s = Some s' \<and> crep (mem s') (rb_root s') k x \<and> same_at {p, x, cpar k} s s' \<and>
    links (mem s') x = Some (cpar k OR col cp, xl, xr) \<and> links (mem s') p = Some (x OR c, l, r)"
proof -
  obtain n where n: "mem s p = Some n" "p \<noteq> 0" "rb_parent_color n = cpar k OR col cp" "rb_left n = l" "rb_right n = r"
    using p by (auto simp: node_at_mem)
  obtain nx where nx: "mem s x = Some nx" "rb_left nx = xl" "rb_right nx = xr" using x by (auto simp: links_Some)
  let ?h1 = "(mem s)(x \<mapsto> nx\<lparr>rb_parent_color := cpar k OR col cp\<rparr>)"
  let ?s2 = "s\<lparr>mem := ?h1(p \<mapsto> n\<lparr>rb_parent_color := x OR c\<rparr>)\<rparr>"
  have kp: "cpar k \<noteq> p" "cpar k \<noteq> x"
    using cpar_knodes[of k] d n(2) x(2) by (auto simp: knodes_def)
  have s2: "same_at {p, x} s ?s2" using n nx d(3) by (auto simp: same_at_def mores_upd links_def)
  have "crep (mem ?s2) (rb_root ?s2) k p"
    using k same_at_crep'[OF s2, of k "rb_root s" p] d by (auto simp: knodes_def)
  from rb_change_child_ok[OF this n(2), of x] obtain s3 where s3: "rb_change_child p x (cpar k) ?s2 = Some s3"
    "crep (mem s3) (rb_root s3) k x" "same_at {cpar k} ?s2 s3" using d(1) by auto
  have "same_at {p, x, cpar k} s s3" using same_at_trans[OF s2 s3(3)] by (simp add: insert_commute)
  moreover have "links (mem s3) z = links (mem ?s2) z" if "z \<noteq> cpar k" for z using s3(3) that by (simp add: same_at_def)
  then have "links (mem s3) x = links (mem ?s2) x" "links (mem s3) p = links (mem ?s2) p" using kp by auto
  moreover have "links (mem ?s2) x = Some (cpar k OR col cp, xl, xr)" "links (mem ?s2) p = Some (x OR c, l, r)"
    using n nx d(3) by (auto simp: links_def)
  moreover have "rb_rotate_set_parents p x c s = Some s3"
    using s3(1) n nx x(2) d(3) node_at_ops(3)[OF p]
    by (simp add: rb_rotate_set_parents_def heap_simps)
  ultimately show ?thesis using s3(2) by metis
qed

lemma er_case4_left_raw:
  assumes p: "node_at (mem s) p (cpar k) cp (rootp t) x" "rep (mem s) p t"
    and x: "links (mem s) x = Some (y, rootp sl, z)" "x \<noteq> 0" "aligned x" "rep (mem s) x sl"
    and z: "links (mem s) z = Some (w, rootp l, rootp r)" "z \<noteq> 0" "aligned z" "rep (mem s) z l" "rep (mem s) z r"
    and k: "crep (mem s) (rb_root s) k p"
    and d: "distinct (cpre k @ inorder (Node t p cp (Node sl x cx (Node l z cz r))) @ cpost k)"
  shows "\<exists>s'. er_case4_left dummy_rotate p x z s = Some s' \<and>
    rep (mem s') (cpar k) (Node (Node t p Black sl) x cp (Node l z Black r)) \<and> crep (mem s') (rb_root s') k x \<and>
    mores (mem s') = mores (mem s)"
proof -
  obtain np where np: "mem s p = Some np" "p \<noteq> 0" "aligned p" "rb_left np = rootp t" "rb_parent_color np = cpar k OR col cp"
    using p by (auto simp: node_at_mem)
  obtain nx where nx: "mem s x = Some nx" "rb_left nx = rootp sl" "rb_right nx = z" using x by (auto simp: links_Some)
  obtain nz where nz: "mem s z = Some nz" "rb_left nz = rootp l" "rb_right nz = rootp r" using z by (auto simp: links_Some)
  let ?h1 = "(mem s)(p \<mapsto> np\<lparr>rb_right := rootp sl\<rparr>, x \<mapsto> nx\<lparr>rb_left := p\<rparr>, z \<mapsto> nz\<lparr>rb_parent_color := x OR 1\<rparr>)"
  let ?s1 = "s\<lparr>mem := ?h1\<rparr>"
  have s1: "same_at {p, x, z} s ?s1" using np nx nz d by (auto simp: same_at_def mores_upd links_def)
  have dj: "{p, x, z} \<inter> set (inorder sl) = {}" "{p, x, z} \<inter> knodes k = {}" "{p, x, z} \<inter> set (inorder t) = {}"
    "{p, x, z} \<inter> set (inorder l) = {}" "{p, x, z} \<inter> set (inorder r) = {}"
    using d by (auto simp: knodes_def)
  have "rep (mem ?s1) x sl" using x(4) same_at_rep[OF s1 dj(1)] by simp
  from opt_set_parent_ok[OF this np(3)] obtain s2 where s2: "opt_set_parent (rootp sl) p ?s1 = Some s2"
    "rb_root s2 = rb_root s" "rep (mem s2) p sl" "same_at (set (inorder sl)) ?s1 s2" using d by auto
  have keep: "links (mem s2) v = links (mem ?s1) v" if "v \<notin> set (inorder sl)" for v
    using s2(4) that by (simp add: same_at_def)
  have n2: "node_at (mem s2) p (cpar k) cp (rootp t) (rootp sl)" "links (mem s2) x = Some (rb_parent_color nx, p, z)"
    "links (mem s2) z = Some (x OR 1, rootp l, rootp r)"
    using p np nx nz d keep by (auto simp: node_at_def links_def)
  have s02: "same_at ({p, x, z} \<union> set (inorder sl)) s s2" by (rule same_at_trans[OF s1 s2(4)])
  have kd: "({p, x, z} \<union> set (inorder sl)) \<inter> knodes k = {}" using d by (auto simp: knodes_def)
  have k2: "crep (mem s2) (rb_root s2) k p"
    using k same_at_crep'[OF s02 kd, of "rb_root s" p] s2(2) by simp
  have dk: "distinct (cpre k @ p # cpost k)" "x \<notin> knodes k" "x \<noteq> p" using d by (auto simp: knodes_def)
  obtain s3 where s3: "rb_rotate_set_parents p x RB_BLACK s2 = Some s3" "crep (mem s3) (rb_root s3) k x"
    "same_at {p, x, cpar k} s2 s3" "links (mem s3) x = Some (cpar k OR col cp, p, z)"
    "links (mem s3) p = Some (x OR 1, rootp t, rootp sl)"
    using rotate_set_parents_ok[OF n2(1,2) x(2) k2 dk, of RB_BLACK] by blast
  have run: "er_case4_left dummy_rotate p x z s = Some s3"
    using np nx nz x z d s2(1) s3(1) by (auto simp: er_case4_left_def heap_simps dummy_rotate_def opt_set_parent_def)
  have ck: "cpar k \<notin> set (inorder t) \<union> set (inorder sl) \<union> set (inorder l) \<union> set (inorder r) \<union> {p, x, z}"
    using cpar_knodes[of k] d p(2) x(2,4) z(2,4,5) np(2) rep_nonnull by (auto simp: knodes_def)
  have s03: "same_at (({p, x, z} \<union> set (inorder sl)) \<union> {p, x, cpar k}) s s3" by (rule same_at_trans[OF s02 s3(3)])
  have "set (inorder sl) \<inter> set (inorder t) = {}" "set (inorder sl) \<inter> set (inorder l) = {}" "set (inorder sl) \<inter> set (inorder r) = {}"
    using d by auto
  then have "(({p, x, z} \<union> set (inorder sl)) \<union> {p, x, cpar k}) \<inter> set (inorder u) = {}" if "u \<in> {t, l, r}" for u
    using that ck dj by auto
  then have "rep (mem s3) p t" "rep (mem s3) z l" "rep (mem s3) z r"
    using p(2) z(4,5) by (simp_all add: same_at_rep[OF s03])
  moreover have "rep (mem s3) p sl" using s2(3) ck dj by (auto simp: same_at_rep[OF s3(3)])
  moreover have "links (mem s3) z = Some (x OR 1, rootp l, rootp r)" using n2(3) s3(3) ck d by (auto simp: same_at_def)
  moreover have "aligned (cpar k)" by (rule crep_aligned[OF k])
  ultimately show ?thesis using run s3 x np z s03 by (auto simp: node_at_def same_at_def)
qed

lemma er_case4_right_raw:
  assumes p: "node_at (mem s) p (cpar k) cp x (rootp t)" "rep (mem s) p t"
    and x: "links (mem s) x = Some (y, z, rootp sl)" "x \<noteq> 0" "aligned x" "rep (mem s) x sl"
    and z: "links (mem s) z = Some (w, rootp l, rootp r)" "z \<noteq> 0" "aligned z" "rep (mem s) z l" "rep (mem s) z r"
    and k: "crep (mem s) (rb_root s) k p"
    and d: "distinct (cpre k @ inorder (Node (Node (Node l z cz r) x cx sl) p cp t) @ cpost k)"
  shows "\<exists>s'. er_case4_right dummy_rotate p x z s = Some s' \<and>
    rep (mem s') (cpar k) (Node (Node l z Black r) x cp (Node sl p Black t)) \<and> crep (mem s') (rb_root s') k x \<and>
    mores (mem s') = mores (mem s)"
proof -
  obtain np where np: "mem s p = Some np" "p \<noteq> 0" "aligned p" "rb_right np = rootp t" "rb_parent_color np = cpar k OR col cp"
    using p by (auto simp: node_at_mem)
  obtain nx where nx: "mem s x = Some nx" "rb_right nx = rootp sl" "rb_left nx = z" using x by (auto simp: links_Some)
  obtain nz where nz: "mem s z = Some nz" "rb_left nz = rootp l" "rb_right nz = rootp r" using z by (auto simp: links_Some)
  let ?h1 = "(mem s)(p \<mapsto> np\<lparr>rb_left := rootp sl\<rparr>, x \<mapsto> nx\<lparr>rb_right := p\<rparr>, z \<mapsto> nz\<lparr>rb_parent_color := x OR 1\<rparr>)"
  let ?s1 = "s\<lparr>mem := ?h1\<rparr>"
  have s1: "same_at {p, x, z} s ?s1" using np nx nz d by (auto simp: same_at_def mores_upd links_def)
  have dj: "{p, x, z} \<inter> set (inorder sl) = {}" "{p, x, z} \<inter> knodes k = {}" "{p, x, z} \<inter> set (inorder t) = {}"
    "{p, x, z} \<inter> set (inorder l) = {}" "{p, x, z} \<inter> set (inorder r) = {}"
    using d by (auto simp: knodes_def)
  have "rep (mem ?s1) x sl" using x(4) same_at_rep[OF s1 dj(1)] by simp
  from opt_set_parent_ok[OF this np(3)] obtain s2 where s2: "opt_set_parent (rootp sl) p ?s1 = Some s2"
    "rb_root s2 = rb_root s" "rep (mem s2) p sl" "same_at (set (inorder sl)) ?s1 s2" using d by auto
  have keep: "links (mem s2) v = links (mem ?s1) v" if "v \<notin> set (inorder sl)" for v
    using s2(4) that by (simp add: same_at_def)
  have n2: "node_at (mem s2) p (cpar k) cp (rootp sl) (rootp t)" "links (mem s2) x = Some (rb_parent_color nx, z, p)"
    "links (mem s2) z = Some (x OR 1, rootp l, rootp r)"
    using p np nx nz d keep by (auto simp: node_at_def links_def)
  have s02: "same_at ({p, x, z} \<union> set (inorder sl)) s s2" by (rule same_at_trans[OF s1 s2(4)])
  have kd: "({p, x, z} \<union> set (inorder sl)) \<inter> knodes k = {}" using d by (auto simp: knodes_def)
  have k2: "crep (mem s2) (rb_root s2) k p"
    using k same_at_crep'[OF s02 kd, of "rb_root s" p] s2(2) by simp
  have dk: "distinct (cpre k @ p # cpost k)" "x \<notin> knodes k" "x \<noteq> p" using d by (auto simp: knodes_def)
  obtain s3 where s3: "rb_rotate_set_parents p x RB_BLACK s2 = Some s3" "crep (mem s3) (rb_root s3) k x"
    "same_at {p, x, cpar k} s2 s3" "links (mem s3) x = Some (cpar k OR col cp, z, p)"
    "links (mem s3) p = Some (x OR 1, rootp sl, rootp t)"
    using rotate_set_parents_ok[OF n2(1,2) x(2) k2 dk, of RB_BLACK] by blast
  have run: "er_case4_right dummy_rotate p x z s = Some s3"
    using np nx nz x z d s2(1) s3(1) by (auto simp: er_case4_right_def heap_simps dummy_rotate_def opt_set_parent_def)
  have ck: "cpar k \<notin> set (inorder t) \<union> set (inorder sl) \<union> set (inorder l) \<union> set (inorder r) \<union> {p, x, z}"
    using cpar_knodes[of k] d p(2) x(2,4) z(2,4,5) np(2) rep_nonnull by (auto simp: knodes_def)
  have s03: "same_at (({p, x, z} \<union> set (inorder sl)) \<union> {p, x, cpar k}) s s3" by (rule same_at_trans[OF s02 s3(3)])
  have "set (inorder sl) \<inter> set (inorder t) = {}" "set (inorder sl) \<inter> set (inorder l) = {}" "set (inorder sl) \<inter> set (inorder r) = {}"
    using d by auto
  then have "(({p, x, z} \<union> set (inorder sl)) \<union> {p, x, cpar k}) \<inter> set (inorder u) = {}" if "u \<in> {t, l, r}" for u
    using that ck dj by auto
  then have "rep (mem s3) p t" "rep (mem s3) z l" "rep (mem s3) z r"
    using p(2) z(4,5) by (simp_all add: same_at_rep[OF s03])
  moreover have "rep (mem s3) p sl" using s2(3) ck dj by (auto simp: same_at_rep[OF s3(3)])
  moreover have "links (mem s3) z = Some (x OR 1, rootp l, rootp r)" using n2(3) s3(3) ck d by (auto simp: same_at_def)
  moreover have "aligned (cpar k)" by (rule crep_aligned[OF k])
  ultimately show ?thesis using run s3 x np z s03 by (auto simp: node_at_def same_at_def)
qed

text \<open>Case 3 leaves the colours and parents of the sibling and of its child to case 4.\<close>

lemma er_case3_left_ok:
  assumes "node_at (mem s) p q cp (rootp t) x" "rep (mem s) p (Node (Node a b Red c) x Black sr)"
    and "distinct (p # inorder (Node (Node a b Red c) x Black sr))"
  shows "\<exists>s'. er_case3_left dummy_rotate p x b s = Some (x, b, s') \<and> rb_root s' = rb_root s \<and>
    node_at (mem s') p q cp (rootp t) b \<and> links (mem s') b = Some (x, rootp a, x) \<and> rep (mem s') b a \<and>
    links (mem s') x = Some (p OR 1, rootp c, rootp sr) \<and> rep (mem s') x (paint Black c) \<and> rep (mem s') x sr \<and>
    same_at ({p, x, b} \<union> set (inorder c)) s s'"
  using assms by (cases c) (auto simp: er_case3_left_def step_simps same_at_def links_upd_other)

lemma er_case3_right_ok:
  assumes "node_at (mem s) p q cp x (rootp t)" "rep (mem s) p (Node sr x Black (Node c b Red a))"
    and "distinct (p # inorder (Node sr x Black (Node c b Red a)))"
  shows "\<exists>s'. er_case3_right dummy_rotate p x b s = Some (x, b, s') \<and> rb_root s' = rb_root s \<and>
    node_at (mem s') p q cp b (rootp t) \<and> links (mem s') b = Some (x, x, rootp a) \<and> rep (mem s') b a \<and>
    links (mem s') x = Some (p OR 1, rootp sr, rootp c) \<and> rep (mem s') x (paint Black c) \<and> rep (mem s') x sr \<and>
    same_at ({p, x, b} \<union> set (inorder c)) s s'"
  using assms by (cases c) (auto simp: er_case3_right_def step_simps same_at_def links_upd_other)

lemma er_case2_left_ok:
  assumes "tree_rep s (plug (Node t p cp (Node sl x Black sr)) k)"
  shows "\<exists>s'. er_case2 p x s = Some (if cp = Red then 0 else cpar k, s') \<and>
    tree_rep s' (plug (Node t p Black (Node sl x Red sr)) k) \<and> mores (mem s') = mores (mem s)"
  using assms
  by (cases cp) (auto simp: tree_rep_plug er_case2_def pc_is_red_def step_simps aligned_and1)

lemma er_case2_right_ok:
  assumes "tree_rep s (plug (Node (Node sl x Black sr) p cp t) k)"
  shows "\<exists>s'. er_case2 p x s = Some (if cp = Red then 0 else cpar k, s') \<and>
    tree_rep s' (plug (Node (Node sl x Red sr) p Black t) k) \<and> mores (mem s') = mores (mem s)"
  using assms
  by (cases cp) (auto simp: tree_rep_plug er_case2_def pc_is_red_def step_simps aligned_and1)

text \<open>Cases 2 to 4 for a black sibling: the parent's parent for the next turn, or NULL and the loop ends.\<close>

lemma er_black_left_ok:
  assumes t: "tree_rep s (plug (Node t p cp (Node sl x Black sr)) k)"
  shows "\<exists>s'. mores (mem s') = mores (mem s) \<and>
    (if tcolor sl = Black \<and> tcolor sr = Black
     then er_black_left dummy_rotate p x s = Some (if cp = Red then 0 else cpar k, s') \<and>
       tree_rep s' (plug (Node t p Black (Node sl x Red sr)) k)
     else er_black_left dummy_rotate p x s = Some (0, s') \<and> tree_rep s' (plug (bal_left t p cp (Node sl x Black sr)) k))"
proof -
  have r: "rep (mem s) (cpar k) (Node t p cp (Node sl x Black sr))" "crep (mem s) (rb_root s) k p"
    and d: "distinct (cpre k @ inorder (Node t p cp (Node sl x Black sr)) @ cpost k)"
    using t by (simp_all add: tree_rep_plug)
  have np: "node_at (mem s) p (cpar k) cp (rootp t) x" "rep (mem s) p t" and nx: "node_at (mem s) x p Black (rootp sl) (rootp sr)"
    and sub: "rep (mem s) x sl" "rep (mem s) x sr" and p: "rep (mem s) p (Node sl x Black sr)"
    using r by simp_all
  note run = er_black_left_def node_at_ops[OF nx] null_or_black_ok[OF sub(1)] null_or_black_ok[OF sub(2)]
  show ?thesis
  proof (cases "tcolor sr = Red")
    case True
    then obtain l z r' where sr: "sr = Node l z Red r'" using red_node by blast
    then have z: "links (mem s) z = Some (x, rootp l, rootp r')" "z \<noteq> 0" "aligned z" "rep (mem s) z l" "rep (mem s) z r'"
      using sub(2) by (auto simp: node_at_def)
    have x: "links (mem s) x = Some (p OR 1, rootp sl, z)" "x \<noteq> 0" "aligned x" using nx sr by (auto simp: node_at_def)
    obtain s' where s': "er_case4_left dummy_rotate p x z s = Some s'"
      "rep (mem s') (cpar k) (Node (Node t p Black sl) x cp (Node l z Black r'))" "crep (mem s') (rb_root s') k x"
      "mores (mem s') = mores (mem s)"
      using er_case4_left_raw[OF np x sub(1) z r(2) d[unfolded sr]] by blast
    have "tree_rep s' (plug (bal_left t p cp (Node sl x Black sr)) k)"
      by (rule tree_repI) (use s' d in \<open>auto simp: sr\<close>)
    moreover have "null_or_black z s = Some False" using null_or_black_ok[OF sub(2)] sr by simp
    ultimately show ?thesis using s' by (intro exI[of _ s']) (simp add: run sr)
  next
    case False
    then have srb: "tcolor sr = Black" by simp
    show ?thesis
    proof (cases "tcolor sl = Black")
      case True
      obtain s' where "er_case2 p x s = Some (if cp = Red then 0 else cpar k, s')"
        "tree_rep s' (plug (Node t p Black (Node sl x Red sr)) k)" "mores (mem s') = mores (mem s)"
        using er_case2_left_ok[OF t] by blast
      then show ?thesis using True srb by (intro exI[of _ s']) (simp add: run)
    next
      case sl: False
      then obtain a b c where slx: "sl = Node a b Red c" using red_node by fastforce
      have dp: "distinct (p # inorder (Node (Node a b Red c) x Black sr))" using d slx by auto
      obtain s1 where s1: "er_case3_left dummy_rotate p x b s = Some (x, b, s1)" "rb_root s1 = rb_root s"
        "node_at (mem s1) p (cpar k) cp (rootp t) b" "links (mem s1) b = Some (x, rootp a, x)" "rep (mem s1) b a"
        "links (mem s1) x = Some (p OR 1, rootp c, rootp sr)" "rep (mem s1) x (paint Black c)" "rep (mem s1) x sr"
        "same_at ({p, x, b} \<union> set (inorder c)) s s1"
        using er_case3_left_ok[OF np(1) p[unfolded slx] dp] by blast
      have dk: "({p, x, b} \<union> set (inorder c)) \<inter> knodes k = {}" "({p, x, b} \<union> set (inorder c)) \<inter> set (inorder t) = {}"
        using d slx by (auto simp: knodes_def)
      have k1: "crep (mem s1) (rb_root s1) k p" using r(2) same_at_crep'[OF s1(9) dk(1)] s1(2) by simp
      have t1: "rep (mem s1) p t" using np(2) same_at_rep[OF s1(9) dk(2)] by simp
      have b: "b \<noteq> 0" "aligned b" "x \<noteq> 0" "aligned x" using sub(1) nx slx by (auto simp: node_at_def)
      have xr: "links (mem s1) x = Some (p OR 1, rootp (paint Black c), rootp sr)" using s1(6) by simp
      have d1: "distinct (cpre k @ inorder (Node t p cp (Node a b Red (Node (paint Black c) x Black sr))) @ cpost k)"
        using d slx by simp
      obtain s' where s': "er_case4_left dummy_rotate p b x s1 = Some s'"
        "rep (mem s') (cpar k) (Node (Node t p Black a) b cp (Node (paint Black c) x Black sr))" "crep (mem s') (rb_root s') k b"
        "mores (mem s') = mores (mem s1)"
        using er_case4_left_raw[OF s1(3) t1 s1(4) b(1,2) s1(5) xr b(3,4) s1(7,8) k1 d1] by blast
      have "tree_rep s' (plug (bal_left t p cp (Node sl x Black sr)) k)"
        by (rule tree_repI) (use s' d in \<open>auto simp: slx srb\<close>)
      moreover have "null_or_black b s = Some False" using null_or_black_ok[OF sub(1)] slx by simp
      ultimately show ?thesis using s' s1(1,9) srb slx by (intro exI[of _ s']) (simp add: run same_at_def)
    qed
  qed
qed

lemma er_black_right_ok:
  assumes t: "tree_rep s (plug (Node (Node sl x Black sr) p cp t) k)"
  shows "\<exists>s'. mores (mem s') = mores (mem s) \<and>
    (if tcolor sl = Black \<and> tcolor sr = Black
     then er_black_right dummy_rotate p x s = Some (if cp = Red then 0 else cpar k, s') \<and>
       tree_rep s' (plug (Node (Node sl x Red sr) p Black t) k)
     else er_black_right dummy_rotate p x s = Some (0, s') \<and> tree_rep s' (plug (bal_right (Node sl x Black sr) p cp t) k))"
proof -
  have r: "rep (mem s) (cpar k) (Node (Node sl x Black sr) p cp t)" "crep (mem s) (rb_root s) k p"
    and d: "distinct (cpre k @ inorder (Node (Node sl x Black sr) p cp t) @ cpost k)"
    using t by (simp_all add: tree_rep_plug)
  have np: "node_at (mem s) p (cpar k) cp x (rootp t)" "rep (mem s) p t" and nx: "node_at (mem s) x p Black (rootp sl) (rootp sr)"
    and sub: "rep (mem s) x sl" "rep (mem s) x sr" and p: "rep (mem s) p (Node sl x Black sr)"
    using r by simp_all
  note run = er_black_right_def node_at_ops[OF nx] null_or_black_ok[OF sub(1)] null_or_black_ok[OF sub(2)]
  show ?thesis
  proof (cases "tcolor sl = Red")
    case True
    then obtain l z r' where sl: "sl = Node l z Red r'" using red_node by blast
    then have z: "links (mem s) z = Some (x, rootp l, rootp r')" "z \<noteq> 0" "aligned z" "rep (mem s) z l" "rep (mem s) z r'"
      using sub(1) sl by (auto simp: node_at_def)
    have x: "links (mem s) x = Some (p OR 1, z, rootp sr)" "x \<noteq> 0" "aligned x" using nx sl by (auto simp: node_at_def)
    obtain s' where s': "er_case4_right dummy_rotate p x z s = Some s'"
      "rep (mem s') (cpar k) (Node (Node l z Black r') x cp (Node sr p Black t))" "crep (mem s') (rb_root s') k x"
      "mores (mem s') = mores (mem s)"
      using er_case4_right_raw[OF np x sub(2) z r(2) d[unfolded sl]] by blast
    have "tree_rep s' (plug (bal_right (Node sl x Black sr) p cp t) k)"
      by (rule tree_repI) (use s' d in \<open>auto simp: sl\<close>)
    moreover have "null_or_black z s = Some False" using null_or_black_ok[OF sub(1)] sl by simp
    ultimately show ?thesis using s' by (intro exI[of _ s']) (simp add: run sl)
  next
    case False
    then have slb: "tcolor sl = Black" by simp
    show ?thesis
    proof (cases "tcolor sr = Black")
      case True
      obtain s' where "er_case2 p x s = Some (if cp = Red then 0 else cpar k, s')"
        "tree_rep s' (plug (Node (Node sl x Red sr) p Black t) k)" "mores (mem s') = mores (mem s)"
        using er_case2_right_ok[OF t] by blast
      then show ?thesis using True slb by (intro exI[of _ s']) (simp add: run)
    next
      case sr: False
      then obtain a b c where srx: "sr = Node c b Red a" using red_node by fastforce
      have dp: "distinct (p # inorder (Node sl x Black (Node c b Red a)))" using d srx by auto
      obtain s1 where s1: "er_case3_right dummy_rotate p x b s = Some (x, b, s1)" "rb_root s1 = rb_root s"
        "node_at (mem s1) p (cpar k) cp b (rootp t)" "links (mem s1) b = Some (x, x, rootp a)" "rep (mem s1) b a"
        "links (mem s1) x = Some (p OR 1, rootp sl, rootp c)" "rep (mem s1) x (paint Black c)" "rep (mem s1) x sl"
        "same_at ({p, x, b} \<union> set (inorder c)) s s1"
        using er_case3_right_ok[OF np(1) p[unfolded srx] dp] by blast
      have dk: "({p, x, b} \<union> set (inorder c)) \<inter> knodes k = {}" "({p, x, b} \<union> set (inorder c)) \<inter> set (inorder t) = {}"
        using d srx by (auto simp: knodes_def)
      have k1: "crep (mem s1) (rb_root s1) k p" using r(2) same_at_crep'[OF s1(9) dk(1)] s1(2) by simp
      have t1: "rep (mem s1) p t" using np(2) same_at_rep[OF s1(9) dk(2)] by simp
      have b: "b \<noteq> 0" "aligned b" "x \<noteq> 0" "aligned x" using sub(2) nx srx by (auto simp: node_at_def)
      have xr: "links (mem s1) x = Some (p OR 1, rootp sl, rootp (paint Black c))" using s1(6) by simp
      have d1: "distinct (cpre k @ inorder (Node (Node (Node sl x Black (paint Black c)) b Red a) p cp t) @ cpost k)"
        using d srx by simp
      obtain s' where s': "er_case4_right dummy_rotate p b x s1 = Some s'"
        "rep (mem s') (cpar k) (Node (Node sl x Black (paint Black c)) b cp (Node a p Black t))" "crep (mem s') (rb_root s') k b"
        "mores (mem s') = mores (mem s1)"
        using er_case4_right_raw[OF s1(3) t1 s1(4) b(1,2) s1(5) xr b(3,4) s1(8,7) k1 d1] by blast
      have "tree_rep s' (plug (bal_right (Node sl x Black sr) p cp t) k)"
        by (rule tree_repI) (use s' d in \<open>auto simp: srx slb\<close>)
      moreover have "null_or_black b s = Some False" using null_or_black_ok[OF sub(2)] srx by simp
      ultimately show ?thesis using s' s1(1,9) slb srx by (intro exI[of _ s']) (simp add: run same_at_def)
    qed
  qed
qed

lemma er_left_ok:
  assumes t: "tree_rep s (plug (Node t p cp S) k)" and S: "bheight S = Suc n" "invc S" "invh S"
  shows "\<exists>s' up. er_left dummy_rotate p (rootp S) s = Some (up, s') \<and> mores (mem s') = mores (mem s) \<and>
    (up = 0 \<and> tree_rep s' (del_fix t (LHole p cp S # k)) \<or>
     up = cpar k \<and> cp = Black \<and> tree_rep s' (plug (Node t p Black (paint Red S)) k) \<and>
     tcolor S = Black \<and> black_children S)"
proof (cases "tcolor S = Red")
  case False
  then have "tcolor S = Black" by simp
  then obtain sl x sr where Sx: "S = Node sl x Black sr" using bheight_pos[OF _ S(1)] by blast
  have nx: "node_at (mem s) x p Black (rootp sl) (rootp sr)" using t Sx by (simp add: tree_rep_plug)
  have run: "er_left dummy_rotate p (rootp S) s = er_black_left dummy_rotate p x s"
    using node_at_ops[OF nx] by (simp add: er_left_def Sx)
  obtain s' where s': "mores (mem s') = mores (mem s)" "if tcolor sl = Black \<and> tcolor sr = Black
     then er_black_left dummy_rotate p x s = Some (if cp = Red then 0 else cpar k, s') \<and>
       tree_rep s' (plug (Node t p Black (Node sl x Red sr)) k)
     else er_black_left dummy_rotate p x s = Some (0, s') \<and> tree_rep s' (plug (bal_left t p cp (Node sl x Black sr)) k)"
    using er_black_left_ok[OF t[unfolded Sx]] by blast
  show ?thesis
  proof (cases "tcolor sl = Black \<and> tcolor sr = Black")
    case True
    have "bal_left t p Red S = Node t p Black (Node sl x Red sr)" using True Sx by (cases sl) (auto split: color.splits)
    then show ?thesis using s' True Sx run by (cases cp) auto
  next
    case c: False
    then show ?thesis using s' Sx run by auto
  qed
next
  case True
  then obtain sl x sr where Sx: "S = Node sl x Red sr" using red_node by blast
  then have "tcolor sl = Black" "bheight sl = Suc n" using S by auto
  then obtain a y b where sl: "sl = Node a y Black b" using bheight_pos by blast
  have d: "distinct (cpre k @ inorder (Node t p cp (Node sl x Red sr)) @ cpost k)" using t Sx by (simp add: tree_rep_plug)
  have r: "rep (mem s) (cpar k) (Node t p cp (Node sl x Red sr))" "crep (mem s) (rb_root s) k p"
    using t Sx by (simp_all add: tree_rep_plug)
  obtain s1 where s1: "er_case1_left dummy_rotate p x s = Some (rootp sl, s1)"
    "rep (mem s1) (cpar k) (Node (Node t p Red (paint Black sl)) x cp sr)" "crep (mem s1) (rb_root s1) k x"
    "mores (mem s1) = mores (mem s)"
    using er_case1_left_ok[OF r _ d] sl by blast
  have "tree_rep s1 (plug (Node t p Red (Node a y Black b)) (LHole x cp sr # k))"
    unfolding plug.simps fill.simps by (rule tree_repI) (use s1 d sl in auto)
  from er_black_left_ok[OF this] obtain s' where s': "mores (mem s') = mores (mem s1)"
    "er_black_left dummy_rotate p y s1 = Some (0, s')" "tree_rep s' (plug (bal_left t p Red sl) (LHole x cp sr # k))"
    unfolding sl by (cases a; cases b) (auto split: if_splits color.splits)
  have nx: "node_at (mem s) x p Red (rootp sl) (rootp sr)" using t Sx by (simp add: tree_rep_plug)
  have "er_left dummy_rotate p (rootp S) s = Some (0, s')"
    using node_at_ops[OF nx] s1(1) s'(2) by (simp add: er_left_def Sx sl)
  then show ?thesis using s' s1(4) Sx by auto
qed

lemma er_right_ok:
  assumes t: "tree_rep s (plug (Node S p cp t) k)" and S: "bheight S = Suc n" "invc S" "invh S"
  shows "\<exists>s' up. er_right dummy_rotate p (rootp S) s = Some (up, s') \<and> mores (mem s') = mores (mem s) \<and>
    (up = 0 \<and> tree_rep s' (del_fix t (RHole S p cp # k)) \<or>
     up = cpar k \<and> cp = Black \<and> tree_rep s' (plug (Node (paint Red S) p Black t) k) \<and>
     tcolor S = Black \<and> black_children S)"
proof (cases "tcolor S = Red")
  case False
  then have "tcolor S = Black" by simp
  then obtain sl x sr where Sx: "S = Node sl x Black sr" using bheight_pos[OF _ S(1)] by blast
  have nx: "node_at (mem s) x p Black (rootp sl) (rootp sr)" using t Sx by (simp add: tree_rep_plug)
  have run: "er_right dummy_rotate p (rootp S) s = er_black_right dummy_rotate p x s"
    using node_at_ops[OF nx] by (simp add: er_right_def Sx)
  obtain s' where s': "mores (mem s') = mores (mem s)" "if tcolor sl = Black \<and> tcolor sr = Black
     then er_black_right dummy_rotate p x s = Some (if cp = Red then 0 else cpar k, s') \<and>
       tree_rep s' (plug (Node (Node sl x Red sr) p Black t) k)
     else er_black_right dummy_rotate p x s = Some (0, s') \<and> tree_rep s' (plug (bal_right (Node sl x Black sr) p cp t) k)"
    using er_black_right_ok[OF t[unfolded Sx]] by blast
  show ?thesis
  proof (cases "tcolor sl = Black \<and> tcolor sr = Black")
    case True
    have "bal_right S p Red t = Node (Node sl x Red sr) p Black t" using True Sx by (cases sr) (auto split: color.splits)
    then show ?thesis using s' True Sx run by (cases cp) auto
  next
    case c: False
    then show ?thesis using s' Sx run by auto
  qed
next
  case True
  then obtain sl x sr where Sx: "S = Node sl x Red sr" using red_node by blast
  then have "tcolor sr = Black" "bheight sr = Suc n" using S by auto
  then obtain a y b where sr: "sr = Node a y Black b" using bheight_pos by blast
  have d: "distinct (cpre k @ inorder (Node (Node sl x Red sr) p cp t) @ cpost k)" using t Sx by (simp add: tree_rep_plug)
  have r: "rep (mem s) (cpar k) (Node (Node sl x Red sr) p cp t)" "crep (mem s) (rb_root s) k p"
    using t Sx by (simp_all add: tree_rep_plug)
  obtain s1 where s1: "er_case1_right dummy_rotate p x s = Some (rootp sr, s1)"
    "rep (mem s1) (cpar k) (Node sl x cp (Node (paint Black sr) p Red t))" "crep (mem s1) (rb_root s1) k x"
    "mores (mem s1) = mores (mem s)"
    using er_case1_right_ok[OF r _ d] sr by blast
  have "tree_rep s1 (plug (Node (Node a y Black b) p Red t) (RHole sl x cp # k))"
    unfolding plug.simps fill.simps by (rule tree_repI) (use s1 d sr in auto)
  from er_black_right_ok[OF this] obtain s' where s': "mores (mem s') = mores (mem s1)"
    "er_black_right dummy_rotate p y s1 = Some (0, s')" "tree_rep s' (plug (bal_right sr p Red t) (RHole sl x cp # k))"
    unfolding sr by (cases a; cases b) (auto split: if_splits color.splits)
  have nx: "node_at (mem s) x p Red (rootp sl) (rootp sr)" using t Sx by (simp add: tree_rep_plug)
  have "er_right dummy_rotate p (rootp S) s = Some (0, s')"
    using node_at_ops[OF nx] s1(1) s'(2) by (simp add: er_right_def Sx sr)
  then show ?thesis using s' s1(4) Sx by auto
qed

lemma del_fix_up_left:
  "cp = Black \<Longrightarrow> tcolor S = Black \<Longrightarrow> bheight S = Suc n \<Longrightarrow> black_children S \<Longrightarrow>
   del_fix t (LHole p cp S # k) = del_fix (Node t p Black (paint Red S)) k"
  by (cases S) auto

lemma del_fix_up_right:
  "cp = Black \<Longrightarrow> tcolor S = Black \<Longrightarrow> bheight S = Suc n \<Longrightarrow> black_children S \<Longrightarrow>
   del_fix t (RHole S p cp # k) = del_fix (Node (paint Red S) p Black t) k"
  by (cases S) auto

definition er_post :: "'a rbs \<Rightarrow> ptree \<Rightarrow> frame list \<Rightarrow> bool" where
  "er_post s t k \<longleftrightarrow> (\<exists>s'. rb_erase_color dummy_rotate (rootp t) (cpar k) s = Some s' \<and>
     tree_rep s' (del_fix t k) \<and> mores (mem s') = mores (mem s))"

lemma er_turn:
  assumes run: "rb_erase_color dummy_rotate (rootp t) (cpar (f # k)) s =
      (if up \<noteq> 0 then rb_erase_color dummy_rotate (rootp T) up s1 else Some s1)"
    and s1: "mores (mem s1) = mores (mem s)"
      "up = 0 \<and> tree_rep s1 (del_fix t (f # k)) \<or> up = cpar k \<and> tree_rep s1 (plug T k) \<and> del_focus T k \<and>
       del_fix t (f # k) = del_fix T k"
    and IH: "tree_rep s1 (plug T k) \<Longrightarrow> k \<noteq> [] \<Longrightarrow> del_focus T k \<Longrightarrow> er_post s1 T k"
  shows "er_post s t (f # k)"
proof (cases "up = 0")
  case True
  have "tree_rep s1 (del_fix t (f # k))"
  proof (cases k)
    case (Cons g k')
    then have "up \<noteq> cpar k" if "tree_rep s1 (plug T k)"
      using that True by (cases g) (auto simp: tree_rep_plug node_at_def)
    then show ?thesis using s1(2) by blast
  qed (use s1(2) in auto)
  then show ?thesis using True run s1(1) by (simp add: er_post_def)
next
  case False
  then have u: "up = cpar k" "tree_rep s1 (plug T k)" "del_focus T k" "del_fix t (f # k) = del_fix T k" "k \<noteq> []"
    using s1(2) by auto
  from IH[OF u(2,5,3)] show ?thesis using run False s1(1) u by (simp add: er_post_def)
qed

lemma del_focus_up_left:
  "del_focus t (LHole p Black S # k) \<Longrightarrow> tcolor S = Black \<Longrightarrow> black_children S \<Longrightarrow>
   del_focus (Node t p Black (paint Red S)) k"
  by (cases S) (auto simp: del_focus_def split: if_splits)

lemma del_focus_up_right:
  "del_focus t (RHole S p Black # k) \<Longrightarrow> tcolor S = Black \<Longrightarrow> black_children S \<Longrightarrow>
   del_focus (Node (paint Red S) p Black t) k"
  by (cases S) (auto simp: del_focus_def split: if_splits)

lemma rootp_differ:
  assumes "rep h p S" "S \<noteq> Leaf" "set (inorder S) \<inter> set (inorder t) = {}"
  shows "rootp t \<noteq> rootp S"
proof -
  have "rootp S \<in> set (inorder S)" "rootp S \<noteq> 0" using assms(1,2) rootp_in rep_nonnull by blast+
  then show ?thesis using assms(3) rootp_notin[of "rootp S" t] by blast
qed

lemma rb_erase_color_ok: "tree_rep s (plug t k) \<Longrightarrow> k \<noteq> [] \<Longrightarrow> del_focus t k \<Longrightarrow> er_post s t k"
proof (induction "length k" arbitrary: s t k rule: less_induct)
  case less
  show ?case
  proof (cases k rule: ctx_cases)
    case Nil
    then show ?thesis using less.prems by simp
  next
    case (LHole p cp S k')
    have S: "invc S" "invh S" "bheight S = Suc (bheight t)" and fc: "del_focus t (LHole p cp S # k')"
      using less.prems(3) LHole by (auto simp: del_focus_def)
    have t: "tree_rep s (plug (Node t p cp S) k')" using less.prems(1) LHole by simp
    have np: "node_at (mem s) p (cpar k') cp (rootp t) (rootp S)" "rep (mem s) p S" "set (inorder S) \<inter> set (inorder t) = {}"
      using t by (auto simp: tree_rep_plug)
    have ne: "rootp t \<noteq> rootp S" by (rule rootp_differ[OF np(2) _ np(3)]) (use S(3) in auto)
    obtain s1 up where s1: "er_left dummy_rotate p (rootp S) s = Some (up, s1)" "mores (mem s1) = mores (mem s)"
      "up = 0 \<and> tree_rep s1 (del_fix t (LHole p cp S # k')) \<or>
       up = cpar k' \<and> cp = Black \<and> tree_rep s1 (plug (Node t p Black (paint Red S)) k') \<and> tcolor S = Black \<and> black_children S"
      using er_left_ok[OF t S(3,1,2)] by blast
    have up: "up = 0 \<and> tree_rep s1 (del_fix t (LHole p cp S # k')) \<or>
      up = cpar k' \<and> tree_rep s1 (plug (Node t p Black (paint Red S)) k') \<and> del_focus (Node t p Black (paint Red S)) k' \<and>
      del_fix t (LHole p cp S # k') = del_fix (Node t p Black (paint Red S)) k'"
      using s1(3) fc del_fix_up_left[OF _ _ S(3)] del_focus_up_left by blast
    have "rb_erase_color dummy_rotate (rootp t) (cpar (LHole p cp S # k')) s =
        (if up \<noteq> 0 then rb_erase_color dummy_rotate (rootp (Node t p Black (paint Red S))) up s1 else Some s1)"
      using s1(1) node_at_ops[OF np(1)] ne by (simp add: rb_erase_color.simps[of _ "rootp t"])
    from er_turn[OF this s1(2) up less.hyps[OF _ _ _]] show ?thesis using LHole by simp
  next
    case (RHole S p cp k')
    have S: "invc S" "invh S" "bheight S = Suc (bheight t)" and fc: "del_focus t (RHole S p cp # k')"
      using less.prems(3) RHole by (auto simp: del_focus_def)
    have t: "tree_rep s (plug (Node S p cp t) k')" using less.prems(1) RHole by simp
    have np: "node_at (mem s) p (cpar k') cp (rootp S) (rootp t)" using t by (simp add: tree_rep_plug)
    obtain s1 up where s1: "er_right dummy_rotate p (rootp S) s = Some (up, s1)" "mores (mem s1) = mores (mem s)"
      "up = 0 \<and> tree_rep s1 (del_fix t (RHole S p cp # k')) \<or>
       up = cpar k' \<and> cp = Black \<and> tree_rep s1 (plug (Node (paint Red S) p Black t) k') \<and> tcolor S = Black \<and> black_children S"
      using er_right_ok[OF t S(3,1,2)] by blast
    have up: "up = 0 \<and> tree_rep s1 (del_fix t (RHole S p cp # k')) \<or>
      up = cpar k' \<and> tree_rep s1 (plug (Node (paint Red S) p Black t) k') \<and> del_focus (Node (paint Red S) p Black t) k' \<and>
      del_fix t (RHole S p cp # k') = del_fix (Node (paint Red S) p Black t) k'"
      using s1(3) fc del_fix_up_right[OF _ _ S(3)] del_focus_up_right by blast
    have "rb_erase_color dummy_rotate (rootp t) (cpar (RHole S p cp # k')) s =
        (if up \<noteq> 0 then rb_erase_color dummy_rotate (rootp (Node (paint Red S) p Black t)) up s1 else Some s1)"
      using s1(1) node_at_ops[OF np] by (simp add: rb_erase_color.simps[of _ "rootp t"])
    from er_turn[OF this s1(2) up less.hyps[OF _ _ _]] show ?thesis using RHole by simp
  qed
qed

end
