(* ===== verification/RbUnlink.thy ===== *)
theory RbUnlink
  imports RbErase
begin

text \<open>
  Removal, second part: \<open>__rb_erase_augmented\<close> of \<open>tools/rbtree_augmented.h\<close>, which unlinks a node and puts
  its successor in its place, and \<open>rb_erase\<close> of \<open>tools/rbtree.c\<close>, correct on every red-black tree.
\<close>

section \<open>Unlinking: the code\<close>

type_synonym 'a copy_cb = "ptr \<Rightarrow> ptr \<Rightarrow> 'a rbs \<Rightarrow> 'a rbs option"
type_synonym 'a propagate_cb = "ptr \<Rightarrow> ptr \<Rightarrow> 'a rbs \<Rightarrow> 'a rbs option"

definition dummy_copy :: "'a copy_cb" where
  "dummy_copy old newn s = Some s"

definition dummy_propagate :: "'a propagate_cb" where
  "dummy_propagate node stop s = Some s"

text \<open>The do loop of case 3, with \<open>tmp\<close> not NULL; it returns \<open>parent\<close> and \<open>successor\<close>.\<close>

partial_function (option) er_descend :: "ptr \<Rightarrow> ptr \<Rightarrow> 'a rbs \<Rightarrow> (ptr \<times> ptr) option" where
  "er_descend successor tmp s = do {
     let parent = successor;
     let successor = tmp;
     tmp \<leftarrow> ld rb_left successor s;
     if tmp \<noteq> 0 then er_descend successor tmp s else Some (parent, successor)
   }"

text \<open>Cases 2 and 3 up to the successor's new right child: \<open>successor\<close>, \<open>parent\<close> and \<open>child2\<close>.\<close>

definition er_successor ::
    "'a copy_cb \<Rightarrow> 'a propagate_cb \<Rightarrow> ptr \<Rightarrow> ptr \<Rightarrow> 'a rbs \<Rightarrow> (ptr \<times> ptr \<times> ptr \<times> 'a rbs) option" where
  "er_successor augment_copy augment_propagate node child s = do {
     tmp \<leftarrow> ld rb_left child s;
     if tmp = 0 then do {
       child2 \<leftarrow> ld rb_right child s;
       s \<leftarrow> augment_copy node child s;
       Some (child, child, child2, s)
     }
     else do {
       (parent, successor) \<leftarrow> er_descend child tmp s;
       child2 \<leftarrow> ld rb_right successor s;
       s \<leftarrow> set_left parent child2 s;
       s \<leftarrow> set_right successor child s;
       s \<leftarrow> rb_set_parent child successor s;
       s \<leftarrow> augment_copy node successor s;
       s \<leftarrow> augment_propagate parent successor s;
       Some (successor, parent, child2, s)
     }
   }"

definition er_unlink ::
    "'a copy_cb \<Rightarrow> 'a propagate_cb \<Rightarrow> ptr \<Rightarrow> 'a rbs \<Rightarrow> (ptr \<times> 'a rbs) option" where
  "er_unlink augment_copy augment_propagate node s = do {
     child \<leftarrow> ld rb_right node s;
     tmp \<leftarrow> ld rb_left node s;
     if tmp = 0 then do {
       pc \<leftarrow> ld rb_parent_color node s;
       let parent = pc_parent pc;
       s \<leftarrow> rb_change_child node child parent s;
       s \<leftarrow> (if child \<noteq> 0 then set_pc child pc s else Some s);
       let rebalance = (if child \<noteq> 0 then 0 else if pc_is_black pc then parent else 0);
       s \<leftarrow> augment_propagate parent 0 s;
       Some (rebalance, s)
     }
     else if child = 0 then do {
       pc \<leftarrow> ld rb_parent_color node s;
       s \<leftarrow> set_pc tmp pc s;
       let parent = pc_parent pc;
       s \<leftarrow> rb_change_child node tmp parent s;
       s \<leftarrow> augment_propagate parent 0 s;
       Some (0, s)
     }
     else do {
       (successor, parent, child2, s) \<leftarrow> er_successor augment_copy augment_propagate node child s;
       tmp \<leftarrow> ld rb_left node s;
       s \<leftarrow> set_left successor tmp s;
       s \<leftarrow> rb_set_parent tmp successor s;
       pc \<leftarrow> ld rb_parent_color node s;
       let tmp = pc_parent pc;
       s \<leftarrow> rb_change_child node successor tmp s;
       (rebalance, s) \<leftarrow>
         (if child2 \<noteq> 0 then do {
            s \<leftarrow> set_pc successor pc s;
            s \<leftarrow> rb_set_parent_color child2 parent RB_BLACK s;
            Some (0, s)
          }
          else do {
            pc2 \<leftarrow> ld rb_parent_color successor s;
            s \<leftarrow> set_pc successor pc s;
            Some (if pc_is_black pc2 then parent else 0, s)
          });
       s \<leftarrow> augment_propagate successor 0 s;
       Some (rebalance, s)
     }
   }"

text \<open>\<open>node\<close> is NULL when the rebalancing starts.\<close>

definition rb_erase_augmented ::
    "'a copy_cb \<Rightarrow> 'a propagate_cb \<Rightarrow> 'a rotate_cb \<Rightarrow> ptr \<Rightarrow> 'a rbs \<Rightarrow> 'a rbs option" where
  "rb_erase_augmented augment_copy augment_propagate augment_rotate node s = do {
     (rebalance, s) \<leftarrow> er_unlink augment_copy augment_propagate node s;
     if rebalance \<noteq> 0 then rb_erase_color augment_rotate 0 rebalance s else Some s
   }"

definition rb_erase :: "ptr \<Rightarrow> 'a rbs \<Rightarrow> 'a rbs option" where
  "rb_erase node s = rb_erase_augmented dummy_copy dummy_propagate dummy_rotate node s"

section \<open>The left spine\<close>

fun left_frame :: "frame \<Rightarrow> bool" where
  "left_frame (LHole a c r) \<longleftrightarrow> True"
| "left_frame (RHole l a c) \<longleftrightarrow> False"

text \<open>A context of left holes in a heap, from the hole up to the subtree root \<open>r\<close> whose parent is \<open>up\<close>.\<close>

fun kseg :: "'a heap \<Rightarrow> ptr \<Rightarrow> ptr \<Rightarrow> frame list \<Rightarrow> ptr \<Rightarrow> bool" where
  "kseg h up r [] x \<longleftrightarrow> r = x"
| "kseg h up r (LHole a c t # k) x \<longleftrightarrow>
     node_at h a (if k = [] then up else cpar k) c x (rootp t) \<and> rep h a t \<and> kseg h up r k a"
| "kseg h up r (RHole l a c # k) x \<longleftrightarrow> False"

lemma crep_append:
  "list_all left_frame ks \<Longrightarrow>
   crep h rt (ks @ f # k) x \<longleftrightarrow> (\<exists>r. kseg h (fptr f) r ks x \<and> crep h rt (f # k) r)"
proof (induction ks arbitrary: x)
  case (Cons g ks)
  have "cpar (ks @ f # k) = (if ks = [] then fptr f else cpar ks)" by (cases ks) auto
  then show ?case using Cons by (cases g) auto
qed simp

lemma kseg_same:
  "same_at A s s' \<Longrightarrow> A \<inter> knodes ks = {} \<Longrightarrow> kseg (mem s') up r ks x = kseg (mem s) up r ks x"
proof (induction ks arbitrary: x)
  case (Cons f ks)
  show ?case
  proof (cases f)
    case (LHole a c t)
    have d: "A \<inter> knodes ks = {}" "a \<notin> A" "A \<inter> set (inorder t) = {}" using Cons.prems LHole by (auto simp: knodes_def)
    show ?thesis
      using Cons.IH[OF Cons.prems(1) d(1)] same_at_node_at[OF Cons.prems(1) d(2)] same_at_rep[OF Cons.prems(1) d(3)]
      by (simp add: LHole)
  qed simp
qed simp

lemma kseg_root: "kseg h up r ks x \<Longrightarrow> ks \<noteq> [] \<Longrightarrow> r \<in> knodes ks"
proof (induction ks arbitrary: x)
  case (Cons f ks)
  show ?case
  proof (cases f)
    case (LHole a c t)
    then show ?thesis using Cons by (cases ks) (auto simp: knodes_def)
  qed (use Cons in simp)
qed simp

lemma kseg_set_hole:
  assumes "kseg (mem s) up r ks x" "ks \<noteq> []" "distinct (cpre ks @ cpost ks)"
  shows "\<exists>s'. set_left (cpar ks) v s = Some s' \<and> rb_root s' = rb_root s \<and> kseg (mem s') up r ks v \<and> same_at {cpar ks} s s'"
proof -
  obtain a c t k where k: "ks = LHole a c t # k" using assms by (cases ks rule: ctx_cases) auto
  have na: "node_at (mem s) a (if k = [] then up else cpar k) c x (rootp t)" and t: "rep (mem s) a t" and ks: "kseg (mem s) up r k a"
    using assms(1) k by auto
  obtain n where n: "mem s a = Some n" "a \<noteq> 0" using na by (auto simp: node_at_mem)
  let ?s = "s\<lparr>mem := (mem s)(a \<mapsto> n\<lparr>rb_left := v\<rparr>)\<rparr>"
  have sm: "same_at {a} s ?s" using n by (intro same_at_mem) auto
  have d: "{a} \<inter> knodes k = {}" "{a} \<inter> set (inorder t) = {}" using assms(3) k by (auto simp: knodes_def)
  have "kseg (mem ?s) up r k a" using ks kseg_same[OF sm d(1)] by simp
  moreover have "rep (mem ?s) a t" using t same_at_rep[OF sm d(2)] by simp
  ultimately show ?thesis using k n na sm by (auto simp: heap_simps node_at_mem)
qed

lemma kseg_set_top:
  assumes "kseg (mem s) up r ks x" "ks \<noteq> []" "aligned up'" "distinct (cpre ks @ cpost ks)"
  shows "\<exists>s'. rb_set_parent r up' s = Some s' \<and> rb_root s' = rb_root s \<and> kseg (mem s') up' r ks x \<and> same_at {r} s s'"
  using assms
proof (induction ks arbitrary: x)
  case (Cons f k)
  then obtain a c t where f: "f = LHole a c t" by (cases f) auto
  have na: "node_at (mem s) a (if k = [] then up else cpar k) c x (rootp t)" and t: "rep (mem s) a t" and ks: "kseg (mem s) up r k a"
    and d: "{a} \<inter> knodes k = {}" "a \<notin> set (inorder t)" "set (inorder t) \<inter> knodes k = {}" "distinct (cpre k @ cpost k)"
    using Cons.prems f by (auto simp: knodes_def)
  show ?case
  proof (cases "k = []")
    case True
    then have r: "r = a" using ks by simp
    obtain n where n: "mem s a = Some n" "a \<noteq> 0" "rb_parent_color n = up OR col c" "aligned up"
      using na True by (auto simp: node_at_mem)
    let ?s = "s\<lparr>mem := (mem s)(a \<mapsto> n\<lparr>rb_parent_color := col c OR up'\<rparr>)\<rparr>"
    have sm: "same_at {a} s ?s" using n by (intro same_at_mem) auto
    have "rep (mem ?s) a t" using t same_at_rep[OF sm, of t] d(2) by simp
    then show ?thesis
      using True f r n na sm Cons.prems(3) by (auto simp: heap_simps node_at_mem pc_color_def and1_tag col_or)
  next
    case False
    from Cons.IH[OF ks False Cons.prems(3) d(4)] obtain s' where s': "rb_set_parent r up' s = Some s'" "rb_root s' = rb_root s"
      "kseg (mem s') up' r k a" "same_at {r} s s'" by blast
    have "r \<in> knodes k" by (rule kseg_root[OF ks False])
    then have "r \<noteq> a" "{r} \<inter> set (inorder t) = {}" using d by auto
    then have "node_at (mem s') a (cpar k) c x (rootp t)" "rep (mem s') a t"
      using na t False same_at_node_at[OF s'(4)] same_at_rep[OF s'(4)] by auto
    then show ?thesis using s' f False by auto
  qed
qed simp

lemma er_descend_ok:
  assumes "rep (mem s) a l" "l \<noteq> Leaf"
  shows "\<exists>ks x cx c2. l = plug (Node Leaf x cx c2) ks \<and> list_all left_frame ks \<and>
    er_descend a (rootp l) s = Some (cpar (ks @ [LHole a c r]), x)"
  using assms
proof (induction l arbitrary: a c r)
  case (Node l b cb r')
  have nb: "node_at (mem s) b a cb (rootp l) (rootp r')" and l: "rep (mem s) b l" using Node.prems(1) by auto
  show ?case
  proof (cases "l = Leaf")
    case True
    then have "er_descend a b s = Some (a, b)"
      using node_at_ops[OF nb] by (simp add: er_descend.simps[of _ b] Let_def)
    then show ?thesis using True by (intro exI[of _ "[]"]) auto
  next
    case False
    obtain ks x cx c2 where k: "l = plug (Node Leaf x cx c2) ks" "list_all left_frame ks"
      "er_descend b (rootp l) s = Some (cpar (ks @ [LHole b cb r']), x)"
      using Node.IH(1)[OF l False] by blast
    have "rootp l \<noteq> 0" using rep_rootp_0[OF l] False by simp
    then have "er_descend a b s = Some (cpar (ks @ [LHole b cb r']), x)"
      using node_at_ops[OF nb] k(3) by (simp add: er_descend.simps[of _ b] Let_def)
    moreover have "cpar (ks @ [LHole b cb r']) = cpar ((ks @ [LHole b cb r']) @ [LHole a c r])" by (cases ks) auto
    ultimately show ?thesis
      using k(1,2) by (intro exI[of _ "ks @ [LHole b cb r']"] exI) (auto simp: plug_append)
  qed
qed simp

lemma kseg_append:
  "list_all left_frame ks \<Longrightarrow>
   kseg h up q (ks @ [LHole a c t]) x \<longleftrightarrow> q = a \<and> (\<exists>r. kseg h a r ks x \<and> node_at h a up c r (rootp t) \<and> rep h a t)"
proof (induction ks arbitrary: x)
  case (Cons g ks)
  have "cpar (ks @ [LHole a c t]) = (if ks = [] then a else cpar ks)" by (cases ks) auto
  then show ?case using Cons by (cases g) auto
qed auto

lemma rep_plug_kseg:
  "list_all left_frame ks \<Longrightarrow>
   rep h p (plug t ks) \<longleftrightarrow> kseg h p (rootp (plug t ks)) ks (rootp t) \<and> rep h (if ks = [] then p else cpar ks) t"
proof (induction ks arbitrary: t)
  case (Cons g ks)
  then show ?case by (cases g) auto
qed simp

lemma cpar_in_knodes: "k \<noteq> [] \<Longrightarrow> cpar k \<in> knodes k"
  by (cases k rule: ctx_cases) (auto simp: knodes_def)

definition spine_parent :: "ptr \<Rightarrow> frame list \<Rightarrow> ptr" where
  "spine_parent x ks = (if ks = [] then x else cpar ks)"

lemma er_successor_ok:
  assumes na: "node_at (mem s) a q c (rootp l) (rootp r)" and r: "rep (mem s) a r" "r \<noteq> Leaf" "distinct (inorder r)"
  shows "\<exists>ks x cx c2 r' s'. r = plug (Node Leaf x cx c2) ks \<and> list_all left_frame ks \<and>
    er_successor dummy_copy dummy_propagate a (rootp r) s = Some (x, spine_parent x ks, rootp c2, s') \<and>
    kseg (mem s') x r' ks (rootp c2) \<and> links (mem s') x = Some (spine_parent a ks OR col cx, 0, r') \<and>
    rep (mem s') x c2 \<and> same_at (set (inorder r)) s s' \<and> rb_root s' = rb_root s \<and> x \<noteq> 0 \<and> aligned x \<and> aligned (spine_parent a ks)"
proof -
  obtain l1 y cy r1 where ry: "r = Node l1 y cy r1" using r(2) by (cases r) auto
  then have ry': "rootp r = y" by simp
  have ny: "node_at (mem s) y a cy (rootp l1) (rootp r1)" and l1: "rep (mem s) y l1" and r1: "rep (mem s) y r1"
    using r(1) ry by auto
  show ?thesis
  proof (cases "l1 = Leaf")
    case True
    have "er_successor dummy_copy dummy_propagate a y s = Some (y, y, rootp r1, s)"
      using node_at_ops[OF ny] True by (simp add: er_successor_def dummy_copy_def)
    then show ?thesis
      using True ry ny r1
      by (intro exI[of _ "[]"] exI[of _ y] exI[of _ cy] exI[of _ r1] exI[of _ "rootp r1"] exI[of _ s])
        (auto simp: spine_parent_def same_at_def node_at_def)
  next
    case False
    obtain ks x cx c2 where k: "l1 = plug (Node Leaf x cx c2) ks" "list_all left_frame ks"
      "er_descend y (rootp l1) s = Some (cpar (ks @ [LHole y cy r1]), x)"
      using er_descend_ok[OF l1 False] by blast
    let ?ks = "ks @ [LHole y cy r1]"
    have ksl: "list_all left_frame ?ks" "?ks \<noteq> []" using k(2) by auto
    have rk: "r = plug (Node Leaf x cx c2) ?ks" using ry k(1) by (simp add: plug_append)
    have dk: "distinct (cpre ?ks @ (x # inorder c2) @ cpost ?ks)"
      using r(3) rk inorder_plug[of "Node Leaf x cx c2" ?ks] by simp
    have nx: "node_at (mem s) x (cpar ?ks) cx 0 (rootp c2)" "rep (mem s) x c2" "kseg (mem s) a y ?ks x"
      using r(1) rep_plug_kseg[OF ksl(1), of "mem s" a "Node Leaf x cx c2"] rk ry by (auto simp: plug_append)
    have yk: "y \<in> knodes ?ks" by (rule kseg_root[OF nx(3) ksl(2)])
    have pk: "cpar ?ks \<in> knodes ?ks" by (rule cpar_in_knodes[OF ksl(2)])
    have disj: "x \<notin> knodes ?ks" "x \<notin> set (inorder c2)" "knodes ?ks \<inter> set (inorder c2) = {}" "distinct (cpre ?ks @ cpost ?ks)"
      using dk unfolding knodes_def by auto
    obtain s1 where s1: "set_left (cpar ?ks) (rootp c2) s = Some s1" "rb_root s1 = rb_root s"
      "kseg (mem s1) a y ?ks (rootp c2)" "same_at {cpar ?ks} s s1"
      using kseg_set_hole[OF nx(3) ksl(2) disj(4)] by blast
    have x1: "node_at (mem s1) x (cpar ?ks) cx 0 (rootp c2)" "rep (mem s1) x c2"
    proof -
      have p: "x \<notin> {cpar ?ks}" "{cpar ?ks} \<inter> set (inorder c2) = {}" using pk disj by auto
      show "node_at (mem s1) x (cpar ?ks) cx 0 (rootp c2)" "rep (mem s1) x c2"
        using nx same_at_node_at[OF s1(4) p(1)] same_at_rep[OF s1(4) p(2)] by blast+
    qed
    obtain n where n: "mem s1 x = Some n" "x \<noteq> 0" "aligned x" "rb_parent_color n = cpar ?ks OR col cx" "rb_left n = 0"
      using x1(1) by (auto simp: node_at_mem)
    let ?s2 = "s1\<lparr>mem := (mem s1)(x \<mapsto> n\<lparr>rb_right := y\<rparr>)\<rparr>"
    have s2: "same_at {x} s1 ?s2" using n by (intro same_at_mem) auto
    have k2: "kseg (mem ?s2) a y ?ks (rootp c2)" using s1(3) kseg_same[OF s2, of ?ks] disj(1) by simp
    have x2: "rep (mem ?s2) x c2" using x1(2) same_at_rep[OF s2, of c2] disj(2) by simp
    obtain s3 where s3: "rb_set_parent y x ?s2 = Some s3" "rb_root s3 = rb_root ?s2" "kseg (mem s3) x y ?ks (rootp c2)"
      "same_at {y} ?s2 s3"
      using kseg_set_top[OF k2 ksl(2) n(3) disj(4)] by blast
    have x3: "rep (mem s3) x c2" using x2 same_at_rep[OF s3(4), of c2] disj(3) yk by auto
    have "y \<noteq> x" using yk disj(1) by auto
    then have lx: "links (mem s3) x = Some (cpar ?ks OR col cx, 0, y)"
      using s3(4) n by (auto simp: same_at_def links_def)
    have l0: "rootp l1 \<noteq> 0" using rep_rootp_0[OF l1] False by simp
    have run: "er_successor dummy_copy dummy_propagate a y s = Some (x, cpar ?ks, rootp c2, s3)"
      using node_at_ops[OF ny] l0 k(3) node_at_ops[OF nx(1)] s1(1) n s3(1)
      by (simp add: er_successor_def dummy_copy_def dummy_propagate_def heap_simps)
    have sub: "{cpar ?ks} \<union> {x} \<union> {y} \<subseteq> set (inorder r)"
      using pk yk rk inorder_plug[of "Node Leaf x cx c2" ?ks] unfolding knodes_def by auto
    have "same_at ({cpar ?ks} \<union> {x} \<union> {y}) s s3"
      by (rule same_at_trans[OF same_at_trans[OF s1(4) s2] s3(4)])
    then have "same_at (set (inorder r)) s s3" using sub by (auto simp: same_at_def)
    moreover have "aligned (cpar ?ks)" using nx(1) by (simp add: node_at_def)
    moreover have "spine_parent x ?ks = cpar ?ks" "spine_parent a ?ks = cpar ?ks" by (simp_all add: spine_parent_def)
    ultimately have same: "same_at (set (inorder r)) s s3" "aligned (spine_parent a ?ks)" "spine_parent x ?ks = cpar ?ks"
      "spine_parent a ?ks = cpar ?ks" by simp_all
    have run': "er_successor dummy_copy dummy_propagate a (rootp r) s = Some (x, spine_parent x ?ks, rootp c2, s3)"
      using run ry' same(3) by (simp only:)
    have root: "rb_root s3 = rb_root s" using s3(2) s1(2) by simp
    show ?thesis
    proof (rule exI[of _ ?ks], rule exI[of _ x], rule exI[of _ cx], rule exI[of _ c2], rule exI[of _ y], rule exI[of _ s3],
        intro conjI)
    qed (rule rk ksl(1) run' s3(3) lx[folded same(4)] x3 same(1,2) root n(2,3))+
  qed
qed

section \<open>Unlinking on the heap\<close>

text \<open>What is left at the place where a node was taken out, and its context.\<close>

definition unlinked :: "ptr list \<Rightarrow> 'a rbs \<Rightarrow> 'a rbs \<Rightarrow> ptr \<Rightarrow> ptree \<Rightarrow> frame list \<Rightarrow> bool" where
  "unlinked ns s s' reb X K \<longleftrightarrow> tree_rep s' (plug X K) \<and> mores (mem s') = mores (mem s) \<and> inorder (plug X K) = ns \<and>
     (reb = 0 \<and> rb_tree (plug X K) \<or> reb = cpar K \<and> X = Leaf \<and> del_focus Leaf K)"

lemma taken_out_rb:
  assumes "rb_tree (plug (Node l x c r) K)" "l = Leaf \<or> r = Leaf" "X = (if l = Leaf then r else l)"
  shows "if X = Leaf \<and> c = Black then del_focus Leaf K
    else rb_tree (plug (paint c X) K) \<and> (X \<noteq> Leaf \<longrightarrow> c = Black)"
proof -
  have k: "kinv K (bheight (Node l x c r))" "invc (Node l x c r)" "invh (Node l x c r)" "ccolor K = Red \<longrightarrow> c = Black"
    using rb_plugD[of "Node l x c r" K] assms(1) by (auto simp: rb_tree_def)
  have lk: "K \<noteq> [] \<longrightarrow> fcolor (last K) = Black" "K = [] \<longrightarrow> c = Black"
    using tcolor_plug[of K "Node l x c r"] assms(1) by (auto simp: rb_tree_def)
  have X: "bheight X = 0" "invc X" "invh X" using assms(2,3) k by (auto split: if_splits)
  have red: "X \<noteq> Leaf \<longrightarrow> tcolor X = Red" using X(1) by (cases X) (auto split: if_splits)
  have cX: "c = Red \<longrightarrow> tcolor X = Black" using k(2) assms(3) by (auto split: if_splits)
  show ?thesis
  proof (cases "X = Leaf")
    case True
    then have lr: "l = Leaf" "r = Leaf" using assms(2,3) by (auto split: if_splits)
    show ?thesis
    proof (cases c)
      case Red
      have "rb_tree (plug Leaf K)" by (rule plug_rb) (use k lk Red lr in auto)
      then show ?thesis using Red True by simp
    next
      case Black
      then show ?thesis using True k lk lr by (simp add: del_focus_def)
    qed
  next
    case False
    then have c: "c = Black" using red cX by (cases c) auto
    obtain l' y r' where Xy: "X = Node l' y Red r'" using red False red_node by blast
    have "bheight (Node l x c r) = Suc 0" using assms(2,3) X(1) k(3) c by (auto split: if_splits)
    then have "rb_tree (plug (paint Black X) K)"
      using k(1) X lk Xy by (intro plug_rb) auto
    then show ?thesis using False c by simp
  qed
qed

lemma paint_root_ok:
  assumes "rep (mem s) a X" "X \<noteq> Leaf" "aligned q" "distinct (inorder X)"
  shows "\<exists>s'. set_pc (rootp X) (q OR col c) s = Some s' \<and> rb_root s' = rb_root s \<and> rep (mem s') q (paint c X) \<and>
    same_at {rootp X} s s'"
proof -
  obtain l y cy r where X: "X = Node l y cy r" using assms(2) by (cases X) auto
  obtain n where n: "mem s y = Some n" "y \<noteq> 0" using assms(1) X by (auto simp: node_at_mem)
  then show ?thesis
    using assms X by (auto simp: heap_simps node_at_mem intro!: same_at_mem)
qed

text \<open>Case 1: at most one child.\<close>

lemma unlink_case1:
  assumes t: "tree_rep s (plug (Node l a c r) k)" and lr: "l = Leaf \<or> r = Leaf" and X: "X = (if l = Leaf then r else l)"
    and rb: "rb_tree (plug (Node l a c r) k)"
  shows "\<exists>s' reb. er_unlink dummy_copy dummy_propagate a s = Some (reb, s') \<and>
    unlinked (cpre k @ inorder l @ inorder r @ cpost k) s s' reb (paint c X) k"
proof -
  have na: "node_at (mem s) a (cpar k) c (rootp l) (rootp r)" and sub: "rep (mem s) a l" "rep (mem s) a r"
    and cr: "crep (mem s) (rb_root s) k a" and d: "distinct (cpre k @ (inorder l @ a # inorder r) @ cpost k)"
    using t by (simp_all add: tree_rep_plug)
  have a0: "a \<noteq> 0" and ak: "aligned (cpar k)" using na by (simp_all add: node_at_def)
  have pc: "ld rb_parent_color a s = Some (cpar k OR col c)" using node_at_ops(4)[OF na] by (simp add: rb_red_parent_def)
  have pcs: "pc_parent (cpar k OR col c) = cpar k" "pc_is_black (cpar k OR col c) \<longleftrightarrow> c = Black"
    using ak by (cases c; simp add: pc_parent_def pc_is_black_def pc_color_def aligned_and_not3 and_not3_tag aligned_and1 and1_tag)+
  have rX: "rep (mem s) a X" "distinct (inorder X)" "set (inorder X) \<inter> knodes k = {}" "a \<notin> set (inorder X)"
    using sub d X by (auto simp: knodes_def split: if_splits)
  have ck: "cpar k \<notin> set (inorder X)" using cpar_knodes[of k] rX(1,3) rep_nonnull by blast
  note T = taken_out_rb[OF rb lr X]
  obtain s1 where s1: "rb_change_child a (rootp X) (cpar k) s = Some s1" "crep (mem s1) (rb_root s1) k (rootp X)" "same_at {cpar k} s s1"
    using rb_change_child_ok[OF cr a0, of "rootp X"] d by auto
  have X1: "rep (mem s1) a X" using rX(1) ck by (simp add: same_at_rep[OF s1(3)])
  have dX: "distinct (cpre k @ inorder X @ cpost k)" using d X by (auto split: if_splits)
  show ?thesis
  proof (cases "X = Leaf")
    case True
    then have "l = Leaf" "r = Leaf" using lr X by (auto split: if_splits)
    then have run: "er_unlink dummy_copy dummy_propagate a s = Some (if c = Black then cpar k else 0, s1)"
      using node_at_ops[OF na] pc pcs s1(1) True by (simp add: er_unlink_def dummy_propagate_def)
    have "tree_rep s1 (plug Leaf k)" using s1(2) True dX by (simp add: tree_rep_plug)
    then show ?thesis
      using run T s1(3) True \<open>l = Leaf\<close> \<open>r = Leaf\<close> by (cases c) (auto simp: unlinked_def same_at_def inorder_plug)
  next
    case False
    have tr: "tree_rep s' (plug (paint c X) k)"
      if "crep (mem s') (rb_root s') k (rootp X)" "rep (mem s') (cpar k) (paint c X)" for s' :: "'a rbs"
      by (rule tree_repI) (use that dX in auto)
    have goal: "unlinked (cpre k @ inorder l @ inorder r @ cpost k) s s' 0 (paint c X) k"
      if "crep (mem s') (rb_root s') k (rootp X)" "rep (mem s') (cpar k) (paint c X)" "mores (mem s') = mores (mem s)" for s'
      using tr[OF that(1,2)] that(3) T False lr X by (auto simp: unlinked_def inorder_plug split: if_splits)
    show ?thesis
    proof (cases "l = Leaf")
      case True
      have r: "X = r" "rootp r \<noteq> 0" using True X False rep_rootp_0[OF sub(2)] by auto
      obtain s2 where s2: "set_pc (rootp X) (cpar k OR col c) s1 = Some s2" "rb_root s2 = rb_root s1"
        "rep (mem s2) (cpar k) (paint c X)" "same_at {rootp X} s1 s2"
        using paint_root_ok[OF X1 False ak rX(2)] by blast
      have "er_unlink dummy_copy dummy_propagate a s = Some (0, s2)"
        using node_at_ops[OF na] pc pcs s1(1) s2(1) True r by (simp add: er_unlink_def dummy_propagate_def)
      moreover have "crep (mem s2) (rb_root s2) k (rootp X)"
        using s1(2) s2(2) same_at_crep'[OF s2(4), of k] rX(3) rootp_in[OF False] by auto
      moreover have "mores (mem s2) = mores (mem s)" using s1(3) s2(4) by (simp add: same_at_def)
      ultimately show ?thesis using goal s2(3) by blast
    next
      case l: False
      then have r: "r = Leaf" "X = l" "rootp l \<noteq> 0" using lr X rep_rootp_0[OF sub(1)] by auto
      obtain s2 where s2: "set_pc (rootp X) (cpar k OR col c) s = Some s2" "rb_root s2 = rb_root s"
        "rep (mem s2) (cpar k) (paint c X)" "same_at {rootp X} s s2"
        using paint_root_ok[OF rX(1) False ak rX(2)] by blast
      have cr2: "crep (mem s2) (rb_root s2) k a"
        using cr s2(2) same_at_crep'[OF s2(4), of k] rX(3) rootp_in[OF False] by auto
      obtain s3 where s3: "rb_change_child a (rootp X) (cpar k) s2 = Some s3" "crep (mem s3) (rb_root s3) k (rootp X)" "same_at {cpar k} s2 s3"
        using rb_change_child_ok[OF cr2 a0, of "rootp X"] d by auto
      have "er_unlink dummy_copy dummy_propagate a s = Some (0, s3)"
        using node_at_ops[OF na] pc pcs s2(1) s3(1) r by (simp add: er_unlink_def dummy_propagate_def)
      moreover have "rep (mem s3) (cpar k) (paint c X)" using s2(3) ck by (simp add: same_at_rep[OF s3(3)])
      moreover have "mores (mem s3) = mores (mem s)" using s3(3) s2(4) by (simp add: same_at_def)
      ultimately show ?thesis using goal s3(2) by blast
    qed
  qed
qed

text \<open>Cases 2 and 3: two children.\<close>

lemma cpre_append: "cpre (ks @ k) = cpre k @ cpre ks" and cpost_append: "cpost (ks @ k) = cpost ks @ cpost k"
proof (induction ks)
  case (Cons f ks)
  case 1 show ?case using Cons by (cases f) auto
next
  case (Cons f ks)
  case 2 show ?case using Cons by (cases f) auto
qed simp_all

lemma left_cpre: "list_all left_frame ks \<Longrightarrow> cpre ks = []"
proof (induction ks)
  case (Cons f ks)
  then show ?case by (cases f) auto
qed simp

lemma rb_rename:
  assumes "rb_tree (plug (Node l a c r) k)"
  shows "rb_tree (plug (Node l x c r) k)"
  using assms rb_plugD[of "Node l a c r" k] tcolor_plug[of k "Node l a c r"]
  by (intro plug_rb) (auto simp: rb_tree_def)

lemma disjoint_parts:
  assumes "distinct (ps @ (ls @ a # x # cs @ ks) @ qs)"
  shows "x \<notin> set ls" "x \<notin> set cs" "x \<notin> set ks" "x \<notin> set ps \<union> set qs" "a \<notin> set ls" "a \<noteq> x"
    "set ls \<inter> set cs = {}" "set ls \<inter> set ks = {}" "set ls \<inter> (set ps \<union> set qs) = {}"
    "set cs \<inter> set ks = {}" "set cs \<inter> (set ps \<union> set qs) = {}" "set ks \<inter> (set ps \<union> set qs) = {}"
    "a \<notin> set (x # cs @ ks)" "set (x # cs @ ks) \<inter> set ls = {}" "set (x # cs @ ks) \<inter> (set ps \<union> set qs) = {}"
    "a \<notin> set ps \<union> set qs" "distinct ls" "distinct cs" "distinct (ps @ a # qs)"
  using assms by auto

lemma unlink_case2:
  assumes t: "tree_rep s (plug (Node l a c r) k)" and lr: "l \<noteq> Leaf" "r \<noteq> Leaf" and rb: "rb_tree (plug (Node l a c r) k)"
  shows "\<exists>s' reb X K. er_unlink dummy_copy dummy_propagate a s = Some (reb, s') \<and>
    unlinked (cpre k @ inorder l @ inorder r @ cpost k) s s' reb X K"
proof -
  have na: "node_at (mem s) a (cpar k) c (rootp l) (rootp r)" and sub: "rep (mem s) a l" "rep (mem s) a r"
    and cr: "crep (mem s) (rb_root s) k a" and d: "distinct (cpre k @ (inorder l @ a # inorder r) @ cpost k)"
    using t by (simp_all add: tree_rep_plug)
  have a0: "a \<noteq> 0" and ak: "aligned (cpar k)" using na by (simp_all add: node_at_def)
  have l0: "rootp l \<noteq> 0" "rootp r \<noteq> 0" using lr rep_rootp_0 sub by blast+
  obtain ks x cx c2 r' s1 where rk: "r = plug (Node Leaf x cx c2) ks" "list_all left_frame ks"
    and s1: "er_successor dummy_copy dummy_propagate a (rootp r) s = Some (x, spine_parent x ks, rootp c2, s1)"
      "kseg (mem s1) x r' ks (rootp c2)" "links (mem s1) x = Some (spine_parent a ks OR col cx, 0, r')" "rep (mem s1) x c2"
      "same_at (set (inorder r)) s s1" "rb_root s1 = rb_root s"
    and x: "x \<noteq> 0" "aligned x" "aligned (spine_parent a ks)"
    using er_successor_ok[OF na sub(2) lr(2)] d by auto
  let ?K = "ks @ RHole l x c # k" and ?P = "spine_parent x ks"
  have P: "?P = cpar ?K" by (cases ks) (auto simp: spine_parent_def)
  have rn: "inorder r = x # inorder c2 @ cpost ks" using rk left_cpre[OF rk(2)] by (simp add: inorder_plug)
  have dd: "distinct (cpre k @ (inorder l @ a # x # inorder c2 @ cpost ks) @ cpost k)" using d rn by simp
  have kn: "knodes ks = set (cpost ks)" using left_cpre[OF rk(2)] by (simp add: knodes_def)
  note dj = disjoint_parts[OF dd, folded rn, folded kn, folded knodes_def]
  have na1: "node_at (mem s1) a (cpar k) c (rootp l) (rootp r)" using na same_at_node_at[OF s1(5) dj(13)] by blast
  have l1: "rep (mem s1) a l" using sub(1) same_at_rep[OF s1(5) dj(14)] by blast
  have k1: "crep (mem s1) (rb_root s1) k a" using cr same_at_crep'[OF s1(5) dj(15)] s1(6) by simp
  obtain n where n: "mem s1 x = Some n" "rb_parent_color n = spine_parent a ks OR col cx" "rb_left n = 0" "rb_right n = r'"
    using s1(3) by (auto simp: links_Some)
  let ?s2 = "s1\<lparr>mem := (mem s1)(x \<mapsto> n\<lparr>rb_left := rootp l\<rparr>)\<rparr>"
  have s2: "same_at {x} s1 ?s2" using n by (intro same_at_mem) auto
  have l2: "rep (mem ?s2) a l" using l1 same_at_rep[OF s2, of l] dj(1) by blast
  obtain s3 where s3: "opt_set_parent (rootp l) x ?s2 = Some s3" "rb_root s3 = rb_root ?s2" "rep (mem s3) x l"
    "same_at (set (inorder l)) ?s2 s3"
    using opt_set_parent_ok[OF l2 x(2) dj(17)] by blast
  have s13: "same_at ({x} \<union> set (inorder l)) s1 s3" by (rule same_at_trans[OF s2 s3(4)])
  have k3: "crep (mem s3) (rb_root s3) k a"
    using k1 same_at_crep'[OF s13, of k] dj(4,9) s3(2) by auto
  have na2: "node_at (mem ?s2) a (cpar k) c (rootp l) (rootp r)" using na1 same_at_node_at[OF s2, of a] dj(6) by simp
  have na3: "node_at (mem s3) a (cpar k) c (rootp l) (rootp r)" using na1 same_at_node_at[OF s13, of a] dj(5,6) by simp
  obtain s4 where s4: "rb_change_child a x (cpar k) s3 = Some s4" "crep (mem s4) (rb_root s4) k x" "same_at {cpar k} s3 s4"
    using rb_change_child_ok[OF k3 a0 dj(19)] by blast
  have ck: "cpar k \<noteq> x" "cpar k \<notin> set (inorder l)" "cpar k \<notin> set (inorder c2)" "cpar k \<notin> knodes ks"
  proof -
    have "0 \<notin> set (inorder l)" "0 \<notin> set (inorder r)" using rep_nonnull sub by blast+
    then have "0 \<notin> set (inorder l)" "0 \<notin> set (inorder c2)" "0 \<notin> knodes ks" unfolding rn kn by auto
    then show "cpar k \<noteq> x" "cpar k \<notin> set (inorder l)" "cpar k \<notin> set (inorder c2)" "cpar k \<notin> knodes ks"
      using cpar_knodes[of k] x(1) dj(4,9,11,12) by (metis disjoint_iff)+
  qed
  have "links (mem s4) x = links (mem ?s2) x" using s4(3) s3(4) ck(1) dj(1) by (simp add: same_at_def)
  then obtain m where m: "mem s4 x = Some m" "rb_parent_color m = spine_parent a ks OR col cx" "rb_left m = rootp l" "rb_right m = r'"
    using n by (auto simp: links_def)
  let ?s5 = "s4\<lparr>mem := (mem s4)(x \<mapsto> m\<lparr>rb_parent_color := cpar k OR col c\<rparr>)\<rparr>"
  have s5: "same_at {x} s4 ?s5" using m by (intro same_at_mem) auto
  have s15: "same_at ((({x} \<union> set (inorder l)) \<union> {cpar k}) \<union> {x}) s1 ?s5"
    by (rule same_at_trans[OF same_at_trans[OF s13 s4(3)] s5])
  have dis: "((({x} \<union> set (inorder l)) \<union> {cpar k}) \<union> {x}) \<inter> knodes ks = {}" "((({x} \<union> set (inorder l)) \<union> {cpar k}) \<union> {x}) \<inter> set (inorder c2) = {}"
    "({cpar k} \<union> {x}) \<inter> set (inorder l) = {}" "{x} \<inter> knodes k = {}"
    using dj ck by auto
  have k5: "kseg (mem ?s5) x r' ks (rootp c2)" using s1(2) kseg_same[OF s15 dis(1)] by blast
  have c5: "rep (mem ?s5) x c2" using s1(4) same_at_rep[OF s15 dis(2)] by blast
  have l5: "rep (mem ?s5) x l" using s3(3) same_at_rep[OF same_at_trans[OF s4(3) s5] dis(3)] by blast
  have K5: "crep (mem ?s5) (rb_root ?s5) k x" using s4(2) same_at_crep'[OF s5 dis(4)] by simp
  have n5: "node_at (mem ?s5) x (cpar k) c (rootp l) r'" using m x ak by simp
  have c20: "rootp c2 \<noteq> 0 \<longleftrightarrow> c2 \<noteq> Leaf" using rep_rootp_0[OF s1(4)] by simp
  have aK: "aligned ?P" using x(2,3) by (auto simp: spine_parent_def split: if_splits)
  have rbK: "rb_tree (plug (Node Leaf x cx c2) ?K)"
    using rb_rename[of l a c "plug (Node Leaf x cx c2) ks" k x] rb rk(1) by (simp add: plug_append)
  have Y: "c2 = (if Leaf = Leaf then c2 else Leaf)" by simp
  note T = taken_out_rb[OF rbK disjI1[OF refl] Y]
  have mo: "mores (mem ?s5) = mores (mem s)" using s15 s1(5) by (simp add: same_at_def)
  have crK: "crep (mem s') (rb_root s') ?K (rootp c2)"
    if "same_at A ?s5 s'" "rb_root s' = rb_root ?s5" "A \<inter> (knodes ks \<union> insert x (set (inorder l)) \<union> knodes k) = {}" for s' A
  proof -
    have A: "A \<inter> knodes ks = {}" "x \<notin> A" "A \<inter> set (inorder l) = {}" "A \<inter> knodes k = {}" using that(3) by blast+
    have "kseg (mem s') x r' ks (rootp c2)" using k5 kseg_same[OF that(1) A(1)] by blast
    moreover have "node_at (mem s') x (cpar k) c (rootp l) r'" using n5 same_at_node_at[OF that(1) A(2)] by blast
    moreover have "rep (mem s') x l" using l5 same_at_rep[OF that(1) A(3)] by blast
    moreover have "crep (mem s') (rb_root s') k x" using K5 same_at_crep'[OF that(1) A(4)] that(2) by simp
    ultimately show ?thesis by (auto simp: crep_append[OF rk(2)])
  qed
  have ns: "inorder (plug (paint Black c2) ?K) = cpre k @ inorder l @ inorder r @ cpost k"
    unfolding rn inorder_plug cpre_append cpost_append by (simp add: left_cpre[OF rk(2)])
  have dK: "distinct (cpre ?K @ inorder (paint Black c2) @ cpost ?K)"
    using d unfolding inorder_plug[symmetric] ns by simp
  have pc: "ld rb_parent_color a s3 = Some (cpar k OR col c)" using node_at_ops(4)[OF na3] by (simp add: rb_red_parent_def)
  have pcs: "pc_parent (cpar k OR col c) = cpar k" "pc_is_black (spine_parent a ks OR col cx) \<longleftrightarrow> cx = Black"
    using ak x(3) by (cases c; cases cx; simp add: pc_parent_def pc_is_black_def pc_color_def aligned_and_not3 and_not3_tag aligned_and1 and1_tag)+
  show ?thesis
  proof (cases "c2 = Leaf")
    case True
    have run: "er_unlink dummy_copy dummy_propagate a s = Some (if cx = Black then ?P else 0, ?s5)"
      using node_at_ops[OF na] node_at_ops[OF na1] l0 s1(1) n x(1) s3(1) pc pcs s4(1) m True
      by (simp add: er_unlink_def dummy_propagate_def heap_simps opt_set_parent_def)
    have "same_at {} ?s5 ?s5" by (simp add: same_at_def)
    from crK[OF this] have "tree_rep ?s5 (plug Leaf ?K)"
      using True dK by (simp add: tree_rep_plug)
    then have "unlinked (cpre k @ inorder l @ inorder r @ cpost k) s ?s5 (if cx = Black then ?P else 0) Leaf ?K"
      using mo ns T True P by (auto simp: unlinked_def)
    then show ?thesis using run by blast
  next
    case False
    have cB: "cx = Black" "rb_tree (plug (paint Black c2) ?K)" using T False by (auto split: if_splits)
    obtain s6 where s6: "set_pc (rootp c2) (?P OR col Black) ?s5 = Some s6" "rb_root s6 = rb_root ?s5"
      "rep (mem s6) ?P (paint Black c2)" "same_at {rootp c2} ?s5 s6"
      using paint_root_ok[OF c5 False aK dj(18)] by blast
    have "rootp c2 \<in> set (inorder c2)" by (rule rootp_in[OF False])
    then have "{rootp c2} \<inter> (knodes ks \<union> insert x (set (inorder l)) \<union> knodes k) = {}" using dj(2,7,10,11) by auto
    from crK[OF s6(4,2) this] have "tree_rep s6 (plug (paint Black c2) ?K)"
      using s6(3) dK P by (simp add: tree_rep_plug)
    moreover have "mores (mem s6) = mores (mem s)" using s6(4) mo by (simp add: same_at_def)
    ultimately have "unlinked (cpre k @ inorder l @ inorder r @ cpost k) s s6 0 (paint Black c2) ?K"
      using ns cB by (simp add: unlinked_def)
    moreover have "er_unlink dummy_copy dummy_propagate a s = Some (0, s6)"
      using node_at_ops[OF na] node_at_ops[OF na1] l0 s1(1) n x(1) s3(1) pc pcs s4(1) m False c20 s6(1)
      by (simp add: er_unlink_def dummy_propagate_def heap_simps opt_set_parent_def)
    ultimately show ?thesis by blast
  qed
qed

section \<open>Properties\<close>

lemma er_unlink_ok:
  assumes "tree_rep s (plug (Node l a c r) k)" "rb_tree (plug (Node l a c r) k)"
  shows "\<exists>s' reb X K. er_unlink dummy_copy dummy_propagate a s = Some (reb, s') \<and>
    unlinked (cpre k @ inorder l @ inorder r @ cpost k) s s' reb X K"
proof (cases "l = Leaf \<or> r = Leaf")
  case True
  from unlink_case1[OF assms(1) True refl assms(2)] show ?thesis by blast
next
  case False
  then have "l \<noteq> Leaf" "r \<noteq> Leaf" by auto
  from unlink_case2[OF assms(1) this assms(2)] show ?thesis by blast
qed

lemma rb_erase_ok:
  assumes "tree_rep s (plug (Node l a c r) k)" "rb_tree (plug (Node l a c r) k)"
  shows "\<exists>s' T. rb_erase a s = Some s' \<and> tree_rep s' T \<and> rb_tree T \<and>
    inorder T = cpre k @ inorder l @ inorder r @ cpost k \<and> mores (mem s') = mores (mem s)"
proof -
  obtain s1 reb X K where u: "er_unlink dummy_copy dummy_propagate a s = Some (reb, s1)"
    "unlinked (cpre k @ inorder l @ inorder r @ cpost k) s s1 reb X K"
    using er_unlink_ok[OF assms] by blast
  show ?thesis
  proof (cases "reb = 0")
    case True
    have "rb_tree (plug X K)"
    proof (cases "K = []")
      case True
      then show ?thesis using u(2) by (auto simp: unlinked_def rb_tree_def)
    next
      case False
      obtain f k' where K: "K = f # k'" using False by (cases K) auto
      have "crep (mem s1) (rb_root s1) K (rootp X)" using u(2) by (simp add: unlinked_def tree_rep_plug)
      then have "cpar K \<noteq> 0" unfolding K by (cases f) (auto simp: node_at_def)
      then show ?thesis using u(2) True by (auto simp: unlinked_def)
    qed
    then show ?thesis
      using u True by (auto simp: rb_erase_def rb_erase_augmented_def unlinked_def)
  next
    case False
    then have U: "reb = cpar K" "X = Leaf" "del_focus Leaf K" "tree_rep s1 (plug Leaf K)" "K \<noteq> []"
      "mores (mem s1) = mores (mem s)" "inorder (plug Leaf K) = cpre k @ inorder l @ inorder r @ cpost k"
      using u(2) by (auto simp: unlinked_def)
    obtain s2 where s2: "rb_erase_color dummy_rotate 0 (cpar K) s1 = Some s2" "tree_rep s2 (del_fix Leaf K)"
      "mores (mem s2) = mores (mem s1)"
      using rb_erase_color_ok[OF U(4,5,3)] by (auto simp: er_post_def)
    have "rb_erase a s = Some s2" using u(1) U(1) False s2(1) by (simp add: rb_erase_def rb_erase_augmented_def)
    then show ?thesis using s2 U del_fix_good[OF U(3)] by auto
  qed
qed

lemma rb_erase_any:
  assumes "tree_rep s t" "rb_tree t" "inorder t = xs @ a # ys"
  shows "\<exists>s' T. rb_erase a s = Some s' \<and> tree_rep s' T \<and> rb_tree T \<and> inorder T = xs @ ys \<and>
    mores (mem s') = mores (mem s)"
proof -
  obtain k l c r where t: "t = plug (Node l a c r) k" using node_context[of a t] assms(3) by auto
  have "xs @ a # ys = (cpre k @ inorder l) @ a # (inorder r @ cpost k)" using assms(3) t by (simp add: inorder_plug)
  moreover have "distinct (xs @ a # ys)" using assms(1,3) by (simp add: tree_rep_def)
  ultimately have "xs = cpre k @ inorder l" "ys = inorder r @ cpost k" using distinct_split by metis+
  then show ?thesis using rb_erase_ok[of s l a c r k] assms(1,2) t by simp
qed

text \<open>C8: \<open>rb_erase\<close> of any node of a red-black tree never dereferences a bad pointer, returns, and leaves a red-black
  tree with the other nodes in their order; the data of no node changes.\<close>
theorem rb_erase_correct:
  assumes "tree_rep s t" "rb_tree t" "inorder t = xs @ a # ys"
  shows "\<exists>s' T. rb_erase a s = Some s' \<and> tree_rep s' T \<and> rb_tree T \<and> inorder T = xs @ ys \<and>
    mores (mem s') = mores (mem s)"
  by (rule rb_erase_any[OF assms])

theorem rb_erase_correct_witness:
  "\<exists>s' T. rb_erase 16 (three (\<lambda>_. ())) = Some s' \<and> tree_rep s' T \<and> rb_tree T \<and> inorder T = [8, 24]"
  using rb_erase_correct[OF three_rep[of "\<lambda>_. ()"] tree3_rb, of "[8]" 16 "[24]"] tree3_inorder by auto

end
