(* ===== verification/RbLocal.thy ===== *)
theory RbLocal
  imports RbUnlink IntervalData
begin

text \<open>
  Locality of the tree operations: an operation that succeeds on a heap does the same on a larger one and leaves
  the rest alone. With it, what is proved of one tree holds beside other trees in the same store.
\<close>

section \<open>Extending a heap\<close>

definition ext_heap :: "'a heap \<Rightarrow> 'a rbs \<Rightarrow> 'a rbs" where
  "ext_heap h s = s\<lparr>mem := h ++ mem s\<rparr>"

lemma ext_root [simp]: "rb_root (ext_heap h s) = rb_root s" "ext_heap h (s\<lparr>rb_root := r\<rparr>) = (ext_heap h s)\<lparr>rb_root := r\<rparr>"
  by (simp_all add: ext_heap_def)

text \<open>
  \<open>local_op u d f g\<close>: where \<open>f\<close> succeeds, \<open>g\<close> does the same on every extension of the heap; \<open>u\<close> extends the heap
  in the result and \<open>d\<close> says that the result has the same nodes.
\<close>

definition local_op :: "('a heap \<Rightarrow> 'r \<Rightarrow> 'r) \<Rightarrow> (ptr set \<Rightarrow> 'r \<Rightarrow> bool) \<Rightarrow> ('a rbs \<Rightarrow> 'r option) \<Rightarrow> ('a rbs \<Rightarrow> 'r option) \<Rightarrow> bool" where
  "local_op u d f g \<longleftrightarrow> (\<forall>s r. f s = Some r \<longrightarrow> d (dom (mem s)) r \<and> (\<forall>h. g (ext_heap h s) = Some (u h r)))"

definition same_dom :: "ptr set \<Rightarrow> 'a rbs \<Rightarrow> bool" where
  "same_dom D s \<longleftrightarrow> dom (mem s) = D"

definition uv :: "'a heap \<Rightarrow> 'r \<Rightarrow> 'r" where "uv h r = r"

definition dv :: "ptr set \<Rightarrow> 'r \<Rightarrow> bool" where "dv D r \<longleftrightarrow> True"

definition up_snd :: "('a heap \<Rightarrow> 'r \<Rightarrow> 'r) \<Rightarrow> 'a heap \<Rightarrow> 'b \<times> 'r \<Rightarrow> 'b \<times> 'r" where "up_snd u h r = (fst r, u h (snd r))"

definition dp_snd :: "(ptr set \<Rightarrow> 'r \<Rightarrow> bool) \<Rightarrow> ptr set \<Rightarrow> 'b \<times> 'r \<Rightarrow> bool" where "dp_snd d D r \<longleftrightarrow> d D (snd r)"

abbreviation (input) "loc_val \<equiv> local_op uv dv"
abbreviation (input) "loc_st \<equiv> local_op ext_heap same_dom"
abbreviation (input) "loc_st1 \<equiv> local_op (up_snd ext_heap) (dp_snd same_dom)"
abbreviation (input) "loc_st2 \<equiv> local_op (up_snd (up_snd ext_heap)) (dp_snd (dp_snd same_dom))"
abbreviation (input) "loc_st3 \<equiv> local_op (up_snd (up_snd (up_snd ext_heap))) (dp_snd (dp_snd (dp_snd same_dom)))"

lemma locD: "local_op u d f g \<Longrightarrow> f s = Some r \<Longrightarrow> d (dom (mem s)) r \<and> g (ext_heap h s) = Some (u h r)"
  by (simp add: local_op_def)

lemma locI: "(\<And>s r. f s = Some r \<Longrightarrow> d (dom (mem s)) r) \<Longrightarrow> (\<And>s r h. f s = Some r \<Longrightarrow> g (ext_heap h s) = Some (u h r)) \<Longrightarrow> local_op u d f g"
  by (simp add: local_op_def)

named_theorems loc_rules "locality of operations and of their composition"

lemma loc_bind_val [loc_rules]:
  assumes "loc_val f f'" "\<And>v. local_op u d (g v) (g' v)"
  shows "local_op u d (\<lambda>s. Option.bind (f s) (\<lambda>v. g v s)) (\<lambda>s. Option.bind (f' s) (\<lambda>v. g' v s))"
proof (rule locI)
  fix s r h
  assume "Option.bind (f s) (\<lambda>v. g v s) = Some r"
  then obtain v where v: "f s = Some v" "g v s = Some r" by (auto simp: bind_eq_Some_conv)
  note * = locD[OF assms(1) v(1), of h] locD[OF assms(2) v(2), of h]
  show "d (dom (mem s)) r" "Option.bind (f' (ext_heap h s)) (\<lambda>v. g' v (ext_heap h s)) = Some (u h r)" using * by (simp_all add: uv_def)
qed

lemma loc_bind_st [loc_rules]:
  assumes "loc_st f f'" "local_op u d g g'"
  shows "local_op u d (\<lambda>s. Option.bind (f s) g) (\<lambda>s. Option.bind (f' s) g')"
proof (rule locI)
  fix s r h
  assume "Option.bind (f s) g = Some r"
  then obtain s1 where v: "f s = Some s1" "g s1 = Some r" by (auto simp: bind_eq_Some_conv)
  note * = locD[OF assms(1) v(1), of h] locD[OF assms(2) v(2), of h]
  show "d (dom (mem s)) r" "Option.bind (f' (ext_heap h s)) g' = Some (u h r)" using * by (simp_all add: same_dom_def)
qed

lemma loc_bind_st1 [loc_rules]:
  assumes "loc_st1 f f'" "\<And>x. local_op u d (g x) (g' x)"
  shows "local_op u d (\<lambda>s. Option.bind (f s) (\<lambda>(x, s). g x s)) (\<lambda>s. Option.bind (f' s) (\<lambda>(x, s). g' x s))"
proof (rule locI)
  fix s r h
  assume "Option.bind (f s) (\<lambda>(x, s). g x s) = Some r"
  then obtain x s1 where v: "f s = Some (x, s1)" "g x s1 = Some r" by (auto simp: bind_eq_Some_conv)
  note * = locD[OF assms(1) v(1), of h] locD[OF assms(2) v(2), of h]
  show "d (dom (mem s)) r" "Option.bind (f' (ext_heap h s)) (\<lambda>(x, s). g' x s) = Some (u h r)"
    using * by (simp_all add: same_dom_def up_snd_def dp_snd_def)
qed

lemma loc_bind_st2 [loc_rules]:
  assumes "loc_st2 f f'" "\<And>x y. local_op u d (g x y) (g' x y)"
  shows "local_op u d (\<lambda>s. Option.bind (f s) (\<lambda>(x, y, s). g x y s)) (\<lambda>s. Option.bind (f' s) (\<lambda>(x, y, s). g' x y s))"
proof (rule locI)
  fix s r h
  assume "Option.bind (f s) (\<lambda>(x, y, s). g x y s) = Some r"
  then obtain x y s1 where v: "f s = Some (x, y, s1)" "g x y s1 = Some r" by (auto simp: bind_eq_Some_conv)
  note * = locD[OF assms(1) v(1), of h] locD[OF assms(2) v(2), of h]
  show "d (dom (mem s)) r" "Option.bind (f' (ext_heap h s)) (\<lambda>(x, y, s). g' x y s) = Some (u h r)"
    using * by (simp_all add: same_dom_def up_snd_def dp_snd_def)
qed

lemma loc_bind_st3 [loc_rules]:
  assumes "loc_st3 f f'" "\<And>x y z. local_op u d (g x y z) (g' x y z)"
  shows "local_op u d (\<lambda>s. Option.bind (f s) (\<lambda>(x, y, z, s). g x y z s)) (\<lambda>s. Option.bind (f' s) (\<lambda>(x, y, z, s). g' x y z s))"
proof (rule locI)
  fix s r h
  assume "Option.bind (f s) (\<lambda>(x, y, z, s). g x y z s) = Some r"
  then obtain x y z s1 where v: "f s = Some (x, y, z, s1)" "g x y z s1 = Some r" by (auto simp: bind_eq_Some_conv)
  note * = locD[OF assms(1) v(1), of h] locD[OF assms(2) v(2), of h]
  show "d (dom (mem s)) r" "Option.bind (f' (ext_heap h s)) (\<lambda>(x, y, z, s). g' x y z s) = Some (u h r)"
    using * by (simp_all add: same_dom_def up_snd_def dp_snd_def)
qed

lemma loc_if [loc_rules]:
  "local_op u d f f' \<Longrightarrow> local_op u d g g' \<Longrightarrow> local_op u d (\<lambda>s. if b then f s else g s) (\<lambda>s. if b then f' s else g' s)"
  by (cases b) simp_all

lemma loc_return [loc_rules]:
  "loc_val (\<lambda>s. Some v) (\<lambda>s. Some v)" "loc_st (\<lambda>s. Some s) (\<lambda>s. Some s)" "loc_st1 (\<lambda>s. Some (x, s)) (\<lambda>s. Some (x, s))"
  "loc_st2 (\<lambda>s. Some (x, y, s)) (\<lambda>s. Some (x, y, s))" "loc_st3 (\<lambda>s. Some (x, y, z, s)) (\<lambda>s. Some (x, y, z, s))"
  by (simp_all add: local_op_def uv_def dv_def up_snd_def dp_snd_def same_dom_def)

section \<open>Locality of the operations\<close>

lemma loc_ld [loc_rules]: "loc_val (ld f p) (ld f p)"
  by (auto simp: local_op_def ld_def ext_heap_def uv_def dv_def split: if_splits)

lemma loc_stf [loc_rules]: "loc_st (st f p) (st f p)"
  by (auto simp: local_op_def st_def ext_heap_def same_dom_def split: if_splits option.splits)

lemma loc_nodes [loc_rules]:
  "loc_st (set_left p v) (set_left p v)" "loc_st (set_right p v) (set_right p v)" "loc_st (set_pc p w) (set_pc p w)"
  "loc_st (rb_set_parent p v) (rb_set_parent p v)" "loc_st (rb_set_parent_color p v w) (rb_set_parent_color p v w)"
  "loc_st (rb_set_black p) (rb_set_black p)"
  "loc_val (rb_parent p) (rb_parent p)" "loc_val (rb_red_parent p) (rb_red_parent p)"
  "loc_val (rb_is_red p) (rb_is_red p)" "loc_val (rb_is_black p) (rb_is_black p)"
  unfolding node_ops[abs_def] by (rule loc_ld loc_stf)+

lemma loc_root [loc_rules]: "loc_st (\<lambda>s. Some (s\<lparr>rb_root := r\<rparr>)) (\<lambda>s. Some (s\<lparr>rb_root := r\<rparr>))"
  by (simp add: local_op_def same_dom_def)

lemma loc_change_child [loc_rules]: "loc_st (rb_change_child a b p) (rb_change_child a b p)"
  unfolding rb_change_child_def[abs_def] by (intro loc_rules)

lemma loc_rotate [loc_rules]: "loc_st (rb_rotate_set_parents a b c) (rb_rotate_set_parents a b c)"
  unfolding rb_rotate_set_parents_def[abs_def] by (intro loc_rules)

lemma loc_set_link [loc_rules]: "loc_st (set_link l v) (set_link l v)"
proof (cases l)
  case RootLink
  then have "set_link l v = (\<lambda>s :: 'a rbs. Some (s\<lparr>rb_root := v\<rparr>))" by auto
  then show ?thesis by (simp add: loc_root)
next
  case (LeftLink x2)
  then have "set_link l v = (set_left x2 v :: 'a rbs \<Rightarrow> _)" by auto
  then show ?thesis by (simp add: loc_nodes)
next
  case (RightLink x3)
  then have "set_link l v = (set_right x3 v :: 'a rbs \<Rightarrow> _)" by auto
  then show ?thesis by (simp add: loc_nodes)
qed

lemma loc_link_node [loc_rules]: "loc_st (rb_link_node a p l) (rb_link_node a p l)"
  unfolding rb_link_node_def[abs_def] by (intro loc_rules)

lemma loc_dummy [loc_rules]: "loc_st (dummy_rotate a b) (dummy_rotate a b)"
  "loc_st (dummy_copy a b) (dummy_copy a b)" "loc_st (dummy_propagate a b) (dummy_propagate a b)"
  unfolding dummy_rotate_def[abs_def] dummy_copy_def[abs_def] dummy_propagate_def[abs_def] by (intro loc_rules)+

lemma loc_null_or_black [loc_rules]: "loc_val (null_or_black t) (null_or_black t)"
  unfolding null_or_black_def[abs_def] by (intro loc_rules)

lemma loc_red_uncle [loc_rules]: "loc_val (red_uncle t) (red_uncle t)"
  unfolding red_uncle_def[abs_def] by (intro loc_rules)

lemma loc_it [loc_rules]:
  "loc_val (itf f p) (itf f p)" "loc_st (itu g p) (itu g p)"
  "loc_val (compute_subtree_last p) (compute_subtree_last p)" "loc_st (augment_rotate a b) (augment_rotate a b)"
proof -
  show 1: "loc_val (itf f p) (itf f p)" for f :: "it_data \<Rightarrow> 'b" and p unfolding itf_def[abs_def] by (rule loc_ld)
  show 2: "loc_st (itu g p) (itu g p)" for g p unfolding itu_def[abs_def] by (rule loc_stf)
  show 3: "loc_val (compute_subtree_last p) (compute_subtree_last p)" for p
    unfolding compute_subtree_last_def[abs_def] by (intro loc_rules 1)
  show "loc_st (augment_rotate a b) (augment_rotate a b)"
    unfolding augment_rotate_def[abs_def] by (intro loc_rules 1 2 3)
qed

definition loc_rot :: "'a rotate_cb \<Rightarrow> bool" where
  "loc_rot rot \<longleftrightarrow> (\<forall>a b. loc_st (rot a b) (rot a b))"

lemma loc_rotD: "loc_rot rot \<Longrightarrow> loc_st (rot a b) (rot a b)"
  by (simp add: loc_rot_def)

lemma loc_rot_instances: "loc_rot dummy_rotate" "loc_rot augment_rotate"
  by (simp_all add: loc_rot_def loc_dummy loc_it)

lemma loc_er [loc_rules]:
  assumes "loc_rot rot"
  shows "loc_st1 (er_case1_left rot a b) (er_case1_left rot a b)" "loc_st1 (er_case1_right rot a b) (er_case1_right rot a b)"
    "loc_st2 (er_case3_left rot a b c) (er_case3_left rot a b c)" "loc_st2 (er_case3_right rot a b c) (er_case3_right rot a b c)"
    "loc_st (er_case4_left rot a b c) (er_case4_left rot a b c)" "loc_st (er_case4_right rot a b c) (er_case4_right rot a b c)"
  unfolding er_case1_left_def[abs_def] er_case1_right_def[abs_def] er_case3_left_def[abs_def] er_case3_right_def[abs_def]
    er_case4_left_def[abs_def] er_case4_right_def[abs_def]
  by (intro loc_rules loc_rotD[OF assms])+

lemma loc_er_case2 [loc_rules]: "loc_st1 (er_case2 a b) (er_case2 a b)"
  unfolding er_case2_def[abs_def] by (intro loc_rules)

lemma loc_er_black [loc_rules]:
  assumes "loc_rot rot"
  shows "loc_st1 (er_black_left rot a b) (er_black_left rot a b)" "loc_st1 (er_black_right rot a b) (er_black_right rot a b)"
  unfolding er_black_left_def[abs_def] er_black_right_def[abs_def] by (intro loc_rules assms)+

lemma loc_er_turn [loc_rules]:
  assumes "loc_rot rot"
  shows "loc_st1 (er_left rot a b) (er_left rot a b)" "loc_st1 (er_right rot a b) (er_right rot a b)"
  unfolding er_left_def[abs_def] er_right_def[abs_def] by (intro loc_rules assms)+

text \<open>The loops, by the induction rule of their definition.\<close>

lemma loc_fix:
  assumes "\<And>s r. f s = Some r \<Longrightarrow> d (dom (mem s)) r \<and> (\<forall>h. f (ext_heap h s) = Some (u h r))"
  shows "local_op u d f f"
  using assms by (simp add: local_op_def)

lemma loc_erase_color [loc_rules]:
  assumes "loc_rot rot"
  shows "loc_st (rb_erase_color rot n p) (rb_erase_color rot n p)"
proof (rule loc_fix)
  fix s r
  assume r: "rb_erase_color rot n p s = Some r"
  have "loc_rot rot \<longrightarrow> same_dom (dom (mem s)) r \<and> (\<forall>h. rb_erase_color rot n p (ext_heap h s) = Some (ext_heap h r))"
  proof (rule rb_erase_color.raw_induct[OF _ r, where P = "\<lambda>rot n p s r. loc_rot rot \<longrightarrow>
      same_dom (dom (mem s)) r \<and> (\<forall>h. rb_erase_color rot n p (ext_heap h s) = Some (ext_heap h r))"])
    fix f :: "'a rotate_cb \<Rightarrow> ptr \<Rightarrow> ptr \<Rightarrow> 'a rbs \<Rightarrow> 'a rbs option" and rot n p s r
    assume IH: "\<And>rot n p s r. f rot n p s = Some r \<Longrightarrow> loc_rot rot \<longrightarrow>
        same_dom (dom (mem s)) r \<and> (\<forall>h. rb_erase_color rot n p (ext_heap h s) = Some (ext_heap h r))"
      and run: "ld rb_right p s \<bind> (\<lambda>sibling. (if n \<noteq> sibling then er_left rot p sibling s
          else ld rb_left p s \<bind> (\<lambda>sibling. er_right rot p sibling s)) \<bind>
          (\<lambda>(up_snd, s). if up_snd \<noteq> 0 then f rot p up_snd s else Some s)) = Some r"
    show "loc_rot rot \<longrightarrow> same_dom (dom (mem s)) r \<and> (\<forall>h. rb_erase_color rot n p (ext_heap h s) = Some (ext_heap h r))"
    proof
      assume l: "loc_rot rot"
      have f: "loc_st (f rot n p) (rb_erase_color rot n p)" for n p
        using IH l by (auto simp: local_op_def)
      have "loc_st (\<lambda>s. ld rb_right p s \<bind> (\<lambda>sibling. (if n \<noteq> sibling then er_left rot p sibling s
          else ld rb_left p s \<bind> (\<lambda>sibling. er_right rot p sibling s)) \<bind>
          (\<lambda>(up_snd, s). if up_snd \<noteq> 0 then f rot p up_snd s else Some s))) (rb_erase_color rot n p)"
        unfolding rb_erase_color.simps[of rot n p, abs_def] by (intro loc_rules f l)
      from locD[OF this, of s r, OF run] show "same_dom (dom (mem s)) r \<and> (\<forall>h. rb_erase_color rot n p (ext_heap h s) = Some (ext_heap h r))" by blast
    qed
  qed
  then show "same_dom (dom (mem s)) r \<and> (\<forall>h. rb_erase_color rot n p (ext_heap h s) = Some (ext_heap h r))" using assms by simp
qed

lemma loc_descend [loc_rules]: "loc_val (er_descend a b :: 'a rbs \<Rightarrow> _) (er_descend a b)"
proof (rule loc_fix)
  fix s :: "'a rbs" and r
  assume r: "er_descend a b s = Some r"
  have "\<forall>h. er_descend a b (ext_heap h s) = Some r"
  proof (rule er_descend.raw_induct[OF _ r, where P = "\<lambda>a b s r. \<forall>h. er_descend a b (ext_heap h s) = Some r"])
    fix f :: "ptr \<Rightarrow> ptr \<Rightarrow> 'a rbs \<Rightarrow> (ptr \<times> ptr) option" and a b s r
    assume IH: "\<And>a b s r. f a b s = Some r \<Longrightarrow> \<forall>h. er_descend a b (ext_heap h s) = Some r"
      and run: "(let parent = a; successor = b in ld rb_left successor s \<bind>
        (\<lambda>tmp. if tmp \<noteq> 0 then f successor tmp s else Some (parent, successor))) = Some r"
    have f: "loc_val (f a b) (er_descend a b)" for a b using IH by (auto simp: local_op_def uv_def dv_def)
    have "loc_val (\<lambda>s. ld rb_left b s \<bind> (\<lambda>tmp. if tmp \<noteq> 0 then f b tmp s else Some (a, b))) (er_descend a b)"
      unfolding er_descend.simps[of a b, abs_def] Let_def by (intro loc_rules f)
    from locD[OF this, of s r, OF run[unfolded Let_def]] show "\<forall>h. er_descend a b (ext_heap h s) = Some r" by (simp add: uv_def)
  qed
  then show "dv (dom (mem s)) r \<and> (\<forall>h. er_descend a b (ext_heap h s) = Some (uv h r))" by (simp add: uv_def dv_def)
qed

lemma loc_bind_pair:
  assumes "loc_val f f'" "\<And>x y. local_op u d (g x y) (g' x y)"
  shows "local_op u d (\<lambda>s. Option.bind (f s) (\<lambda>(x, y). g x y s)) (\<lambda>s. Option.bind (f' s) (\<lambda>(x, y). g' x y s))"
proof (rule locI)
  fix s r h
  assume "Option.bind (f s) (\<lambda>(x, y). g x y s) = Some r"
  then obtain x y where v: "f s = Some (x, y)" "g x y s = Some r" by (auto simp: bind_eq_Some_conv)
  note * = locD[OF assms(1) v(1), of h] locD[OF assms(2) v(2), of h]
  show "d (dom (mem s)) r" "Option.bind (f' (ext_heap h s)) (\<lambda>(x, y). g' x y (ext_heap h s)) = Some (u h r)"
    using * by (simp_all add: uv_def)
qed

lemma loc_successor: "loc_st3 (er_successor dummy_copy dummy_propagate a b) (er_successor dummy_copy dummy_propagate a b)"
  unfolding er_successor_def[abs_def] by (intro loc_bind_pair[OF loc_descend] loc_rules)

lemma loc_unlink: "loc_st1 (er_unlink dummy_copy dummy_propagate a) (er_unlink dummy_copy dummy_propagate a)"
  unfolding er_unlink_def[abs_def] Let_def by (intro loc_rules loc_successor)

lemma loc_erase: "loc_st (rb_erase a) (rb_erase a)"
  unfolding rb_erase_def[abs_def] rb_erase_augmented_def[abs_def] by (intro loc_rules loc_unlink loc_rot_instances)

lemma loc_ins_case1 [loc_rules]: "loc_st2 (ins_case1 a b c) (ins_case1 a b c)"
  unfolding ins_case1_def[abs_def] Let_def by (intro loc_rules)

lemma loc_ins [loc_rules]:
  assumes "loc_rot rot"
  shows "loc_st2 (ins_case2_left rot a b c) (ins_case2_left rot a b c)" "loc_st2 (ins_case2_right rot a b c) (ins_case2_right rot a b c)"
    "loc_st (ins_case3_left rot a b c) (ins_case3_left rot a b c)" "loc_st (ins_case3_right rot a b c) (ins_case3_right rot a b c)"
  unfolding ins_case2_left_def[abs_def] ins_case2_right_def[abs_def] ins_case3_left_def[abs_def] ins_case3_right_def[abs_def]
  by (intro loc_rules loc_rotD[OF assms])+

abbreviation (input) insert_body where
  "insert_body f rot n p s \<equiv>
     (if p = 0 then rb_set_parent_color n 0 1 s
      else rb_is_black p s \<bind> (\<lambda>black. if black then Some s
        else rb_red_parent p s \<bind> (\<lambda>gparent. ld rb_right gparent s \<bind> (\<lambda>tmp.
          if p \<noteq> tmp then red_uncle tmp s \<bind> (\<lambda>red.
            if red then ins_case1 gparent p tmp s \<bind> (\<lambda>(node, parent, s). f rot node parent s)
            else ld rb_right p s \<bind> (\<lambda>tmp. ins_case2_left rot n p tmp s \<bind>
              (\<lambda>(parent, tmp, s). ins_case3_left rot gparent parent tmp s)))
          else ld rb_left gparent s \<bind> (\<lambda>tmp. red_uncle tmp s \<bind> (\<lambda>red.
            if red then ins_case1 gparent p tmp s \<bind> (\<lambda>(node, parent, s). f rot node parent s)
            else ld rb_left p s \<bind> (\<lambda>tmp. ins_case2_right rot n p tmp s \<bind>
              (\<lambda>(parent, tmp, s). ins_case3_right rot gparent parent tmp s))))))))"

lemma loc_insert_loop [loc_rules]:
  assumes "loc_rot rot"
  shows "loc_st (rb_insert_loop rot n p) (rb_insert_loop rot n p)"
proof (rule loc_fix)
  fix s r
  assume r: "rb_insert_loop rot n p s = Some r"
  have "loc_rot rot \<longrightarrow> same_dom (dom (mem s)) r \<and> (\<forall>h. rb_insert_loop rot n p (ext_heap h s) = Some (ext_heap h r))"
  proof (rule rb_insert_loop.raw_induct[OF _ r, where P = "\<lambda>rot n p s r. loc_rot rot \<longrightarrow>
      same_dom (dom (mem s)) r \<and> (\<forall>h. rb_insert_loop rot n p (ext_heap h s) = Some (ext_heap h r))"])
    fix f :: "'a rotate_cb \<Rightarrow> ptr \<Rightarrow> ptr \<Rightarrow> 'a rbs \<Rightarrow> 'a rbs option" and rot n p s r
    assume IH: "\<And>rot n p s r. f rot n p s = Some r \<Longrightarrow> loc_rot rot \<longrightarrow>
        same_dom (dom (mem s)) r \<and> (\<forall>h. rb_insert_loop rot n p (ext_heap h s) = Some (ext_heap h r))"
      and run: "insert_body f rot n p s = Some r"
    show "loc_rot rot \<longrightarrow> same_dom (dom (mem s)) r \<and> (\<forall>h. rb_insert_loop rot n p (ext_heap h s) = Some (ext_heap h r))"
    proof
      assume l: "loc_rot rot"
      have f: "loc_st (f rot n p) (rb_insert_loop rot n p)" for n p
        using IH l by (auto simp: local_op_def)
      have "loc_st (\<lambda>s. insert_body f rot n p s) (rb_insert_loop rot n p)"
        unfolding rb_insert_loop.simps[of rot n p, abs_def] by (intro loc_rules f l)
      from locD[OF this, of s r, OF run] show "same_dom (dom (mem s)) r \<and> (\<forall>h. rb_insert_loop rot n p (ext_heap h s) = Some (ext_heap h r))" by blast
    qed
  qed
  then show "same_dom (dom (mem s)) r \<and> (\<forall>h. rb_insert_loop rot n p (ext_heap h s) = Some (ext_heap h r))" using assms by simp
qed

lemma loc_insert_augmented: "loc_st (rb_insert_augmented augment_rotate n) (rb_insert_augmented augment_rotate n)"
  unfolding rb_insert_augmented_def[abs_def] rb_insert_def[abs_def] by (intro loc_rules loc_rot_instances)

section \<open>Restricting a heap\<close>

definition only :: "ptr set \<Rightarrow> 'a rbs \<Rightarrow> 'a rbs" where
  "only D s = s\<lparr>mem := mem s |` D\<rparr>"

lemma ext_only: "ext_heap (mem s) (only D s) = s"
proof -
  have "mem s ++ mem s |` D = mem s" by (auto simp: map_add_def restrict_map_def fun_eq_iff split: option.splits)
  then show ?thesis by (simp add: ext_heap_def only_def)
qed

lemma only_simps [simp]: "rb_root (only D s) = rb_root s" "mem (only D s) = mem s |` D"
  by (simp_all add: only_def)

lemma tree_rep_only: "set (inorder t) \<subseteq> D \<Longrightarrow> tree_rep (only D s) t = tree_rep s t"
proof -
  assume "set (inorder t) \<subseteq> D"
  then have "rep (mem (only D s)) 0 t = rep (mem s) 0 t" by (intro rep_links) (auto simp: links_def)
  then show ?thesis by (simp add: tree_rep_def)
qed

text \<open>An operation that is right on the nodes of a tree alone is right beside anything else.\<close>

lemma run_only:
  assumes l: "loc_st f f" and run: "f (only D s) = Some s1" and D: "D \<subseteq> dom (mem s)"
  shows "\<exists>s'. f s = Some s' \<and> rb_root s' = rb_root s1 \<and> (\<forall>x\<in>D. mem s' x = mem s1 x) \<and> (\<forall>x. x \<notin> D \<longrightarrow> mem s' x = mem s x)"
proof -
  have "dom (mem s1) = dom (mem (only D s)) \<and> f (ext_heap (mem s) (only D s)) = Some (ext_heap (mem s) s1)"
    using locD[OF l run, of "mem s"] by (simp add: same_dom_def)
  moreover have "dom (mem (only D s)) = D" using D by auto
  ultimately have 1: "dom (mem s1) = D" "f s = Some (ext_heap (mem s) s1)" by (simp_all add: ext_only)
  have "mem (ext_heap (mem s) s1) x = (if x \<in> D then mem s1 x else mem s x)" for x
    using 1(1) by (auto simp: ext_heap_def map_add_def split: option.splits)
  then show ?thesis using 1(2) by auto
qed

section \<open>One tree beside another\<close>

lemma tree_rep_mem:
  assumes "\<And>x. x \<in> set (inorder t) \<Longrightarrow> mem s' x = mem s x" "rb_root s' = rb_root s"
  shows "tree_rep s' t = tree_rep s t"
proof -
  have "rep (mem s') 0 t = rep (mem s) 0 t" by (rule rep_links) (simp add: assms links_def)
  then show ?thesis by (simp add: tree_rep_def assms(2))
qed

lemma tree_rep_dom: "tree_rep s t \<Longrightarrow> x \<in> set (inorder t) \<Longrightarrow> mem s x \<noteq> None"
  using rep_mem[of "mem s" 0 t x] by (auto simp: tree_rep_def)

lemma add_beside:
  assumes tr: "tree_rep s (plug Leaf k)" and rb: "rb_tree (plug Leaf k)"
    and p: "newp \<noteq> 0" "aligned newp" "mem s newp = None"
  defines "D \<equiv> insert newp (set (cpre k) \<union> set (cpost k))"
  shows "\<exists>s2 s' T. alloc_node newp d s = Some s2 \<and>
    Option.bind (rb_link_node newp (cpar k) (clink k) s2) (rb_insert_augmented augment_rotate newp) = Some s' \<and>
    tree_rep s' T \<and> rb_tree T \<and> inorder T = cpre k @ newp # cpost k \<and>
    stripm (mores (mem s')) = (stripm (mores (mem s)))(newp \<mapsto> strip d) \<and> (\<forall>x. x \<notin> D \<longrightarrow> mem s' x = mem s x)"
proof -
  let ?t = "plug Leaf k" let ?f = "\<lambda>s. Option.bind (rb_link_node newp (cpar k) (clink k) s) (rb_insert_augmented augment_rotate newp)"
  have io: "inorder ?t = cpre k @ cpost k" using inorder_plug[of Leaf k] by simp
  have tr1: "tree_rep (only D s) ?t" using tr tree_rep_only[of ?t D s] io by (auto simp: D_def)
  have p1: "mem (only D s) newp = None" using p(3) by (simp add: restrict_map_def)
  obtain s2 s1 T where A: "alloc_node newp d (only D s) = Some s2" "?f s2 = Some s1"
    "tree_rep s1 T" "rb_tree T" "inorder T = cpre k @ newp # cpost k"
    "stripm (mores (mem s1)) = (stripm (mores (mem (only D s))))(newp \<mapsto> strip d)"
    using add_node_ok[OF tr1 rb p(1,2) p1, of d] by blast
  let ?s2 = "s\<lparr>mem := (mem s)(newp \<mapsto> mk_node 0 0 0 d)\<rparr>"
  have nD: "newp \<in> D" by (simp add: D_def)
  have r: "(mem s)(newp \<mapsto> v) |` D = (mem s |` D)(newp \<mapsto> v)" for v
    by (simp add: restrict_map_def D_def fun_eq_iff)
  have "s2 = (only D s)\<lparr>mem := (mem s |` D)(newp \<mapsto> mk_node 0 0 0 d)\<rparr>"
    using A(1) p(1) p1 by (simp add: alloc_node_def)
  then have s2: "s2 = only D ?s2" by (simp add: only_def r nD)
  have al: "alloc_node newp d s = Some ?s2" using p(1,3) by (simp add: alloc_node_def)
  have l: "loc_st ?f ?f" by (intro loc_rules loc_insert_augmented)
  have sub: "D \<subseteq> dom (mem ?s2)" using tree_rep_dom[OF tr] io by (auto simp: D_def)
  obtain s' where s': "?f ?s2 = Some s'" "rb_root s' = rb_root s1" "\<forall>x\<in>D. mem s' x = mem s1 x"
    "\<forall>x. x \<notin> D \<longrightarrow> mem s' x = mem ?s2 x"
    using run_only[OF l A(2)[unfolded s2] sub] by blast
  have T: "tree_rep s' T" using tree_rep_mem[of T s' s1] s'(2,3) A(3,5) by (auto simp: D_def)
  have out: "mem s' x = mem s x" if "x \<notin> D" for x using s'(4) that by (auto simp: D_def)
  have "stripm (mores (mem s')) x = ((stripm (mores (mem s)))(newp \<mapsto> strip d)) x" for x
  proof (cases "x \<in> D")
    case True
    then have "stripm (mores (mem s')) x = stripm (mores (mem s1)) x" using s'(3) by (simp add: stripm_def mores_def)
    then show ?thesis using True fun_cong[OF A(6), of x] by (simp add: stripm_def mores_def)
  next
    case False
    then show ?thesis using out by (auto simp: stripm_def mores_def D_def)
  qed
  then show ?thesis using al s'(1) T A(4,5) out by (auto simp del: fun_upd_apply)
qed

lemma erase_beside:
  assumes tr: "tree_rep s t" and rb: "rb_tree t" and a: "inorder t = xs @ a # ys"
  shows "\<exists>s' T. rb_erase a s = Some s' \<and> tree_rep s' T \<and> rb_tree T \<and> inorder T = xs @ ys \<and>
    mores (mem s') = mores (mem s) \<and> (\<forall>x. x \<notin> set (inorder t) \<longrightarrow> mem s' x = mem s x)"
proof -
  let ?D = "set (inorder t)"
  have tr1: "tree_rep (only ?D s) t" using tr tree_rep_only[of t ?D s] by simp
  obtain s1 T where A: "rb_erase a (only ?D s) = Some s1" "tree_rep s1 T" "rb_tree T" "inorder T = xs @ ys"
    "mores (mem s1) = mores (mem (only ?D s))"
    using rb_erase_any[OF tr1 rb a] by blast
  have sub: "?D \<subseteq> dom (mem s)" using tree_rep_dom[OF tr] by auto
  obtain s' where s': "rb_erase a s = Some s'" "rb_root s' = rb_root s1" "\<forall>x\<in>?D. mem s' x = mem s1 x"
    "\<forall>x. x \<notin> ?D \<longrightarrow> mem s' x = mem s x"
    using run_only[OF loc_erase A(1) sub] by blast
  have "tree_rep s' T" using tree_rep_mem[of T s' s1] s'(2,3) A(2,4) a by auto
  moreover have "mores (mem s') x = mores (mem s) x" for x
    using s'(3,4) fun_cong[OF A(5), of x] by (cases "x \<in> ?D") (auto simp: mores_def)
  ultimately show ?thesis using s'(1,4) A(3,4) by blast
qed

text \<open>Recording an access touches the nodes of its tree and the new node only.\<close>

lemma insert_data_frame:
  assumes tr: "tree_rep s t" "rb_tree t" and p: "newp \<noteq> 0" "aligned newp" "mem s newp = None"
    and run: "interval_tree_insert_data newp node s = Some s'" and x: "x \<notin> insert newp (set (inorder t))"
  shows "mem s' x = mem s x"
proof -
  have tr0: "tree_rep s (plug t [])" using tr(1) by simp
  obtain r s1 where r: "insert_data_descend node RootLink 0 s = Some (r, s1)" and D: "data_descended node t [] s r s1"
    using insert_data_descend_ok[OF tr0, of node] by auto
  have L: "rb_root s1 = rb_root s" "links (mem s1) = links (mem s)" using D by (simp_all add: data_descended_def)
  have o1: "mem s1 y = mem s y" if "y \<notin> set (inorder t)" for y
    using D that by (auto simp: data_descended_def intro: mem_links)
  show ?thesis
  proof (cases r)
    case None
    then show ?thesis using run r o1 x by (simp add: interval_tree_insert_data_def)
  next
    case (Some lp)
    then obtain k where k: "r = Some (clink k, cpar k)" "plug Leaf k = t"
      using D by (cases lp) (auto simp: data_descended_def Let_def)
    have io: "set (inorder t) = set (cpre k) \<union> set (cpost k)" using k(2) inorder_plug[of Leaf k] by auto
    have npt: "newp \<notin> set (inorder t)" using tree_rep_dom[OF tr(1), of newp] p(3) by auto
    have t1: "tree_rep s1 (plug Leaf k)" "rb_tree (plug Leaf k)"
      using tr tree_rep_links[of s s1 t] L k(2) by simp_all
    show ?thesis
      using run r k(1) x io o1[OF npt] o1[of x] p add_beside[OF t1 p(1,2), of "(interval_tree_node (it_start node) (it_last node)
        (size_type node) (pc node) (mutex node))\<lparr>subtree_last := it_last node\<rparr>"]
      by (auto simp: interval_tree_insert_data_def)
  qed
qed

end
