(* ===== verification/Lzo.thy ===== *)
theory Lzo
  imports Prelude
begin

text \<open>
  The compression library that comes with the sources, \<open>lzo1x_1_compress\<close> and \<open>lzo1x_decompress\<close> of
  \<open>rtl/lzo/minilzo.c\<close>. Of the alternatives for wide unaligned loads and stores the portable ones are modelled; the
  others move the same bytes in larger pieces and use some room behind them. A pointer is an index, lengths are natural numbers, and \<open>None\<close> is an
  access outside the buffers, which neither function checks. The output is a list that grows at \<open>op\<close>.
\<close>

definition rd :: "u8 list \<Rightarrow> nat \<Rightarrow> u8 option" where
  "rd xs i = (if i < length xs then Some (xs ! i) else None)"

text \<open>\<open>do *op++ = *ip++; while (--t > 0)\<close>, \<open>n\<close> times.\<close>

fun copy_literals :: "u8 list \<Rightarrow> nat \<Rightarrow> nat \<Rightarrow> u8 list \<Rightarrow> (nat \<times> u8 list) option" where
  "copy_literals xs 0 ip op = Some (ip, op)"
| "copy_literals xs (Suc n) ip op = do { b \<leftarrow> rd xs ip; copy_literals xs n (ip + 1) (op @ [b]) }"

section \<open>Decompression\<close>

abbreviation (input) LZO_E_OK :: int where "LZO_E_OK \<equiv> 0"
abbreviation (input) LZO_E_INPUT_NOT_CONSUMED :: int where "LZO_E_INPUT_NOT_CONSUMED \<equiv> - 8"

text \<open>The labels, with \<open>t\<close> where it is used: the start of the outer loop, and the targets of the jumps.\<close>

datatype label = Loop | First_Literal_Run | Match nat | Match_Done | Match_Next nat

datatype jump = Goto label nat "u8 list" | Eof_Found nat "u8 list"

text \<open>\<open>while (*ip == 0) { t += 255; ip++; }\<close>\<close>

function zero_run :: "u8 list \<Rightarrow> nat \<Rightarrow> nat \<Rightarrow> (nat \<times> nat) option" where
  "zero_run inp ip t = (case rd inp ip of
     None \<Rightarrow> None
   | Some b \<Rightarrow> if b = 0 then zero_run inp (ip + 1) (t + 255) else Some (t, ip))"
  by pat_completeness auto
termination
  by (relation "measure (\<lambda>(inp, ip, t). length inp - ip)") (auto simp: rd_def split: if_splits)

declare zero_run.simps [simp del]

text \<open>The rest of a length that did not fit in its byte: \<open>t += base + *ip++\<close> after the zeros.\<close>

definition long_count :: "u8 list \<Rightarrow> nat \<Rightarrow> nat \<Rightarrow> nat \<Rightarrow> (nat \<times> nat) option" where
  "long_count inp base t ip = (if t = 0 then do {
       (t, ip) \<leftarrow> zero_run inp ip t;
       b \<leftarrow> rd inp ip;
       Some (t + base + unat b, ip + 1) }
     else Some (t, ip))"

text \<open>\<open>n\<close> bytes from \<open>m_pos\<close>, which may be bytes that were just written.\<close>

fun copy_bytes :: "nat \<Rightarrow> nat \<Rightarrow> u8 list \<Rightarrow> u8 list option" where
  "copy_bytes 0 m_pos op = Some op"
| "copy_bytes (Suc n) m_pos op = do { b \<leftarrow> rd op m_pos; copy_bytes n (m_pos + 1) (op @ [b]) }"

definition copy_match :: "nat \<Rightarrow> nat \<Rightarrow> u8 list \<Rightarrow> u8 list option" where
  "copy_match off n op = (if off \<le> length op then copy_bytes n (length op - off) op else None)"

definition do_loop :: "u8 list \<Rightarrow> nat \<Rightarrow> u8 list \<Rightarrow> jump option" where
  "do_loop inp ip op = do {
     b \<leftarrow> rd inp ip;
     let t = unat b;
     let ip = ip + 1;
     if t \<ge> 16 then Some (Goto (Match t) ip op)
     else do {
       (t, ip) \<leftarrow> long_count inp 15 t ip;
       (ip, op) \<leftarrow> copy_literals inp (t + 3) ip op;
       Some (Goto First_Literal_Run ip op) } }"

definition do_first_literal_run :: "u8 list \<Rightarrow> nat \<Rightarrow> u8 list \<Rightarrow> jump option" where
  "do_first_literal_run inp ip op = do {
     b \<leftarrow> rd inp ip;
     let t = unat b;
     let ip = ip + 1;
     if t \<ge> 16 then Some (Goto (Match t) ip op)
     else do {
       c \<leftarrow> rd inp ip;
       op \<leftarrow> copy_match (1 + 0x0800 + drop_bit 2 t + push_bit 2 (unat c)) 3 op;
       Some (Goto Match_Done (ip + 1) op) } }"

definition do_match :: "u8 list \<Rightarrow> nat \<Rightarrow> nat \<Rightarrow> u8 list \<Rightarrow> jump option" where
  "do_match inp t ip op = (
     if t \<ge> 64 then do {
       c \<leftarrow> rd inp ip;
       let off = 1 + (drop_bit 2 t AND 7) + push_bit 3 (unat c);
       let t = drop_bit 5 t - 1;
       op \<leftarrow> copy_match off (t + 2) op;
       Some (Goto Match_Done (ip + 1) op) }
     else if t \<ge> 32 then do {
       (t, ip) \<leftarrow> long_count inp 31 (t AND 31) ip;
       c0 \<leftarrow> rd inp ip;
       c1 \<leftarrow> rd inp (ip + 1);
       op \<leftarrow> copy_match (1 + (drop_bit 2 (unat c0) + push_bit 6 (unat c1))) (t + 2) op;
       Some (Goto Match_Done (ip + 2) op) }
     else if t \<ge> 16 then do {
       let off = push_bit 11 (t AND 8);
       (t, ip) \<leftarrow> long_count inp 7 (t AND 7) ip;
       c0 \<leftarrow> rd inp ip;
       c1 \<leftarrow> rd inp (ip + 1);
       let off = off + (drop_bit 2 (unat c0) + push_bit 6 (unat c1));
       let ip = ip + 2;
       if off = 0 then Some (Eof_Found ip op)
       else do {
         op \<leftarrow> copy_match (off + 0x4000) (t + 2) op;
         Some (Goto Match_Done ip op) } }
     else do {
       c \<leftarrow> rd inp ip;
       op \<leftarrow> copy_match (1 + drop_bit 2 t + push_bit 2 (unat c)) 2 op;
       Some (Goto Match_Done (ip + 1) op) })"

definition do_match_done :: "u8 list \<Rightarrow> nat \<Rightarrow> u8 list \<Rightarrow> jump option" where
  "do_match_done inp ip op = (if ip < 2 then None else do {
     b \<leftarrow> rd inp (ip - 2);
     let t = unat b AND 3;
     Some (Goto (if t = 0 then Loop else Match_Next t) ip op) })"

definition do_match_next :: "u8 list \<Rightarrow> nat \<Rightarrow> nat \<Rightarrow> u8 list \<Rightarrow> jump option" where
  "do_match_next inp t ip op = do {
     (ip, op) \<leftarrow> copy_literals inp t ip op;
     b \<leftarrow> rd inp ip;
     Some (Goto (Match (unat b)) (ip + 1) op) }"

fun jump_from :: "u8 list \<Rightarrow> label \<Rightarrow> nat \<Rightarrow> u8 list \<Rightarrow> jump option" where
  "jump_from inp Loop ip op = do_loop inp ip op"
| "jump_from inp First_Literal_Run ip op = do_first_literal_run inp ip op"
| "jump_from inp (Match t) ip op = do_match inp t ip op"
| "jump_from inp Match_Done ip op = do_match_done inp ip op"
| "jump_from inp (Match_Next t) ip op = do_match_next inp t ip op"

text \<open>Every jump but the one at \<open>match_done\<close> consumes input, so decompression ends on any input.\<close>

definition work_left :: "u8 list \<Rightarrow> label \<Rightarrow> nat \<Rightarrow> nat" where
  "work_left inp l ip = 2 * (length inp - ip) + (if l = Match_Done then 1 else 0)"

lemma rd_Some: "rd xs i = Some b \<longleftrightarrow> i < length xs \<and> b = xs ! i"
  by (auto simp: rd_def)

lemma zero_run_ip: "zero_run inp ip t = Some (t', ip') \<Longrightarrow> ip \<le> ip' \<and> ip' < length inp"
proof (induction inp ip t rule: zero_run.induct)
  case (1 inp ip t)
  then obtain b where b: "rd inp ip = Some b" "ip < length inp"
    by (auto simp: rd_def zero_run.simps[of inp ip t] split: option.splits if_splits)
  show ?case
  proof (cases "b = 0")
    case True
    then have "zero_run inp (ip + 1) (t + 255) = Some (t', ip')" using 1(2) b(1) by (simp add: zero_run.simps[of inp ip t])
    from 1(1)[OF b(1) True this] show ?thesis by simp
  next
    case False
    then show ?thesis using 1(2) b by (simp add: zero_run.simps[of inp ip t])
  qed
qed

lemma long_count_ip: "long_count inp base t ip = Some (t', ip') \<Longrightarrow> ip \<le> length inp \<Longrightarrow> ip \<le> ip' \<and> ip' \<le> length inp"
  by (auto simp: long_count_def rd_Some bind_eq_Some_conv split: if_splits dest: zero_run_ip)

lemma copy_literals_ip: "copy_literals inp n ip op = Some (ip', op') \<Longrightarrow> ip' = ip + n \<and> (n = 0 \<or> ip' \<le> length inp)"
proof (induction n arbitrary: ip op)
  case (Suc n)
  then have 1: "ip < length inp" "copy_literals inp n (ip + 1) (op @ [inp ! ip]) = Some (ip', op')"
    by (auto simp: rd_Some bind_eq_Some_conv)
  from Suc.IH[OF 1(2)] 1(1) show ?case by auto
qed simp

lemma jump_work: "jump_from inp l ip op = Some (Goto l' ip' op') \<Longrightarrow> work_left inp l' ip' < work_left inp l ip"
proof (cases l)
  case Loop
  assume "jump_from inp l ip op = Some (Goto l' ip' op')"
  with Loop show ?thesis
    by (auto simp: do_loop_def Let_def rd_Some bind_eq_Some_conv work_left_def split: if_splits
        dest!: long_count_ip copy_literals_ip)
next
  case First_Literal_Run
  assume "jump_from inp l ip op = Some (Goto l' ip' op')"
  with First_Literal_Run show ?thesis
    by (auto simp: do_first_literal_run_def Let_def rd_Some bind_eq_Some_conv work_left_def split: if_splits)
next
  case (Match t)
  assume "jump_from inp l ip op = Some (Goto l' ip' op')"
  with Match show ?thesis
    by (auto simp: do_match_def Let_def rd_Some bind_eq_Some_conv work_left_def split: if_splits)
      (auto simp: long_count_def bind_eq_Some_conv rd_Some split: if_splits dest!: zero_run_ip)
next
  case Match_Done
  assume "jump_from inp l ip op = Some (Goto l' ip' op')"
  with Match_Done show ?thesis
    by (auto simp: do_match_done_def Let_def rd_Some bind_eq_Some_conv work_left_def split: if_splits)
next
  case (Match_Next t)
  assume "jump_from inp l ip op = Some (Goto l' ip' op')"
  with Match_Next show ?thesis
    by (auto simp: do_match_next_def Let_def rd_Some bind_eq_Some_conv work_left_def split: if_splits)
      (auto dest!: copy_literals_ip)
qed

function run_from :: "u8 list \<Rightarrow> label \<Rightarrow> nat \<Rightarrow> u8 list \<Rightarrow> (nat \<times> u8 list) option" where
  "run_from inp l ip op = (case jump_from inp l ip op of
     None \<Rightarrow> None
   | Some (Eof_Found ip op) \<Rightarrow> Some (ip, op)
   | Some (Goto l ip op) \<Rightarrow> run_from inp l ip op)"
  by pat_completeness auto
termination
  by (relation "measure (\<lambda>(inp, l, ip, op). work_left inp l ip)") (auto dest: jump_work)

declare run_from.simps [simp del]

text \<open>The first byte, when it is above 17, is the length of a run of literals.\<close>

definition start_from :: "u8 list \<Rightarrow> jump option" where
  "start_from inp = do {
     b \<leftarrow> rd inp 0;
     if unat b > 17 then do {
       let t = unat b - 17;
       if t < 4 then Some (Goto (Match_Next t) 1 [])
       else do {
         (ip, op) \<leftarrow> copy_literals inp t 1 [];
         Some (Goto First_Literal_Run ip op) } }
     else Some (Goto Loop 0 []) }"

text \<open>The result code and the output.\<close>

definition lzo1x_decompress :: "u8 list \<Rightarrow> (int \<times> u8 list) option" where
  "lzo1x_decompress inp = (case start_from inp of
     None \<Rightarrow> None
   | Some (Eof_Found ip op) \<Rightarrow> None
   | Some (Goto l ip op) \<Rightarrow> do {
       (ip, op) \<leftarrow> run_from inp l ip op;
       Some (if ip = length inp then LZO_E_OK else LZO_E_INPUT_NOT_CONSUMED, op) })"

section \<open>Compression\<close>

definition LZO_BYTE :: "nat \<Rightarrow> u8" where
  "LZO_BYTE n = of_nat n"

text \<open>Four bytes, little-endian, and their place in the dictionary.\<close>

definition UA_GET_LE32 :: "u8 list \<Rightarrow> nat \<Rightarrow> uint option" where
  "UA_GET_LE32 inp i = do {
     b0 \<leftarrow> rd inp i; b1 \<leftarrow> rd inp (i + 1); b2 \<leftarrow> rd inp (i + 2); b3 \<leftarrow> rd inp (i + 3);
     Some (ucast b0 OR push_bit 8 (ucast b1) OR push_bit 16 (ucast b2) OR push_bit 24 (ucast b3)) }"

definition DINDEX :: "uint \<Rightarrow> nat" where
  "DINDEX dv = unat (drop_bit (32 - 14) (0x1824429d * dv) AND 0x3fff)"

type_synonym dict = "nat \<Rightarrow> 16 word"

text \<open>
  The search for a position whose four bytes have been seen: \<open>start\<close> is \<open>in\<close>, \<open>Some m_pos\<close> an earlier place with the
  same bytes and \<open>None\<close> the end of the part that is searched.
\<close>

function search_match :: "u8 list \<Rightarrow> nat \<Rightarrow> nat \<Rightarrow> nat \<Rightarrow> nat \<Rightarrow> dict \<Rightarrow> (nat \<times> nat option \<times> dict) option" where
  "search_match inp start ip_end ii ip dict = (
     if ip \<ge> ip_end then Some (ip, None, dict)
     else do {
       dv \<leftarrow> UA_GET_LE32 inp ip;
       let dindex = DINDEX dv;
       let m_pos = start + unat (dict dindex);
       let dict = dict(dindex := of_nat (ip - start));
       v \<leftarrow> UA_GET_LE32 inp m_pos;
       if dv \<noteq> v then search_match inp start ip_end ii (ip + (1 + drop_bit 5 (ip - ii))) dict
       else Some (ip, Some m_pos, dict) })"
  by pat_completeness auto
termination
  by (relation "measure (\<lambda>(inp, start, ip_end, ii, ip, dict). ip_end - ip)") auto

declare search_match.simps [simp del]

text \<open>A count above what fits in its byte: a zero byte for every 255, and the rest.\<close>

fun emit_zeros :: "nat \<Rightarrow> u8 list \<Rightarrow> u8 list" where
  "emit_zeros n op = (if n > 255 then emit_zeros (n - 255) (op @ [0]) else op @ [LZO_BYTE n])"

declare emit_zeros.simps [simp del]

text \<open>\<open>op[-2] |= t\<close>\<close>

definition or_back2 :: "u8 list \<Rightarrow> nat \<Rightarrow> u8 list option" where
  "or_back2 op t = (if 2 \<le> length op then Some (op[length op - 2 := op ! (length op - 2) OR LZO_BYTE t]) else None)"

text \<open>The length of a run of literals.\<close>

definition emit_run_length :: "nat \<Rightarrow> u8 list \<Rightarrow> u8 list option" where
  "emit_run_length t op = (
     if t \<le> 3 then or_back2 op t
     else if t \<le> 18 then Some (op @ [LZO_BYTE (t - 3)])
     else Some (emit_zeros (t - 18) (op @ [0])))"

definition emit_literals :: "u8 list \<Rightarrow> nat \<Rightarrow> nat \<Rightarrow> u8 list \<Rightarrow> u8 list option" where
  "emit_literals inp ii t op = (
     if t \<noteq> 0 then do {
       op \<leftarrow> emit_run_length t op;
       (ii, op) \<leftarrow> copy_literals inp t ii op;
       Some op }
     else Some op)"

text \<open>How far the bytes at two places agree: eight at a time, until a difference or the end.\<close>

fun same_bytes :: "u8 list \<Rightarrow> nat \<Rightarrow> nat \<Rightarrow> nat \<Rightarrow> nat option" where
  "same_bytes inp 0 a b = Some 0"
| "same_bytes inp (Suc n) a b = do {
     x \<leftarrow> rd inp a;
     y \<leftarrow> rd inp b;
     if x \<noteq> y then Some 0 else map_option Suc (same_bytes inp n (a + 1) (b + 1)) }"

function match_length :: "u8 list \<Rightarrow> nat \<Rightarrow> nat \<Rightarrow> nat \<Rightarrow> nat \<Rightarrow> nat option" where
  "match_length inp ip_end ip m_pos m_len = do {
     k \<leftarrow> same_bytes inp 8 (ip + m_len) (m_pos + m_len);
     if k < 8 then Some (m_len + k)
     else if ip + (m_len + 8) \<ge> ip_end then Some (m_len + 8)
     else match_length inp ip_end ip m_pos (m_len + 8) }"
  by pat_completeness auto
termination
  by (relation "measure (\<lambda>(inp, ip_end, ip, m_pos, m_len). ip_end - (ip + m_len))") auto

declare match_length.simps [simp del]

definition emit_match :: "nat \<Rightarrow> nat \<Rightarrow> u8 list \<Rightarrow> u8 list" where
  "emit_match m_off m_len op = (
     if m_len \<le> 8 \<and> m_off \<le> 0x0800 then
       let m_off = m_off - 1 in
       op @ [LZO_BYTE (push_bit 5 (m_len - 1) OR push_bit 2 (m_off AND 7)), LZO_BYTE (drop_bit 3 m_off)]
     else if m_off \<le> 0x4000 then
       let m_off = m_off - 1;
           op = (if m_len \<le> 33 then op @ [LZO_BYTE (32 OR (m_len - 2))] else emit_zeros (m_len - 33) (op @ [32 OR 0])) in
       op @ [LZO_BYTE (push_bit 2 m_off), LZO_BYTE (drop_bit 6 m_off)]
     else
       let m_off = m_off - 0x4000;
           op = (if m_len \<le> 9 then op @ [LZO_BYTE (16 OR (drop_bit 11 m_off AND 8) OR (m_len - 2))]
                 else emit_zeros (m_len - 9) (op @ [LZO_BYTE (16 OR (drop_bit 11 m_off AND 8))])) in
       op @ [LZO_BYTE (push_bit 2 m_off), LZO_BYTE (drop_bit 6 m_off)])"

text \<open>
  One turn from the label \<open>next\<close>. The literals that are not written yet are those from \<open>ii - ti\<close>; at the end their
  number is the result.
\<close>

record comp =
  c_ip :: nat
  c_ii :: nat
  c_ti :: nat
  c_dict :: dict
  c_op :: "u8 list"

datatype turn = Next comp | Finished nat "u8 list"

definition compress_turn :: "u8 list \<Rightarrow> nat \<Rightarrow> nat \<Rightarrow> comp \<Rightarrow> turn option" where
  "compress_turn inp start len c = do {
     let in_end = start + len;
     let ip_end = start + len - 20;
     (ip, found, dict) \<leftarrow> search_match inp start ip_end (c_ii c) (c_ip c) (c_dict c);
     case found of
       None \<Rightarrow> Some (Finished (in_end - (c_ii c - c_ti c)) (c_op c))
     | Some m_pos \<Rightarrow> do {
         let ii = c_ii c - c_ti c;
         op \<leftarrow> emit_literals inp ii (ip - ii) (c_op c);
         m_len \<leftarrow> match_length inp ip_end ip m_pos 4;
         Some (Next \<lparr>c_ip = ip + m_len, c_ii = ip + m_len, c_ti = 0, c_dict = dict, c_op = emit_match (ip - m_pos) m_len op\<rparr>) } }"

lemma search_match_ip: "search_match inp start ip_end ii ip dict = Some (ip', Some m, dict') \<Longrightarrow> ip \<le> ip' \<and> ip' < ip_end"
proof (induction inp start ip_end ii ip dict rule: search_match.induct)
  case (1 inp start ip_end ii ip dict)
  obtain dv v where d: "\<not> ip \<ge> ip_end" "UA_GET_LE32 inp ip = Some dv" "UA_GET_LE32 inp (start + unat (dict (DINDEX dv))) = Some v"
    using 1(2) by (auto simp: search_match.simps[of inp start ip_end ii ip dict] Let_def bind_eq_Some_conv split: if_splits)
  show ?case
  proof (cases "dv = v")
    case True
    then show ?thesis using 1(2) d by (simp add: search_match.simps[of inp start ip_end ii ip dict] Let_def)
  next
    case False
    then have "search_match inp start ip_end ii (ip + (1 + drop_bit 5 (ip - ii))) (dict(DINDEX dv := of_nat (ip - start)))
        = Some (ip', Some m, dict')"
      using 1(2) d by (simp add: search_match.simps[of inp start ip_end ii ip dict] Let_def)
    from 1(1)[OF d(1,2) refl refl refl d(3) False this] show ?thesis by simp
  qed
qed

lemma match_length_ge: "match_length inp ip_end ip m_pos m_len = Some k \<Longrightarrow> m_len \<le> k"
proof (induction inp ip_end ip m_pos m_len rule: match_length.induct)
  case (1 inp ip_end ip m_pos m_len)
  obtain n where n: "same_bytes inp 8 (ip + m_len) (m_pos + m_len) = Some n"
    using 1(2) by (auto simp: match_length.simps[of inp ip_end ip m_pos m_len] bind_eq_Some_conv)
  show ?case
    using 1(2) 1(1)[OF n] n by (auto simp: match_length.simps[of inp ip_end ip m_pos m_len] split: if_splits)
qed

lemma compress_turn_ip: "compress_turn inp start len c = Some (Next c') \<Longrightarrow> start + len - 20 - c_ip c' < start + len - 20 - c_ip c"
  by (auto simp: compress_turn_def Let_def bind_eq_Some_conv split: option.splits dest!: search_match_ip match_length_ge)

function compress_turns :: "u8 list \<Rightarrow> nat \<Rightarrow> nat \<Rightarrow> comp \<Rightarrow> (nat \<times> u8 list) option" where
  "compress_turns inp start len c = (case compress_turn inp start len c of
     None \<Rightarrow> None
   | Some (Finished t op) \<Rightarrow> Some (t, op)
   | Some (Next c) \<Rightarrow> compress_turns inp start len c)"
  by pat_completeness auto
termination
  by (relation "measure (\<lambda>(inp, start, len, c). start + len - 20 - c_ip c)") (auto dest: compress_turn_ip)

declare compress_turns.simps [simp del]

text \<open>The loop is entered at the label \<open>literal\<close>, which moves \<open>ip\<close> on before the first search.\<close>

definition do_compress :: "u8 list \<Rightarrow> nat \<Rightarrow> nat \<Rightarrow> u8 list \<Rightarrow> nat \<Rightarrow> dict \<Rightarrow> (nat \<times> u8 list) option" where
  "do_compress inp start len op ti dict =
     (let ii = start; ip = start + (if ti < 4 then 4 - ti else 0) in
      compress_turns inp start len
        \<lparr>c_ip = ip + (1 + drop_bit 5 (ip - ii)), c_ii = ii, c_ti = ti, c_dict = dict, c_op = op\<rparr>)"

text \<open>
  Chunks of up to 49152 bytes, each with an empty dictionary. The test on addresses fails for a chunk with less than 32
  bytes to write, as long as no buffer is at the very end of the address space.
\<close>

function compress_chunks :: "u8 list \<Rightarrow> nat \<Rightarrow> u8 list \<Rightarrow> nat \<Rightarrow> nat \<Rightarrow> (nat \<times> u8 list) option" where
  "compress_chunks inp ip op l t = (
     if l > 20 then
       let ll = min l 49152 in
       if drop_bit 5 (t + ll) = 0 then Some (t + l, op)
       else do {
         (t, op) \<leftarrow> do_compress inp ip ll op t (\<lambda>_. 0);
         compress_chunks inp (ip + ll) op (l - ll) t }
     else Some (t + l, op))"
  by pat_completeness auto
termination
  by (relation "measure (\<lambda>(inp, ip, op, l, t). l)") auto

declare compress_chunks.simps [simp del]

text \<open>The literals at the end, and the mark of the end.\<close>

definition emit_rest :: "u8 list \<Rightarrow> nat \<Rightarrow> u8 list \<Rightarrow> u8 list option" where
  "emit_rest inp t op = (
     if t > 0 then do {
       let ii = length inp - t;
       op \<leftarrow> (if op = [] \<and> t \<le> 238 then Some (op @ [LZO_BYTE (17 + t)]) else emit_run_length t op);
       (ii, op) \<leftarrow> copy_literals inp t ii op;
       Some op }
     else Some op)"

definition lzo1x_1_compress :: "u8 list \<Rightarrow> u8 list option" where
  "lzo1x_1_compress inp = do {
     (t, op) \<leftarrow> compress_chunks inp 0 [] (length inp) 0;
     op \<leftarrow> emit_rest inp t op;
     Some (op @ [16 OR 1, 0, 0]) }"

end
