(* ===== verification/Load.thy ===== *)
theory Load
  imports RbLocal SwordCommon Bytes Lzo
begin

text \<open>
  Loading a trace (\<open>load_and_convert_file\<close> of \<open>tools/sword-race-analysis.cc\<close>): the memory layout of
  \<open>TraceItem\<close> (\<open>rtl/sword_common.h\<close>), the blocks of the file, the lock set and the insertion of the
  accesses in the thread's interval tree. The decompressor, which is LZO, Snappy or LZ4 by a macro, is the parameter
  \<open>dec\<close> (\<open>lzo1x_decompress\<close> is one), the addresses that
  \<open>new\<close> returns are the parameter \<open>newp\<close>, by the number of the access. Results are \<open>None\<close> for undefined
  behaviour, \<open>Inl\<close> for the errors that end the program, \<open>Inr\<close> for the state reached.
\<close>

section \<open>Items as bytes\<close>

definition sizeof_item :: nat where
  "sizeof_item = 16"

definition NUM_OF_ACCESSES :: nat where
  "NUM_OF_ACCESSES = 25000"

definition BLOCK_SIZE :: nat where
  "BLOCK_SIZE = NUM_OF_ACCESSES * sizeof_item"

definition OUT_LEN :: nat where
  "OUT_LEN = BLOCK_SIZE + BLOCK_SIZE div 16 + 64 + 3 + 8"

text \<open>The structs are packed; the constructor of the union clears the 15 bytes of its largest member.\<close>

primrec data_bytes :: "item_data \<Rightarrow> u8 list" where
  "data_bytes (Access a) = acc_size_type a # le_bytes 8 (unat (acc_address a)) @ le_bytes 6 (unat (acc_pc a))"
| "data_bytes (Parallel p) = le_bytes 8 (unat (par_id p)) @ le_bytes 4 (unat (par_team_size p)) @ [0, 0, 0]"
| "data_bytes (Mutex m) = le_bytes 4 (unat (mr_kind m)) @ le_bytes 8 (unat (mr_wait_id m)) @ [0, 0, 0]"

definition item_bytes :: "trace_item \<Rightarrow> u8 list" where
  "item_bytes i = item_type i # data_bytes (item_data i)"

text \<open>Reading the member that the tag names.\<close>

definition item_of_bytes :: "u8 list \<Rightarrow> trace_item" where
  "item_of_bytes bs =
     \<lparr>item_type = bs ! 0,
      item_data =
        (if bs ! 0 = callback_code mutex_acquired \<or> bs ! 0 = callback_code mutex_released then
           Mutex \<lparr>mr_kind = of_nat (of_le (fread bs 1 4)), mr_wait_id = of_nat (of_le (fread bs 5 8))\<rparr>
         else if bs ! 0 = callback_code parallel_begin \<or> bs ! 0 = callback_code parallel_end then
           Parallel \<lparr>par_id = of_nat (of_le (fread bs 1 8)), par_team_size = of_nat (of_le (fread bs 9 4))\<rparr>
         else
           Access \<lparr>acc_size_type = bs ! 1, acc_address = of_nat (of_le (fread bs 2 8)), acc_pc = of_nat (of_le (fread bs 10 6))\<rparr>)\<rparr>"

text \<open>The buffer holds \<open>new_len / sizeof(TraceItem)\<close> items.\<close>

fun items_upto :: "nat \<Rightarrow> u8 list \<Rightarrow> trace_item list" where
  "items_upto 0 bs = []"
| "items_upto (Suc n) bs = item_of_bytes (take sizeof_item bs) # items_upto n (drop sizeof_item bs)"

definition items_of :: "u8 list \<Rightarrow> trace_item list" where
  "items_of bs = items_upto (length bs div sizeof_item) bs"

section \<open>Processing items\<close>

fun process_items :: "(nat \<Rightarrow> ptr) \<Rightarrow> trace_item list \<Rightarrow> size_t set \<Rightarrow> nat \<times> it_state \<Rightarrow> (nat \<times> it_state) option" where
  "process_items newp [] mx ks = Some ks"
| "process_items newp (i # is) mx (k, s) =
     (if getType i = callback_code data_access then
        (case item_data i of
           Access a \<Rightarrow> do {
             s \<leftarrow> interval_tree_insert_data (newp k)
                    (interval_tree_node (getAddress a) (getAddress a) (getAccessSizeType a) (getPC a) mx) s;
             process_items newp is mx (k + 1, s) }
         | _ \<Rightarrow> None)
      else if getType i = callback_code mutex_acquired then
        (case item_data i of Mutex m \<Rightarrow> process_items newp is (insert (getWaitId m) mx) (k, s) | _ \<Rightarrow> None)
      else if getType i = callback_code mutex_released then
        (case item_data i of Mutex m \<Rightarrow> process_items newp is (mx - {getWaitId m}) (k, s) | _ \<Rightarrow> None)
      else process_items newp is mx (k, s))"

section \<open>The file\<close>

datatype load_error = OpenError | ReadError | DecompressError

text \<open>The result code and the output, or \<open>None\<close> for an access outside the buffers.\<close>

type_synonym decompressor = "u8 list \<Rightarrow> (int \<times> u8 list) option"

text \<open>
  One turn of the loop reads a block (with the size of the next one when \<open>neof\<close> is 1), decompresses it, inserts
  its items with an empty lock set to start with, and takes the next size from the last 8 bytes read.
\<close>

partial_function (option) load_blocks ::
    "decompressor \<Rightarrow> (nat \<Rightarrow> ptr) \<Rightarrow> u8 list \<Rightarrow> 64 word \<Rightarrow> nat \<Rightarrow> 64 word \<Rightarrow> 64 word \<Rightarrow> uint \<Rightarrow> nat \<times> it_state \<Rightarrow>
       (load_error + nat \<times> it_state) option" where
  "load_blocks dec newp file filesize pos total_size block_size neof ks =
     (if total_size < filesize then
        if unat block_size > OUT_LEN then None
        else
          let buffer = fread file pos (unat block_size); total_size = total_size + block_size in
          if length buffer \<noteq> unat block_size then Some (Inl ReadError)
          else
            (case dec (take (unat (block_size - 8 * ucast neof)) buffer) of
               None \<Rightarrow> None
             | Some (r, out) \<Rightarrow>
                 if length out > BLOCK_SIZE then None
                 else if r \<noteq> LZO_E_OK then Some (Inl DecompressError)
                 else if block_size < 8 then None
                 else do {
                   ks \<leftarrow> process_items newp (items_of out) {} ks;
                   let next_size = of_nat (of_le (fread buffer (unat block_size - 8) 8));
                   if total_size + next_size + 8 < filesize then
                     load_blocks dec newp file filesize (pos + unat block_size) total_size (next_size + 8) 1 ks
                   else load_blocks dec newp file filesize (pos + unat block_size) total_size next_size 0 ks
                 })
      else Some (Inr ks))"

text \<open>
  The root is empty and no node exists when a load starts. A first \<open>fread\<close> that meets the end of the file
  leaves \<open>block_size\<close> uninitialised.
\<close>

definition load_and_convert_file ::
    "decompressor \<Rightarrow> (nat \<Rightarrow> ptr) \<Rightarrow> u8 list option \<Rightarrow> 64 word \<Rightarrow> 64 word \<Rightarrow> nat \<times> it_state \<Rightarrow>
       (load_error + nat \<times> it_state) option" where
  "load_and_convert_file dec newp datafile fob foe ks =
     (let filesize = foe - fob in
      if filesize > 0 then
        (case datafile of
           None \<Rightarrow> Some (Inl OpenError)
         | Some file \<Rightarrow>
             let hd8 = fread file (unat fob) 8; block_size = of_nat (of_le hd8) in
             if length hd8 \<noteq> 8 then None
             else if block_size + 8 < filesize then
               load_blocks dec newp file filesize (unat fob + 8) 8 (block_size + 8) 1 ks
             else load_blocks dec newp file filesize (unat fob + 8) 8 block_size 0 ks)
      else Some (Inr ks))"

section \<open>Layout round trip\<close>

text \<open>Items whose tag and member agree, as the constructors build them.\<close>

definition item_ok :: "trace_item \<Rightarrow> bool" where
  "item_ok i \<longleftrightarrow>
     (case item_data i of
        Mutex m \<Rightarrow> item_type i = callback_code mutex_acquired \<or> item_type i = callback_code mutex_released
      | Parallel p \<Rightarrow> item_type i = callback_code parallel_begin \<or> item_type i = callback_code parallel_end
      | Access a \<Rightarrow> item_type i = callback_code data_access)"

lemma length_item_bytes [simp]: "length (item_bytes i) = 16"
  by (cases "item_data i") (simp_all add: item_bytes_def)

lemma of_le_word:
  assumes "LENGTH('a) = 8 * k"
  shows "(of_nat (of_le (le_bytes k (unat x))) :: 'a :: len word) = x"
proof -
  have "(256 :: nat) ^ k = 2 ^ LENGTH('a)" using assms by (simp add: power_mult)
  then have "of_le (le_bytes k (unat x)) = unat x"
    using unsigned_less[of x, where 'a = nat] by (simp add: of_le_bytes)
  then show ?thesis by simp
qed

lemma item_bytes_roundtrip:
  assumes "item_ok i"
  shows "item_of_bytes (item_bytes i) = i"
proof (cases "item_data i")
  case (Access a)
  let ?A = "le_bytes 8 (unat (acc_address a))" and ?P = "le_bytes 6 (unat (acc_pc a))"
  have bs: "item_bytes i = item_type i # acc_size_type a # ?A @ ?P" by (simp add: item_bytes_def Access)
  have "fread (item_bytes i) 2 8 = ?A"
    by (rule fread_at[of _ "[item_type i, acc_size_type a]" _ ?P]) (simp_all add: bs)
  moreover have "fread (item_bytes i) 10 6 = ?P"
    by (rule fread_at[of _ "[item_type i, acc_size_type a] @ ?A" _ "[]"]) (simp_all add: bs)
  ultimately show ?thesis
    using assms by (intro trace_item.equality) (simp_all add: item_of_bytes_def bs item_ok_def Access of_le_word)
next
  case (Parallel p)
  let ?A = "le_bytes 8 (unat (par_id p))" and ?P = "le_bytes 4 (unat (par_team_size p))"
  have bs: "item_bytes i = item_type i # ?A @ ?P @ [0, 0, 0]" by (simp add: item_bytes_def Parallel)
  have "fread (item_bytes i) 1 8 = ?A"
    by (rule fread_at[of _ "[item_type i]" _ "?P @ [0, 0, 0]"]) (simp_all add: bs)
  moreover have "fread (item_bytes i) 9 4 = ?P"
    by (rule fread_at[of _ "[item_type i] @ ?A" _ "[0, 0, 0]"]) (simp_all add: bs)
  ultimately show ?thesis
    using assms by (intro trace_item.equality) (auto simp: item_of_bytes_def bs item_ok_def Parallel of_le_word)
next
  case (Mutex m)
  let ?A = "le_bytes 4 (unat (mr_kind m))" and ?P = "le_bytes 8 (unat (mr_wait_id m))"
  have bs: "item_bytes i = item_type i # ?A @ ?P @ [0, 0, 0]" by (simp add: item_bytes_def Mutex)
  have "fread (item_bytes i) 1 4 = ?A"
    by (rule fread_at[of _ "[item_type i]" _ "?P @ [0, 0, 0]"]) (simp_all add: bs)
  moreover have "fread (item_bytes i) 5 8 = ?P"
    by (rule fread_at[of _ "[item_type i] @ ?A" _ "[0, 0, 0]"]) (simp_all add: bs)
  ultimately show ?thesis
    using assms by (intro trace_item.equality) (auto simp: item_of_bytes_def bs item_ok_def Mutex of_le_word)
qed

definition items_bytes :: "trace_item list \<Rightarrow> u8 list" where
  "items_bytes is = concat (map item_bytes is)"

lemma length_items_bytes: "length (items_bytes is) = 16 * length is"
  by (induction "is") (simp_all add: items_bytes_def)

lemma items_roundtrip: "\<forall>i\<in>set is. item_ok i \<Longrightarrow> items_of (items_bytes is) = is"
proof -
  have "\<forall>i\<in>set is. item_ok i \<Longrightarrow> items_upto (length is) (items_bytes is) = is"
    by (induction "is") (simp_all add: items_bytes_def sizeof_item_def item_bytes_roundtrip)
  then show "\<forall>i\<in>set is. item_ok i \<Longrightarrow> items_of (items_bytes is) = is"
    by (simp add: items_of_def sizeof_item_def length_items_bytes)
qed

section \<open>What processing does\<close>

text \<open>The nodes that the accesses of a list of items become: each with the locks held at its place in the list.\<close>

fun item_nodes :: "trace_item list \<Rightarrow> size_t set \<Rightarrow> it_data list" where
  "item_nodes [] mx = []"
| "item_nodes (i # is) mx =
     (case item_data i of
        Access a \<Rightarrow> interval_tree_node (acc_address a) (acc_address a) (acc_size_type a) (ucast (acc_pc a)) mx # item_nodes is mx
      | Mutex m \<Rightarrow> item_nodes is (if item_type i = callback_code mutex_acquired then insert (mr_wait_id m) mx else mx - {mr_wait_id m})
      | Parallel p \<Rightarrow> item_nodes is mx)"

definition items_ok :: "trace_item list \<Rightarrow> bool" where
  "items_ok is \<longleftrightarrow> (\<forall>i\<in>set is. item_ok i \<and> (\<forall>a. item_data i = Access a \<longrightarrow> unat (acc_address a) < 2 ^ 62))"

text \<open>The next \<open>n\<close> addresses that \<open>new\<close> returns are fresh.\<close>

definition fresh_supply :: "(nat \<Rightarrow> ptr) \<Rightarrow> it_state \<Rightarrow> nat \<Rightarrow> nat \<Rightarrow> bool" where
  "fresh_supply newp s k n \<longleftrightarrow> inj_on newp {k..<k + n} \<and>
     (\<forall>j\<in>{k..<k + n}. newp j \<noteq> 0 \<and> aligned (newp j) \<and> mem s (newp j) = None)"

text \<open>
  Loading nodes: what was represented stays, nothing is invented, and every site (program counter, kind, size and
  lock set) is represented by some access.
\<close>

definition loaded :: "it_data list \<Rightarrow> it_state \<Rightarrow> ptree \<Rightarrow> it_state \<Rightarrow> ptree \<Rightarrow> bool" where
  "loaded nodes s t s' T \<longleftrightarrow>
     (let A = accesses (mores (mem s)) t; A' = accesses (mores (mem s')) T in
      A \<subseteq> A' \<and> A' \<subseteq> A \<union> (\<lambda>n. (site n, unat (it_start n))) ` set nodes \<and> fst ` A' = fst ` A \<union> site ` set nodes)"

lemma loaded_Nil: "loaded [] s t s t"
  by (simp add: loaded_def)

lemma loaded_append: "loaded ns s t s1 t1 \<Longrightarrow> loaded ms s1 t1 s2 t2 \<Longrightarrow> loaded (ns @ ms) s t s2 t2"
  unfolding loaded_def Let_def by (simp add: image_Un Un_assoc) blast

lemma lost_site:
  assumes "data_tree N s t" "lost (mores (mem s)) t node"
  shows "site node \<in> fst ` accesses (mores (mem s)) t"
proof -
  let ?m = "mores (mem s)"
  obtain a where a: "a \<in> set (inorder t)" "site node = site (dat ?m a)"
    using assms(2) by (auto simp: lost_def same_site_iff)
  have "0 < unat (count (dat ?m a))" using assms(1) a(1) by (auto simp: data_tree_def node_ok_def)
  then have "unat (it_start (dat ?m a)) \<in> addrs (dat ?m a)" by (force simp: addrs_def)
  then have "(site node, unat (it_start (dat ?m a))) \<in> accesses ?m t" using a by (auto simp: accesses_def)
  then show ?thesis by force
qed

lemma recorded_loaded:
  assumes "data_tree N s t" "recorded N node s t s' T"
  shows "loaded [node] s t s' T"
proof -
  let ?A = "accesses (mores (mem s)) t" and ?A' = "accesses (mores (mem s')) T"
  have 1: "?A \<subseteq> ?A'" "?A' \<subseteq> insert (site node, unat (it_start node)) ?A"
    and 2: "(site node, unat (it_start node)) \<in> ?A' \<or> lost (mores (mem s)) t node"
    using assms(2) by (auto simp: recorded_def Let_def)
  have "site node \<in> fst ` ?A'" using 2 1(1) lost_site[OF assms(1)] by force
  then have "fst ` ?A' = insert (site node) (fst ` ?A)" using 1 by force
  then show ?thesis using 1 by (simp add: loaded_def)
qed

lemma data_tree_grow: "data_tree N s t \<Longrightarrow> data_tree (N + n) s t"
  by (induction n) (auto simp: data_tree_def intro: node_ok_Suc)

lemma fresh_supply_step:
  assumes "fresh_supply newp s k (Suc n)" "dom (mem s') \<subseteq> insert (newp k) (dom (mem s))"
  shows "fresh_supply newp s' (k + 1) n"
proof -
  have "newp j \<noteq> newp k" if "j \<in> {k + 1..<k + 1 + n}" for j
    using assms(1) that by (auto simp: fresh_supply_def dest: inj_onD[of newp _ j k])
  moreover have "mem s (newp j) = None" if "j \<in> {k + 1..<k + 1 + n}" for j
    using assms(1) that by (simp add: fresh_supply_def)
  ultimately have "mem s' (newp j) = None" if "j \<in> {k + 1..<k + 1 + n}" for j
    using assms(2) that by blast
  moreover have "inj_on newp {k + 1..<k + 1 + n}"
    using assms(1) by (auto simp: fresh_supply_def intro: inj_on_subset)
  ultimately show ?thesis using assms(1) by (auto simp: fresh_supply_def)
qed

lemma fresh_supply_rest:
  assumes "fresh_supply newp s k (n + l)" "dom (mem s') \<subseteq> dom (mem s) \<union> newp ` {k..<k + n}"
  shows "fresh_supply newp s' (k + n) l"
proof -
  have "mem s' (newp j) = None" if j: "j \<in> {k + n..<k + n + l}" for j
  proof -
    have "newp j \<notin> newp ` {k..<k + n}"
      using assms(1) j by (auto simp: fresh_supply_def dest!: inj_onD[of newp _ j])
    then show ?thesis using assms j by (auto simp: fresh_supply_def)
  qed
  moreover have "inj_on newp {k + n..<k + n + l}" using assms(1) by (auto simp: fresh_supply_def intro: inj_on_subset)
  ultimately show ?thesis using assms(1) by (auto simp: fresh_supply_def)
qed

text \<open>Only nodes of \<open>A\<close> and \<open>B\<close> have changed, and the tree is made of them.\<close>

definition beside :: "ptr set \<Rightarrow> ptr set \<Rightarrow> it_state \<Rightarrow> it_state \<Rightarrow> ptree \<Rightarrow> bool" where
  "beside A B s s' T \<longleftrightarrow> set (inorder T) \<subseteq> A \<union> B \<and> (\<forall>x. x \<notin> A \<union> B \<longrightarrow> mem s' x = mem s x)"

lemma beside_trans: "beside A B s s1 t1 \<Longrightarrow> beside (set (inorder t1)) C s1 s' T \<Longrightarrow> beside A (B \<union> C) s s' T"
  by (auto simp: beside_def)

lemma process_items_ok:
  assumes "data_tree N s t" "items_ok is" "N + length (item_nodes is mx) \<le> 2 ^ 26"
    and "fresh_supply newp s k (length (item_nodes is mx))"
  shows "\<exists>s' T. process_items newp is mx (k, s) = Some (k + length (item_nodes is mx), s') \<and>
    data_tree (N + length (item_nodes is mx)) s' T \<and> loaded (item_nodes is mx) s t s' T \<and>
    dom (mem s') \<subseteq> dom (mem s) \<union> newp ` {k..<k + length (item_nodes is mx)} \<and>
    beside (set (inorder t)) (newp ` {k..<k + length (item_nodes is mx)}) s s' T"
  using assms
proof (induction "is" arbitrary: mx k s t N)
  case Nil
  then show ?case using loaded_Nil by (auto simp: beside_def)
next
  case (Cons i "is")
  have ok: "items_ok is" and i: "item_ok i" using Cons.prems(2) by (auto simp: items_ok_def)
  show ?case
  proof (cases "item_data i")
    case (Access a)
    let ?n = "interval_tree_node (acc_address a) (acc_address a) (acc_size_type a) (ucast (acc_pc a)) mx"
    let ?l = "length (item_nodes is mx)"
    have ad: "unat (acc_address a) < 2 ^ 62" using Cons.prems(2) Access by (auto simp: items_ok_def)
    have nodes: "item_nodes (i # is) mx = ?n # item_nodes is mx" by (simp add: Access)
    have sup: "fresh_supply newp s k (Suc ?l)" using Cons.prems(4) unfolding nodes by simp
    have N: "N < 2 ^ 26" using Cons.prems(3) unfolding nodes by simp
    have fr: "newp k \<noteq> 0" "aligned (newp k)" "mem s (newp k) = None" using sup by (simp_all add: fresh_supply_def)
    have n1: "it_start ?n = acc_address a" "it_last ?n = acc_address a" by (simp_all add: interval_tree_node_def)
    obtain s1 t1 where 1: "interval_tree_insert_data (newp k) ?n s = Some s1" "recorded N ?n s t s1 t1"
      "dom (mem s1) \<subseteq> insert (newp k) (dom (mem s))" "set (inorder t1) \<subseteq> insert (newp k) (set (inorder t))"
      using insert_data_ok[OF Cons.prems(1), of ?n "newp k"] N fr ad unfolding n1 by blast
    have dt1: "data_tree (Suc N) s1 t1" using 1(2) by (simp add: recorded_def Let_def)
    obtain s' T where 2: "process_items newp is mx (k + 1, s1) = Some (k + 1 + ?l, s')"
      "data_tree (Suc N + ?l) s' T" "loaded (item_nodes is mx) s1 t1 s' T"
      "dom (mem s') \<subseteq> dom (mem s1) \<union> newp ` {k + 1..<k + 1 + ?l}"
      "beside (set (inorder t1)) (newp ` {k + 1..<k + 1 + ?l}) s1 s' T"
      using Cons.IH[OF dt1 ok _ fresh_supply_step[OF sup 1(3)]] Cons.prems(3) unfolding nodes by auto
    have "process_items newp (i # is) mx (k, s) = Some (k + Suc ?l, s')"
      using i 1(1) 2(1) Access
      by (simp add: item_ok_def getType_def getAddress_def getAccessSizeType_def getPC_def)
    moreover have "dom (mem s') \<subseteq> dom (mem s) \<union> newp ` {k..<k + Suc ?l}"
      using 1(3) 2(4) by (force simp: image_iff)
    moreover have "beside (set (inorder t)) (newp ` {k..<k + Suc ?l}) s s' T"
    proof -
      have tr: "tree_rep s t" "rb_tree t" using Cons.prems(1) by (simp_all add: data_tree_def)
      have "beside (set (inorder t)) {newp k} s s1 t1"
        using insert_data_frame[OF tr fr 1(1)] 1(4) by (auto simp: beside_def)
      from beside_trans[OF this 2(5)] have "beside (set (inorder t)) ({newp k} \<union> newp ` {k + 1..<k + 1 + ?l}) s s' T" .
      moreover have "{newp k} \<union> newp ` {k + 1..<k + 1 + ?l} = newp ` {k..<k + Suc ?l}"
      proof -
        have "{k..<k + Suc ?l} = insert k {k + 1..<k + 1 + ?l}" by auto
        then show ?thesis by simp
      qed
      ultimately show ?thesis by simp
    qed
    ultimately show ?thesis
      using 2(2) loaded_append[OF recorded_loaded[OF Cons.prems(1) 1(2)] 2(3)] unfolding nodes by auto
  next
    case (Parallel p)
    then have "item_type i = 1 \<or> item_type i = 2" using i by (simp add: item_ok_def)
    then show ?thesis using Cons.IH[OF Cons.prems(1) ok] Cons.prems(3,4) Parallel
      by (auto simp: getType_def)
  next
    case (Mutex m)
    then have "item_type i = 6 \<or> item_type i = 7" using i by (simp add: item_ok_def)
    then show ?thesis using Cons.IH[OF Cons.prems(1) ok] Cons.prems(3,4) Mutex
      by (auto simp: getType_def getWaitId_def)
  qed
qed

section \<open>Reading blocks\<close>

text \<open>A block as \<open>dump_to_file\<close> writes it: its size, then the compressed bytes.\<close>

definition block_bytes :: "u8 list \<Rightarrow> u8 list" where
  "block_bytes c = le_bytes 8 (length c) @ c"

definition blocks_bytes :: "u8 list list \<Rightarrow> u8 list" where
  "blocks_bytes cs = concat (map block_bytes cs)"

text \<open>A block of the file that the loop can handle and the items in it.\<close>

definition block_ok :: "decompressor \<Rightarrow> u8 list \<Rightarrow> trace_item list \<Rightarrow> bool" where
  "block_ok dec c is \<longleftrightarrow> 8 \<le> length c \<and> length c + 8 \<le> OUT_LEN \<and> length is \<le> NUM_OF_ACCESSES \<and>
     dec c = Some (LZO_E_OK, items_bytes is)"

fun process_blocks :: "(nat \<Rightarrow> ptr) \<Rightarrow> trace_item list list \<Rightarrow> nat \<times> it_state \<Rightarrow> (nat \<times> it_state) option" where
  "process_blocks newp [] ks = Some ks"
| "process_blocks newp (b # bs) ks = Option.bind (process_items newp b {} ks) (process_blocks newp bs)"

lemma blocks_bytes_simps [simp]:
  "blocks_bytes [] = []"
  "blocks_bytes (c # cs) = le_bytes 8 (length c) @ c @ blocks_bytes cs"
  by (simp_all add: blocks_bytes_def block_bytes_def)

lemma of_nat_less_64: "a < 2 ^ 64 \<Longrightarrow> b < 2 ^ 64 \<Longrightarrow> ((of_nat a :: 64 word) < of_nat b) = (a < b)"
  by (simp add: word_less_nat_alt unat_of_nat)

lemma unat_of_nat_64: "a < 2 ^ 64 \<Longrightarrow> unat (of_nat a :: 64 word) = a"
  by (simp add: unat_of_nat)

lemma OUT_LEN_val: "OUT_LEN = 425075" and BLOCK_SIZE_val: "BLOCK_SIZE = 400000"
  by (simp_all add: OUT_LEN_def BLOCK_SIZE_def NUM_OF_ACCESSES_def sizeof_item_def)

text \<open>One turn of the loop on a block, with \<open>e\<close> more bytes read for the next header.\<close>

lemma load_blocks_step:
  assumes c: "block_ok dec c is" and ok: "\<forall>i\<in>set is. item_ok i" and e: "e = 0 \<and> neof = 0 \<or> e = 8 \<and> neof = 1"
    and fl: "fread file pos (length c + e) = c @ z" "length z = e"
    and tot: "tot < fsz" "fsz < 2 ^ 63"
  shows "load_blocks dec newp file (of_nat fsz) pos (of_nat tot) (of_nat (length c + e)) neof ks =
    Option.bind (process_items newp is {} ks) (\<lambda>ks.
      let next_size = of_nat (of_le (drop (length c + e - 8) (c @ z))) in
      if of_nat (tot + length c + e) + next_size + 8 < (of_nat fsz :: 64 word) then
        load_blocks dec newp file (of_nat fsz) (pos + (length c + e)) (of_nat (tot + length c + e)) (next_size + 8) 1 ks
      else load_blocks dec newp file (of_nat fsz) (pos + (length c + e)) (of_nat (tot + length c + e)) next_size 0 ks)"
proof -
  have len: "length c + e \<le> OUT_LEN" "8 \<le> length c" using c e by (auto simp: block_ok_def)
  have u: "unat (of_nat (length c + e) :: 64 word) = length c + e"
    using len by (intro unat_of_nat_64) (simp add: OUT_LEN_val)
  have lt: "(of_nat tot :: 64 word) < of_nat fsz" using tot by (subst of_nat_less_64) auto
  have n8: "\<not> (of_nat (length c + e) :: 64 word) < 8" using len u by (simp add: word_less_nat_alt)
  have cut: "unat (of_nat (length c + e) - 8 * ucast neof :: 64 word) = length c"
  proof -
    have "(of_nat (length c + e) :: 64 word) - 8 * ucast neof = of_nat (length c)" using e by auto
    moreover have "unat (of_nat (length c) :: 64 word) = length c"
      using len by (intro unat_of_nat_64) (simp add: OUT_LEN_val)
    ultimately show ?thesis by metis
  qed
  have dec: "dec c = Some (LZO_E_OK, items_bytes is)" "length (items_bytes is) \<le> BLOCK_SIZE"
    using c by (simp_all add: block_ok_def length_items_bytes BLOCK_SIZE_def sizeof_item_def)
  have nx: "fread (c @ z) (length c + e - 8) 8 = drop (length c + e - 8) (c @ z)"
    using len fl(2) by (simp add: fread_def)
  have "load_blocks dec newp file (of_nat fsz) pos (of_nat tot) (of_nat (length c + e)) neof ks =
    Option.bind (process_items newp (items_of (items_bytes is)) {} ks) (\<lambda>ks.
      let next_size = of_nat (of_le (fread (c @ z) (length c + e - 8) 8)) in
      if of_nat tot + of_nat (length c + e) + next_size + 8 < (of_nat fsz :: 64 word) then
        load_blocks dec newp file (of_nat fsz) (pos + (length c + e)) (of_nat tot + of_nat (length c + e)) (next_size + 8) 1 ks
      else load_blocks dec newp file (of_nat fsz) (pos + (length c + e)) (of_nat tot + of_nat (length c + e)) next_size 0 ks)"
    using len fl(2) dec n8 lt
    by (subst load_blocks.simps) (simp only: u cut fl(1) Let_def length_append if_True if_False not_le[symmetric] option.case
      append_eq_conv_conj take_append, simp)
  then show ?thesis by (simp only: nx items_roundtrip[OF ok] of_nat_add[symmetric] add.assoc)
qed

lemma load_blocks_done: "load_blocks dec newp file n pos n bsz neof ks = Some (Inr ks)"
  by (subst load_blocks.simps) simp

lemma process_blocks_append:
  "process_blocks newp (bs @ cs) ks = Option.bind (process_blocks newp bs ks) (process_blocks newp cs)"
proof (induction bs arbitrary: ks)
  case (Cons b bs)
  then show ?case by (cases "process_items newp b {} ks") simp_all
qed simp

text \<open>The loop takes the blocks of a segment one by one, up to one of \<open>n\<close> bytes with \<open>m\<close> more bytes after it. The blocks
  start after \<open>xs\<close>, and the header of the first one has been read.\<close>

definition more_after :: "nat \<Rightarrow> nat" where
  "more_after m = (if 8 < m then 8 else 0)"

lemma load_blocks_prefix:
  assumes "list_all2 (block_ok dec) cs bs" "\<forall>is\<in>set bs. \<forall>i\<in>set is. item_ok i" "process_blocks newp bs ks = Some ks'"
    and "file = xs @ blocks_bytes cs @ le_bytes 8 n @ rest" "fsz = tot + length (blocks_bytes cs) + n + m" "fsz < 2 ^ 63" "0 < n"
    and "first = hd (map length cs @ [n])" "e = more_after (fsz - tot - first)"
  shows "load_blocks dec newp file (of_nat fsz) (length xs + 8) (of_nat tot) (of_nat (first + e)) (if e = 0 then 0 else 1) ks =
    load_blocks dec newp file (of_nat fsz) (length xs + length (blocks_bytes cs) + 8) (of_nat (tot + length (blocks_bytes cs)))
      (of_nat (n + more_after m)) (if more_after m = 0 then 0 else 1) ks'"
  using assms
proof (induction cs arbitrary: bs ks xs tot first e)
  case Nil
  then show ?case by simp
next
  case (Cons c cs)
  obtain b bs' where bs: "bs = b # bs'" using Cons.prems(1) by (auto simp: list_all2_Cons1)
  have c: "block_ok dec c b" "\<forall>i\<in>set b. item_ok i" using Cons.prems(1,2) by (simp_all add: bs)
  obtain k1 where k1: "process_items newp b {} ks = Some k1" "process_blocks newp bs' k1 = Some ks'"
    using Cons.prems(3) by (cases "process_items newp b {} ks") (auto simp: bs)
  define next1 where "next1 = hd (map length cs @ [n])"
  let ?z = "le_bytes 8 next1" and ?tot = "tot + length c + 8" and ?xs = "xs @ le_bytes 8 (length c) @ c"
  define e' where "e' = more_after (fsz - ?tot - next1)"
  have sz: "fsz = ?tot + length (blocks_bytes cs) + n + m" using Cons.prems(5) by simp
  have e: "first = length c" "e = 8" using Cons.prems(7-9) sz by (simp_all add: more_after_def)
  obtain rest' where "blocks_bytes cs @ le_bytes 8 n @ rest = ?z @ rest'" by (cases cs) (simp_all add: next1_def)
  then have fl: "file = (xs @ le_bytes 8 (length c)) @ (c @ ?z) @ rest'" using Cons.prems(4) by simp
  have nx: "next1 \<le> length (blocks_bytes cs) + n" by (cases cs) (simp_all add: next1_def)
  then have nx': "next1 \<le> fsz - ?tot" using sz by simp
  have "load_blocks dec newp file (of_nat fsz) (length xs + 8) (of_nat tot) (of_nat (length c + 8)) 1 ks =
    Option.bind (process_items newp b {} ks) (\<lambda>ks.
      let next_size = of_nat (of_le (drop (length c + 8 - 8) (c @ ?z))) in
      if of_nat ?tot + next_size + 8 < (of_nat fsz :: 64 word) then
        load_blocks dec newp file (of_nat fsz) (length xs + 8 + (length c + 8)) (of_nat ?tot) (next_size + 8) 1 ks
      else load_blocks dec newp file (of_nat fsz) (length xs + 8 + (length c + 8)) (of_nat ?tot) next_size 0 ks)"
    by (rule load_blocks_step[OF c]) (use sz Cons.prems(6,7) in \<open>simp_all add: fread_at[OF fl]\<close>)
  moreover have "of_nat (of_le (drop (length c + 8 - 8) (c @ ?z))) = (of_nat next1 :: 64 word)"
    using nx' Cons.prems(6) by (simp add: of_le_bytes)
  moreover have "of_nat ?tot + of_nat next1 + 8 < (of_nat fsz :: 64 word) \<longleftrightarrow> e' \<noteq> 0"
  proof -
    have "(of_nat ?tot + of_nat next1 + 8 :: 64 word) = of_nat (?tot + next1 + 8)" by simp
    also have "\<dots> < of_nat fsz \<longleftrightarrow> ?tot + next1 + 8 < fsz"
      using Cons.prems(6) nx' sz by (intro of_nat_less_64) simp_all
    finally show ?thesis using nx' by (auto simp: e'_def more_after_def)
  qed
  moreover have "e' = 0 \<or> e' = 8" by (simp add: e'_def more_after_def)
  ultimately have "load_blocks dec newp file (of_nat fsz) (length xs + 8) (of_nat tot) (of_nat (length c + 8)) 1 ks =
    load_blocks dec newp file (of_nat fsz) (length ?xs + 8) (of_nat ?tot) (of_nat (next1 + e')) (if e' = 0 then 0 else 1) k1"
    by (auto simp: k1(1) Let_def add.assoc add.left_commute)
  also have "\<dots> = load_blocks dec newp file (of_nat fsz) (length ?xs + length (blocks_bytes cs) + 8)
      (of_nat (?tot + length (blocks_bytes cs))) (of_nat (n + more_after m)) (if more_after m = 0 then 0 else 1) ks'"
    by (rule Cons.IH[OF _ _ k1(2) _ sz Cons.prems(6,7) next1_def e'_def]) (use Cons.prems(1,2,4) in \<open>simp_all add: bs\<close>)
  finally show ?case by (simp add: e add.assoc add.left_commute)
qed

lemma load_file_prefix:
  fixes pre :: "u8 list"
  assumes "list_all2 (block_ok dec) cs bs" "\<forall>is\<in>set bs. \<forall>i\<in>set is. item_ok i" "process_blocks newp bs ks = Some ks'"
    and "file = pre @ blocks_bytes cs @ le_bytes 8 n @ rest" "0 < n" "length pre + length (blocks_bytes cs) + 8 + n + m < 2 ^ 63"
    and "m = 0 \<or> 8 < m"
  shows "load_and_convert_file dec newp (Some file) (of_nat (length pre)) (of_nat (length pre + length (blocks_bytes cs) + 8 + n + m)) ks =
    load_blocks dec newp file (of_nat (length (blocks_bytes cs) + 8 + n + m)) (length pre + length (blocks_bytes cs) + 8)
      (of_nat (length (blocks_bytes cs) + 8)) (of_nat (n + more_after m)) (if more_after m = 0 then 0 else 1) ks'"
proof -
  let ?fsz = "8 + length (blocks_bytes cs) + n + m"
  define first where "first = hd (map length cs @ [n])"
  define e where "e = more_after (?fsz - 8 - first)"
  have up: "unat (of_nat (length pre) :: 64 word) = length pre" using assms(6) by (intro unat_of_nat_64) simp
  obtain rest' where "blocks_bytes cs @ le_bytes 8 n @ rest = le_bytes 8 first @ rest'" by (cases cs) (simp_all add: first_def)
  then have h8: "fread file (length pre) 8 = le_bytes 8 first" by (intro fread_at[of _ pre _ rest']) (simp_all add: assms(4))
  have f: "first \<le> length (blocks_bytes cs) + n" by (cases cs) (simp_all add: first_def)
  have u: "of_nat (of_le (le_bytes 8 first)) = (of_nat first :: 64 word)" using f assms(6) by (simp add: of_le_bytes)
  have fsz: "of_nat (length pre + length (blocks_bytes cs) + 8 + n + m) - of_nat (length pre) = (of_nat ?fsz :: 64 word)" by simp
  have pos: "(0 :: 64 word) < of_nat ?fsz" using of_nat_less_64[of 0 ?fsz] assms(6) by simp
  have "(of_nat first + 8 :: 64 word) = of_nat (first + 8)" by simp
  also have "\<dots> < of_nat ?fsz \<longleftrightarrow> first + 8 < ?fsz" using f assms(6) by (intro of_nat_less_64) simp_all
  finally have "of_nat first + 8 < (of_nat ?fsz :: 64 word) \<longleftrightarrow> first + 8 < ?fsz" .
  then have lt: "of_nat first + 8 < (of_nat ?fsz :: 64 word) \<longleftrightarrow> first + 8 < ?fsz" .
  have "load_and_convert_file dec newp (Some file) (of_nat (length pre)) (of_nat (length pre + length (blocks_bytes cs) + 8 + n + m)) ks =
    (if first + 8 < ?fsz then load_blocks dec newp file (of_nat ?fsz) (length pre + 8) 8 (of_nat first + 8) 1 ks
     else load_blocks dec newp file (of_nat ?fsz) (length pre + 8) 8 (of_nat first) 0 ks)"
    unfolding load_and_convert_file_def Let_def fsz option.case up h8 length_le_bytes u lt
    using pos by (simp only: if_True refl simp_thms if_False)
  moreover have "e = 0 \<longleftrightarrow> \<not> first + 8 < ?fsz" "e = 0 \<or> e = 8"
    using assms(5,7) by (cases cs; auto simp: e_def first_def more_after_def)+
  ultimately have "load_and_convert_file dec newp (Some file) (of_nat (length pre)) (of_nat (length pre + length (blocks_bytes cs) + 8 + n + m)) ks =
    load_blocks dec newp file (of_nat ?fsz) (length pre + 8) (of_nat 8) (of_nat (first + e)) (if e = 0 then 0 else 1) ks"
    by (auto simp: add.commute)
  also have "\<dots> = load_blocks dec newp file (of_nat ?fsz) (length pre + length (blocks_bytes cs) + 8) (of_nat (8 + length (blocks_bytes cs)))
      (of_nat (n + more_after m)) (if more_after m = 0 then 0 else 1) ks'"
    by (rule load_blocks_prefix[OF assms(1-4) refl _ assms(5) first_def e_def]) (use assms(6) in simp)
  finally show ?thesis by (simp add: add.commute)
qed

text \<open>A segment of the file that holds blocks is loaded block after block.\<close>

lemma load_file_ok:
  assumes "list_all2 (block_ok dec) cs bs" "\<forall>is\<in>set bs. \<forall>i\<in>set is. item_ok i"
    and "datafile = Some (pre @ blocks_bytes cs @ post)" "length pre + length (blocks_bytes cs) < 2 ^ 63"
    and "process_blocks newp bs ks = Some ks'"
  shows "load_and_convert_file dec newp datafile (of_nat (length pre)) (of_nat (length pre + length (blocks_bytes cs))) ks =
    Some (Inr ks')"
proof (cases cs rule: rev_cases)
  case Nil
  then show ?thesis using assms by (simp add: load_and_convert_file_def)
next
  case (snoc cs1 c)
  obtain bs1 b where b: "bs = bs1 @ [b]" using assms(1) snoc by (auto simp: list_all2_append1 list_all2_Cons1)
  have l: "length cs1 = length bs1" using list_all2_lengthD[OF assms(1)] by (simp add: b snoc)
  then have g: "list_all2 (block_ok dec) cs1 bs1" "block_ok dec c b" using assms(1) by (simp_all add: b snoc list_all2_append)
  have i: "\<forall>is\<in>set bs1. \<forall>i\<in>set is. item_ok i" "\<forall>i\<in>set b. item_ok i" using assms(2) by (simp_all add: b)
  obtain k1 where k1: "process_blocks newp bs1 ks = Some k1" "process_items newp b {} k1 = Some ks'"
    using assms(5) process_blocks_append[of newp bs1 "[b]" ks] by (cases "process_blocks newp bs1 ks"; cases "process_items newp b {} (the (process_blocks newp bs1 ks))") (auto simp: b)
  let ?f = "pre @ blocks_bytes cs1 @ le_bytes 8 (length c) @ c @ post"
  have c8: "8 \<le> length c" "c \<noteq> []" using g(2) by (auto simp: block_ok_def)
  have e: "blocks_bytes cs = blocks_bytes cs1 @ le_bytes 8 (length c) @ c" by (simp add: snoc blocks_bytes_def block_bytes_def)
  have sz: "length pre + length (blocks_bytes cs1) + 8 + length c + 0 < 2 ^ 63" using assms(4) unfolding e by simp
  let ?fsz = "length (blocks_bytes cs1) + 8 + length c" and ?pos = "length pre + length (blocks_bytes cs1) + 8"
  have "load_and_convert_file dec newp datafile (of_nat (length pre)) (of_nat (length pre + length (blocks_bytes cs))) ks =
    load_blocks dec newp ?f (of_nat ?fsz) ?pos (of_nat (length (blocks_bytes cs1) + 8)) (of_nat (length c + 0)) 0 k1"
    using load_file_prefix[OF g(1) i(1) k1(1) refl _ sz, of "c @ post"] c8(2) by (simp add: assms(3) e more_after_def add.assoc)
  also have "\<dots> = Option.bind (process_items newp b {} k1) (\<lambda>ks.
      let next_size = of_nat (of_le (drop (length c + 0 - 8) (c @ []))) in
      if of_nat (length (blocks_bytes cs1) + 8 + length c + 0) + next_size + 8 < (of_nat ?fsz :: 64 word) then
        load_blocks dec newp ?f (of_nat ?fsz) (?pos + (length c + 0)) (of_nat (length (blocks_bytes cs1) + 8 + length c + 0)) (next_size + 8) 1 ks
      else load_blocks dec newp ?f (of_nat ?fsz) (?pos + (length c + 0)) (of_nat (length (blocks_bytes cs1) + 8 + length c + 0)) next_size 0 ks)"
    by (rule load_blocks_step[OF g(2) i(2)]) (use c8 sz in \<open>simp_all add: fread_at[of _ "pre @ blocks_bytes cs1 @ le_bytes 8 (length c)" c post]\<close>)
  also have "\<dots> = Some (Inr ks')"
    unfolding k1(2) Option.bind.bind_lunit Let_def add_0_right load_blocks_done if_cancel ..
  finally show ?thesis .
qed

lemma process_blocks_ok:
  assumes "data_tree N s t" "\<forall>is\<in>set bs. items_ok is" "N + length (concat (map (\<lambda>b. item_nodes b {}) bs)) \<le> 2 ^ 26"
    and "fresh_supply newp s k (length (concat (map (\<lambda>b. item_nodes b {}) bs)))"
  shows "\<exists>s' T. process_blocks newp bs (k, s) = Some (k + length (concat (map (\<lambda>b. item_nodes b {}) bs)), s') \<and>
    data_tree (N + length (concat (map (\<lambda>b. item_nodes b {}) bs))) s' T \<and>
    loaded (concat (map (\<lambda>b. item_nodes b {}) bs)) s t s' T \<and>
    beside (set (inorder t)) (newp ` {k..<k + length (concat (map (\<lambda>b. item_nodes b {}) bs))}) s s' T"
  using assms
proof (induction bs arbitrary: N s t k)
  case Nil
  then show ?case using loaded_Nil by (auto simp: beside_def)
next
  case (Cons b bs)
  let ?n = "item_nodes b {}" and ?ns = "concat (map (\<lambda>b. item_nodes b {}) bs)"
  have "fresh_supply newp s k (length ?n)" using Cons.prems(4) by (auto simp: fresh_supply_def intro: inj_on_subset)
  then obtain s1 t1 where 1: "process_items newp b {} (k, s) = Some (k + length ?n, s1)"
    "data_tree (N + length ?n) s1 t1" "loaded ?n s t s1 t1" "dom (mem s1) \<subseteq> dom (mem s) \<union> newp ` {k..<k + length ?n}"
    "beside (set (inorder t)) (newp ` {k..<k + length ?n}) s s1 t1"
    using process_items_ok[OF Cons.prems(1), of b "{}" newp k] Cons.prems(2,3) by auto
  have "fresh_supply newp s1 (k + length ?n) (length ?ns)" by (rule fresh_supply_rest[OF Cons.prems(4)[simplified] 1(4)])
  then obtain s' T where 2: "process_blocks newp bs (k + length ?n, s1) = Some (k + length ?n + length ?ns, s')"
    "data_tree (N + length ?n + length ?ns) s' T" "loaded ?ns s1 t1 s' T"
    "beside (set (inorder t1)) (newp ` {k + length ?n..<k + length ?n + length ?ns}) s1 s' T"
    using Cons.IH[OF 1(2), of "k + length ?n"] Cons.prems(2,3) by auto
  have "newp ` {k..<k + length ?n} \<union> newp ` {k + length ?n..<k + length ?n + length ?ns} = newp ` {k..<k + length (?n @ ?ns)}"
    unfolding image_Un[symmetric] by (intro arg_cong[where f = "(`) newp"] ivl_disj_un_two(3)[simplified]) auto
  then have "beside (set (inorder t)) (newp ` {k..<k + length (?n @ ?ns)}) s s' T" using beside_trans[OF 1(5) 2(4)] by simp
  then show ?case using 1(1) 2(1,2) loaded_append[OF 1(3) 2(3)] by (auto simp: add.assoc)
qed

lemma load_segment:
  assumes "list_all2 (block_ok dec) cs bs" "\<forall>is\<in>set bs. items_ok is"
    and "nodes = concat (map (\<lambda>b. item_nodes b {}) bs)" "length nodes \<le> 2 ^ 26" "fresh_supply newp s k (length nodes)"
    and "length pre + length (blocks_bytes cs) < 2 ^ 63" "rb_root s = 0"
  shows "\<exists>s' T. load_and_convert_file dec newp (Some (pre @ blocks_bytes cs @ post)) (of_nat (length pre))
        (of_nat (length pre + length (blocks_bytes cs))) (k, s) = Some (Inr (k + length nodes, s')) \<and>
      data_tree (length nodes) s' T \<and>
      accesses (mores (mem s')) T \<subseteq> (\<lambda>n. (site n, unat (it_start n))) ` set nodes \<and>
      fst ` accesses (mores (mem s')) T = site ` set nodes"
proof -
  have dt: "data_tree 0 s Leaf" using assms(7) by (simp add: data_tree_def tree_rep_def rb_tree_def)
  obtain s' T where 1: "process_blocks newp bs (k, s) = Some (k + length nodes, s')" "data_tree (length nodes) s' T"
    "loaded nodes s Leaf s' T"
    using process_blocks_ok[OF dt assms(2), of newp k] assms(3-5) by auto
  have "\<forall>is\<in>set bs. \<forall>i\<in>set is. item_ok i" using assms(2) by (simp add: items_ok_def)
  note run = load_file_ok[OF assms(1) this refl assms(6) 1(1), of post]
  have "accesses (mores (mem s)) Leaf = {}" by (simp add: accesses_def)
  then show ?thesis using run 1(2,3) unfolding loaded_def Let_def by auto
qed

section \<open>Properties\<close>

text \<open>A trace item written with its memory layout is read back as it was.\<close>
theorem trace_item_roundtrip:
  assumes "item_ok i"
  shows "length (item_bytes i) = sizeof_item \<and> item_of_bytes (item_bytes i) = i"
  using item_bytes_roundtrip[OF assms] by (simp add: sizeof_item_def)

lemma trace_item_roundtrip_witness:
  "item_of_bytes (item_bytes (item_mutex mutex_acquired \<lparr>mr_kind = 3, mr_wait_id = 77\<rparr>)) =
     item_mutex mutex_acquired \<lparr>mr_kind = 3, mr_wait_id = 77\<rparr>"
  using trace_item_roundtrip[of "item_mutex mutex_acquired \<lparr>mr_kind = 3, mr_wait_id = 77\<rparr>"]
  by (simp add: item_ok_def item_mutex_def)

text \<open>C10: loading a segment that holds dumped blocks succeeds, whatever surrounds it in the file: the tree is
  red-black with no field wrapped around, every access it stands for was made by an access of some block, and
  every program site that made an access, with the locks held since the start of its block, is in it.\<close>
theorem load_correct:
  assumes "list_all2 (block_ok dec) cs bs" "\<forall>is\<in>set bs. items_ok is"
    and "nodes = concat (map (\<lambda>b. item_nodes b {}) bs)" "length nodes \<le> 2 ^ 26" "fresh_supply newp s k (length nodes)"
    and "length pre + length (blocks_bytes cs) < 2 ^ 63" "rb_root s = 0"
  shows "\<exists>s' T. load_and_convert_file dec newp (Some (pre @ blocks_bytes cs @ post)) (of_nat (length pre))
        (of_nat (length pre + length (blocks_bytes cs))) (k, s) = Some (Inr (k + length nodes, s')) \<and>
      data_tree (length nodes) s' T \<and>
      accesses (mores (mem s')) T \<subseteq> (\<lambda>n. (site n, unat (it_start n))) ` set nodes \<and>
      fst ` accesses (mores (mem s')) T = site ` set nodes"
  by (rule load_segment[OF assms])

text \<open>C28: a missing data file, a block that the file does not hold entirely and a block that does not decompress end
  the load with an error, after any number of good blocks and with any number of bytes that should follow: none is
  skipped or taken for the end of the trace. When more blocks should follow, the size of the next one is read with the
  block, so a file that ends there is an error too; only a segment whose first size is cut off is not checked.\<close>
theorem load_errors:
  assumes "list_all2 (block_ok dec) cs bs" "\<forall>is\<in>set bs. items_ok is"
    and "nodes = concat (map (\<lambda>b. item_nodes b {}) bs)" "length nodes \<le> 2 ^ 26" "fresh_supply newp s k (length nodes)" "rb_root s = 0"
    and "0 < n" "m = 0 \<or> 8 < m" "want = n + (if m = 0 then 0 else 8)" "want \<le> OUT_LEN"
    and "seg = length pre + length (blocks_bytes cs) + 8 + n + m" "seg < 2 ^ 63"
    and "img = pre @ blocks_bytes cs @ le_bytes 8 n @ c"
  shows "load_and_convert_file dec newp None (of_nat (length pre)) (of_nat seg) (k, s) = Some (Inl OpenError) \<and>
    (length c < want \<longrightarrow>
       load_and_convert_file dec newp (Some img) (of_nat (length pre)) (of_nat seg) (k, s) = Some (Inl ReadError)) \<and>
    (want \<le> length c \<and> dec (take n c) = Some (r, out) \<and> r \<noteq> LZO_E_OK \<and> length out \<le> BLOCK_SIZE \<longrightarrow>
       load_and_convert_file dec newp (Some img) (of_nat (length pre)) (of_nat seg) (k, s) = Some (Inl DecompressError))"
proof -
  let ?B = "length (blocks_bytes cs)"
  have dt: "data_tree 0 s Leaf" using assms(6) by (simp add: data_tree_def tree_rep_def rb_tree_def)
  obtain ks where ks: "process_blocks newp bs (k, s) = Some ks"
    using process_blocks_ok[OF dt assms(2), of newp k] assms(3-5) by auto
  have ok: "\<forall>is\<in>set bs. \<forall>i\<in>set is. item_ok i" using assms(2) by (simp add: items_ok_def)
  define e where "e = more_after m"
  have e: "want = n + e" "e = 0 \<or> e = 8" using assms(8,9) by (auto simp: e_def more_after_def)
  let ?L = "load_blocks dec newp img (of_nat (?B + 8 + n + m)) (length pre + ?B + 8) (of_nat (?B + 8)) (of_nat want) (if e = 0 then 0 else 1) ks"
  have run: "load_and_convert_file dec newp (Some img) (of_nat (length pre)) (of_nat seg) (k, s) = ?L"
    using load_file_prefix[OF assms(1) ok ks assms(13,7) _ assms(8)] assms(11,12) by (simp add: e(1) e_def[symmetric])
  have lt: "(of_nat (?B + 8) :: 64 word) < of_nat (?B + 8 + n + m)" using assms(7,11,12) by (subst of_nat_less_64) simp_all
  have u: "unat (of_nat want :: 64 word) = want" "unat (of_nat n :: 64 word) = n"
    using assms(10) e(1) by (intro unat_of_nat_64; simp add: OUT_LEN_val)+
  have cut: "(of_nat want :: 64 word) - 8 * ucast (if e = 0 then 0 else 1 :: uint) = of_nat n" using e by auto
  have buf: "fread img (length pre + ?B + 8) want = take want c" by (simp add: fread_def assms(13))
  have "load_and_convert_file dec newp None (of_nat (length pre)) (of_nat seg) (k, s) = Some (Inl OpenError)"
  proof -
    have "of_nat seg - of_nat (length pre) = (of_nat (?B + 8 + n + m) :: 64 word)" by (simp add: assms(11))
    moreover have "(0 :: 64 word) < of_nat (?B + 8 + n + m)" using lt by (meson le_less_trans word_zero_le)
    ultimately show ?thesis by (simp only: load_and_convert_file_def Let_def if_True option.case)
  qed
  moreover have "?L = Some (Inl ReadError)" if "length c < want"
    using that assms(10) by (subst load_blocks.simps) (simp only: lt if_True u Let_def buf, simp)
  moreover have "?L = Some (Inl DecompressError)" if "want \<le> length c" "dec (take n c) = Some (r, out)" "r \<noteq> LZO_E_OK" "length out \<le> BLOCK_SIZE"
  proof -
    have "take n (take want c) = take n c" using e(1) by simp
    then show ?thesis
      using that assms(10) by (subst load_blocks.simps) (simp only: lt if_True u Let_def buf cut, simp)
  qed
  ultimately show ?thesis unfolding run by blast
qed

subsection \<open>Two blocks of one thread\<close>

text \<open>The first block acquires lock 5, makes an access and keeps the lock; the second makes another access.\<close>

definition lock_block :: "trace_item list" where
  "lock_block = [item_mutex mutex_acquired \<lparr>mr_kind = 1, mr_wait_id = 5\<rparr>,
     item_access data_access \<lparr>acc_size_type = 0x31, acc_address = 1000, acc_pc = 7\<rparr>]"

definition access_block :: "trace_item list" where
  "access_block = [item_access data_access \<lparr>acc_size_type = 0x31, acc_address = 2000, acc_pc = 8\<rparr>]"

definition empty_state :: it_state where
  "empty_state = \<lparr>rb_root = 0, mem = Map.empty\<rparr>"

text \<open>A decompressor for bytes that were not compressed.\<close>

definition stored :: decompressor where
  "stored x = Some (LZO_E_OK, x)"

definition sample_new :: "nat \<Rightarrow> ptr" where
  "sample_new i = 8 * (of_nat i + 1)"

lemmas block_defs = lock_block_def access_block_def item_mutex_def item_access_def

lemma sample_nodes:
  "concat (map (\<lambda>b. item_nodes b {}) [lock_block, access_block]) =
     [interval_tree_node 1000 1000 0x31 7 {5}, interval_tree_node 2000 2000 0x31 8 {}]"
  by (simp add: block_defs)

lemma sample_supply: "fresh_supply sample_new empty_state 0 2"
proof -
  have "{0..<0 + 2 :: nat} = {0, 1}" by auto
  then show ?thesis by (simp add: fresh_supply_def sample_new_def aligned_def empty_state_def)
qed

lemma load_correct_witness:
  "\<exists>s' T. load_and_convert_file stored sample_new
      (Some ([1, 2, 3] @ blocks_bytes [items_bytes lock_block, items_bytes access_block] @ [4])) 3 67 (0, empty_state) =
      Some (Inr (2, s')) \<and>
    data_tree 2 s' T \<and> fst ` accesses (mores (mem s')) T = {(0x31, 7, {5}), (0x31, 8, {})}"
proof -
  let ?cs = "[items_bytes lock_block, items_bytes access_block]" and ?pre = "[1, 2, 3] :: u8 list"
  let ?n1 = "interval_tree_node 1000 1000 0x31 7 {5}" and ?n2 = "interval_tree_node 2000 2000 0x31 8 {}"
  have 1: "list_all2 (block_ok stored) ?cs [lock_block, access_block]"
    by (simp add: block_ok_def stored_def length_items_bytes OUT_LEN_val NUM_OF_ACCESSES_def block_defs)
  have 2: "\<forall>is\<in>set [lock_block, access_block]. items_ok is" by (simp add: items_ok_def item_ok_def block_defs)
  have 3: "length (blocks_bytes ?cs) = 64" by (simp add: length_items_bytes block_defs)
  have 4: "length [?n1, ?n2] = 2" by simp
  have 5: "length [?n1, ?n2] \<le> 2 ^ 26" "fresh_supply sample_new empty_state 0 (length [?n1, ?n2])"
    unfolding 4 using sample_supply by simp_all
  have 6: "length ?pre + length (blocks_bytes ?cs) < 2 ^ 63" "rb_root empty_state = 0"
    unfolding 3 by (simp_all add: empty_state_def)
  note load_correct[OF 1 2 sample_nodes[symmetric] 5 6, of "[4]", unfolded 3 4]
  moreover have "of_nat (length ?pre) = (3 :: 64 word)" "of_nat (length ?pre + 64) = (67 :: 64 word)" by simp_all
  moreover have "site ` set [?n1, ?n2] = {(0x31, 7, {5}), (0x31, 8, {})}" by (simp add: site_def interval_tree_node_def)
  ultimately show ?thesis by (simp only: add_0) blast
qed

text \<open>A good block, then one of three bytes that does not decompress, or of which two bytes are missing.\<close>

lemma load_errors_witness:
  "load_and_convert_file (\<lambda>x. if length x = 3 then Some (- 1, []) else Some (0, x)) sample_new
      (Some ([] @ blocks_bytes [items_bytes lock_block] @ le_bytes 8 3 @ [7, 8, 9])) 0 51 (0, empty_state) = Some (Inl DecompressError) \<and>
   load_and_convert_file (\<lambda>x. if length x = 3 then Some (- 1, []) else Some (0, x)) sample_new
      (Some ([] @ blocks_bytes [items_bytes lock_block] @ le_bytes 8 3 @ [7])) 0 51 (0, empty_state) = Some (Inl ReadError)"
proof -
  let ?dec = "\<lambda>x :: u8 list. if length x = 3 then Some (- 1, []) else Some (0, x)" and ?cs = "[items_bytes lock_block]"
  have 1: "list_all2 (block_ok ?dec) ?cs [lock_block]" "\<forall>is\<in>set [lock_block]. items_ok is"
    by (simp_all add: block_ok_def items_ok_def item_ok_def length_items_bytes OUT_LEN_val NUM_OF_ACCESSES_def block_defs)
  have l: "length (concat (map (\<lambda>b. item_nodes b {}) [lock_block])) = 1" by (simp add: block_defs)
  have s: "length (concat (map (\<lambda>b. item_nodes b {}) [lock_block])) \<le> 2 ^ 26"
    "fresh_supply sample_new empty_state 0 (length (concat (map (\<lambda>b. item_nodes b {}) [lock_block])))" "rb_root empty_state = 0"
    unfolding l using sample_supply by (auto simp: fresh_supply_def empty_state_def intro: inj_on_subset)
  have n: "(0 :: nat) < 3" "0 = (0 :: nat) \<or> 8 < (0 :: nat)" "3 = 3 + (if 0 = (0 :: nat) then 0 else 8 :: nat)" "3 \<le> OUT_LEN"
    by (simp_all add: OUT_LEN_val)
  have t: "51 = length ([] :: u8 list) + length (blocks_bytes ?cs) + 8 + 3 + 0" by (simp add: length_items_bytes block_defs)
  note E = load_errors[OF 1 refl s n t _ refl]
  show ?thesis using E[where c = "[7, 8, 9]" and r = "- 1" and out = "[]"] E[where c = "[7]"] by simp
qed

text \<open>The lock set is forgotten at the end of a block: the same three events give the second access lock 5 when
  they are in one block, and none when they are in two, so that it can race with accesses that hold the lock.\<close>
theorem load_forgets_locks:
  "(\<exists>s' T. process_blocks sample_new [lock_block, access_block] (0, empty_state) = Some (2, s') \<and> tree_rep s' T \<and>
      fst ` accesses (mores (mem s')) T = {(0x31, 7, {5}), (0x31, 8, {})}) \<and>
   (\<exists>s' T. process_blocks sample_new [lock_block @ access_block] (0, empty_state) = Some (2, s') \<and> tree_rep s' T \<and>
      fst ` accesses (mores (mem s')) T = {(0x31, 7, {5}), (0x31, 8, {5})})"
proof -
  have dt: "data_tree 0 empty_state Leaf" by (simp add: data_tree_def tree_rep_def rb_tree_def empty_state_def)
  have none: "accesses (mores (mem empty_state)) Leaf = {}" by (simp add: accesses_def)
  have ok: "\<forall>is\<in>set [lock_block, access_block]. items_ok is" "\<forall>is\<in>set [lock_block @ access_block]. items_ok is"
    by (simp_all add: items_ok_def item_ok_def block_defs)
  have nodes: "concat (map (\<lambda>b. item_nodes b {}) [lock_block @ access_block]) =
     [interval_tree_node 1000 1000 0x31 7 {5}, interval_tree_node 2000 2000 0x31 8 {5}]"
    by (simp add: block_defs)
  have two: "0 + length [x, y] = 2" "length [x, y] = 2" "(0 :: nat) + 2 \<le> 2 ^ 26" for x y :: it_data by simp_all
  note run = process_blocks_ok[OF dt ok(1), of sample_new 0, unfolded sample_nodes two, OF two(3) sample_supply]
    process_blocks_ok[OF dt ok(2), of sample_new 0, unfolded nodes two, OF two(3) sample_supply]
  from run show ?thesis
    by (auto simp: loaded_def none data_tree_def site_def interval_tree_node_def Let_def)
qed

end
