(* ===== verification/Rtl.thy ===== *)
theory Rtl
  imports Load HashSet Metafile
begin

text \<open>
  The runtime (\<open>rtl/sword_rtl.h\<close>, \<open>sword_rtl.cc\<close>, \<open>sword_interface.inl\<close>): what a thread keeps, the logging of
  accesses, the dump of the buffer to the data file, and the OMPT callbacks, in the LZO build. The compressor
  is the parameter \<open>lzo\<close>, \<open>boost::hash_combine\<close> is \<open>hc\<close>. Results are \<open>None\<close> for undefined behaviour.
\<close>

section \<open>State\<close>

text \<open>\<open>ParallelData\<close> objects live in a heap; \<open>ompt_data_t\<close> slots hold their addresses.\<close>

record ParallelData =
  freed :: uint
  parallel_id :: "64 word"
  parent_parallel_id :: "64 word"
  level :: uint
  par_offset :: uint
  par_span :: uint

definition ParallelData_default :: ParallelData where
  "ParallelData_default = \<lparr>freed = 0, parallel_id = 0, parent_parallel_id = 0, level = 0, par_offset = 0, par_span = 0\<rparr>"

definition mk_ParallelData :: "64 word \<Rightarrow> 64 word \<Rightarrow> uint \<Rightarrow> uint \<Rightarrow> uint \<Rightarrow> ParallelData" where
  "mk_ParallelData pid ppid l off sp =
     \<lparr>freed = 0, parallel_id = pid, parent_parallel_id = ppid, level = l, par_offset = off, par_span = sp\<rparr>"

definition copy_ParallelData :: "ParallelData \<Rightarrow> ParallelData" where
  "copy_ParallelData pd =
     \<lparr>freed = freed pd, parallel_id = parallel_id pd, parent_parallel_id = parent_parallel_id pd, level = level pd,
      par_offset = par_offset pd, par_span = par_span pd\<rparr>"

definition setData_copy :: "ParallelData \<Rightarrow> ParallelData \<Rightarrow> ParallelData" where
  "setData_copy pd this =
     this\<lparr>freed := freed pd, parallel_id := parallel_id pd, parent_parallel_id := parent_parallel_id pd,
       level := level pd, par_offset := par_offset pd, par_span := par_span pd\<rparr>"

definition setData_fields :: "64 word \<Rightarrow> 64 word \<Rightarrow> uint \<Rightarrow> uint \<Rightarrow> uint \<Rightarrow> ParallelData \<Rightarrow> ParallelData" where
  "setData_fields pid ppid l off sp this =
     this\<lparr>freed := 0, parallel_id := pid, parent_parallel_id := ppid, level := l, par_offset := off, par_span := sp\<rparr>"

type_synonym pd_heap = "ptr \<Rightarrow> ParallelData option"

text \<open>Which of the two buffers \<open>__sword_accesses__\<close> points to, and a dump that \<open>std::async\<close> has not run yet.\<close>

datatype buffer = Buffer1 | Buffer2

record job =
  jb_buffer :: buffer
  jb_nmemb :: nat

text \<open>The thread-local variables; an \<open>int\<close> is a 32-bit word, read with \<open>sint\<close> where it is printed. Closed files are
  \<open>None\<close>.\<close>

record rtl =
  t_tid :: uint
  t_status :: uint
  t_bid :: "64 word"
  t_idx :: nat
  t_offset :: uint
  t_span :: uint
  t_begin :: "64 word"
  t_end :: "64 word"
  t_accesses1 :: "trace_item list"
  t_accesses2 :: "trace_item list"
  t_accesses :: buffer
  t_set :: hset
  t_datafile :: "u8 list option"
  t_metafile :: "string option"
  t_fut :: "job option"

type_synonym compressor = "u8 list \<Rightarrow> u8 list"

section \<open>Dumping the buffer\<close>

definition buffer_of :: "buffer \<Rightarrow> rtl \<Rightarrow> trace_item list" where
  "buffer_of b s = (case b of Buffer1 \<Rightarrow> t_accesses1 s | Buffer2 \<Rightarrow> t_accesses2 s)"

text \<open>The size is written in front of the compressed bytes, in a buffer of \<open>OUT_LEN\<close> bytes.\<close>

definition dump_to_file :: "compressor \<Rightarrow> trace_item list \<Rightarrow> nat \<Rightarrow> rtl \<Rightarrow> rtl option" where
  "dump_to_file lzo accs nmemb s =
     (case t_datafile s of
        None \<Rightarrow> None
      | Some file \<Rightarrow>
          if length accs < nmemb then None
          else
            let out = lzo (concat (map item_bytes (take nmemb accs))); tsize = length out + 8 in
            if tsize > OUT_LEN then None
            else Some (s\<lparr>t_datafile := Some (file @ le_bytes 8 (length out) @ out), t_end := t_end s + of_nat tsize\<rparr>))"

text \<open>A pending dump runs at any time until \<open>wait\<close>, and reads the buffer then.\<close>

definition run_job :: "compressor \<Rightarrow> rtl \<Rightarrow> rtl option" where
  "run_job lzo s =
     (case t_fut s of
        None \<Rightarrow> Some s
      | Some j \<Rightarrow> dump_to_file lzo (buffer_of (jb_buffer j) s) (jb_nmemb j) (s\<lparr>t_fut := None\<rparr>))"

definition fut_wait :: "compressor \<Rightarrow> rtl \<Rightarrow> rtl option" where
  "fut_wait lzo s = run_job lzo s"

text \<open>The macro compares where it should assign, so it has no effect.\<close>

definition SWAP_BUFFER :: "rtl \<Rightarrow> rtl" where
  "SWAP_BUFFER s =
     (if t_accesses s = Buffer1 then (let unused = (t_accesses s = Buffer2) in s)
      else (let unused = (t_accesses s = Buffer1) in s))"

definition start_dump :: "nat \<Rightarrow> rtl \<Rightarrow> rtl" where
  "start_dump n s =
     SWAP_BUFFER (s\<lparr>t_fut := Some \<lparr>jb_buffer = t_accesses s, jb_nmemb = n\<rparr>, t_idx := 0, t_set := clear (t_set s)\<rparr>)"

definition DUMP_TO_FILE :: "compressor \<Rightarrow> rtl \<Rightarrow> rtl option" where
  "DUMP_TO_FILE lzo s =
     (let s = s\<lparr>t_idx := t_idx s + 1\<rparr> in
      if t_idx s = NUM_OF_ACCESSES then do { s \<leftarrow> fut_wait lzo s; Some (start_dump NUM_OF_ACCESSES s) }
      else Some s)"

definition DUMPNOCHECK_TO_FILE :: "compressor \<Rightarrow> rtl \<Rightarrow> rtl option" where
  "DUMPNOCHECK_TO_FILE lzo s =
     (if t_idx s > 0 then do { s \<leftarrow> fut_wait lzo s; Some (start_dump (t_idx s) s) } else Some s)"

section \<open>Logging\<close>

text \<open>\<open>(*__sword_accesses__)[__sword_idx__] = item\<close>\<close>

definition store_item :: "trace_item \<Rightarrow> rtl \<Rightarrow> rtl option" where
  "store_item item s =
     (case t_accesses s of
        Buffer1 \<Rightarrow> if t_idx s < length (t_accesses1 s) then Some (s\<lparr>t_accesses1 := (t_accesses1 s)[t_idx s := item]\<rparr>) else None
      | Buffer2 \<Rightarrow> if t_idx s < length (t_accesses2 s) then Some (s\<lparr>t_accesses2 := (t_accesses2 s)[t_idx s := item]\<rparr>) else None)"

definition SAVE_ACCESS ::
    "compressor \<Rightarrow> hash_combine \<Rightarrow> AccessSize \<Rightarrow> AccessType \<Rightarrow> size_t \<Rightarrow> size_t \<Rightarrow> rtl \<Rightarrow> rtl option" where
  "SAVE_ACCESS lzo hc asize atype addr callerpc s =
     (let item = item_access data_access (mk_access asize atype addr callerpc) in do {
        (new, set') \<leftarrow> check_insert (hash_item hc item) (t_set s);
        let s = s\<lparr>t_set := set'\<rparr>;
        if new then do { s \<leftarrow> store_item item s; DUMP_TO_FILE lzo s }
        else Some s
      })"

text \<open>The functions that the instrumented program calls, by what they log.\<close>

datatype entry =
    sword_read1 | sword_read2 | sword_read4 | sword_read8 | sword_read16
  | sword_write1 | sword_write2 | sword_write4 | sword_write8 | sword_write16
  | atomic8_load | atomic16_load | atomic32_load | atomic64_load | atomic128_load
  | atomic8_store | atomic16_store | atomic32_store | atomic64_store | atomic128_store
  | atomic8_fetch_add | atomic16_fetch_add | atomic32_fetch_add | atomic64_fetch_add | atomic128_fetch_add
  | atomic8_fetch_sub | atomic16_fetch_sub | atomic32_fetch_sub | atomic64_fetch_sub | atomic128_fetch_sub
  | atomic8_compare_exchange | atomic16_compare_exchange | atomic32_compare_exchange
  | atomic64_compare_exchange | atomic128_compare_exchange

primrec entry_access :: "entry \<Rightarrow> AccessSize \<times> AccessType" where
  "entry_access sword_read1 = (size1, unsafe_read)"
| "entry_access sword_read2 = (size2, unsafe_read)"
| "entry_access sword_read4 = (size4, unsafe_read)"
| "entry_access sword_read8 = (size8, unsafe_read)"
| "entry_access sword_read16 = (size16, unsafe_read)"
| "entry_access sword_write1 = (size1, unsafe_write)"
| "entry_access sword_write2 = (size2, unsafe_write)"
| "entry_access sword_write4 = (size4, unsafe_write)"
| "entry_access sword_write8 = (size8, unsafe_write)"
| "entry_access sword_write16 = (size16, unsafe_write)"
| "entry_access atomic8_load = (size1, atomic_read)"
| "entry_access atomic16_load = (size2, atomic_read)"
| "entry_access atomic32_load = (size4, atomic_read)"
| "entry_access atomic64_load = (size8, atomic_read)"
| "entry_access atomic128_load = (size16, atomic_read)"
| "entry_access atomic8_store = (size1, atomic_write)"
| "entry_access atomic16_store = (size2, atomic_write)"
| "entry_access atomic32_store = (size4, atomic_write)"
| "entry_access atomic64_store = (size8, atomic_write)"
| "entry_access atomic128_store = (size16, atomic_write)"
| "entry_access atomic8_fetch_add = (size1, atomic_write)"
| "entry_access atomic16_fetch_add = (size2, atomic_write)"
| "entry_access atomic32_fetch_add = (size4, atomic_write)"
| "entry_access atomic64_fetch_add = (size8, atomic_write)"
| "entry_access atomic128_fetch_add = (size16, atomic_write)"
| "entry_access atomic8_fetch_sub = (size1, atomic_write)"
| "entry_access atomic16_fetch_sub = (size2, atomic_write)"
| "entry_access atomic32_fetch_sub = (size4, atomic_write)"
| "entry_access atomic64_fetch_sub = (size8, atomic_write)"
| "entry_access atomic128_fetch_sub = (size16, atomic_write)"
| "entry_access atomic8_compare_exchange = (size1, atomic_write)"
| "entry_access atomic16_compare_exchange = (size2, atomic_write)"
| "entry_access atomic32_compare_exchange = (size4, atomic_write)"
| "entry_access atomic64_compare_exchange = (size8, atomic_write)"
| "entry_access atomic128_compare_exchange = (size16, atomic_write)"

definition sword_entry :: "compressor \<Rightarrow> hash_combine \<Rightarrow> entry \<Rightarrow> size_t \<Rightarrow> size_t \<Rightarrow> rtl \<Rightarrow> rtl option" where
  "sword_entry lzo hc e addr callerpc s =
     SAVE_ACCESS lzo hc (fst (entry_access e)) (snd (entry_access e)) addr callerpc s"

definition sword_get_status :: "rtl \<Rightarrow> uint" where
  "sword_get_status s = t_status s"

definition sword_status_inc :: "rtl \<Rightarrow> rtl" where
  "sword_status_inc s = s\<lparr>t_status := t_status s + 1\<rparr>"

definition sword_status_dec :: "rtl \<Rightarrow> rtl" where
  "sword_status_dec s = s\<lparr>t_status := t_status s + 1\<rparr>"

section \<open>Callbacks\<close>

text \<open>The counter \<open>ID\<close> is shared by the threads.\<close>

definition my_next_id :: "64 word \<Rightarrow> 64 word \<times> 64 word" where
  "my_next_id nid = (nid, nid + 1)"

text \<open>
  \<open>fopen\<close> for appending gives the contents of the file or fails, which ends the program. The vectors hold
  default items; \<open>SET_SIZE\<close> elements are reserved in the set, with \<open>junk\<close> in the new arrays.
\<close>

datatype rtl_error = DatafileError | MetafileError

definition SET_SIZE :: nat where
  "SET_SIZE = 87382"

definition default_item :: trace_item where
  "default_item = \<lparr>item_type = 0, item_data = Access access_default\<rparr>"

definition on_thread_begin ::
    "(nat \<Rightarrow> 64 word list) \<Rightarrow> u8 list option \<Rightarrow> string option \<Rightarrow> 64 word \<Rightarrow> rtl \<Rightarrow> (rtl_error + 64 word \<times> rtl) option" where
  "on_thread_begin junk open_data open_meta nid s = do {
     let (tid, nid) = my_next_id nid;
     set' \<leftarrow> reserve junk SET_SIZE (t_set s);
     let s = s\<lparr>t_tid := ucast tid, t_accesses1 := replicate NUM_OF_ACCESSES default_item,
       t_accesses2 := replicate NUM_OF_ACCESSES default_item, t_set := set', t_accesses := Buffer1\<rparr>;
     case open_data of
       None \<Rightarrow> Some (Inl DatafileError)
     | Some data \<Rightarrow> do {
         let s = s\<lparr>t_datafile := Some data, t_begin := 0, t_end := 0\<rparr>;
         case open_meta of
           None \<Rightarrow> Some (Inl MetafileError)
         | Some meta \<Rightarrow> Some (Inr (nid, s\<lparr>t_metafile := Some meta, t_offset := 0, t_span := 0, t_fut := None\<rparr>))
       }
   }"

definition on_thread_end :: "rtl \<Rightarrow> rtl option" where
  "on_thread_end s =
     (if t_datafile s = None \<or> t_metafile s = None then None else Some (s\<lparr>t_datafile := None, t_metafile := None\<rparr>))"

text \<open>
  \<open>pid\<close> is what \<open>ompt_get_unique_id\<close> returns, \<open>num\<close> what \<open>omp_get_thread_num\<close> returns, \<open>newp\<close> the address of
  the new object. The result has the value stored in \<open>parallel_data->ptr\<close>.
\<close>

definition on_parallel_begin ::
    "64 word \<Rightarrow> uint \<Rightarrow> ptr \<Rightarrow> ptr \<Rightarrow> uint \<Rightarrow> pd_heap \<Rightarrow> rtl \<Rightarrow> (ptr \<times> pd_heap \<times> rtl) option" where
  "on_parallel_begin pid num newp parent_task team h s =
     (let s = s\<lparr>t_status := t_status s + 1\<rparr> in
      if newp = 0 \<or> h newp \<noteq> None then None
      else if t_status s = 1 then Some (newp, h(newp \<mapsto> mk_ParallelData pid 0 (t_status s) num team), s)
      else do {
        task_data \<leftarrow> h parent_task;
        let h = h(newp \<mapsto> mk_ParallelData pid (parallel_id task_data) (t_status s) num team);
        let s = (if t_span s \<noteq> 0 then s\<lparr>t_offset := t_offset s + t_span s, t_span := team\<rparr>
                 else s\<lparr>t_offset := num + team, t_span := team\<rparr>);
        Some (newp, h, s)
      })"

definition on_parallel_end :: "ptr \<Rightarrow> pd_heap \<Rightarrow> pd_heap option" where
  "on_parallel_end parallel_data h =
     (if parallel_data = 0 then Some h else do { _ \<leftarrow> h parallel_data; Some (h(parallel_data := None)) })"

definition fprintf_meta :: "meta_line \<Rightarrow> rtl \<Rightarrow> rtl option" where
  "fprintf_meta l s =
     (case t_metafile s of None \<Rightarrow> None | Some m \<Rightarrow> Some (s\<lparr>t_metafile := Some (m @ print_meta l)\<rparr>))"

definition on_implicit_task_begin ::
    "compressor \<Rightarrow> uint \<Rightarrow> ptr \<Rightarrow> ptr \<Rightarrow> uint \<Rightarrow> pd_heap \<Rightarrow> rtl \<Rightarrow> (ptr \<times> pd_heap \<times> rtl) option" where
  "on_implicit_task_begin lzo num newp parallel_data team h s =
     (if newp = 0 \<or> h newp \<noteq> None then None
      else do {
        pd \<leftarrow> h parallel_data;
        let par_data = copy_ParallelData pd;
        let h = h(newp \<mapsto> par_data);
        let s = s\<lparr>t_status := level par_data\<rparr>;
        if t_status s = 1 then do {
          let s = s\<lparr>t_bid := 0\<rparr>;
          s \<leftarrow> DUMPNOCHECK_TO_FILE lzo s;
          s \<leftarrow> fut_wait lzo s;
          s \<leftarrow> fprintf_meta \<lparr>ml_pid = parallel_id par_data, ml_ppid = parent_parallel_id par_data, ml_bid = t_bid s,
                 ml_offset = num, ml_span = team, ml_level = sint (level par_data), ml_begin = t_begin s, ml_end = t_end s\<rparr> s;
          let s = (if t_span s = 0 then s\<lparr>t_offset := num, t_span := team\<rparr> else s);
          Some (newp, h, s\<lparr>t_begin := t_end s\<rparr>)
        }
        else Some (newp, h, s)
      })"

text \<open>The \<open>assert\<close> stops the program, which is \<open>Inl ()\<close> here; a task that was deleted cannot be read at all.\<close>

definition on_implicit_task_end :: "ptr \<Rightarrow> pd_heap \<Rightarrow> rtl \<Rightarrow> (unit + pd_heap \<times> rtl) option" where
  "on_implicit_task_end task_data h s = do {
     tsk_data \<leftarrow> h task_data;
     if freed tsk_data \<noteq> 0 then Some (Inl ())
     else Some (Inr (h(task_data := None), s\<lparr>t_status := t_status s - 1\<rparr>))
   }"

datatype endpoint = scope_begin | scope_end

definition on_sync_region :: "compressor \<Rightarrow> endpoint \<Rightarrow> ptr \<Rightarrow> pd_heap \<Rightarrow> rtl \<Rightarrow> rtl option" where
  "on_sync_region lzo endpoint task_data h s =
     (if endpoint = scope_begin then do {
     s \<leftarrow> DUMPNOCHECK_TO_FILE lzo s;
     s \<leftarrow> fut_wait lzo s;
     par_data \<leftarrow> h task_data;
     s \<leftarrow> fprintf_meta \<lparr>ml_pid = parallel_id par_data, ml_ppid = parent_parallel_id par_data, ml_bid = t_bid s,
            ml_offset = t_offset s, ml_span = t_span s, ml_level = sint (level par_data), ml_begin = t_begin s, ml_end = t_end s\<rparr> s;
     Some (s\<lparr>t_begin := t_end s, t_bid := t_bid s + 1\<rparr>)
   }
   else Some s)"

definition on_mutex_acquired :: "compressor \<Rightarrow> uint \<Rightarrow> 64 word \<Rightarrow> rtl \<Rightarrow> rtl option" where
  "on_mutex_acquired lzo kind wait_id s = do {
     s \<leftarrow> store_item (item_mutex mutex_acquired \<lparr>mr_kind = kind, mr_wait_id = wait_id\<rparr>) s;
     DUMP_TO_FILE lzo s
   }"

definition on_mutex_released :: "compressor \<Rightarrow> uint \<Rightarrow> 64 word \<Rightarrow> rtl \<Rightarrow> rtl option" where
  "on_mutex_released lzo kind wait_id s = do {
     s \<leftarrow> store_item (item_mutex mutex_released \<lparr>mr_kind = kind, mr_wait_id = wait_id\<rparr>) s;
     DUMP_TO_FILE lzo s
   }"

section \<open>What a thread has logged\<close>

lemma sint_int_range: "- (2 ^ 31) \<le> sint (w :: uint) \<and> sint w < 2 ^ 31"
  using sint_greater_eq[of w] sint_less[of w] by simp

text \<open>The documented worst case of LZO1X: 64 bytes, a sixteenth and 3 bytes more than the input.\<close>

definition lzo_bound :: "compressor \<Rightarrow> bool" where
  "lzo_bound lzo \<longleftrightarrow> (\<forall>x. length (lzo x) \<le> length x + length x div 16 + 64 + 3)"

definition is_access :: "trace_item \<Rightarrow> bool" where
  "is_access i \<longleftrightarrow> item_type i = callback_code data_access"

text \<open>
  Between two events: no dump is pending, \<open>pre\<close> is the part of the data file that metafile lines have described,
  \<open>bs\<close> are the blocks dumped since and \<open>cur\<close> the items in the buffer, whose hashes are in the set.
\<close>

definition logs ::
    "hash_combine \<Rightarrow> compressor \<Rightarrow> u8 list \<Rightarrow> trace_item list list \<Rightarrow> trace_item list \<Rightarrow> rtl \<Rightarrow> bool" where
  "logs hc lzo pre bs cur s \<longleftrightarrow>
     t_accesses s = Buffer1 \<and> length (t_accesses1 s) = NUM_OF_ACCESSES \<and> t_idx s < NUM_OF_ACCESSES \<and> t_fut s = None \<and>
     take (t_idx s) (t_accesses1 s) = cur \<and>
     (\<exists>n. hs_inv n (t_set s) \<and> NUM_OF_ACCESSES \<le> 2 ^ n) \<and> num_filled (t_set s) \<le> t_idx s \<and>
     elems (t_set s) = hash_item hc ` {i \<in> set cur. is_access i} \<and>
     (\<forall>b\<in>set bs. b \<noteq> [] \<and> length b \<le> NUM_OF_ACCESSES) \<and>
     t_datafile s = Some (pre @ blocks_bytes (map (\<lambda>b. lzo (items_bytes b)) bs)) \<and>
     t_begin s = of_nat (length pre) \<and>
     t_end s = of_nat (length pre + length (blocks_bytes (map (\<lambda>b. lzo (items_bytes b)) bs)))"

text \<open>What logging leaves alone.\<close>

definition same_region :: "rtl \<Rightarrow> rtl \<Rightarrow> bool" where
  "same_region s s' \<longleftrightarrow> t_metafile s' = t_metafile s \<and> t_bid s' = t_bid s \<and> t_offset s' = t_offset s \<and>
     t_span s' = t_span s \<and> t_status s' = t_status s \<and> t_tid s' = t_tid s"

lemma same_region_refl [simp]: "same_region s s"
  by (simp add: same_region_def)

lemma same_region_trans: "same_region s s' \<Longrightarrow> same_region s' s'' \<Longrightarrow> same_region s s''"
  by (simp add: same_region_def)

lemma blocks_bytes_append [simp]: "blocks_bytes (cs @ ds) = blocks_bytes cs @ blocks_bytes ds"
  by (simp add: blocks_bytes_def)

lemma dump_ok:
  assumes "lzo_bound lzo" "t_datafile s = Some f" "nmemb \<le> length accs" "nmemb \<le> NUM_OF_ACCESSES"
  shows "dump_to_file lzo accs nmemb s =
    Some (s\<lparr>t_datafile := Some (f @ blocks_bytes [lzo (items_bytes (take nmemb accs))]),
      t_end := t_end s + of_nat (length (blocks_bytes [lzo (items_bytes (take nmemb accs))]))\<rparr>)"
proof -
  let ?x = "items_bytes (take nmemb accs)"
  have x: "length ?x = 16 * nmemb" using assms(3) by (simp add: length_items_bytes)
  have "length (lzo ?x) \<le> length ?x + length ?x div 16 + 64 + 3" using assms(1) by (simp add: lzo_bound_def)
  also have "\<dots> \<le> 17 * NUM_OF_ACCESSES + 67" using x assms(4) by simp
  finally have "\<not> OUT_LEN < length (lzo ?x) + 8" by (simp add: OUT_LEN_val NUM_OF_ACCESSES_def)
  then show ?thesis
    using assms(2,3) by (simp add: dump_to_file_def Let_def items_bytes_def add.commute)
qed

lemma SWAP_BUFFER_id [simp]: "SWAP_BUFFER s = s"
  by (simp add: SWAP_BUFFER_def)

lemma take_upd_last: "i < length xs \<Longrightarrow> take (Suc i) (xs[i := x]) = take i xs @ [x]"
  by (simp add: take_Suc_conv_app_nth)

text \<open>Dumping the whole buffer and waiting.\<close>

lemma dump_buffer_ok:
  assumes "lzo_bound lzo" "t_accesses s = Buffer1" "length (t_accesses1 s) = NUM_OF_ACCESSES" "t_fut s = None"
    and "0 < n" "n \<le> NUM_OF_ACCESSES" "take n (t_accesses1 s) = cur"
    and "hs_inv m (t_set s)" "NUM_OF_ACCESSES \<le> 2 ^ m"
    and "\<forall>b\<in>set bs. b \<noteq> [] \<and> length b \<le> NUM_OF_ACCESSES"
    and "t_datafile s = Some (pre @ blocks_bytes (map (\<lambda>b. lzo (items_bytes b)) bs))" "t_begin s = of_nat (length pre)"
    and "t_end s = of_nat (length pre + length (blocks_bytes (map (\<lambda>b. lzo (items_bytes b)) bs)))"
  shows "\<exists>s'. run_job lzo (start_dump n s) = Some s' \<and> logs hc lzo pre (bs @ [cur]) [] s' \<and> same_region s s'"
proof -
  let ?s = "s\<lparr>t_idx := 0, t_set := clear (t_set s), t_fut := None\<rparr>"
  have "length cur = n" using assms(3,6,7) by auto
  then have cur: "cur \<noteq> []" "length cur \<le> NUM_OF_ACCESSES" using assms(5,6) by auto
  have "run_job lzo (start_dump n s) = dump_to_file lzo (t_accesses1 s) n ?s"
    using assms(2) by (simp add: run_job_def start_dump_def buffer_of_def)
  also have "\<dots> = Some (?s\<lparr>t_datafile := Some (pre @ blocks_bytes (map (\<lambda>b. lzo (items_bytes b)) bs) @ blocks_bytes [lzo (items_bytes cur)]),
      t_end := t_end ?s + of_nat (length (blocks_bytes [lzo (items_bytes cur)]))\<rparr>)"
    using dump_ok[OF assms(1), of ?s _ n "t_accesses1 s"] assms by simp
  finally have run: "run_job lzo (start_dump n s) = \<dots>" .
  have clr: "hs_inv m (clear (t_set s))" "elems (clear (t_set s)) = {}" "num_filled (clear (t_set s)) = 0"
    using clear_ok[OF assms(8)] by auto
  show ?thesis
    unfolding run
    by (intro exI conjI, rule refl) (use assms clr cur in \<open>auto simp: logs_def same_region_def NUM_OF_ACCESSES_def\<close>)
qed

section \<open>The abstract log\<close>

text \<open>
  The abstract log has the blocks dumped and the current block. An access is dropped when one with the same hash
  is in the current block; a full block is dumped.
\<close>

definition log_item :: "trace_item \<Rightarrow> trace_item list list \<times> trace_item list \<Rightarrow> trace_item list list \<times> trace_item list" where
  "log_item item l =
     (if Suc (length (snd l)) < NUM_OF_ACCESSES then (fst l, snd l @ [item]) else (fst l @ [snd l @ [item]], []))"

definition spec_step :: "hash_combine \<Rightarrow> trace_item \<Rightarrow> trace_item list list \<times> trace_item list \<Rightarrow> trace_item list list \<times> trace_item list" where
  "spec_step hc item l =
     (if is_access item \<and> hash_item hc item \<in> hash_item hc ` set (filter is_access (snd l)) then l else log_item item l)"

abbreviation logs_at :: "hash_combine \<Rightarrow> compressor \<Rightarrow> u8 list \<Rightarrow> trace_item list list \<times> trace_item list \<Rightarrow> rtl \<Rightarrow> bool" where
  "logs_at hc lzo pre l s \<equiv> logs hc lzo pre (fst l) (snd l) s"

lemma logs_length: "logs hc lzo pre bs cur s \<Longrightarrow> t_idx s = length cur"
  by (auto simp: logs_def)

text \<open>Storing an item, the dump when the buffer is full, and the run of that dump.\<close>

lemma store_dump_ok:
  assumes lb: "lzo_bound lzo" and lg: "logs_at hc lzo pre l (s\<lparr>t_set := h0\<rparr>)"
    and st: "hs_inv m (t_set s)" "NUM_OF_ACCESSES \<le> 2 ^ m" "num_filled (t_set s) \<le> Suc (t_idx s)"
      "elems (t_set s) = hash_item hc ` {i \<in> set (snd l @ [item]). is_access i}"
  shows "\<exists>s'. Option.bind (Option.bind (store_item item s) (DUMP_TO_FILE lzo)) (run_job lzo) = Some s' \<and>
    logs_at hc lzo pre (log_item item l) s' \<and> same_region s s'"
proof -
  let ?s = "s\<lparr>t_accesses1 := (t_accesses1 s)[t_idx s := item], t_idx := Suc (t_idx s)\<rparr>" and ?cur = "snd l"
  have i: "t_idx s < length (t_accesses1 s)" "t_accesses s = Buffer1" using lg by (auto simp: logs_def)
  have idx: "t_idx s = length ?cur" using logs_length[OF lg] by simp
  have cur: "take (Suc (t_idx s)) ((t_accesses1 s)[t_idx s := item]) = ?cur @ [item]"
    using lg by (simp add: logs_def take_upd_last)
  show ?thesis
  proof (cases "Suc (length ?cur) = NUM_OF_ACCESSES")
    case False
    then have "Option.bind (Option.bind (store_item item s) (DUMP_TO_FILE lzo)) (run_job lzo) = Some ?s"
      using i lg idx by (simp add: store_item_def DUMP_TO_FILE_def Let_def run_job_def logs_def)
    note run = this
    have "Suc (length ?cur) < NUM_OF_ACCESSES" using False lg idx by (simp add: logs_def)
    moreover have "\<exists>n. hs_inv n (t_set s) \<and> NUM_OF_ACCESSES \<le> 2 ^ n" using st(1,2) by blast
    ultimately have "logs_at hc lzo pre (log_item item l) ?s" using lg st cur idx by (simp add: logs_def log_item_def)
    then show ?thesis using run by (intro exI[of _ ?s]) (simp add: same_region_def)
  next
    case True
    have "Option.bind (Option.bind (store_item item s) (DUMP_TO_FILE lzo)) (run_job lzo) = run_job lzo (start_dump NUM_OF_ACCESSES ?s)"
      using True i lg idx by (simp add: store_item_def DUMP_TO_FILE_def Let_def fut_wait_def run_job_def logs_def)
    moreover obtain s' where "run_job lzo (start_dump NUM_OF_ACCESSES ?s) = Some s'"
      "logs hc lzo pre (fst l @ [?cur @ [item]]) [] s'" "same_region ?s s'"
      using dump_buffer_ok[OF lb, of ?s NUM_OF_ACCESSES "?cur @ [item]" m "fst l" pre hc] lg st cur True idx
      by (auto simp: logs_def NUM_OF_ACCESSES_def)
    ultimately show ?thesis using True by (auto simp: same_region_def log_item_def)
  qed
qed

section \<open>Events\<close>

datatype log_event = Entry entry size_t size_t | Acquired uint "64 word" | Released uint "64 word"

primrec event_item :: "log_event \<Rightarrow> trace_item" where
  "event_item (Entry e a p) = item_access data_access (mk_access (fst (entry_access e)) (snd (entry_access e)) a p)"
| "event_item (Acquired kind w) = item_mutex mutex_acquired \<lparr>mr_kind = kind, mr_wait_id = w\<rparr>"
| "event_item (Released kind w) = item_mutex mutex_released \<lparr>mr_kind = kind, mr_wait_id = w\<rparr>"

primrec log_step :: "compressor \<Rightarrow> hash_combine \<Rightarrow> log_event \<Rightarrow> rtl \<Rightarrow> rtl option" where
  "log_step lzo hc (Entry e a p) s = sword_entry lzo hc e a p s"
| "log_step lzo hc (Acquired kind w) s = on_mutex_acquired lzo kind w s"
| "log_step lzo hc (Released kind w) s = on_mutex_released lzo kind w s"

text \<open>The schedule in which the asynchronous dump runs before the next event.\<close>

fun run_prompt :: "compressor \<Rightarrow> hash_combine \<Rightarrow> log_event list \<Rightarrow> rtl \<Rightarrow> rtl option" where
  "run_prompt lzo hc [] s = Some s"
| "run_prompt lzo hc (e # es) s = do {
     s \<leftarrow> log_step lzo hc e s;
     s \<leftarrow> run_job lzo s;
     run_prompt lzo hc es s
   }"

lemma save_access_ok:
  assumes lb: "lzo_bound lzo" and lg: "logs_at hc lzo pre l s"
  shows "\<exists>s'. Option.bind (log_step lzo hc (Entry e a p) s) (run_job lzo) = Some s' \<and>
    logs_at hc lzo pre (spec_step hc (event_item (Entry e a p)) l) s' \<and> same_region s s'"
proof -
  let ?item = "event_item (Entry e a p)" and ?cur = "snd l"
  let ?k = "hash_item hc ?item"
  obtain n where n: "hs_inv n (t_set s)" "NUM_OF_ACCESSES \<le> 2 ^ n" using lg by (auto simp: logs_def)
  have "num_filled (t_set s) < 2 ^ n" using lg n(2) by (auto simp: logs_def)
  then obtain h' where h: "check_insert ?k (t_set s) = Some (?k \<notin> elems (t_set s), h')" "hs_inv n h'"
    "elems h' = insert ?k (elems (t_set s))"
    "num_filled h' = (if ?k \<in> elems (t_set s) then num_filled (t_set s) else Suc (num_filled (t_set s)))"
    using hs.chk_ok[OF n(1)] by blast
  have acc: "is_access ?item" by (simp add: is_access_def item_access_def)
  have el: "elems (t_set s) = hash_item hc ` {i \<in> set ?cur. is_access i}" using lg by (simp add: logs_def)
  show ?thesis
  proof (cases "?k \<in> elems (t_set s)")
    case True
    have "Option.bind (log_step lzo hc (Entry e a p) s) (run_job lzo) = Some (s\<lparr>t_set := h'\<rparr>)"
      using h(1) True lg by (simp add: sword_entry_def SAVE_ACCESS_def Let_def run_job_def logs_def)
    moreover have "logs_at hc lzo pre l (s\<lparr>t_set := h'\<rparr>)" using lg h n(2) True by (auto simp: logs_def insert_absorb)
    moreover have "spec_step hc ?item l = l" using True acc by (simp add: spec_step_def el)
    moreover have "same_region s (s\<lparr>t_set := h'\<rparr>)" by (simp add: same_region_def)
    ultimately show ?thesis by (intro exI[of _ "s\<lparr>t_set := h'\<rparr>"]) (simp only: simp_thms)
  next
    case False
    have eq: "Option.bind (log_step lzo hc (Entry e a p) s) (run_job lzo) =
      Option.bind (Option.bind (store_item ?item (s\<lparr>t_set := h'\<rparr>)) (DUMP_TO_FILE lzo)) (run_job lzo)"
      using h(1) False by (simp add: sword_entry_def SAVE_ACCESS_def Let_def)
    have 1: "logs_at hc lzo pre l ((s\<lparr>t_set := h'\<rparr>)\<lparr>t_set := t_set s\<rparr>)" using lg by simp
    have 2: "hs_inv n (t_set (s\<lparr>t_set := h'\<rparr>))" using h(2) by simp
    have 3: "elems (t_set (s\<lparr>t_set := h'\<rparr>)) = hash_item hc ` {i \<in> set (?cur @ [?item]). is_access i}"
    proof -
      have "{i \<in> set (?cur @ [?item]). is_access i} = insert ?item {i \<in> set ?cur. is_access i}" using acc by auto
      then show ?thesis using h(3) el by simp
    qed
    have 4: "num_filled (t_set (s\<lparr>t_set := h'\<rparr>)) \<le> Suc (t_idx (s\<lparr>t_set := h'\<rparr>))" using lg False by (simp add: h(4) logs_def)
    obtain s' where r: "Option.bind (Option.bind (store_item ?item (s\<lparr>t_set := h'\<rparr>)) (DUMP_TO_FILE lzo)) (run_job lzo) = Some s'"
      "logs_at hc lzo pre (log_item ?item l) s'" "same_region (s\<lparr>t_set := h'\<rparr>) s'"
      using store_dump_ok[OF lb 1 2 n(2) 4 3] by blast
    have "same_region s (s\<lparr>t_set := h'\<rparr>)" by (simp add: same_region_def)
    then have "same_region s s'" using r(3) by (rule same_region_trans)
    moreover have "spec_step hc ?item l = log_item ?item l" using False by (simp add: spec_step_def el)
    moreover have "Option.bind (log_step lzo hc (Entry e a p) s) (run_job lzo) = Some s'" using eq r(1) by (rule trans)
    ultimately show ?thesis using r(2) by (intro exI[of _ s']) (simp only: simp_thms)
  qed
qed

lemma mutex_event_ok:
  assumes lb: "lzo_bound lzo" and lg: "logs_at hc lzo pre l s" and na: "\<not> is_access (event_item e)"
    and e: "log_step lzo hc e s = Option.bind (store_item (event_item e) s) (DUMP_TO_FILE lzo)"
  shows "\<exists>s'. Option.bind (log_step lzo hc e s) (run_job lzo) = Some s' \<and>
    logs_at hc lzo pre (spec_step hc (event_item e) l) s' \<and> same_region s s'"
proof -
  obtain n where n: "hs_inv n (t_set s)" "NUM_OF_ACCESSES \<le> 2 ^ n" using lg by (auto simp: logs_def)
  have "{i \<in> set (snd l @ [event_item e]). is_access i} = {i \<in> set (snd l). is_access i}" using na by auto
  then have "elems (t_set s) = hash_item hc ` {i \<in> set (snd l @ [event_item e]). is_access i}"
    using lg by (simp add: logs_def)
  moreover have "num_filled (t_set s) \<le> Suc (t_idx s)" using lg by (simp add: logs_def)
  moreover have "logs_at hc lzo pre l (s\<lparr>t_set := t_set s\<rparr>)" using lg by simp
  moreover have "spec_step hc (event_item e) l = log_item (event_item e) l" using na by (simp add: spec_step_def)
  ultimately show ?thesis unfolding e using store_dump_ok[OF lb _ n] by (simp only:)
qed

lemma log_step_ok:
  assumes "lzo_bound lzo" "logs_at hc lzo pre l s"
  shows "\<exists>s'. Option.bind (log_step lzo hc e s) (run_job lzo) = Some s' \<and>
    logs_at hc lzo pre (spec_step hc (event_item e) l) s' \<and> same_region s s'"
proof (cases e)
  case (Entry en a p)
  then show ?thesis using save_access_ok[OF assms] by blast
next
  case (Acquired kind w)
  show ?thesis
    by (rule mutex_event_ok[OF assms]) (simp_all add: Acquired is_access_def item_mutex_def on_mutex_acquired_def)
next
  case (Released kind w)
  show ?thesis
    by (rule mutex_event_ok[OF assms]) (simp_all add: Released is_access_def item_mutex_def on_mutex_released_def)
qed

abbreviation spec_run :: "hash_combine \<Rightarrow> log_event list \<Rightarrow> trace_item list list \<times> trace_item list \<Rightarrow> trace_item list list \<times> trace_item list" where
  "spec_run hc es l \<equiv> fold (\<lambda>e. spec_step hc (event_item e)) es l"

lemma run_prompt_ok:
  assumes "lzo_bound lzo" "logs_at hc lzo pre l s"
  shows "\<exists>s'. run_prompt lzo hc es s = Some s' \<and> logs_at hc lzo pre (spec_run hc es l) s' \<and> same_region s s'"
  using assms(2)
proof (induction es arbitrary: s l)
  case Nil
  then show ?case by simp
next
  case (Cons e es)
  obtain s1 where 1: "Option.bind (log_step lzo hc e s) (run_job lzo) = Some s1"
    "logs_at hc lzo pre (spec_step hc (event_item e) l) s1" "same_region s s1"
    using log_step_ok[OF assms(1) Cons.prems, of e] by blast
  obtain s' where 2: "run_prompt lzo hc es s1 = Some s'"
    "logs_at hc lzo pre (spec_run hc es (spec_step hc (event_item e) l)) s'" "same_region s1 s'"
    using Cons.IH[OF 1(2)] by blast
  have "run_prompt lzo hc (e # es) s = Some s'"
    using 1(1) 2(1) by (cases "log_step lzo hc e s") auto
  then show ?case using 2(2) same_region_trans[OF 1(3) 2(3)] by simp
qed

end
