(* ===== verification/Instrument.thy ===== *)
theory Instrument
  imports Rtl Metafile "HOL-Library.Sublist"
begin

text \<open>
  The instrumentation pass (\<open>lib/Transforms/Instrumentation/InstrumentParallel.cpp\<close>), first half: which accesses of
  a function are instrumented. LLVM is not part of the repository. An instruction is what the pass asks of it:
  its opcode, the address it accesses, its operands, and whether it carries the pass's own metadata; a value
  answers the queries of the pass on addresses; the analyses (stripping offsets, underlying objects, capture
  tracking, the name of the section of profiling counters) are the parameter \<open>llvm\<close> of every definition that
  uses them. \<open>InstrumentEmit\<close> holds what the pass inserts.
\<close>

section \<open>Names\<close>

definition startswith :: "string \<Rightarrow> string \<Rightarrow> bool" where
  "startswith s p \<longleftrightarrow> take (length p) s = p"

definition endswith :: "string \<Rightarrow> string \<Rightarrow> bool" where
  "endswith s p \<longleftrightarrow> length p \<le> length s \<and> drop (length s - length p) s = p"

fun contains_str :: "string \<Rightarrow> string \<Rightarrow> bool" where
  "contains_str [] p \<longleftrightarrow> p = []"
| "contains_str (c # s) p \<longleftrightarrow> startswith (c # s) p \<or> contains_str s p"

text \<open>\<open>cxa\<close> is \<open>abi::__cxa_demangle\<close>: the demangled name, or nothing when its status is not 0.\<close>

definition demangle :: "(string \<Rightarrow> string option) \<Rightarrow> string \<Rightarrow> string" where
  "demangle cxa name = (case cxa name of Some res \<Rightarrow> res | None \<Rightarrow> name)"

definition namespace_set :: "string list" where
  "namespace_set = [''__gnu_cxx::'', ''std::'']"

definition isThirdParty :: "(string \<Rightarrow> string option) \<Rightarrow> string \<Rightarrow> bool" where
  "isThirdParty cxa name = (let str = demangle cxa name in
     list_ex (\<lambda>ns.
       let sstr = (if CHR ''('' \<in> set str then takeWhile (\<lambda>c. c \<noteq> CHR ''('') str else []) in
       startswith str ns \<or> contains_str sstr ns) namespace_set)"

section \<open>Values and instructions\<close>

type_synonym vid = nat

datatype value_kind =
    GlobalVariable "string option" bool  \<comment> \<open>its section, and whether it is constant\<close>
  | GetElementPtr vid                    \<comment> \<open>its pointer operand\<close>
  | LoadedValue bool                     \<comment> \<open>whether its TBAA tag is a vtable access\<close>
  | AllocaInst
  | OtherValue

record llvm_value =
  v_name :: string
  v_kind :: value_kind
  addr_space :: nat
  pointee_bits :: "64 word"    \<comment> \<open>store size of the pointed-to type in bits\<close>
  swift_error :: bool

record llvm =
  value_of :: "vid \<Rightarrow> llvm_value"
  stripInBoundsOffsets :: "vid \<Rightarrow> vid"
  GetUnderlyingObject :: "vid \<Rightarrow> vid"
  PointerMayBeCaptured :: "vid \<Rightarrow> bool"
  prof_cnts_section :: string

datatype ordering = NotAtomic | Unordered | Monotonic | Acquire | Release | AcquireRelease | SequentiallyConsistent

datatype rmw_op = Xchg | Add | Sub | And | Nand | Or | Xor | Max | Min | UMax | UMin

datatype arg =
    PtrArg vid nat   \<comment> \<open>an address cast to a pointer to an integer of that many bits\<close>
  | IntArg vid nat   \<comment> \<open>a value cast to an integer of that many bits\<close>
  | OrdArg uint      \<comment> \<open>a constant of 32 bits\<close>

text \<open>The flag of a load, a store or a fence says whether its scope is a single thread; \<open>CallInst\<close> also stands for
  the calls that the pass creates, with the instruction whose uses take the result.\<close>

datatype opcode =
    LoadInst uint ordering bool
  | StoreInst vid uint ordering bool
  | AtomicRMWInst rmw_op vid ordering
  | AtomicCmpXchgInst vid vid ordering ordering
  | FenceInst ordering bool
  | CallInst string "arg list" "nat option"
  | InvokeInst
  | MemSetInst vid vid vid
  | MemCpyInst vid vid vid
  | MemMoveInst vid vid vid
  | OtherInst

text \<open>The identity of an instruction that the pass creates is \<open>None\<close>.\<close>

record instr =
  inst_id :: "nat option"
  opcode :: opcode
  pointer :: vid             \<comment> \<open>the address of a load, store or atomic operation\<close>
  operands :: "vid list"
  ompstatus :: bool          \<comment> \<open>metadata \<open>sword.ompstatus\<close>\<close>
  debug_loc :: bool

primrec isLoad :: "opcode \<Rightarrow> bool" where
  "isLoad (LoadInst _ _ _) = True" | "isLoad (StoreInst _ _ _ _) = False" | "isLoad (AtomicRMWInst _ _ _) = False"
| "isLoad (AtomicCmpXchgInst _ _ _ _) = False" | "isLoad (FenceInst _ _) = False" | "isLoad (CallInst _ _ _) = False"
| "isLoad InvokeInst = False" | "isLoad (MemSetInst _ _ _) = False" | "isLoad (MemCpyInst _ _ _) = False"
| "isLoad (MemMoveInst _ _ _) = False" | "isLoad OtherInst = False"

primrec isStore :: "opcode \<Rightarrow> bool" where
  "isStore (LoadInst _ _ _) = False" | "isStore (StoreInst _ _ _ _) = True" | "isStore (AtomicRMWInst _ _ _) = False"
| "isStore (AtomicCmpXchgInst _ _ _ _) = False" | "isStore (FenceInst _ _) = False" | "isStore (CallInst _ _ _) = False"
| "isStore InvokeInst = False" | "isStore (MemSetInst _ _ _) = False" | "isStore (MemCpyInst _ _ _) = False"
| "isStore (MemMoveInst _ _ _) = False" | "isStore OtherInst = False"

text \<open>The memory intrinsics are calls.\<close>

primrec isMemIntrinsic :: "opcode \<Rightarrow> bool" where
  "isMemIntrinsic (LoadInst _ _ _) = False" | "isMemIntrinsic (StoreInst _ _ _ _) = False"
| "isMemIntrinsic (AtomicRMWInst _ _ _) = False" | "isMemIntrinsic (AtomicCmpXchgInst _ _ _ _) = False"
| "isMemIntrinsic (FenceInst _ _) = False" | "isMemIntrinsic (CallInst _ _ _) = False" | "isMemIntrinsic InvokeInst = False"
| "isMemIntrinsic (MemSetInst _ _ _) = True" | "isMemIntrinsic (MemCpyInst _ _ _) = True"
| "isMemIntrinsic (MemMoveInst _ _ _) = True" | "isMemIntrinsic OtherInst = False"

primrec isCall :: "opcode \<Rightarrow> bool" where
  "isCall (LoadInst _ _ _) = False" | "isCall (StoreInst _ _ _ _) = False" | "isCall (AtomicRMWInst _ _ _) = False"
| "isCall (AtomicCmpXchgInst _ _ _ _) = False" | "isCall (FenceInst _ _) = False" | "isCall (CallInst _ _ _) = True"
| "isCall InvokeInst = True" | "isCall (MemSetInst _ _ _) = True" | "isCall (MemCpyInst _ _ _) = True"
| "isCall (MemMoveInst _ _ _) = True" | "isCall OtherInst = False"

definition isAtomic :: "instr \<Rightarrow> bool" where
  "isAtomic i = (case opcode i of
     LoadInst _ ord single \<Rightarrow> ord \<noteq> NotAtomic \<and> \<not> single
   | StoreInst _ _ ord single \<Rightarrow> ord \<noteq> NotAtomic \<and> \<not> single
   | AtomicRMWInst _ _ _ \<Rightarrow> True
   | AtomicCmpXchgInst _ _ _ _ \<Rightarrow> True
   | FenceInst _ _ \<Rightarrow> True
   | _ \<Rightarrow> False)"

definition getPointerOperand :: "instr \<Rightarrow> vid option" where
  "getPointerOperand i = (if isLoad (opcode i) then Some (pointer i) else if isStore (opcode i) then Some (pointer i) else None)"

section \<open>Which addresses matter\<close>

definition isVtableAccess :: "llvm_value \<Rightarrow> bool" where
  "isVtableAccess v = (case v_kind v of LoadedValue tag \<Rightarrow> tag | _ \<Rightarrow> False)"

definition shouldInstrumentReadWriteFromAddress :: "llvm \<Rightarrow> vid \<Rightarrow> bool" where
  "shouldInstrumentReadWriteFromAddress m addr = (
     let v = value_of m (stripInBoundsOffsets m addr) in
     case v_kind v of
       GlobalVariable sec _ \<Rightarrow>
         if (case sec of Some name \<Rightarrow> endswith name (prof_cnts_section m) | None \<Rightarrow> False) then False
         else if startswith (v_name v) ''__llvm_gcov'' \<or> startswith (v_name v) ''__llvm_gcda'' then False
         else addr_space v = 0
     | _ \<Rightarrow> addr_space v = 0)"

definition addrPointsToConstantData :: "llvm \<Rightarrow> vid \<Rightarrow> bool" where
  "addrPointsToConstantData m addr = (
     let addr = (case v_kind (value_of m addr) of GetElementPtr p \<Rightarrow> p | _ \<Rightarrow> addr); v = value_of m addr in
     case v_kind v of GlobalVariable _ const \<Rightarrow> const | LoadedValue _ \<Rightarrow> isVtableAccess v | _ \<Rightarrow> False)"

text \<open>Debug metadata: \<open>isNotInstrumentable\<close> follows the scopes of lexical blocks up to the subprogram.\<close>

datatype md_node =
    DISubprogram string string
  | DILexicalBlockFile "md_node option"
  | DILexicalBlock "md_node option"
  | OtherNode

fun isNotInstrumentable :: "md_node option \<Rightarrow> bool" where
  "isNotInstrumentable None = False"
| "isNotInstrumentable (Some (DISubprogram name linkage)) = (startswith name ''.omp'' \<or> startswith linkage ''.omp'')"
| "isNotInstrumentable (Some (DILexicalBlockFile scope)) = isNotInstrumentable scope"
| "isNotInstrumentable (Some (DILexicalBlock scope)) = isNotInstrumentable scope"
| "isNotInstrumentable (Some OtherNode) = False"

section \<open>Choosing the accesses\<close>

definition not_shared :: "llvm \<Rightarrow> vid \<Rightarrow> bool" where
  "not_shared m addr \<longleftrightarrow> v_kind (value_of m (GetUnderlyingObject m addr)) = AllocaInst \<and> \<not> PointerMayBeCaptured m addr"

text \<open>One round of the loop that goes backwards over the accesses of a block since the last call; its state is the
  set of written addresses and the vector \<open>All\<close>.\<close>

definition choose_step :: "llvm \<Rightarrow> instr \<Rightarrow> vid set \<times> instr list \<Rightarrow> vid set \<times> instr list" where
  "choose_step m i cur = (
     let WriteTargets = fst cur; all = snd cur; addr = pointer i in
     if ompstatus i then (WriteTargets, all)
     else if isStore (opcode i) then
       if \<not> shouldInstrumentReadWriteFromAddress m addr then (WriteTargets, all)
       else if not_shared m addr then (insert addr WriteTargets, all)
       else (insert addr WriteTargets, all @ [i])
     else
       if \<not> shouldInstrumentReadWriteFromAddress m addr then (WriteTargets, all)
       else if addr \<in> WriteTargets then (WriteTargets, all)
       else if addrPointsToConstantData m addr then (WriteTargets, all)
       else if not_shared m addr then (WriteTargets, all)
       else (WriteTargets, all @ [i]))"

definition omp_names :: "string list" where
  "omp_names = [''.omp.iv'', ''.omp.lb'', ''.omp.ub'', ''.omp.stride'', ''.omp.is_last'', ''.global_tid'']"

definition has_omp_operand :: "llvm \<Rightarrow> instr \<Rightarrow> bool" where
  "has_omp_operand m i \<longleftrightarrow> list_ex (\<lambda>v. v_name (value_of m v) \<in> set omp_names) (operands i)"

text \<open>The loop that erases the accesses to loop variables of OpenMP: after \<open>erase\<close> the iterator is already at the
  next element, and the loop moves it once more.\<close>

fun drop_omp :: "llvm \<Rightarrow> instr list \<Rightarrow> instr list" where
  "drop_omp m [] = []"
| "drop_omp m (i # is) =
     (if has_omp_operand m i then (case is of [] \<Rightarrow> [] | j # js \<Rightarrow> j # drop_omp m js)
      else i # drop_omp m is)"

definition chooseInstructionsToInstrument :: "llvm \<Rightarrow> instr list \<Rightarrow> instr list \<Rightarrow> instr list \<times> instr list" where
  "chooseInstructionsToInstrument m loc all =
     (let (WriteTargets, all) = fold (choose_step m) (rev loc) ({}, all) in ([], drop_omp m all))"

section \<open>The traversal of a function\<close>

record collected =
  AllLoadsAndStores :: "instr list"
  LocalLoadsAndStores :: "instr list"
  AtomicAccesses :: "instr list"
  MemIntrinCalls :: "instr list"
  HasCalls :: bool

definition flush_local :: "llvm \<Rightarrow> collected \<Rightarrow> collected" where
  "flush_local m cur = (
     let r = chooseInstructionsToInstrument m (LocalLoadsAndStores cur) (AllLoadsAndStores cur) in
     cur\<lparr>LocalLoadsAndStores := fst r, AllLoadsAndStores := snd r\<rparr>)"

definition visit :: "llvm \<Rightarrow> instr \<Rightarrow> collected \<Rightarrow> collected" where
  "visit m i cur = (
     if isAtomic i then cur\<lparr>AtomicAccesses := AtomicAccesses cur @ [i]\<rparr>
     else if isLoad (opcode i) \<or> isStore (opcode i) then cur\<lparr>LocalLoadsAndStores := LocalLoadsAndStores cur @ [i]\<rparr>
     else if isCall (opcode i) then
       let cur = (if isMemIntrinsic (opcode i) then cur\<lparr>MemIntrinCalls := MemIntrinCalls cur @ [i]\<rparr> else cur) in
       flush_local m (cur\<lparr>HasCalls := True\<rparr>)
     else cur)"

definition collect :: "llvm \<Rightarrow> instr list list \<Rightarrow> collected" where
  "collect m body = fold (\<lambda>bb cur. flush_local m (fold (visit m) bb cur)) body
     \<lparr>AllLoadsAndStores = [], LocalLoadsAndStores = [], AtomicAccesses = [], MemIntrinCalls = [], HasCalls = False\<rparr>"

section \<open>What is chosen\<close>

text \<open>The accesses that cannot race or that the pass was told to leave alone.\<close>

definition harmless :: "llvm \<Rightarrow> instr \<Rightarrow> bool" where
  "harmless m i \<longleftrightarrow> ompstatus i \<or> \<not> shouldInstrumentReadWriteFromAddress m (pointer i) \<or> not_shared m (pointer i) \<or>
     \<not> isStore (opcode i) \<and> addrPointsToConstantData m (pointer i)"

definition write_target :: "llvm \<Rightarrow> instr \<Rightarrow> bool" where
  "write_target m w \<longleftrightarrow> \<not> ompstatus w \<and> isStore (opcode w) \<and> shouldInstrumentReadWriteFromAddress m (pointer w)"

definition overwritten :: "llvm \<Rightarrow> instr \<Rightarrow> instr list \<Rightarrow> bool" where
  "overwritten m i post \<longleftrightarrow> \<not> isStore (opcode i) \<and> (\<exists>w\<in>set post. write_target m w \<and> pointer w = pointer i)"

primrec selection :: "llvm \<Rightarrow> instr list \<Rightarrow> instr list" where
  "selection m [] = []"
| "selection m (i # post) = selection m post @ (if harmless m i \<or> overwritten m i post then [] else [i])"

lemma choose_fold: "fold (choose_step m) (rev L) ({}, all) = (pointer ` {w \<in> set L. write_target m w}, all @ selection m L)"
proof (induction L)
  case (Cons i L)
  have w: "{w \<in> set (i # L). write_target m w} = {w \<in> set L. write_target m w} \<union> (if write_target m i then {i} else {})"
    by auto
  have o: "overwritten m i L \<longleftrightarrow> \<not> isStore (opcode i) \<and> pointer i \<in> pointer ` {w \<in> set L. write_target m w}"
    by (auto simp: overwritten_def image_iff)
  show ?case
    unfolding rev.simps fold_append fold.simps comp_apply id_apply Cons.IH w o selection.simps
    by (simp add: choose_step_def Let_def harmless_def write_target_def)
qed simp

lemma selection_set: "set (selection m L) \<subseteq> set L"
  by (induction L) auto

lemma selection_kept:
  assumes "\<not> harmless m i"
  shows "i \<in> set (selection m (pre @ i # post)) \<or> overwritten m i post"
proof -
  have "set (selection m q) \<subseteq> set (selection m (p @ q))" for p q by (induction p) auto
  from this[of "i # post" pre] show ?thesis using assms by auto
qed

text \<open>A write that another access relies on is chosen itself.\<close>
lemma write_target_chosen:
  assumes "write_target m w" "\<not> not_shared m (pointer w)" "w \<in> set L"
  shows "w \<in> set (selection m L)"
proof -
  obtain p q where L: "L = p @ w # q" using split_list[OF assms(3)] by blast
  have "\<not> harmless m w" "\<not> overwritten m w q" using assms(1,2) by (auto simp: harmless_def write_target_def overwritten_def)
  with selection_kept[of m w p q] L show ?thesis by blast
qed

lemma drop_omp_set: "set (drop_omp m xs) \<subseteq> set xs"
proof (induction m xs rule: drop_omp.induct)
  case (2 m i "is")
  show ?case
  proof (cases "has_omp_operand m i")
    case True
    then show ?thesis using 2(1) by (cases "is") auto
  qed (use 2(2) in auto)
qed simp

lemma drop_omp_keeps: "i \<in> set xs \<Longrightarrow> \<not> has_omp_operand m i \<Longrightarrow> i \<in> set (drop_omp m xs)"
proof (induction m xs rule: drop_omp.induct)
  case (2 m j "is")
  show ?case
  proof (cases "has_omp_operand m j")
    case True
    then show ?thesis using 2 by (cases "is") auto
  qed (use 2 in auto)
qed simp

lemma choose_eq: "chooseInstructionsToInstrument m L all = ([], drop_omp m (all @ selection m L))"
  by (simp add: chooseInstructionsToInstrument_def choose_fold)

section \<open>The traversal\<close>

text \<open>The accesses of a block between two calls.\<close>

definition plain :: "instr \<Rightarrow> bool" where
  "plain i \<longleftrightarrow> \<not> isAtomic i \<and> (isLoad (opcode i) \<or> isStore (opcode i))"

fun segments :: "instr list \<Rightarrow> instr list \<Rightarrow> instr list list" where
  "segments L [] = [L]"
| "segments L (i # is) =
     (if plain i then segments (L @ [i]) is else if isCall (opcode i) then L # segments [] is else segments L is)"

definition add_segment :: "llvm \<Rightarrow> instr list \<Rightarrow> instr list \<Rightarrow> instr list" where
  "add_segment m seg all = drop_omp m (all @ selection m seg)"

lemma kinds: "isCall (opcode i) \<Longrightarrow> \<not> isAtomic i \<and> \<not> isLoad (opcode i) \<and> \<not> isStore (opcode i)"
  "isMemIntrinsic (opcode i) \<Longrightarrow> isCall (opcode i)"
  by (cases "opcode i"; simp add: isAtomic_def)+

lemma visit_block:
  "AllLoadsAndStores (flush_local m (fold (visit m) bb cur)) =
     fold (add_segment m) (segments (LocalLoadsAndStores cur) bb) (AllLoadsAndStores cur) \<and>
   LocalLoadsAndStores (flush_local m (fold (visit m) bb cur)) = [] \<and>
   AtomicAccesses (flush_local m (fold (visit m) bb cur)) = AtomicAccesses cur @ filter isAtomic bb \<and>
   MemIntrinCalls (flush_local m (fold (visit m) bb cur)) = MemIntrinCalls cur @ filter (\<lambda>i. isMemIntrinsic (opcode i)) bb \<and>
   HasCalls (flush_local m (fold (visit m) bb cur)) = (HasCalls cur \<or> (\<exists>i\<in>set bb. isCall (opcode i)))"
proof (induction bb arbitrary: cur)
  case Nil
  then show ?case by (simp add: flush_local_def choose_eq add_segment_def)
next
  case (Cons i bb)
  note I = Cons.IH[of "visit m i cur"]
  consider "isAtomic i" "\<not> isCall (opcode i)" | "plain i" "\<not> isCall (opcode i)" | "isCall (opcode i)" "\<not> isAtomic i" "\<not> plain i"
    | "\<not> isCall (opcode i)" "\<not> isAtomic i" "\<not> plain i"
    using kinds(1)[of i] by (auto simp: plain_def)
  then show ?case
  proof cases
    case 1
    then have "visit m i cur = cur\<lparr>AtomicAccesses := AtomicAccesses cur @ [i]\<rparr>" "\<not> plain i" "\<not> isMemIntrinsic (opcode i)"
      using kinds(2)[of i] by (auto simp: visit_def plain_def)
    then show ?thesis using I 1 by simp
  next
    case 2
    then have "visit m i cur = cur\<lparr>LocalLoadsAndStores := LocalLoadsAndStores cur @ [i]\<rparr>" "\<not> isAtomic i"
      "\<not> isMemIntrinsic (opcode i)"
      using kinds(2)[of i] by (auto simp: visit_def plain_def)
    then show ?thesis using I 2 by simp
  next
    case 3
    then show ?thesis
      using I kinds(1)[of i] by (simp add: visit_def flush_local_def choose_eq add_segment_def Let_def)
  next
    case 4
    then have "visit m i cur = cur" "\<not> isMemIntrinsic (opcode i)"
      using kinds(2)[of i] by (auto simp: visit_def plain_def)
    then show ?thesis using I 4 by simp
  qed
qed

lemma collect_eq:
  "AllLoadsAndStores (collect m body) = fold (add_segment m) (concat (map (segments []) body)) []"
  "AtomicAccesses (collect m body) = filter isAtomic (concat body)"
  "MemIntrinCalls (collect m body) = filter (\<lambda>i. isMemIntrinsic (opcode i)) (concat body)"
proof -
  let ?f = "\<lambda>bb cur. flush_local m (fold (visit m) bb cur)"
  have "LocalLoadsAndStores cur = [] \<Longrightarrow>
    AllLoadsAndStores (fold ?f body cur) = fold (add_segment m) (concat (map (segments []) body)) (AllLoadsAndStores cur) \<and>
    AtomicAccesses (fold ?f body cur) = AtomicAccesses cur @ filter isAtomic (concat body) \<and>
    MemIntrinCalls (fold ?f body cur) = MemIntrinCalls cur @ filter (\<lambda>i. isMemIntrinsic (opcode i)) (concat body)" for cur
    by (induction body arbitrary: cur) (simp_all add: visit_block)
  then show "AllLoadsAndStores (collect m body) = fold (add_segment m) (concat (map (segments []) body)) []"
    "AtomicAccesses (collect m body) = filter isAtomic (concat body)"
    "MemIntrinCalls (collect m body) = filter (\<lambda>i. isMemIntrinsic (opcode i)) (concat body)"
    by (simp_all add: collect_def)
qed

lemma segments_set: "seg \<in> set (segments L bb) \<Longrightarrow> set seg \<subseteq> set L \<union> {i \<in> set bb. plain i}"
  by (induction L bb rule: segments.induct) (auto split: if_splits)

lemma segments_at:
  assumes "plain i"
  shows "\<exists>pre. pre @ i # filter plain (takeWhile (\<lambda>j. \<not> isCall (opcode j)) q) \<in> set (segments L (p @ i # q))"
proof (induction p arbitrary: L)
  case Nil
  have tl: "\<exists>e. L @ filter plain (takeWhile (\<lambda>j. \<not> isCall (opcode j)) q) @ e \<in> set (segments L q) \<and> e = []" for L
  proof (induction q arbitrary: L)
    case (Cons j q)
    have "plain j \<Longrightarrow> \<not> isCall (opcode j)" using kinds(1)[of j] by (auto simp: plain_def)
    then show ?case using Cons[of "L @ [j]"] Cons[of L] by auto
  qed simp
  have "(L @ [i]) @ filter plain (takeWhile (\<lambda>j. \<not> isCall (opcode j)) q) \<in> set (segments (L @ [i]) q)"
    using tl[of "L @ [i]"] by auto
  then show ?case using assms by auto
next
  case (Cons j p)
  then show ?case by auto
qed

lemma add_segments_set: "set (fold (add_segment m) segs all) \<subseteq> set all \<union> (\<Union>seg\<in>set segs. set (selection m seg))"
proof (induction segs arbitrary: all)
  case (Cons seg segs)
  have "set (add_segment m seg all) \<subseteq> set all \<union> set (selection m seg)"
    using drop_omp_set[of m "all @ selection m seg"] by (simp add: add_segment_def)
  with Cons[of "add_segment m seg all"] show ?case by auto
qed simp

lemma add_segments_keep:
  assumes "i \<in> set all \<or> (\<exists>seg\<in>set segs. i \<in> set (selection m seg))" "\<not> has_omp_operand m i"
  shows "i \<in> set (fold (add_segment m) segs all)"
  using assms(1)
proof (induction segs arbitrary: all)
  case (Cons seg segs)
  have "i \<in> set all \<or> i \<in> set (selection m seg) \<Longrightarrow> i \<in> set (add_segment m seg all)"
    using drop_omp_keeps[of i "all @ selection m seg" m] assms(2) by (auto simp: add_segment_def)
  then show ?case using Cons(1)[of "add_segment m seg all"] Cons(2) by auto
qed simp

lemma selection_not_harmless: "i \<in> set (selection m L) \<Longrightarrow> \<not> harmless m i"
  by (induction L) (auto split: if_splits)

section \<open>Properties\<close>

text \<open>C13: The traversal instruments every plain load and store of every block that can race, unless it is a read that
  is followed, before the next call, by a write to the same address; the only other accesses left out have an operand
  that is named like a loop variable of OpenMP, and the write that stands for a read can be one of these. Nothing else is
  chosen, and the atomic operations are collected in program order.\<close>
theorem collect_correct:
  "AtomicAccesses (collect m body) = filter isAtomic (concat body) \<and>
   (\<forall>i\<in>set (AllLoadsAndStores (collect m body)). i \<in> set (concat body) \<and> plain i \<and> \<not> harmless m i) \<and>
   (\<forall>bb\<in>set body. \<forall>p i q. bb = p @ i # q \<longrightarrow> plain i \<longrightarrow>
      i \<in> set (AllLoadsAndStores (collect m body)) \<or> harmless m i \<or> has_omp_operand m i \<or>
      isLoad (opcode i) \<and> (\<exists>w\<in>set (takeWhile (\<lambda>j. \<not> isCall (opcode j)) q). plain w \<and> isStore (opcode w) \<and>
         pointer w = pointer i \<and> (w \<in> set (AllLoadsAndStores (collect m body)) \<or> has_omp_operand m w)))"
proof (intro conjI ballI allI impI)
  let ?segs = "concat (map (segments []) body)"
  note E = collect_eq[of m body]
  show "AtomicAccesses (collect m body) = filter isAtomic (concat body)" by (rule E(2))
  {
    fix i assume "i \<in> set (AllLoadsAndStores (collect m body))"
    then have "i \<in> (\<Union>seg\<in>set ?segs. set (selection m seg))"
      using subsetD[OF add_segments_set, of i m ?segs "[]"] unfolding E(1) by simp
    then obtain seg where s: "seg \<in> set ?segs" "i \<in> set (selection m seg)" by blast
    then obtain bb where "bb \<in> set body" "seg \<in> set (segments [] bb)" by auto
    then have "i \<in> set (concat body) \<and> plain i"
      using segments_set[of seg "[]" bb] selection_set[of m seg] s(2) by auto
    then show "i \<in> set (concat body)" "plain i" by simp_all
    show "\<not> harmless m i" using selection_not_harmless s(2) by blast
  }
  fix bb p i q
  assume bb: "bb \<in> set body" "bb = p @ i # q" and i: "plain i"
  let ?r = "filter plain (takeWhile (\<lambda>j. \<not> isCall (opcode j)) q)"
  obtain pre where seg: "pre @ i # ?r \<in> set (segments [] bb)" using segments_at[OF i] bb(2) by blast
  have kept: "j \<in> set (AllLoadsAndStores (collect m body)) \<or> has_omp_operand m j"
    if "j \<in> set (selection m (pre @ i # ?r))" for j
    using add_segments_keep[of j "[]" ?segs m] that seg bb(1) E(1) by auto
  show "i \<in> set (AllLoadsAndStores (collect m body)) \<or> harmless m i \<or> has_omp_operand m i \<or>
      isLoad (opcode i) \<and> (\<exists>w\<in>set (takeWhile (\<lambda>j. \<not> isCall (opcode j)) q). plain w \<and> isStore (opcode w) \<and>
         pointer w = pointer i \<and> (w \<in> set (AllLoadsAndStores (collect m body)) \<or> has_omp_operand m w))"
  proof (cases "harmless m i \<or> i \<in> set (selection m (pre @ i # ?r))")
    case False
    then obtain w where w: "w \<in> set ?r" "write_target m w" "pointer w = pointer i" and ld: "\<not> isStore (opcode i)"
      using selection_kept[of m i pre ?r] by (auto simp: overwritten_def)
    have "\<not> not_shared m (pointer w)" using False w(3) by (simp add: harmless_def)
    from write_target_chosen[OF w(2) this, of "pre @ i # ?r"] w(1)
    have "w \<in> set (selection m (pre @ i # ?r))" by simp
    then show ?thesis using kept[of w] w ld i by (auto simp: plain_def write_target_def)
  qed (use kept[of i] in blast)
qed

text \<open>A read of a shared variable and the write that follows it.\<close>

definition sample_llvm :: llvm where
  "sample_llvm = \<lparr>value_of = (\<lambda>v. \<lparr>v_name = [], v_kind = OtherValue, addr_space = 0, pointee_bits = 32, swift_error = False\<rparr>),
     stripInBoundsOffsets = id, GetUnderlyingObject = id, PointerMayBeCaptured = (\<lambda>v. True), prof_cnts_section = ''__llvm_prf_cnts''\<rparr>"

definition sample_load :: instr where
  "sample_load = \<lparr>inst_id = Some 1, opcode = LoadInst 4 NotAtomic False, pointer = 7, operands = [7], ompstatus = False, debug_loc = True\<rparr>"

definition sample_store :: instr where
  "sample_store = \<lparr>inst_id = Some 2, opcode = StoreInst 9 4 NotAtomic False, pointer = 7, operands = [9, 7], ompstatus = False, debug_loc = True\<rparr>"

lemma sample_plain: "plain sample_load" "plain sample_store"
  by (simp_all add: plain_def isAtomic_def sample_load_def sample_store_def)

lemma sample_shared: "\<not> harmless sample_llvm sample_store" "\<not> has_omp_operand sample_llvm sample_store"
  "\<not> isLoad (opcode sample_store)"
  by (simp_all add: harmless_def shouldInstrumentReadWriteFromAddress_def not_shared_def has_omp_operand_def omp_names_def
      sample_llvm_def sample_store_def)

lemma collect_correct_witness: "sample_store \<in> set (AllLoadsAndStores (collect sample_llvm [[sample_load, sample_store]]))"
  using collect_correct[of sample_llvm "[[sample_load, sample_store]]"] sample_plain(2) sample_shared
  by (metis append_Cons append_Nil list.set_intros(1))

text \<open>Debug scopes: an access is not instrumentable exactly when the chain of lexical blocks around it ends in a
  subprogram with a name of the OpenMP runtime.\<close>
lemma isNotInstrumentable_scopes:
  "isNotInstrumentable (fold (\<lambda>file scope. Some (if file then DILexicalBlockFile scope else DILexicalBlock scope)) files
     (Some (DISubprogram name linkage))) \<longleftrightarrow> startswith name ''.omp'' \<or> startswith linkage ''.omp''"
proof -
  have "isNotInstrumentable (fold (\<lambda>file scope. Some (if file then DILexicalBlockFile scope else DILexicalBlock scope)) files n)
    = isNotInstrumentable n" for n
    by (induction files arbitrary: n) auto
  then show ?thesis by simp
qed

text \<open>Of two neighbouring accesses to loop variables only the first is dropped.\<close>
lemma drop_omp_skips: "has_omp_operand m i \<Longrightarrow> drop_omp m (i # j # js) = j # drop_omp m js"
  by simp

lemma contains_str_iff: "contains_str s p \<longleftrightarrow> sublist p s"
proof (induction s)
  case (Cons c s)
  have "startswith (c # s) p \<longleftrightarrow> prefix p (c # s)" by (metis append_eq_conv_conj prefix_def startswith_def)
  then show ?case using Cons by (simp add: sublist_Cons_right)
qed simp

text \<open>A name belongs to a third party when it starts with one of the namespaces or mentions one before its arguments.\<close>
lemma isThirdParty_iff: "isThirdParty cxa name \<longleftrightarrow> (\<exists>ns\<in>set namespace_set. let str = demangle cxa name in
    prefix ns str \<or> CHR ''('' \<in> set str \<and> sublist ns (takeWhile (\<lambda>c. c \<noteq> CHR ''('') str))"
proof -
  have s: "startswith s p \<longleftrightarrow> prefix p s" for s p by (metis append_eq_conv_conj prefix_def startswith_def)
  have "ns \<in> set namespace_set \<Longrightarrow> \<not> contains_str [] ns" for ns by (auto simp: namespace_set_def)
  then show ?thesis by (auto simp: isThirdParty_def list_ex_iff Let_def s contains_str_iff)
qed

end
