(* ===== verification/InstrumentEmit.thy ===== *)
theory InstrumentEmit
  imports Instrument
begin

text \<open>
  The instrumentation pass (\<open>lib/Transforms/Instrumentation/InstrumentParallel.cpp\<close>), second half: the functions of
  the runtime that the pass declares, the calls it inserts at the chosen accesses and in place of the atomic
  operations, the thread-local globals it declares, and the dispatch between the original function and its
  instrumented clone. The names are compared with those that \<open>rtl/sword_interface.inl\<close> and \<open>rtl/sword_rtl.h\<close> define.
\<close>

section \<open>The functions of the runtime\<close>

primrec entry_name :: "entry \<Rightarrow> string" where
  "entry_name sword_read1 = ''__sword_read1''"
| "entry_name sword_read2 = ''__sword_read2''"
| "entry_name sword_read4 = ''__sword_read4''"
| "entry_name sword_read8 = ''__sword_read8''"
| "entry_name sword_read16 = ''__sword_read16''"
| "entry_name sword_write1 = ''__sword_write1''"
| "entry_name sword_write2 = ''__sword_write2''"
| "entry_name sword_write4 = ''__sword_write4''"
| "entry_name sword_write8 = ''__sword_write8''"
| "entry_name sword_write16 = ''__sword_write16''"
| "entry_name atomic8_load = ''__sword_atomic8_load''"
| "entry_name atomic16_load = ''__sword_atomic16_load''"
| "entry_name atomic32_load = ''__sword_atomic32_load''"
| "entry_name atomic64_load = ''__sword_atomic64_load''"
| "entry_name atomic128_load = ''__sword_atomic128_load''"
| "entry_name atomic8_store = ''__sword_atomic8_store''"
| "entry_name atomic16_store = ''__sword_atomic16_store''"
| "entry_name atomic32_store = ''__sword_atomic32_store''"
| "entry_name atomic64_store = ''__sword_atomic64_store''"
| "entry_name atomic128_store = ''__sword_atomic128_store''"
| "entry_name atomic8_fetch_add = ''__sword_atomic8_fetch_add''"
| "entry_name atomic16_fetch_add = ''__sword_atomic16_fetch_add''"
| "entry_name atomic32_fetch_add = ''__sword_atomic32_fetch_add''"
| "entry_name atomic64_fetch_add = ''__sword_atomic64_fetch_add''"
| "entry_name atomic128_fetch_add = ''__sword_atomic128_fetch_add''"
| "entry_name atomic8_fetch_sub = ''__sword_atomic8_fetch_sub''"
| "entry_name atomic16_fetch_sub = ''__sword_atomic16_fetch_sub''"
| "entry_name atomic32_fetch_sub = ''__sword_atomic32_fetch_sub''"
| "entry_name atomic64_fetch_sub = ''__sword_atomic64_fetch_sub''"
| "entry_name atomic128_fetch_sub = ''__sword_atomic128_fetch_sub''"
| "entry_name atomic8_compare_exchange = ''__sword_atomic8_compare_exchange_val''"
| "entry_name atomic16_compare_exchange = ''__sword_atomic16_compare_exchange_val''"
| "entry_name atomic32_compare_exchange = ''__sword_atomic32_compare_exchange_val''"
| "entry_name atomic64_compare_exchange = ''__sword_atomic64_compare_exchange_val''"
| "entry_name atomic128_compare_exchange = ''__sword_atomic128_compare_exchange_val''"

section \<open>Callbacks\<close>

datatype cty = VoidT | IntT nat | PtrT nat   \<comment> \<open>an integer, or a pointer to one, of that many bits\<close>

definition kNumberOfAccessSizes :: nat where
  "kNumberOfAccessSizes = 5"

definition ByteSize :: "nat \<Rightarrow> nat" where
  "ByteSize i = 2 ^ i"

definition BitSize :: "nat \<Rightarrow> nat" where
  "BitSize i = ByteSize i * 8"

definition SwordRead :: "nat \<Rightarrow> string" where
  "SwordRead i = ''__sword_read'' @ print_nat (ByteSize i)"

definition SwordWrite :: "nat \<Rightarrow> string" where
  "SwordWrite i = ''__sword_write'' @ print_nat (ByteSize i)"

definition SwordUnalignedRead :: "nat \<Rightarrow> string" where
  "SwordUnalignedRead i = ''__sword_unaligned_read'' @ print_nat (ByteSize i)"

definition SwordUnalignedWrite :: "nat \<Rightarrow> string" where
  "SwordUnalignedWrite i = ''__sword_unaligned_write'' @ print_nat (ByteSize i)"

definition SwordAtomicLoad :: "nat \<Rightarrow> string" where
  "SwordAtomicLoad i = ''__sword_atomic'' @ print_nat (BitSize i) @ ''_load''"

definition SwordAtomicStore :: "nat \<Rightarrow> string" where
  "SwordAtomicStore i = ''__sword_atomic'' @ print_nat (BitSize i) @ ''_store''"

primrec NamePart :: "rmw_op \<Rightarrow> string option" where
  "NamePart Xchg = Some ''_exchange''"
| "NamePart Add = Some ''_fetch_add''"
| "NamePart Sub = Some ''_fetch_sub''"
| "NamePart And = Some ''_fetch_and''"
| "NamePart Or = Some ''_fetch_or''"
| "NamePart Xor = Some ''_fetch_xor''"
| "NamePart Nand = Some ''_fetch_nand''"
| "NamePart Max = None"
| "NamePart Min = None"
| "NamePart UMax = None"
| "NamePart UMin = None"

definition SwordAtomicRMW :: "rmw_op \<Rightarrow> nat \<Rightarrow> string option" where
  "SwordAtomicRMW op i = map_option (\<lambda>part. ''__sword_atomic'' @ print_nat (BitSize i) @ part) (NamePart op)"

definition SwordAtomicCAS :: "nat \<Rightarrow> string" where
  "SwordAtomicCAS i = ''__sword_atomic'' @ print_nat (BitSize i) @ ''_compare_exchange_val''"

definition SwordAtomicThreadFence :: string where
  "SwordAtomicThreadFence = ''__sword_atomic_thread_fence''"

definition SwordAtomicSignalFence :: string where
  "SwordAtomicSignalFence = ''__sword_atomic_signal_fence''"

text \<open>The binary operations of LLVM from \<open>FIRST_BINOP\<close> to \<open>LAST_BINOP\<close>.\<close>

definition binops :: "rmw_op list" where
  "binops = [Xchg, Add, Sub, And, Nand, Or, Xor, Max, Min, UMax, UMin]"

text \<open>The declarations: name, result and parameters.\<close>

definition initializeCallbacks :: "(string \<times> cty \<times> cty list) list" where
  "initializeCallbacks = concat (map (\<lambda>i.
     let Ty = IntT (BitSize i); PtrTy = PtrT (BitSize i); OrdTy = IntT 32 in
     [(SwordRead i, VoidT, [PtrT 8]), (SwordWrite i, VoidT, [PtrT 8]),
      (SwordUnalignedRead i, VoidT, [PtrT 8]), (SwordUnalignedWrite i, VoidT, [PtrT 8]),
      (SwordAtomicLoad i, Ty, [PtrTy, OrdTy]), (SwordAtomicStore i, VoidT, [PtrTy, Ty, OrdTy])] @
     concat (map (\<lambda>op. case SwordAtomicRMW op i of None \<Rightarrow> [] | Some RMWName \<Rightarrow> [(RMWName, Ty, [PtrTy, Ty, OrdTy])]) binops) @
     [(SwordAtomicCAS i, Ty, [PtrTy, Ty, Ty, OrdTy, OrdTy])]) [0..<kNumberOfAccessSizes]) @
   [(SwordAtomicThreadFence, VoidT, [IntT 32]), (SwordAtomicSignalFence, VoidT, [IntT 32])]"

section \<open>Instrumenting an access\<close>

definition countTrailingZeros :: "uint \<Rightarrow> nat" where
  "countTrailingZeros x = length (takeWhile (\<lambda>n. \<not> bit x n) [0..<32])"

definition TypeSize :: "llvm \<Rightarrow> vid \<Rightarrow> uint" where
  "TypeSize m addr = ucast (pointee_bits (value_of m addr))"

text \<open>\<open>None\<close> stands for the result -1.\<close>

definition getMemoryAccessFuncIndex :: "llvm \<Rightarrow> vid \<Rightarrow> nat option" where
  "getMemoryAccessFuncIndex m addr = (let size = TypeSize m addr in
     if size \<noteq> 8 \<and> size \<noteq> 16 \<and> size \<noteq> 32 \<and> size \<noteq> 64 \<and> size \<noteq> 128 then None
     else Some (countTrailingZeros (size div 8)))"

definition new_call :: "string \<Rightarrow> arg list \<Rightarrow> nat option \<Rightarrow> instr" where
  "new_call callee args uses = \<lparr>inst_id = None, opcode = CallInst callee args uses, pointer = 0, operands = [],
     ompstatus = False, debug_loc = False\<rparr>"

definition replace_inst :: "instr \<Rightarrow> instr list \<Rightarrow> instr list list \<Rightarrow> instr list list" where
  "replace_inst i is body = map (\<lambda>bb. concat (map (\<lambda>j. if inst_id j = inst_id i then is else [j]) bb)) body"

definition insert_before :: "instr \<Rightarrow> instr \<Rightarrow> instr list list \<Rightarrow> instr list list" where
  "insert_before i call body = replace_inst i [call, i] body"

definition getAlignment :: "instr \<Rightarrow> uint" where
  "getAlignment i = (case opcode i of LoadInst a _ _ \<Rightarrow> a | StoreInst _ a _ _ \<Rightarrow> a | _ \<Rightarrow> 0)"

definition OnAccessFunc :: "llvm \<Rightarrow> instr \<Rightarrow> nat \<Rightarrow> string" where
  "OnAccessFunc m i Idx = (let Alignment = getAlignment i; IsWrite = isStore (opcode i) in
     if Alignment = 0 \<or> 8 \<le> Alignment \<or> Alignment mod (TypeSize m (pointer i) div 8) = 0
     then (if IsWrite then SwordWrite Idx else SwordRead Idx)
     else (if IsWrite then SwordUnalignedWrite Idx else SwordUnalignedRead Idx))"

definition instrumentLoadOrStore :: "llvm \<Rightarrow> instr \<Rightarrow> instr list list \<Rightarrow> bool \<times> instr list list" where
  "instrumentLoadOrStore m i body = (let addr = pointer i in
     if swift_error (value_of m addr) then (False, body)
     else case getMemoryAccessFuncIndex m addr of
       None \<Rightarrow> (False, body)
     | Some Idx \<Rightarrow> (True, insert_before i (new_call (OnAccessFunc m i Idx) [PtrArg addr 8] None) body))"

text \<open>\<open>None\<close> is \<open>llvm_unreachable\<close>.\<close>

primrec createOrdering :: "ordering \<Rightarrow> uint option" where
  "createOrdering NotAtomic = None"
| "createOrdering Unordered = Some 0"
| "createOrdering Monotonic = Some 0"
| "createOrdering Acquire = Some 2"
| "createOrdering Release = Some 3"
| "createOrdering AcquireRelease = Some 4"
| "createOrdering SequentiallyConsistent = Some 5"

text \<open>An atomic load stays and its uses take the result of the call; the other atomic operations are replaced.\<close>

definition instrumentAtomic :: "llvm \<Rightarrow> instr \<Rightarrow> instr list list \<Rightarrow> (bool \<times> instr list list) option" where
  "instrumentAtomic m i body = (let addr = pointer i; index = getMemoryAccessFuncIndex m addr in
     case opcode i of
       LoadInst _ ord _ \<Rightarrow> (case index of None \<Rightarrow> Some (False, body) | Some Idx \<Rightarrow> do {
         ord \<leftarrow> createOrdering ord;
         Some (True, insert_before i
           (new_call (SwordAtomicLoad Idx) [PtrArg addr (BitSize Idx), OrdArg ord] (inst_id i)) body) })
     | StoreInst val _ ord _ \<Rightarrow> (case index of None \<Rightarrow> Some (False, body) | Some Idx \<Rightarrow> do {
         ord \<leftarrow> createOrdering ord;
         Some (True, replace_inst i
           [new_call (SwordAtomicStore Idx) [PtrArg addr (BitSize Idx), IntArg val (BitSize Idx), OrdArg ord] None] body) })
     | AtomicRMWInst op val ord \<Rightarrow> (case index of None \<Rightarrow> Some (False, body) | Some Idx \<Rightarrow>
         (case SwordAtomicRMW op Idx of None \<Rightarrow> Some (False, body) | Some F \<Rightarrow> do {
           ord \<leftarrow> createOrdering ord;
           Some (True, replace_inst i
             [new_call F [PtrArg addr (BitSize Idx), IntArg val (BitSize Idx), OrdArg ord] (inst_id i)] body) }))
     | AtomicCmpXchgInst cmp new succ fail \<Rightarrow> (case index of None \<Rightarrow> Some (False, body) | Some Idx \<Rightarrow> do {
         succ \<leftarrow> createOrdering succ;
         fail \<leftarrow> createOrdering fail;
         Some (True, replace_inst i
           [new_call (SwordAtomicCAS Idx) [PtrArg addr (BitSize Idx), IntArg cmp (BitSize Idx), IntArg new (BitSize Idx),
              OrdArg succ, OrdArg fail] (inst_id i)] body) })
     | FenceInst ord single \<Rightarrow> do {
         ord \<leftarrow> createOrdering ord;
         Some (True, replace_inst i
           [new_call (if single then SwordAtomicSignalFence else SwordAtomicThreadFence) [OrdArg ord] None] body) }
     | _ \<Rightarrow> Some (True, body))"

text \<open>The memory intrinsics would become calls of the library functions; nothing calls this, and \<open>MemsetFn\<close>,
  \<open>MemcpyFn\<close> and \<open>MemmoveFn\<close>, the names given here, are never set.\<close>

definition instrumentMemIntrinsic :: "string \<Rightarrow> string \<Rightarrow> string \<Rightarrow> nat \<Rightarrow> instr \<Rightarrow> instr list list \<Rightarrow> bool \<times> instr list list" where
  "instrumentMemIntrinsic MemsetFn MemcpyFn MemmoveFn intptr i body = (case opcode i of
     MemSetInst a b c \<Rightarrow> (False, replace_inst i [new_call MemsetFn [PtrArg a 8, IntArg b 32, IntArg c intptr] None] body)
   | MemCpyInst a b c \<Rightarrow> (False, replace_inst i [new_call MemcpyFn [PtrArg a 8, PtrArg b 8, IntArg c intptr] None] body)
   | MemMoveInst a b c \<Rightarrow> (False, replace_inst i [new_call MemmoveFn [PtrArg a 8, PtrArg b 8, IntArg c intptr] None] body)
   | _ \<Rightarrow> (False, body))"

primrec instrument_accesses :: "llvm \<Rightarrow> instr list \<Rightarrow> bool \<Rightarrow> instr list list \<Rightarrow> bool \<times> instr list list" where
  "instrument_accesses m [] Res body = (Res, body)"
| "instrument_accesses m (i # is) Res body =
     (let (r, body) = instrumentLoadOrStore m i body in instrument_accesses m is (Res \<or> r) body)"

primrec instrument_atomics :: "llvm \<Rightarrow> instr list \<Rightarrow> bool \<Rightarrow> instr list list \<Rightarrow> (bool \<times> instr list list) option" where
  "instrument_atomics m [] Res body = Some (Res, body)"
| "instrument_atomics m (i # is) Res body =
     do { r \<leftarrow> instrumentAtomic m i body; instrument_atomics m is (Res \<or> fst r) (snd r) }"

definition instrument_body :: "llvm \<Rightarrow> instr list list \<Rightarrow> (bool \<times> instr list list) option" where
  "instrument_body m body = (
     let c = collect m body; r = instrument_accesses m (AllLoadsAndStores c) False body in
     instrument_atomics m (AtomicAccesses c) (fst r) (snd r))"

section \<open>What an instrumented body looks like\<close>

definition access_lines :: "llvm \<Rightarrow> instr \<Rightarrow> instr list" where
  "access_lines m i = (
     if swift_error (value_of m (pointer i)) then [i]
     else case getMemoryAccessFuncIndex m (pointer i) of
       None \<Rightarrow> [i] | Some Idx \<Rightarrow> [new_call (OnAccessFunc m i Idx) [PtrArg (pointer i) 8] None, i])"

definition valid_orderings :: "instr \<Rightarrow> bool" where
  "valid_orderings i \<longleftrightarrow> (case opcode i of
     AtomicRMWInst _ _ ord \<Rightarrow> ord \<noteq> NotAtomic
   | AtomicCmpXchgInst _ _ succ fail \<Rightarrow> succ \<noteq> NotAtomic \<and> fail \<noteq> NotAtomic
   | FenceInst ord _ \<Rightarrow> ord \<noteq> NotAtomic
   | _ \<Rightarrow> True)"

definition ord_arg :: "ordering \<Rightarrow> arg" where
  "ord_arg ord = OrdArg (case createOrdering ord of Some v \<Rightarrow> v | None \<Rightarrow> 0)"

definition atomic_lines :: "llvm \<Rightarrow> instr \<Rightarrow> instr list" where
  "atomic_lines m i = (let addr = pointer i in
     case opcode i of
       FenceInst ord single \<Rightarrow> [new_call (if single then SwordAtomicSignalFence else SwordAtomicThreadFence) [ord_arg ord] None]
     | oc \<Rightarrow> (case getMemoryAccessFuncIndex m addr of None \<Rightarrow> [i] | Some Idx \<Rightarrow> (let p = PtrArg addr (BitSize Idx) in
         case oc of
           LoadInst _ ord _ \<Rightarrow> [new_call (SwordAtomicLoad Idx) [p, ord_arg ord] (inst_id i), i]
         | StoreInst val _ ord _ \<Rightarrow> [new_call (SwordAtomicStore Idx) [p, IntArg val (BitSize Idx), ord_arg ord] None]
         | AtomicRMWInst op val ord \<Rightarrow> (case SwordAtomicRMW op Idx of None \<Rightarrow> [i]
             | Some F \<Rightarrow> [new_call F [p, IntArg val (BitSize Idx), ord_arg ord] (inst_id i)])
         | AtomicCmpXchgInst cmp new succ fail \<Rightarrow>
             [new_call (SwordAtomicCAS Idx) [p, IntArg cmp (BitSize Idx), IntArg new (BitSize Idx), ord_arg succ, ord_arg fail] (inst_id i)]
         | _ \<Rightarrow> [i])))"

definition expanded :: "(instr \<Rightarrow> instr list) \<Rightarrow> instr list list \<Rightarrow> instr list list" where
  "expanded g body = map (\<lambda>bb. concat (map g bb)) body"

text \<open>Every instruction of a body has an identity of its own.\<close>

definition well_ids :: "instr list list \<Rightarrow> bool" where
  "well_ids body \<longleftrightarrow> distinct (map inst_id (concat body)) \<and> None \<notin> inst_id ` set (concat body)"

definition traced :: "(instr \<Rightarrow> instr list) \<Rightarrow> bool" where
  "traced g \<longleftrightarrow> (\<forall>j. inst_id ` set (g j) \<subseteq> {None, inst_id j})"

lemma well_ids_inj: "well_ids body \<Longrightarrow> i \<in> set (concat body) \<Longrightarrow> j \<in> set (concat body) \<Longrightarrow> inst_id i = inst_id j \<Longrightarrow> i = j"
  unfolding well_ids_def distinct_map by (meson inj_onD)

lemma replace_expanded:
  assumes "well_ids body" "traced g" "i \<in> set (concat body)" "g i = [i]"
  shows "replace_inst i ls (expanded g body) = expanded (g(i := ls)) body"
proof -
  let ?r = "\<lambda>j. if inst_id j = inst_id i then ls else [j]"
  have id: "inst_id i \<noteq> None" using assms(1,3) unfolding well_ids_def by (metis image_eqI)
  have keep: "concat (map ?r (g j)) = (g(i := ls)) j" if "j \<in> set (concat body)" for j
  proof (cases "j = i")
    case False
    then have "inst_id j \<noteq> inst_id i" using well_ids_inj[OF assms(1) that assms(3)] by blast
    then have "\<forall>k\<in>set (g j). inst_id k \<noteq> inst_id i" using assms(2) id unfolding traced_def by fastforce
    then have "concat (map ?r (g j)) = concat (map (\<lambda>k. [k]) (g j))" by (intro arg_cong[of _ _ concat] map_cong) auto
    then show ?thesis using False by simp
  qed (use assms(4) in simp)
  have cc: "concat (map ?r (concat (map g bb))) = concat (map (\<lambda>j. concat (map ?r (g j))) bb)" for bb
    by (induction bb) auto
  have "concat (map ?r (concat (map g bb))) = concat (map (g(i := ls)) bb)" if "bb \<in> set body" for bb
  proof -
    have "map (\<lambda>j. concat (map ?r (g j))) bb = map (g(i := ls)) bb"
      by (rule map_cong[OF refl], rule keep) (use that in auto)
    then show ?thesis unfolding cc by (rule arg_cong)
  qed
  then show ?thesis by (simp add: replace_inst_def expanded_def)
qed

lemma traced_upd: "traced g \<Longrightarrow> inst_id ` set ls \<subseteq> {None, inst_id i} \<Longrightarrow> traced (g(i := ls))"
  by (auto simp: traced_def)

lemma new_call_id [simp]: "inst_id (new_call f as u) = None"
  by (simp add: new_call_def)

lemma access_step:
  assumes "well_ids body" "traced g" "i \<in> set (concat body)" "g i = [i]"
  shows "instrumentLoadOrStore m i (expanded g body) = (access_lines m i \<noteq> [i], expanded (g(i := access_lines m i)) body) \<and>
    inst_id ` set (access_lines m i) \<subseteq> {None, inst_id i}"
proof -
  have "g(i := [i]) = g" using assms(4) by (metis fun_upd_triv)
  then show ?thesis using replace_expanded[OF assms]
    by (auto simp: instrumentLoadOrStore_def access_lines_def insert_before_def Let_def split: option.splits)
qed

lemma ord_arg_some: "createOrdering ord = Some v \<Longrightarrow> ord_arg ord = OrdArg v"
  by (simp add: ord_arg_def)

lemma createOrdering_some: "ord \<noteq> NotAtomic \<Longrightarrow> \<exists>v. createOrdering ord = Some v \<and> ord_arg ord = OrdArg v"
  by (cases ord) (simp_all add: ord_arg_def)

lemma atomic_step:
  assumes "well_ids body" "traced g" "i \<in> set (concat body)" "g i = [i]" "isAtomic i" "valid_orderings i"
  shows "instrumentAtomic m i (expanded g body) = Some (atomic_lines m i \<noteq> [i], expanded (g(i := atomic_lines m i)) body) \<and>
    inst_id ` set (atomic_lines m i) \<subseteq> {None, inst_id i}"
proof -
  have g: "g(i := [i]) = g" using assms(4) by (metis fun_upd_triv)
  note R = replace_expanded[OF assms(1-4)]
  have new: "[new_call f as u] \<noteq> [i]" for f as u
    using assms(1,3) unfolding well_ids_def by (metis image_eqI list.inject new_call_id)
  show ?thesis
    using assms(5,6) new
    by (cases "opcode i"; cases "getMemoryAccessFuncIndex m (pointer i)")
      (auto simp: instrumentAtomic_def atomic_lines_def insert_before_def isAtomic_def valid_orderings_def g R Let_def
        dest!: createOrdering_some split: option.splits)
qed

lemma instrument_accesses_eq:
  assumes "well_ids body" "traced g" "set is \<subseteq> set (concat body)" "distinct is" "\<forall>i\<in>set is. g i = [i]"
  shows "instrument_accesses m is Res (expanded g body) =
    (Res \<or> (\<exists>i\<in>set is. access_lines m i \<noteq> [i]), expanded (\<lambda>j. if j \<in> set is then access_lines m j else g j) body) \<and>
    traced (\<lambda>j. if j \<in> set is then access_lines m j else g j)"
  using assms
proof (induction "is" arbitrary: g Res)
  case (Cons i "is")
  let ?g = "g(i := access_lines m i)"
  have i: "i \<in> set (concat body)" "g i = [i]" using Cons.prems(3,5) by simp_all
  note A = access_step[OF Cons.prems(1,2) i, of m]
  have t: "traced ?g" using traced_upd[OF Cons.prems(2)] A by blast
  have "\<forall>j\<in>set is. ?g j = [j]" using Cons.prems(4,5) by auto
  have p: "set is \<subseteq> set (concat body)" "distinct is" using Cons.prems(3,4) by auto
  note I = Cons.IH[OF Cons.prems(1) t p \<open>\<forall>j\<in>set is. ?g j = [j]\<close>, of "Res \<or> access_lines m i \<noteq> [i]"]
  have IH: "instrument_accesses m is (Res \<or> access_lines m i \<noteq> [i]) (expanded ?g body) =
      (Res \<or> access_lines m i \<noteq> [i] \<or> (\<exists>i\<in>set is. access_lines m i \<noteq> [i]),
       expanded (\<lambda>j. if j \<in> set is then access_lines m j else ?g j) body)"
    "traced (\<lambda>j. if j \<in> set is then access_lines m j else ?g j)" using I by (simp_all only: disj_assoc)
  have e: "(\<lambda>j. if j \<in> set is then access_lines m j else ?g j) = (\<lambda>j. if j \<in> set (i # is) then access_lines m j else g j)"
    by auto
  show ?case using IH A unfolding e by (auto simp del: fun_upd_apply)
qed simp

lemma instrument_atomics_eq:
  assumes "well_ids body" "traced g" "set is \<subseteq> set (concat body)" "distinct is" "\<forall>i\<in>set is. g i = [i]"
    "\<forall>i\<in>set is. isAtomic i \<and> valid_orderings i"
  shows "instrument_atomics m is Res (expanded g body) =
    Some (Res \<or> (\<exists>i\<in>set is. atomic_lines m i \<noteq> [i]), expanded (\<lambda>j. if j \<in> set is then atomic_lines m j else g j) body)"
  using assms
proof (induction "is" arbitrary: g Res)
  case (Cons i "is")
  let ?g = "g(i := atomic_lines m i)"
  have i: "i \<in> set (concat body)" "g i = [i]" "isAtomic i" "valid_orderings i" using Cons.prems(3,5,6) by simp_all
  note A = atomic_step[OF Cons.prems(1,2) i, of m]
  have t: "traced ?g" using traced_upd[OF Cons.prems(2)] A by blast
  have "\<forall>j\<in>set is. ?g j = [j]" using Cons.prems(4,5) by auto
  have p: "set is \<subseteq> set (concat body)" "distinct is" using Cons.prems(3,4) by auto
  have q: "\<forall>i\<in>set is. isAtomic i \<and> valid_orderings i" using Cons.prems(6) by auto
  note I = Cons.IH[OF Cons.prems(1) t p \<open>\<forall>j\<in>set is. ?g j = [j]\<close> q, of "Res \<or> atomic_lines m i \<noteq> [i]"]
  have IH: "instrument_atomics m is (Res \<or> atomic_lines m i \<noteq> [i]) (expanded ?g body) =
      Some (Res \<or> atomic_lines m i \<noteq> [i] \<or> (\<exists>i\<in>set is. atomic_lines m i \<noteq> [i]),
       expanded (\<lambda>j. if j \<in> set is then atomic_lines m j else ?g j) body)" using I by (simp only: disj_assoc)
  have e: "(\<lambda>j. if j \<in> set is then atomic_lines m j else ?g j) = (\<lambda>j. if j \<in> set (i # is) then atomic_lines m j else g j)"
    by auto
  show ?case using IH A unfolding e by (auto simp del: fun_upd_apply)
qed simp

lemma segments_concat: "concat (segments L bb) = L @ filter plain bb"
  by (induction L bb rule: segments.induct) (use kinds(1) in \<open>auto simp: plain_def\<close>)

lemma selection_distinct: "distinct L \<Longrightarrow> distinct (selection m L)"
  using selection_set by (induction L) fastforce+

lemma drop_omp_distinct: "distinct xs \<Longrightarrow> distinct (drop_omp m xs)"
proof (induction m xs rule: drop_omp.induct)
  case (2 m i "is")
  show ?case
  proof (cases "has_omp_operand m i")
    case True
    then show ?thesis using 2 drop_omp_set by (cases "is") fastforce+
  next
    case False
    then show ?thesis using 2 drop_omp_set[of m "is"] by auto
  qed
qed simp

lemma add_segments_distinct: "distinct (all @ concat segs) \<Longrightarrow> distinct (fold (add_segment m) segs all)"
proof (induction segs arbitrary: all)
  case (Cons seg segs)
  have "distinct (all @ selection m seg)" using Cons.prems selection_distinct[of seg m] selection_set[of m seg] by auto
  then have "distinct (add_segment m seg all)" unfolding add_segment_def by (rule drop_omp_distinct)
  moreover have "set (add_segment m seg all) \<subseteq> set all \<union> set seg"
    using drop_omp_set[of m "all @ selection m seg"] selection_set[of m seg] by (auto simp: add_segment_def)
  ultimately have "distinct (add_segment m seg all @ concat segs)" using Cons.prems by auto
  from Cons.IH[OF this] show ?case by simp
qed simp

lemma collect_distinct:
  assumes "distinct (concat body)"
  shows "distinct (AllLoadsAndStores (collect m body))"
proof -
  have "concat (concat (map (segments []) body)) = filter plain (concat body)"
    by (induction body) (simp_all add: segments_concat)
  then show ?thesis unfolding collect_eq(1) by (intro add_segments_distinct) (simp add: assms)
qed

text \<open>The lines that stand for an instruction in the instrumented body.\<close>

definition lines_of :: "llvm \<Rightarrow> instr list list \<Rightarrow> instr \<Rightarrow> instr list" where
  "lines_of m body i = (
     if i \<in> set (AllLoadsAndStores (collect m body)) then access_lines m i
     else if isAtomic i then atomic_lines m i else [i])"

lemma instrument_body_ok:
  assumes "well_ids body" "\<forall>i\<in>set (concat body). valid_orderings i"
  shows "\<exists>Res. instrument_body m body = Some (Res, expanded (lines_of m body) body) \<and>
    (Res \<longleftrightarrow> (\<exists>i\<in>set (concat body). lines_of m body i \<noteq> [i]))"
proof -
  let ?c = "collect m body" and ?g = "\<lambda>j. [j]"
  let ?A = "AllLoadsAndStores ?c" and ?T = "AtomicAccesses ?c"
  let ?g1 = "\<lambda>j. if j \<in> set ?A then access_lines m j else ?g j"
  have d: "distinct (concat body)" using assms(1) by (auto simp: well_ids_def distinct_map)
  have T: "?T = filter isAtomic (concat body)" by (rule collect_eq(2))
  have A: "\<forall>i\<in>set ?A. i \<in> set (concat body) \<and> \<not> isAtomic i"
  proof
    fix i assume "i \<in> set ?A"
    then have "i \<in> (\<Union>seg\<in>set (concat (map (segments []) body)). set (selection m seg))"
      using subsetD[OF add_segments_set, of i m "concat (map (segments []) body)" "[]"] unfolding collect_eq(1) by simp
    then obtain bb seg where "bb \<in> set body" "seg \<in> set (segments [] bb)" "i \<in> set (selection m seg)" by auto
    then show "i \<in> set (concat body) \<and> \<not> isAtomic i"
      using segments_set[of seg "[]" bb] selection_set[of m seg] by (auto simp: plain_def)
  qed
  have e: "expanded ?g body = body"
  proof -
    have "concat (map ?g bb) = bb" for bb by (induction bb) auto
    then show ?thesis by (simp add: expanded_def)
  qed
  have t: "traced ?g" by (simp add: traced_def)
  have 1: "set ?A \<subseteq> set (concat body)" using A by blast
  note I1 = instrument_accesses_eq[OF assms(1) t 1 collect_distinct[OF d], of m False, simplified e]
  have 2: "set ?T \<subseteq> set (concat body)" "distinct ?T" "\<forall>i\<in>set ?T. ?g1 i = [i]"
    "\<forall>i\<in>set ?T. isAtomic i \<and> valid_orderings i"
    using A assms(2) d by (auto simp: T)
  have t1: "traced ?g1" using I1 by simp
  note I2 = instrument_atomics_eq[OF assms(1) t1 2, of m "\<exists>i\<in>set ?A. access_lines m i \<noteq> [i]"]
  have f: "expanded (\<lambda>j. if j \<in> set ?T then atomic_lines m j else ?g1 j) body = expanded (lines_of m body) body"
  proof -
    have "concat (map (\<lambda>j. if j \<in> set ?T then atomic_lines m j else ?g1 j) bb) = concat (map (lines_of m body) bb)"
      if "bb \<in> set body" for bb
    proof -
      have "map (\<lambda>j. if j \<in> set ?T then atomic_lines m j else ?g1 j) bb = map (lines_of m body) bb"
        by (rule map_cong[OF refl]) (use that A in \<open>auto simp: T lines_of_def\<close>)
      then show ?thesis by (rule arg_cong)
    qed
    then show ?thesis by (simp add: expanded_def)
  qed
  have r: "((\<exists>i\<in>set ?A. access_lines m i \<noteq> [i]) \<or> (\<exists>i\<in>set ?T. atomic_lines m i \<noteq> [i])) \<longleftrightarrow>
    (\<exists>i\<in>set (concat body). lines_of m body i \<noteq> [i])"
    using A by (auto simp: T lines_of_def)
  have "instrument_accesses m ?A False body = ((\<exists>i\<in>set ?A. access_lines m i \<noteq> [i]), expanded ?g1 body)"
    using I1 by simp
  then have "instrument_body m body = Some ((\<exists>i\<in>set ?A. access_lines m i \<noteq> [i]) \<or> (\<exists>i\<in>set ?T. atomic_lines m i \<noteq> [i]),
    expanded (lines_of m body) body)"
    using I2 unfolding f by (simp add: instrument_body_def Let_def)
  then show ?thesis using r by blast
qed

section \<open>The calls and the runtime\<close>

lemma index_cases:
  assumes "getMemoryAccessFuncIndex m a = Some Idx"
  shows "Idx < kNumberOfAccessSizes \<and> unat (TypeSize m a) = BitSize Idx"
proof -
  have up: "[0..<32] = [0,1,2,3,4,5,6,7,8,9,10,11,12,13,14,15,16,17,18,19,20,21,22,23,24,25,26,27,28,29,30,31::nat]"
    by (simp add: upt_rec)
  show ?thesis using assms
    by (auto simp: getMemoryAccessFuncIndex_def Let_def countTrailingZeros_def up kNumberOfAccessSizes_def BitSize_def ByteSize_def
        split: if_splits)
qed

primrec arg_type :: "arg \<Rightarrow> cty" where
  "arg_type (PtrArg v n) = PtrT n"
| "arg_type (IntArg v n) = IntT n"
| "arg_type (OrdArg v) = IntT 32"

text \<open>A call of a declared function with arguments of the declared types, whose result is only used when it has one.\<close>

definition well_typed_call :: "instr \<Rightarrow> bool" where
  "well_typed_call c \<longleftrightarrow> (case opcode c of
     CallInst callee args uses \<Rightarrow>
       (\<exists>ret. (callee, ret, map arg_type args) \<in> set initializeCallbacks \<and> (uses \<noteq> None \<longrightarrow> ret \<noteq> VoidT))
   | _ \<Rightarrow> False)"

lemma declared:
  assumes "i < kNumberOfAccessSizes"
  shows "(SwordRead i, VoidT, [PtrT 8]) \<in> set initializeCallbacks"
    "(SwordWrite i, VoidT, [PtrT 8]) \<in> set initializeCallbacks"
    "(SwordUnalignedRead i, VoidT, [PtrT 8]) \<in> set initializeCallbacks"
    "(SwordUnalignedWrite i, VoidT, [PtrT 8]) \<in> set initializeCallbacks"
    "(SwordAtomicLoad i, IntT (BitSize i), [PtrT (BitSize i), IntT 32]) \<in> set initializeCallbacks"
    "(SwordAtomicStore i, VoidT, [PtrT (BitSize i), IntT (BitSize i), IntT 32]) \<in> set initializeCallbacks"
    "(SwordAtomicCAS i, IntT (BitSize i), [PtrT (BitSize i), IntT (BitSize i), IntT (BitSize i), IntT 32, IntT 32])
       \<in> set initializeCallbacks"
    "SwordAtomicRMW op i = Some F \<Longrightarrow>
       (F, IntT (BitSize i), [PtrT (BitSize i), IntT (BitSize i), IntT 32]) \<in> set initializeCallbacks"
proof -
  have i: "i \<in> set [0..<kNumberOfAccessSizes]" using assms by simp
  show "(SwordRead i, VoidT, [PtrT 8]) \<in> set initializeCallbacks"
    "(SwordWrite i, VoidT, [PtrT 8]) \<in> set initializeCallbacks"
    "(SwordUnalignedRead i, VoidT, [PtrT 8]) \<in> set initializeCallbacks"
    "(SwordUnalignedWrite i, VoidT, [PtrT 8]) \<in> set initializeCallbacks"
    "(SwordAtomicLoad i, IntT (BitSize i), [PtrT (BitSize i), IntT 32]) \<in> set initializeCallbacks"
    "(SwordAtomicStore i, VoidT, [PtrT (BitSize i), IntT (BitSize i), IntT 32]) \<in> set initializeCallbacks"
    "(SwordAtomicCAS i, IntT (BitSize i), [PtrT (BitSize i), IntT (BitSize i), IntT (BitSize i), IntT 32, IntT 32])
       \<in> set initializeCallbacks"
    unfolding initializeCallbacks_def set_append set_concat set_map Let_def
    by (rule UnI1, rule UN_I[OF imageI[OF i]], simp)+
  have op: "op \<in> set binops" by (cases op) (simp_all add: binops_def)
  show "(F, IntT (BitSize i), [PtrT (BitSize i), IntT (BitSize i), IntT 32]) \<in> set initializeCallbacks"
    if "SwordAtomicRMW op i = Some F"
    unfolding initializeCallbacks_def set_append set_concat set_map Let_def
    by (rule UnI1, rule UN_I[OF imageI[OF i]]) (auto simp: that intro!: bexI[OF _ op])
qed

lemma ord_arg_type [simp]: "arg_type (ord_arg ord) = IntT 32"
  by (simp add: ord_arg_def)

lemma fence_declared: "(SwordAtomicThreadFence, VoidT, [IntT 32]) \<in> set initializeCallbacks"
  "(SwordAtomicSignalFence, VoidT, [IntT 32]) \<in> set initializeCallbacks"
  by (simp_all add: initializeCallbacks_def)

lemma well_typed_new:
  "well_typed_call (new_call f as u) \<longleftrightarrow>
    (\<exists>ret. (f, ret, map arg_type as) \<in> set initializeCallbacks \<and> (u \<noteq> None \<longrightarrow> ret \<noteq> VoidT))"
  by (simp add: well_typed_call_def new_call_def)

lemma typed_calls:
  assumes "i < kNumberOfAccessSizes"
  shows "f \<in> {SwordRead i, SwordWrite i, SwordUnalignedRead i, SwordUnalignedWrite i} \<Longrightarrow> well_typed_call (new_call f [PtrArg a 8] None)"
    "well_typed_call (new_call (SwordAtomicLoad i) [PtrArg a (BitSize i), ord_arg ord] u)"
    "well_typed_call (new_call (SwordAtomicStore i) [PtrArg a (BitSize i), IntArg v (BitSize i), ord_arg ord] None)"
    "well_typed_call (new_call (SwordAtomicCAS i)
       [PtrArg a (BitSize i), IntArg v (BitSize i), IntArg w (BitSize i), ord_arg ord, ord_arg ord'] u)"
    "SwordAtomicRMW op i = Some F \<Longrightarrow>
       well_typed_call (new_call F [PtrArg a (BitSize i), IntArg v (BitSize i), ord_arg ord] u)"
proof -
  note D = declared[OF assms]
  show "f \<in> {SwordRead i, SwordWrite i, SwordUnalignedRead i, SwordUnalignedWrite i} \<Longrightarrow> well_typed_call (new_call f [PtrArg a 8] None)"
    unfolding well_typed_new using D(1-4) by auto
  show "well_typed_call (new_call (SwordAtomicLoad i) [PtrArg a (BitSize i), ord_arg ord] u)"
    unfolding well_typed_new using D(5) by auto
  show "well_typed_call (new_call (SwordAtomicStore i) [PtrArg a (BitSize i), IntArg v (BitSize i), ord_arg ord] None)"
    unfolding well_typed_new using D(6) by auto
  show "well_typed_call (new_call (SwordAtomicCAS i)
       [PtrArg a (BitSize i), IntArg v (BitSize i), IntArg w (BitSize i), ord_arg ord, ord_arg ord'] u)"
    unfolding well_typed_new using D(7) by auto
  show "SwordAtomicRMW op i = Some F \<Longrightarrow>
       well_typed_call (new_call F [PtrArg a (BitSize i), IntArg v (BitSize i), ord_arg ord] u)"
    unfolding well_typed_new using D(8) by auto
qed

lemma access_lines_typed: "c \<in> set (access_lines m i) \<Longrightarrow> c \<noteq> i \<Longrightarrow> well_typed_call c"
  using index_cases[of m "pointer i"]
  by (auto simp: access_lines_def OnAccessFunc_def Let_def intro: typed_calls split: if_splits option.splits)

lemma fence_typed: "well_typed_call (new_call SwordAtomicThreadFence [ord_arg ord] None)"
  "well_typed_call (new_call SwordAtomicSignalFence [ord_arg ord] None)"
  unfolding well_typed_new using fence_declared by auto

lemma atomic_lines_typed: "c \<in> set (atomic_lines m i) \<Longrightarrow> c \<noteq> i \<Longrightarrow> well_typed_call c"
  using index_cases[of m "pointer i"]
  by (cases "opcode i"; cases "getMemoryAccessFuncIndex m (pointer i)")
    (auto simp: atomic_lines_def Let_def intro: typed_calls fence_typed split: if_splits option.splits)

lemma index_values: "i < kNumberOfAccessSizes \<Longrightarrow> i = 0 \<or> i = 1 \<or> i = 2 \<or> i = 3 \<or> i = 4"
  by (auto simp: kNumberOfAccessSizes_def)

lemma byte_digits: "print_nat (ByteSize 0) = ''1''" "print_nat (ByteSize 1) = ''2''" "print_nat (ByteSize 2) = ''4''"
  "print_nat (ByteSize 3) = ''8''" "print_nat (ByteSize 4) = ''16''"
  by (simp_all add: ByteSize_def print_nat.simps digit_def char_of_def bit_Suc_0_iff)

lemma bit_digits: "print_nat (BitSize 0) = ''8''" "print_nat (BitSize 1) = ''16''" "print_nat (BitSize 2) = ''32''"
  "print_nat (BitSize 3) = ''64''" "print_nat (BitSize 4) = ''128''"
  by (simp_all add: BitSize_def ByteSize_def print_nat.simps digit_def char_of_def bit_Suc_0_iff)

lemma read_write_entries:
  assumes "i < kNumberOfAccessSizes"
  shows "\<exists>e sz. entry_name e = SwordRead i \<and> entry_access e = (sz, SwordCommon.unsafe_read) \<and> BitSize i = 8 * 2 ^ unat (size_code sz)"
    "\<exists>e sz. entry_name e = SwordWrite i \<and> entry_access e = (sz, SwordCommon.unsafe_write) \<and> BitSize i = 8 * 2 ^ unat (size_code sz)"
proof -
  have r: "entry_name sword_read1 = SwordRead 0" "entry_name sword_read2 = SwordRead 1" "entry_name sword_read4 = SwordRead 2"
    "entry_name sword_read8 = SwordRead 3" "entry_name sword_read16 = SwordRead 4"
    by (simp_all add: SwordRead_def byte_digits One_nat_def[symmetric] del: One_nat_def)
  have w: "entry_name sword_write1 = SwordWrite 0" "entry_name sword_write2 = SwordWrite 1" "entry_name sword_write4 = SwordWrite 2"
    "entry_name sword_write8 = SwordWrite 3" "entry_name sword_write16 = SwordWrite 4"
    by (simp_all add: SwordWrite_def byte_digits One_nat_def[symmetric] del: One_nat_def)
  have b: "BitSize 0 = 8 * 2 ^ unat (size_code size1)" "BitSize 1 = 8 * 2 ^ unat (size_code size2)"
    "BitSize 2 = 8 * 2 ^ unat (size_code size4)" "BitSize 3 = 8 * 2 ^ unat (size_code size8)"
    "BitSize 4 = 8 * 2 ^ unat (size_code size16)"
    by (simp_all add: BitSize_def ByteSize_def)
  show "\<exists>e sz. entry_name e = SwordRead i \<and> entry_access e = (sz, SwordCommon.unsafe_read) \<and> BitSize i = 8 * 2 ^ unat (size_code sz)"
    using index_values[OF assms] r b entry_access.simps(1-5) by metis
  show "\<exists>e sz. entry_name e = SwordWrite i \<and> entry_access e = (sz, SwordCommon.unsafe_write) \<and> BitSize i = 8 * 2 ^ unat (size_code sz)"
    using index_values[OF assms] w b entry_access.simps(6-10) by metis
qed

text \<open>The declared names that the runtime does not define.\<close>

definition missing :: "string list" where
  "missing = map SwordUnalignedRead [0..<5] @ map SwordUnalignedWrite [0..<5] @
     concat (map (\<lambda>op. map (\<lambda>i. the (SwordAtomicRMW op i)) [0..<5]) [Xchg, And, Or, Xor, Nand]) @
     [SwordAtomicThreadFence, SwordAtomicSignalFence]"

lemma missing_eval: "missing =
    [''__sword_unaligned_read1'', ''__sword_unaligned_read2'', ''__sword_unaligned_read4'',
     ''__sword_unaligned_read8'', ''__sword_unaligned_read16'', ''__sword_unaligned_write1'',
     ''__sword_unaligned_write2'', ''__sword_unaligned_write4'', ''__sword_unaligned_write8'',
     ''__sword_unaligned_write16'', ''__sword_atomic8_exchange'', ''__sword_atomic16_exchange'',
     ''__sword_atomic32_exchange'', ''__sword_atomic64_exchange'', ''__sword_atomic128_exchange'',
     ''__sword_atomic8_fetch_and'', ''__sword_atomic16_fetch_and'', ''__sword_atomic32_fetch_and'',
     ''__sword_atomic64_fetch_and'', ''__sword_atomic128_fetch_and'', ''__sword_atomic8_fetch_or'',
     ''__sword_atomic16_fetch_or'', ''__sword_atomic32_fetch_or'', ''__sword_atomic64_fetch_or'',
     ''__sword_atomic128_fetch_or'', ''__sword_atomic8_fetch_xor'', ''__sword_atomic16_fetch_xor'',
     ''__sword_atomic32_fetch_xor'', ''__sword_atomic64_fetch_xor'', ''__sword_atomic128_fetch_xor'',
     ''__sword_atomic8_fetch_nand'', ''__sword_atomic16_fetch_nand'', ''__sword_atomic32_fetch_nand'',
     ''__sword_atomic64_fetch_nand'', ''__sword_atomic128_fetch_nand'', ''__sword_atomic_thread_fence'',
     ''__sword_atomic_signal_fence'']"
proof -
  have u: "[0..<5] = [0, 1, 2, 3, 4::nat]" by (simp add: upt_rec)
  show ?thesis
    unfolding missing_def u by (simp add: SwordUnalignedRead_def SwordUnalignedWrite_def SwordAtomicRMW_def SwordAtomicThreadFence_def
      SwordAtomicSignalFence_def byte_digits bit_digits del: One_nat_def)
qed

lemma missing_entry: "entry_name e \<notin> set missing"
  unfolding missing_eval by (cases e; simp)

text \<open>The entries of the runtime by kind, as the pass names them.\<close>

lemma entry_groups:
  "map SwordRead [0..<5] = map entry_name [sword_read1, sword_read2, sword_read4, sword_read8, sword_read16]"
  "map SwordWrite [0..<5] = map entry_name [sword_write1, sword_write2, sword_write4, sword_write8, sword_write16]"
  "map SwordAtomicLoad [0..<5] = map entry_name [atomic8_load, atomic16_load, atomic32_load, atomic64_load, atomic128_load]"
  "map SwordAtomicStore [0..<5] = map entry_name [atomic8_store, atomic16_store, atomic32_store, atomic64_store, atomic128_store]"
  "map (SwordAtomicRMW Add) [0..<5] = map (\<lambda>e. Some (entry_name e))
     [atomic8_fetch_add, atomic16_fetch_add, atomic32_fetch_add, atomic64_fetch_add, atomic128_fetch_add]"
  "map (SwordAtomicRMW Sub) [0..<5] = map (\<lambda>e. Some (entry_name e))
     [atomic8_fetch_sub, atomic16_fetch_sub, atomic32_fetch_sub, atomic64_fetch_sub, atomic128_fetch_sub]"
  "map SwordAtomicCAS [0..<5] = map entry_name
     [atomic8_compare_exchange, atomic16_compare_exchange, atomic32_compare_exchange, atomic64_compare_exchange, atomic128_compare_exchange]"
proof -
  have u: "[0..<5] = [0, 1, 2, 3, 4::nat]" by (simp add: upt_rec)
  note D = byte_digits bit_digits
  show "map SwordRead [0..<5] = map entry_name [sword_read1, sword_read2, sword_read4, sword_read8, sword_read16]"
    unfolding u by (simp add: SwordRead_def D del: One_nat_def)
  show "map SwordWrite [0..<5] = map entry_name [sword_write1, sword_write2, sword_write4, sword_write8, sword_write16]"
    unfolding u by (simp add: SwordWrite_def D del: One_nat_def)
  show "map SwordAtomicLoad [0..<5] = map entry_name [atomic8_load, atomic16_load, atomic32_load, atomic64_load, atomic128_load]"
    unfolding u by (simp add: SwordAtomicLoad_def D del: One_nat_def)
  show "map SwordAtomicStore [0..<5] = map entry_name [atomic8_store, atomic16_store, atomic32_store, atomic64_store, atomic128_store]"
    unfolding u by (simp add: SwordAtomicStore_def D del: One_nat_def)
  show "map (SwordAtomicRMW Add) [0..<5] = map (\<lambda>e. Some (entry_name e))
     [atomic8_fetch_add, atomic16_fetch_add, atomic32_fetch_add, atomic64_fetch_add, atomic128_fetch_add]"
    unfolding u by (simp add: SwordAtomicRMW_def D del: One_nat_def)
  show "map (SwordAtomicRMW Sub) [0..<5] = map (\<lambda>e. Some (entry_name e))
     [atomic8_fetch_sub, atomic16_fetch_sub, atomic32_fetch_sub, atomic64_fetch_sub, atomic128_fetch_sub]"
    unfolding u by (simp add: SwordAtomicRMW_def D del: One_nat_def)
  show "map SwordAtomicCAS [0..<5] = map entry_name
     [atomic8_compare_exchange, atomic16_compare_exchange, atomic32_compare_exchange, atomic64_compare_exchange, atomic128_compare_exchange]"
    unfolding u by (simp add: SwordAtomicCAS_def D del: One_nat_def)
qed

lemma group_entry:
  assumes "i < kNumberOfAccessSizes"
  shows "SwordRead i \<in> range entry_name" "SwordWrite i \<in> range entry_name" "SwordAtomicLoad i \<in> range entry_name"
    "SwordAtomicStore i \<in> range entry_name" "SwordAtomicCAS i \<in> range entry_name"
    "op = Add \<or> op = Sub \<Longrightarrow> SwordAtomicRMW op i = Some F \<Longrightarrow> F \<in> range entry_name"
proof -
  have i: "i < length [0..<5]" "[0..<5] ! i = i" using assms by (simp_all add: kNumberOfAccessSizes_def)
  have g: "f i \<in> range h" if "map f [0..<5] = map h es" for f :: "nat \<Rightarrow> 'b" and h :: "entry \<Rightarrow> 'b" and es
  proof -
    have "f i = map f [0..<5] ! i" using i by simp
    also have "\<dots> = h (es ! i)" using that i(1) by (metis length_map nth_map)
    finally show ?thesis by simp
  qed
  show "SwordRead i \<in> range entry_name" "SwordWrite i \<in> range entry_name" "SwordAtomicLoad i \<in> range entry_name"
    "SwordAtomicStore i \<in> range entry_name" "SwordAtomicCAS i \<in> range entry_name"
    using g[OF entry_groups(1)] g[OF entry_groups(2)] g[OF entry_groups(3)] g[OF entry_groups(4)] g[OF entry_groups(7)] by blast+
  show "F \<in> range entry_name" if "op = Add \<or> op = Sub" "SwordAtomicRMW op i = Some F"
    using g[OF entry_groups(5)] g[OF entry_groups(6)] that by auto
qed

lemma missing_names:
  assumes "i < kNumberOfAccessSizes"
  shows "SwordUnalignedRead i \<in> set missing" "SwordUnalignedWrite i \<in> set missing"
    "op \<noteq> Add \<Longrightarrow> op \<noteq> Sub \<Longrightarrow> SwordAtomicRMW op i = Some F \<Longrightarrow> F \<in> set missing"
    "SwordAtomicThreadFence \<in> set missing" "SwordAtomicSignalFence \<in> set missing"
proof -
  have i: "i \<in> {0..<5}" using assms by (simp add: kNumberOfAccessSizes_def)
  show "SwordUnalignedRead i \<in> set missing" "SwordUnalignedWrite i \<in> set missing"
    "SwordAtomicThreadFence \<in> set missing" "SwordAtomicSignalFence \<in> set missing"
    using i by (simp_all add: missing_def)
  show "F \<in> set missing" if "op \<noteq> Add" "op \<noteq> Sub" "SwordAtomicRMW op i = Some F"
  proof -
    have "op \<in> {Xchg, And, Or, Xor, Nand}" "F = the (SwordAtomicRMW op i)" using that by (cases op; simp add: SwordAtomicRMW_def)+
    then show ?thesis using i by (auto simp: missing_def)
  qed
qed

definition replaced :: "llvm \<Rightarrow> instr \<Rightarrow> bool" where
  "replaced m i \<longleftrightarrow> (let known = (getMemoryAccessFuncIndex m (pointer i) \<noteq> None) in
     case opcode i of
       StoreInst _ _ _ _ \<Rightarrow> isAtomic i \<and> known
     | AtomicRMWInst op _ _ \<Rightarrow> NamePart op \<noteq> None \<and> known
     | AtomicCmpXchgInst _ _ _ _ \<Rightarrow> known
     | FenceInst _ _ \<Rightarrow> True
     | _ \<Rightarrow> False)"

lemma access_lines_shape:
  assumes "inst_id i \<noteq> None"
  shows "filter (\<lambda>j. inst_id j \<noteq> None) (access_lines m i) = [i]" "access_lines m i \<noteq> [i] \<Longrightarrow> \<exists>c\<in>set (access_lines m i). inst_id c = None"
  using assms by (auto simp: access_lines_def split: option.splits)

lemma atomic_lines_shape:
  assumes "inst_id i \<noteq> None" "isAtomic i"
  shows "filter (\<lambda>j. inst_id j \<noteq> None) (atomic_lines m i) = (if replaced m i then [] else [i])"
    "atomic_lines m i \<noteq> [i] \<Longrightarrow> \<exists>c\<in>set (atomic_lines m i). inst_id c = None"
  using assms
  by (cases "opcode i"; cases "getMemoryAccessFuncIndex m (pointer i)";
      auto simp: atomic_lines_def replaced_def isAtomic_def SwordAtomicRMW_def Let_def split: option.splits)+

lemma lines_shape:
  assumes "inst_id i \<noteq> None"
  shows "filter (\<lambda>j. inst_id j \<noteq> None) (lines_of m body i) = (if replaced m i then [] else [i])"
    "lines_of m body i \<noteq> [i] \<Longrightarrow> \<exists>c\<in>set (lines_of m body i). inst_id c = None"
    "c \<in> set (lines_of m body i) \<Longrightarrow> c = i \<or> well_typed_call c"
proof -
  have A: "plain i" if "i \<in> set (AllLoadsAndStores (collect m body))"
    using that add_segments_set[of m "concat (map (segments []) body)" "[]"] segments_set[of _ "[]"] selection_set[of m]
    unfolding collect_eq(1) by fastforce
  have p: "plain i \<Longrightarrow> \<not> replaced m i" by (auto simp: plain_def replaced_def isAtomic_def split: opcode.splits)
  have n: "\<not> isAtomic i \<Longrightarrow> \<not> replaced m i" by (auto simp: replaced_def isAtomic_def split: opcode.splits)
  show "filter (\<lambda>j. inst_id j \<noteq> None) (lines_of m body i) = (if replaced m i then [] else [i])"
    using assms access_lines_shape(1)[OF assms] atomic_lines_shape(1)[OF assms] A p n by (auto simp: lines_of_def)
  show "lines_of m body i \<noteq> [i] \<Longrightarrow> \<exists>c\<in>set (lines_of m body i). inst_id c = None"
    using access_lines_shape(2)[OF assms] atomic_lines_shape(2)[OF assms] by (auto simp: lines_of_def split: if_splits)
  show "c \<in> set (lines_of m body i) \<Longrightarrow> c = i \<or> well_typed_call c"
    using access_lines_typed[of c m i] atomic_lines_typed[of c m i] by (cases "c = i") (auto simp: lines_of_def split: if_splits)
qed

section \<open>Properties\<close>

text \<open>C17: Instrumenting a body returns; the instructions that are there afterwards and were there before are those of the
  original in their order, except the atomic stores, read-modify-writes, exchanges and fences, which have been
  replaced; everything new is a call of a declared function with arguments of its types; and the result says
  whether anything changed.\<close>
theorem instrument_body_correct:
  assumes "well_ids body" "\<forall>i\<in>set (concat body). valid_orderings i"
  shows "\<exists>Res body'. instrument_body m body = Some (Res, body') \<and>
    map (filter (\<lambda>j. inst_id j \<noteq> None)) body' = map (filter (\<lambda>i. \<not> replaced m i)) body \<and>
    (\<forall>bb\<in>set body'. \<forall>c\<in>set bb. inst_id c = None \<longrightarrow> well_typed_call c) \<and> (Res \<longleftrightarrow> body' \<noteq> body)"
proof -
  let ?b = "expanded (lines_of m body) body"
  have ids: "i \<in> set (concat body) \<Longrightarrow> inst_id i \<noteq> None" for i using assms(1) unfolding well_ids_def by (metis image_eqI)
  obtain Res where R: "instrument_body m body = Some (Res, ?b)" "Res \<longleftrightarrow> (\<exists>i\<in>set (concat body). lines_of m body i \<noteq> [i])"
    using instrument_body_ok[OF assms] by blast
  have f: "filter (\<lambda>j. inst_id j \<noteq> None) (concat (map (lines_of m body) bb)) = filter (\<lambda>i. \<not> replaced m i) bb"
    if "set bb \<subseteq> set (concat body)" for bb
    using that
  proof (induction bb)
    case (Cons i bb)
    then have "inst_id i \<noteq> None" using ids by auto
    from lines_shape(1)[OF this, of m body] Cons show ?case by simp
  qed simp
  have 1: "map (filter (\<lambda>j. inst_id j \<noteq> None)) ?b = map (filter (\<lambda>i. \<not> replaced m i)) body"
    unfolding expanded_def map_map by (rule map_cong[OF refl]) (use f in auto)
  have 2: "\<forall>bb\<in>set ?b. \<forall>c\<in>set bb. inst_id c = None \<longrightarrow> well_typed_call c"
  proof (intro ballI impI)
    fix bb c assume "bb \<in> set ?b" "c \<in> set bb" "inst_id c = None"
    then obtain b0 i where "b0 \<in> set body" "i \<in> set b0" "c \<in> set (lines_of m body i)" by (auto simp: expanded_def)
    then have "i \<in> set (concat body)" "c \<in> set (lines_of m body i)" by auto
    then show "well_typed_call c" using lines_shape(3)[of i c m body] ids[of i] \<open>inst_id c = None\<close> by auto
  qed
  have 3: "Res \<longleftrightarrow> ?b \<noteq> body"
  proof
    assume Res
    then obtain i c where i: "i \<in> set (concat body)" "c \<in> set (lines_of m body i)" "inst_id c = None"
      using R(2) lines_shape(2) ids by blast
    then have "c \<in> set (concat ?b)" by (auto simp: expanded_def)
    moreover have "c \<notin> set (concat body)" using ids i(3) by blast
    ultimately show "?b \<noteq> body" by metis
  next
    have "concat (map (lines_of m body) bb) = bb" if "\<forall>i\<in>set bb. lines_of m body i = [i]" for bb
      using that by (induction bb) auto
    moreover assume "?b \<noteq> body"
    ultimately show Res using R(2) by (auto simp: expanded_def map_idI)
  qed
  show ?thesis using R(1) 1 2 3 by blast
qed

definition sample_body :: "instr list list" where
  "sample_body = [[sample_load, sample_store]]"

lemma sample_body_ok: "well_ids sample_body" "\<forall>i\<in>set (concat sample_body). valid_orderings i"
  by (simp_all add: well_ids_def valid_orderings_def sample_body_def sample_load_def sample_store_def)

lemma instrument_body_correct_witness:
  "\<exists>Res body'. instrument_body sample_llvm sample_body = Some (Res, body') \<and>
    map (filter (\<lambda>j. inst_id j \<noteq> None)) body' = [[sample_load, sample_store]]"
proof -
  have "map (filter (\<lambda>i. \<not> replaced sample_llvm i)) sample_body = [[sample_load, sample_store]]"
    by (simp add: sample_body_def replaced_def sample_load_def sample_store_def isAtomic_def)
  then show ?thesis using instrument_body_correct[OF sample_body_ok, of sample_llvm] by auto
qed

text \<open>C18: An instrumented access of 1, 2, 4, 8 or 16 bytes that is aligned is preceded by a call, with its address, of
  the function of the runtime that logs an access of its size and kind.\<close>
theorem instrumented_access_logged:
  assumes "well_ids body" "\<forall>i\<in>set (concat body). valid_orderings i"
    "i \<in> set (AllLoadsAndStores (collect m body))" "\<not> swift_error (value_of m (pointer i))"
    "getMemoryAccessFuncIndex m (pointer i) = Some Idx"
    "getAlignment i = 0 \<or> 8 \<le> getAlignment i \<or> getAlignment i mod (TypeSize m (pointer i) div 8) = 0"
  shows "\<exists>Res body' bb p q e sz. instrument_body m body = Some (Res, body') \<and> bb \<in> set body' \<and>
    bb = p @ new_call (entry_name e) [PtrArg (pointer i) 8] None # i # q \<and>
    entry_access e = (sz, if isStore (opcode i) then SwordCommon.unsafe_write else SwordCommon.unsafe_read) \<and>
    unat (TypeSize m (pointer i)) = 8 * 2 ^ unat (size_code sz)"
proof -
  let ?b = "expanded (lines_of m body) body"
  obtain Res where R: "instrument_body m body = Some (Res, ?b)" using instrument_body_ok[OF assms(1,2)] by blast
  have idx: "Idx < kNumberOfAccessSizes" "unat (TypeSize m (pointer i)) = BitSize Idx" using index_cases[OF assms(5)] by simp_all
  obtain e sz where e: "entry_name e = (if isStore (opcode i) then SwordWrite Idx else SwordRead Idx)"
    "entry_access e = (sz, if isStore (opcode i) then SwordCommon.unsafe_write else SwordCommon.unsafe_read)"
    "BitSize Idx = 8 * 2 ^ unat (size_code sz)"
    using read_write_entries[OF idx(1)] by (cases "isStore (opcode i)") auto
  have l: "lines_of m body i = [new_call (entry_name e) [PtrArg (pointer i) 8] None, i]"
    using assms(3-6) e(1) by (simp add: lines_of_def access_lines_def OnAccessFunc_def)
  have "i \<in> set (concat body)"
    using assms(3) add_segments_set[of m "concat (map (segments []) body)" "[]"] segments_set[of _ "[]"] selection_set[of m]
    unfolding collect_eq(1) by fastforce
  then obtain bb where bb: "bb \<in> set body" "i \<in> set bb" by auto
  obtain p q where "bb = p @ i # q" using split_list[OF bb(2)] by blast
  then have "concat (map (lines_of m body) bb) = concat (map (lines_of m body) p) @
      new_call (entry_name e) [PtrArg (pointer i) 8] None # i # concat (map (lines_of m body) q)" by (simp add: l)
  moreover have "concat (map (lines_of m body) bb) \<in> set ?b" using bb(1) by (simp add: expanded_def)
  ultimately show ?thesis using R e(2,3) idx(2) by metis
qed

lemma sample_chosen: "sample_store \<in> set (AllLoadsAndStores (collect sample_llvm sample_body))"
  by (simp add: collect_eq(1) sample_body_def sample_plain add_segment_def overwritten_def has_omp_operand_def omp_names_def
      harmless_def shouldInstrumentReadWriteFromAddress_def not_shared_def write_target_def addrPointsToConstantData_def)
    (simp add: sample_llvm_def sample_load_def sample_store_def)

lemma instrumented_access_logged_witness:
  "\<exists>Res body' bb p q e. instrument_body sample_llvm sample_body = Some (Res, body') \<and> bb \<in> set body' \<and>
    bb = p @ new_call (entry_name e) [PtrArg 7 8] None # sample_store # q"
proof -
  have "\<exists>Idx. getMemoryAccessFuncIndex sample_llvm (pointer sample_store) = Some Idx"
    "\<not> swift_error (value_of sample_llvm (pointer sample_store))" "pointer sample_store = 7"
    "getAlignment sample_store mod (TypeSize sample_llvm (pointer sample_store) div 8) = 0"
    by (simp_all add: getMemoryAccessFuncIndex_def TypeSize_def sample_llvm_def sample_store_def getAlignment_def)
  then show ?thesis using instrumented_access_logged[OF sample_body_ok sample_chosen] by metis
qed

lemma missing_declared: "f \<in> set missing \<Longrightarrow> f \<in> fst ` set initializeCallbacks"
proof -
  assume "f \<in> set missing"
  then consider i where "i < kNumberOfAccessSizes" "f = SwordUnalignedRead i" | i where "i < kNumberOfAccessSizes" "f = SwordUnalignedWrite i"
    | i op where "i < kNumberOfAccessSizes" "f = the (SwordAtomicRMW op i)" "op \<in> {Xchg, And, Or, Xor, Nand}"
    | "f = SwordAtomicThreadFence \<or> f = SwordAtomicSignalFence"
    by (auto simp: missing_def kNumberOfAccessSizes_def)
  then show ?thesis
  proof cases
    case 1
    then show ?thesis using declared(3) by force
  next
    case 2
    then show ?thesis using declared(4) by force
  next
    case 3
    then have "SwordAtomicRMW op i = Some f" by (auto simp: SwordAtomicRMW_def)
    from declared(8)[OF 3(1) this] show ?thesis by force
  next
    case 4
    then show ?thesis using fence_declared by force
  qed
qed

text \<open>C36: Of the functions that the pass declares, the runtime defines the aligned reads and writes, the atomic loads,
  stores, additions, subtractions and exchanges with comparison, and nothing else: the unaligned accesses, the
  other atomic operations and the fences would not link.\<close>
theorem runtime_gap: "fst ` set initializeCallbacks - range entry_name = set missing"
proof (intro equalityI subsetI DiffI)
  fix f assume "f \<in> fst ` set initializeCallbacks - range entry_name"
  then obtain ret ps where d: "(f, ret, ps) \<in> set initializeCallbacks" "f \<notin> range entry_name" by auto
  then consider i where "i < kNumberOfAccessSizes" "f \<in> {SwordRead i, SwordWrite i, SwordAtomicLoad i, SwordAtomicStore i, SwordAtomicCAS i}"
    | i where "i < kNumberOfAccessSizes" "f \<in> {SwordUnalignedRead i, SwordUnalignedWrite i}"
    | i op where "i < kNumberOfAccessSizes" "SwordAtomicRMW op i = Some f"
    | "f = SwordAtomicThreadFence \<or> f = SwordAtomicSignalFence"
    by (auto simp: initializeCallbacks_def Let_def split: option.splits)
  then show "f \<in> set missing"
  proof cases
    case 1
    then show ?thesis using group_entry(1-5) d(2) by blast
  next
    case 2
    then show ?thesis using missing_names(1,2) by blast
  next
    case 3
    then show ?thesis using group_entry(6) missing_names(3) d(2) by blast
  next
    case 4
    then show ?thesis by (auto simp: missing_def)
  qed
qed (use missing_declared missing_entry in auto)

end
