(* ===== verification/InstrumentModule.thy ===== *)
theory InstrumentModule
  imports InstrumentEmit "HOL-Library.AList"
begin

text \<open>
  The instrumentation pass on a whole function (\<open>runOnFunction\<close> in
  \<open>lib/Transforms/Instrumentation/InstrumentParallel.cpp\<close>): which functions are left alone, the thread-local globals
  that are declared (compared with \<open>rtl/sword_rtl.h\<close>), the instrumented clone of a function and the test of
  \<open>__sword_status__\<close> that chooses between the two, as the instructions and blocks that the pass creates. A module is its
  globals, its functions and its declarations.
\<close>

section \<open>Globals\<close>

datatype linkage = ExternalLinkage | ExternalWeakLinkage | PrivateLinkage

record gvar =
  g_type :: cty
  g_link :: linkage
  g_init :: "(cty \<times> nat) option"    \<comment> \<open>type and value of the initializer\<close>
  g_tls :: bool
  g_extern_init :: bool

type_synonym globals = "(string \<times> gvar) list"

definition TLS_DECLARE :: "cty \<Rightarrow> string \<Rightarrow> (cty \<times> nat) option \<Rightarrow> globals \<Rightarrow> globals" where
  "TLS_DECLARE ty name initializer gl = (case map_of gl name of
     None \<Rightarrow> AList.update name \<lparr>g_type = ty, g_link = ExternalLinkage, g_init = initializer, g_tls = True, g_extern_init = False\<rparr> gl
   | Some var \<Rightarrow>
       if g_link var \<noteq> ExternalLinkage
       then AList.update name (var\<lparr>g_link := ExternalLinkage, g_extern_init := False, g_init := Some (IntT 64, 0)\<rparr>) gl
       else gl)"

definition TLS_DECLARE_EXTERN :: "cty \<Rightarrow> string \<Rightarrow> globals \<Rightarrow> globals" where
  "TLS_DECLARE_EXTERN ty name gl = (case map_of gl name of
     None \<Rightarrow> AList.update name \<lparr>g_type = ty, g_link = ExternalWeakLinkage, g_init = None, g_tls = True, g_extern_init = True\<rparr> gl
   | Some var \<Rightarrow> gl)"

text \<open>The declarations for \<open>main\<close>, in order; those for the other functions have the same names and types.\<close>

definition tls_table :: "(cty \<times> string \<times> (cty \<times> nat) option) list" where
  "tls_table = [
     (IntT 32, ''__sword_tid__'', Some (IntT 32, 0)),
     (IntT 32, ''__sword_status__'', Some (IntT 32, 0)),
     (PtrT 8, ''__sword_accesses__'', None),
     (PtrT 8, ''__sword_accesses1__'', None),
     (PtrT 8, ''__sword_accesses2__'', None),
     (IntT 64, ''__sword_idx__'', Some (IntT 64, 0)),
     (IntT 64, ''__sword_bid__'', Some (IntT 64, 0)),
     (PtrT 8, ''__sword_buffer__'', None),
     (IntT 32, ''__sword_offset__'', Some (IntT 32, 0)),
     (IntT 32, ''__sword_span__'', Some (IntT 32, 0)),
     (IntT 64, ''__sword_file_offset_begin__'', Some (IntT 64, 0)),
     (IntT 64, ''__sword_file_offset_end__'', Some (IntT 64, 0)),
     (PtrT 8, ''__sword_datafile__'', None),
     (PtrT 8, ''__sword_metafile__'', None)]"

definition declare_main :: "globals \<Rightarrow> globals" where
  "declare_main gl = foldl (\<lambda>gl (ty, name, init). TLS_DECLARE ty name init gl) gl tls_table"

definition extern_table :: "(cty \<times> string) list" where
  "extern_table = [
     (IntT 32, ''__sword_tid__''),
     (IntT 32, ''__sword_status__''),
     (PtrT 8, ''__sword_accesses__''),
     (PtrT 8, ''__sword_accesses1__''),
     (PtrT 8, ''__sword_accesses2__''),
     (IntT 64, ''__sword_idx__''),
     (IntT 64, ''__sword_bid__''),
     (PtrT 8, ''__sword_buffer__''),
     (IntT 32, ''__sword_offset__''),
     (IntT 32, ''__sword_span__''),
     (IntT 64, ''__sword_file_offset_begin__''),
     (IntT 64, ''__sword_file_offset_end__''),
     (PtrT 8, ''__sword_datafile__''),
     (PtrT 8, ''__sword_metafile__'')]"

definition declare_extern :: "globals \<Rightarrow> globals" where
  "declare_extern gl = foldl (\<lambda>gl (ty, name). TLS_DECLARE_EXTERN ty name gl) gl extern_table"

text \<open>The runtime's own view of these variables: type, and whether it only declares them (\<open>extern\<close>).\<close>

definition rtl_globals :: "(string \<times> cty \<times> bool) list" where
  "rtl_globals = [
     (''__sword_tid__'', IntT 32, True),
     (''__sword_status__'', IntT 32, True),
     (''__sword_accesses__'', PtrT 8, False),
     (''__sword_accesses1__'', PtrT 8, False),
     (''__sword_accesses2__'', PtrT 8, False),
     (''__sword_idx__'', IntT 64, True),
     (''__sword_bid__'', IntT 64, True),
     (''__sword_buffer__'', PtrT 8, False),
     (''__sword_offset__'', IntT 32, True),
     (''__sword_span__'', IntT 32, True),
     (''__sword_file_offset_begin__'', IntT 64, True),
     (''__sword_file_offset_end__'', IntT 64, True),
     (''__sword_datafile__'', PtrT 8, False),
     (''__sword_metafile__'', PtrT 8, False)]"

definition doInitialization :: "globals \<Rightarrow> bool \<times> globals" where
  "doInitialization gl = (let var = (\<lambda>v. \<lparr>g_type = IntT 64, g_link = PrivateLinkage, g_init = Some (IntT 64, v),
       g_tls = False, g_extern_init = False\<rparr>) in
     (True, gl @ [(''access_min'', var (2 ^ 64 - 1)), (''access_max'', var 0),
       (''function_min'', var (2 ^ 64 - 1)), (''function_max'', var 0)]))"

section \<open>Functions\<close>

text \<open>
  A value or a block is known by its pointer: those of the program, and the ones that the pass creates in a function.
\<close>

datatype val = Old vid | LoadOmpStatus | CondInst | ParallelCall

datatype bb = OldBB nat | NewEntryBB | SwordThenBB

datatype predicate = ICMP_EQ | ICMP_NE

text \<open>An instruction of the program, or one of those that the pass creates; a result comes first.\<close>

datatype inst =
    Prog instr
  | LoadGlobal val string
  | ICmp val predicate val uint
  | Br bb
  | CondBr bb bb val                       \<comment> \<open>if true, if false, condition\<close>
  | CallFn "val option" string "val list"
  | Ret "val option"

type_synonym blocks = "(bb \<times> inst list) list"    \<comment> \<open>the entry block first\<close>

record func =
  f_name :: string
  available_externally :: bool
  f_args :: "vid list"
  returns_void :: bool
  sanitize_thread :: bool
  f_blocks :: blocks

text \<open>The blocks of a program, and the instructions of the program in blocks.\<close>

definition plain_blocks :: "instr list list \<Rightarrow> blocks" where
  "plain_blocks body = zip (map OldBB [0..<length body]) (map (map Prog) body)"

fun prog_insts :: "inst list \<Rightarrow> instr list" where
  "prog_insts [] = []"
| "prog_insts (Prog i # is) = i # prog_insts is"
| "prog_insts (_ # is) = prog_insts is"

definition prog_body :: "blocks \<Rightarrow> instr list list" where
  "prog_body bs = map (prog_insts \<circ> snd) bs"

record modul =
  m_globals :: globals
  m_funcs :: "func list"
  m_decls :: "(string \<times> cty \<times> cty list) list"

definition getOrInsertFunctions :: "(string \<times> cty \<times> cty list) list \<Rightarrow> (string \<times> cty \<times> cty list) list \<Rightarrow> (string \<times> cty \<times> cty list) list" where
  "getOrInsertFunctions new ds = foldl (\<lambda>ds d. if fst d \<in> fst ` set ds then ds else ds @ [d]) ds new"

definition replace_func :: "func \<Rightarrow> func list \<Rightarrow> func list" where
  "replace_func f fs = map (\<lambda>g. if f_name g = f_name f then f else g) fs"

definition skipped :: "func \<Rightarrow> bool" where
  "skipped f \<longleftrightarrow> (let name = f_name f in
     endswith name ''_dtor'' \<or> endswith name ''__sword__'' \<or> endswith name ''__clang_call_terminate'' \<or>
     endswith name ''__sword_default_suppressions'' \<or> endswith name ''__sword__get_omp_status'' \<or>
     startswith name ''.omp.reduction.reduction_func'' \<or> available_externally f)"

definition CloneFunction :: "func \<Rightarrow> string \<Rightarrow> func" where
  "CloneFunction f name = f\<lparr>f_name := name\<rparr>"

fun has_debug_loc :: "inst \<Rightarrow> bool" where
  "has_debug_loc (Prog i) = debug_loc i"
| "has_debug_loc _ = False"

text \<open>\<open>splitBasicBlock\<close>: the instructions from the given one on go to the new block, and the old one branches to it.\<close>

definition splitBasicBlock :: "nat \<Rightarrow> bb \<Rightarrow> inst list \<Rightarrow> inst list \<times> inst list" where
  "splitBasicBlock pos new insts = (take pos insts @ [Br new], drop pos insts)"

text \<open>The last block: the call of the clone, and the return of what it returns.\<close>

definition then_block :: "func \<Rightarrow> string \<Rightarrow> inst list" where
  "then_block f new = (
     if returns_void f then [CallFn None new (map Old (f_args f)), Ret None]
     else [CallFn (Some ParallelCall) new (map Old (f_args f)), Ret (Some ParallelCall)])"

text \<open>
  The test at the start of the function. The load and the comparison go before the first instruction of the entry block,
  the block is split there, and the branch of the split is erased and replaced by the conditional one. The call of the clone
  takes the debug location of the first instruction of the entry block that has one; with none the pass dereferences a
  null pointer.
\<close>

definition insert_test :: "func \<Rightarrow> string \<Rightarrow> func option" where
  "insert_test f new = (case f_blocks f of
     [] \<Rightarrow> None
   | (eb, insts) # rest \<Rightarrow>
       (case find has_debug_loc insts of
          None \<Rightarrow> None
        | Some _ \<Rightarrow>
            let insts = [LoadGlobal LoadOmpStatus ''__sword_status__'', ICmp CondInst ICMP_EQ LoadOmpStatus 1] @ insts;
                (entry, new_entry) = splitBasicBlock 2 NewEntryBB insts;
                entry = butlast entry;
                entry = entry @ [CondBr SwordThenBB NewEntryBB CondInst]
            in Some (f\<lparr>sanitize_thread := False,
                 f_blocks := (eb, entry) # (NewEntryBB, new_entry) # rest @ [(SwordThenBB, then_block f new)]\<rparr>)))"

text \<open>\<open>ctor\<close> is the name of \<open>SwordCtorFunction\<close>, which nothing sets.\<close>

definition runOnFunction :: "llvm \<Rightarrow> string option \<Rightarrow> func \<Rightarrow> modul \<Rightarrow> (bool \<times> modul) option" where
  "runOnFunction m ctor f M = (
     if ctor = Some (f_name f) then Some (False, M)
     else if skipped f then Some (False, M)
     else if f_name f = ''main'' then Some (True, M\<lparr>m_globals := declare_main (m_globals M)\<rparr>)
     else
       let M = M\<lparr>m_globals := declare_extern (m_globals M)\<rparr> in
       if startswith (f_name f) ''.omp'' then do {
         r \<leftarrow> instrument_body m (prog_body (f_blocks f));
         Some (fst r, M\<lparr>m_decls := getOrInsertFunctions initializeCallbacks (m_decls M),
           m_funcs := replace_func (f\<lparr>f_blocks := plain_blocks (snd r)\<rparr>) (m_funcs M)\<rparr>) }
       else do {
         let new_function = CloneFunction f (f_name f @ ''__sword__'');
         f' \<leftarrow> insert_test f (f_name new_function);
         r \<leftarrow> instrument_body m (prog_body (f_blocks new_function));
         Some (fst r, M\<lparr>m_decls := getOrInsertFunctions initializeCallbacks (m_decls M),
           m_funcs := replace_func f' (m_funcs M) @ [new_function\<lparr>f_blocks := plain_blocks (snd r)\<rparr>]\<rparr>) })"

section \<open>Running the instructions that the pass creates\<close>

text \<open>
  The created instructions are run by the rules of LLVM up to the first instruction of the program: \<open>gl\<close> are the values of
  the globals, \<open>call\<close> what a function returns and \<open>cs\<close> the calls made so far.
\<close>

type_synonym calls = "(string \<times> uint list) list"

datatype stop = Jump bb "val \<Rightarrow> uint" calls | Reached "inst list" calls | Returned "uint option" calls

fun run_insts :: "(string \<Rightarrow> uint) \<Rightarrow> (string \<Rightarrow> uint list \<Rightarrow> uint) \<Rightarrow> inst list \<Rightarrow> (val \<Rightarrow> uint) \<Rightarrow> calls \<Rightarrow> stop option" where
  "run_insts gl call [] env cs = None"
| "run_insts gl call (Prog i # is) env cs = Some (Reached (Prog i # is) cs)"
| "run_insts gl call (LoadGlobal res name # is) env cs = run_insts gl call is (env(res := gl name)) cs"
| "run_insts gl call (ICmp res pred x c # is) env cs =
     run_insts gl call is (env(res := of_bool (case pred of ICMP_EQ \<Rightarrow> env x = c | ICMP_NE \<Rightarrow> env x \<noteq> c))) cs"
| "run_insts gl call (Br b # is) env cs = Some (Jump b env cs)"
| "run_insts gl call (CondBr b1 b2 x # is) env cs = Some (Jump (if env x \<noteq> 0 then b1 else b2) env cs)"
| "run_insts gl call (CallFn res name xs # is) env cs =
     (let vs = map env xs in
      run_insts gl call is (case res of None \<Rightarrow> env | Some x \<Rightarrow> env(x := call name vs)) (cs @ [(name, vs)]))"
| "run_insts gl call (Ret res # is) env cs = Some (Returned (map_option env res) cs)"

text \<open>The block and the rest of it at which the program's own code starts, or the value returned; and the calls made.\<close>

partial_function (option) run_blocks ::
    "(string \<Rightarrow> uint) \<Rightarrow> (string \<Rightarrow> uint list \<Rightarrow> uint) \<Rightarrow> blocks \<Rightarrow> bb \<Rightarrow> (val \<Rightarrow> uint) \<Rightarrow> calls \<Rightarrow>
       (((bb \<times> inst list) + uint option) \<times> calls) option" where
  "run_blocks gl call bs b env cs = (case map_of bs b of
     None \<Rightarrow> None
   | Some is \<Rightarrow> (case run_insts gl call is env cs of
       None \<Rightarrow> None
     | Some (Jump b env cs) \<Rightarrow> run_blocks gl call bs b env cs
     | Some (Reached is cs) \<Rightarrow> Some (Inl (b, is), cs)
     | Some (Returned v cs) \<Rightarrow> Some (Inr v, cs)))"

text \<open>A call of the function, with the values \<open>vals\<close> of its arguments.\<close>

definition enter ::
    "(string \<Rightarrow> uint) \<Rightarrow> (string \<Rightarrow> uint list \<Rightarrow> uint) \<Rightarrow> (vid \<Rightarrow> uint) \<Rightarrow> func \<Rightarrow>
       (((bb \<times> inst list) + uint option) \<times> calls) option" where
  "enter gl call vals f = (case f_blocks f of
     [] \<Rightarrow> None
   | (b, _) # _ \<Rightarrow> run_blocks gl call (f_blocks f) b (\<lambda>v. case v of Old x \<Rightarrow> vals x | _ \<Rightarrow> 0) [])"

section \<open>Properties\<close>

definition tls_value :: "cty \<Rightarrow> (cty \<times> nat) option \<Rightarrow> gvar option \<Rightarrow> gvar" where
  "tls_value ty init v = (case v of
     None \<Rightarrow> \<lparr>g_type = ty, g_link = ExternalLinkage, g_init = init, g_tls = True, g_extern_init = False\<rparr>
   | Some var \<Rightarrow> if g_link var \<noteq> ExternalLinkage
       then var\<lparr>g_link := ExternalLinkage, g_extern_init := False, g_init := Some (IntT 64, 0)\<rparr> else var)"

definition extern_value :: "cty \<Rightarrow> gvar option \<Rightarrow> gvar" where
  "extern_value ty v = (case v of
     None \<Rightarrow> \<lparr>g_type = ty, g_link = ExternalWeakLinkage, g_init = None, g_tls = True, g_extern_init = True\<rparr>
   | Some var \<Rightarrow> var)"

lemma map_of_TLS_DECLARE: "map_of (TLS_DECLARE ty name init gl) = (map_of gl)(name \<mapsto> tls_value ty init (map_of gl name))"
  by (auto simp: TLS_DECLARE_def tls_value_def update_conv fun_eq_iff split: option.splits)

lemma map_of_TLS_DECLARE_EXTERN: "map_of (TLS_DECLARE_EXTERN ty name gl) = (map_of gl)(name \<mapsto> extern_value ty (map_of gl name))"
  by (auto simp: TLS_DECLARE_EXTERN_def extern_value_def update_conv fun_eq_iff split: option.splits)

lemma tls_names: "distinct (map (fst \<circ> snd) tls_table)" "map (\<lambda>(ty, name, init). (ty, name)) tls_table = extern_table"
  "map (\<lambda>(ty, name, init). (name, ty, init \<noteq> None)) tls_table = rtl_globals"
  by (simp_all add: tls_table_def extern_table_def rtl_globals_def)

lemma declare_fold:
  assumes "distinct (map (fst \<circ> snd) table)" "(ty, name, init) \<in> set table"
  shows "map_of (foldl (\<lambda>gl (ty, name, init). TLS_DECLARE ty name init gl) gl table) name = Some (tls_value ty init (map_of gl name))"
    "map_of (foldl (\<lambda>gl (ty, name). TLS_DECLARE_EXTERN ty name gl) gl (map (\<lambda>(ty, name, init). (ty, name)) table)) name =
      Some (extern_value ty (map_of gl name))"
proof -
  have o1: "name \<notin> set (map (fst \<circ> snd) table) \<Longrightarrow>
    map_of (foldl (\<lambda>gl (ty, name, init). TLS_DECLARE ty name init gl) gl table) name = map_of gl name" for gl table
    by (induction table arbitrary: gl) (auto simp: map_of_TLS_DECLARE)
  have o2: "name \<notin> set (map (fst \<circ> snd) table) \<Longrightarrow>
    map_of (foldl (\<lambda>gl (ty, name). TLS_DECLARE_EXTERN ty name gl) gl (map (\<lambda>(ty, name, init). (ty, name)) table)) name =
      map_of gl name" for gl table
    by (induction table arbitrary: gl) (auto simp: map_of_TLS_DECLARE_EXTERN)
  show "map_of (foldl (\<lambda>gl (ty, name, init). TLS_DECLARE ty name init gl) gl table) name = Some (tls_value ty init (map_of gl name))"
    using assms
  proof (induction table arbitrary: gl)
    case (Cons x table)
    obtain ty' name' init' where x: "x = (ty', name', init')" by (cases x)
    show ?case
    proof (cases "(ty, name, init) = x")
      case True
      then show ?thesis using Cons.prems(1) o1[of table] by (auto simp: map_of_TLS_DECLARE)
    next
      case False
      then have t: "(ty, name, init) \<in> set table" using Cons.prems(2) by auto
      then have "name' \<noteq> name" using Cons.prems(1) x by force
      then show ?thesis using Cons.IH[OF _ t] Cons.prems(1) x by (simp add: map_of_TLS_DECLARE)
    qed
  qed simp
  show "map_of (foldl (\<lambda>gl (ty, name). TLS_DECLARE_EXTERN ty name gl) gl (map (\<lambda>(ty, name, init). (ty, name)) table)) name =
      Some (extern_value ty (map_of gl name))"
    using assms
  proof (induction table arbitrary: gl)
    case (Cons x table)
    obtain ty' name' init' where x: "x = (ty', name', init')" by (cases x)
    show ?case
    proof (cases "(ty, name, init) = x")
      case True
      then show ?thesis using Cons.prems(1) o2[of table] by (auto simp: map_of_TLS_DECLARE_EXTERN)
    next
      case False
      then have t: "(ty, name, init) \<in> set table" using Cons.prems(2) by auto
      then have "name' \<noteq> name" using Cons.prems(1) x by force
      then show ?thesis using Cons.IH[OF _ t] Cons.prems(1) x by (simp add: map_of_TLS_DECLARE_EXTERN)
    qed
  qed simp
qed

lemma declared_globals:
  assumes "(ty, name, init) \<in> set tls_table"
  shows "map_of (declare_main gl) name = Some (tls_value ty init (map_of gl name))"
    "map_of (declare_extern gl) name = Some (extern_value ty (map_of gl name))"
  using declare_fold[OF tls_names(1) assms] by (simp_all add: declare_main_def declare_extern_def tls_names(2))

lemma rtl_global_row: "(name, ty, ext) \<in> set rtl_globals \<Longrightarrow> \<exists>init. (ty, name, init) \<in> set tls_table \<and> (init \<noteq> None \<longleftrightarrow> ext)"
  unfolding tls_names(3)[symmetric] by auto

text \<open>C37: In a program whose \<open>main\<close> is the first function that the pass sees, each of the 14 thread-local variables that
  pass and runtime share (not \<open>set\<close>, \<open>out\<close> and \<open>fut\<close>, which only the runtime has) is defined exactly once, with the runtime's type: by \<open>main\<close>'s module when the runtime only declares it, and by the
  runtime otherwise. When another function comes first, all 14 get a 64-bit initializer, whatever their type,
  and are then defined twice when the runtime defines them too.\<close>
theorem thread_locals_defined:
  assumes "\<forall>(name, ty, ext)\<in>set rtl_globals. map_of gl name = None"
  shows "\<forall>(name, ty, ext)\<in>set rtl_globals.
    (\<exists>g. map_of (declare_main gl) name = Some g \<and> g_type g = ty \<and> g_link g = ExternalLinkage \<and> g_tls g \<and>
       (g_init g \<noteq> None \<longleftrightarrow> ext) \<and> (g_init g \<noteq> None \<longrightarrow> g_init g = Some (ty, 0))) \<and>
    (\<exists>g. map_of (declare_main (declare_extern gl)) name = Some g \<and> g_type g = ty \<and> g_link g = ExternalLinkage \<and>
       g_init g = Some (IntT 64, 0))"
proof (clarify)
  fix name ty ext assume r: "(name, ty, ext) \<in> set rtl_globals"
  then obtain init where t: "(ty, name, init) \<in> set tls_table" "init \<noteq> None \<longleftrightarrow> ext" using rtl_global_row by blast
  have n: "map_of gl name = None" using assms r by auto
  have i: "init \<noteq> None \<longrightarrow> init = Some (ty, 0)" using t(1) by (auto simp: tls_table_def)
  show "(\<exists>g. map_of (declare_main gl) name = Some g \<and> g_type g = ty \<and> g_link g = ExternalLinkage \<and> g_tls g \<and>
       (g_init g \<noteq> None \<longleftrightarrow> ext) \<and> (g_init g \<noteq> None \<longrightarrow> g_init g = Some (ty, 0))) \<and>
    (\<exists>g. map_of (declare_main (declare_extern gl)) name = Some g \<and> g_type g = ty \<and> g_link g = ExternalLinkage \<and>
       g_init g = Some (IntT 64, 0))"
    using declared_globals[OF t(1), of gl] declared_globals(1)[OF t(1), of "declare_extern gl"] n t(2) i
    by (auto simp: tls_value_def extern_value_def)
qed

lemma thread_locals_defined_witness:
  "\<exists>g. map_of (declare_main (declare_extern [])) ''__sword_tid__'' = Some g \<and> g_type g = IntT 32 \<and> g_init g = Some (IntT 64, 0)"
proof -
  have "(''__sword_tid__'', IntT 32, True) \<in> set rtl_globals" by (simp add: rtl_globals_def)
  then show ?thesis using thread_locals_defined[of "[]"] by fastforce
qed

lemma endswith_append: "endswith (a @ b) b"
  by (simp add: endswith_def)

lemma replace_func_other: "g \<in> set fs \<Longrightarrow> f_name g \<noteq> f_name f \<Longrightarrow> g \<in> set (replace_func f fs)"
  by (force simp: replace_func_def image_iff)

lemma prog_insts_plain: "prog_insts (map Prog is) = is"
  by (induction "is") simp_all

lemma prog_plain: "prog_body (plain_blocks body) = body"
  by (rule nth_equalityI) (simp_all add: prog_body_def plain_blocks_def prog_insts_plain)

lemma plain_blocks_Cons:
  "plain_blocks (entry # body) = (OldBB 0, map Prog entry) # zip (map OldBB [1..<Suc (length body)]) (map (map Prog) body)"
  by (simp add: plain_blocks_def upt_conv_Cons del: upt_Suc)

lemma find_debug_loc: "\<exists>i\<in>set entry. debug_loc i \<Longrightarrow> \<exists>i. find has_debug_loc (map Prog entry) = Some i"
  by (cases "find has_debug_loc (map Prog entry)") (auto simp: find_None_iff)

text \<open>What the test does, when it is run.\<close>

lemma insert_test_ok:
  assumes "f_blocks f = plain_blocks (entry # body)" "\<exists>i\<in>set entry. debug_loc i"
  shows "\<exists>f'. insert_test f new = Some f' \<and> f_name f' = f_name f \<and>
    (\<forall>gl call vals. enter gl call vals f' = Some (
       if gl ''__sword_status__'' = 1
       then (Inr (if returns_void f then None else Some (call new (map vals (f_args f)))), [(new, map vals (f_args f))])
       else (Inl (NewEntryBB, map Prog entry), []))) \<and>
    (\<forall>n. map_of (f_blocks f') (OldBB (Suc n)) = map_of (f_blocks f) (OldBB (Suc n)))"
proof -
  obtain i where i: "find has_debug_loc (map Prog entry) = Some i" using find_debug_loc[OF assms(2)] by blast
  define rest where "rest = zip (map OldBB [1..<Suc (length body)]) (map (map Prog) body)"
  let ?bs = "(OldBB 0, [LoadGlobal LoadOmpStatus ''__sword_status__'', ICmp CondInst ICMP_EQ LoadOmpStatus 1, CondBr SwordThenBB NewEntryBB CondInst])
    # (NewEntryBB, map Prog entry) # rest @ [(SwordThenBB, then_block f new)]"
  let ?f' = "f\<lparr>sanitize_thread := False, f_blocks := ?bs\<rparr>"
  have fb: "f_blocks f = (OldBB 0, map Prog entry) # rest" using assms(1) by (simp only: plain_blocks_Cons rest_def)
  have r: "insert_test f new = Some ?f'" using i by (simp add: insert_test_def fb splitBasicBlock_def)
  have rest: "map_of rest b = None" if "b = NewEntryBB \<or> b = SwordThenBB" for b
    using that by (auto simp: rest_def map_of_eq_None_iff simp del: upt_Suc dest!: set_zip_leftD)
  obtain j js where e: "entry = j # js" using assms(2) by (cases entry) auto
  note rest = rest[of NewEntryBB] rest[of SwordThenBB]
  have "enter gl call vals ?f' = Some (
       if gl ''__sword_status__'' = 1
       then (Inr (if returns_void f then None else Some (call new (map vals (f_args f)))), [(new, map vals (f_args f))])
       else (Inl (NewEntryBB, map Prog entry), []))" for gl call vals
    using rest by (simp add: enter_def run_blocks.simps then_block_def e comp_def map_add_def Let_def)
  moreover have "map_of ?bs (OldBB (Suc n)) = map_of (f_blocks f) (OldBB (Suc n))" for n
    by (simp add: fb map_add_def split: option.splits)
  ultimately show ?thesis using r by (intro exI[of _ ?f']) simp
qed

text \<open>C38: A function gets a clone with the instrumented body, and a test at its start. Run, the test calls the clone with
  the same arguments, exactly once and exactly when the status is 1, and returns what it returns; otherwise the
  function's own code starts, as it was. The other functions do not change, nothing but the declarations of the
  thread-local variables and of the runtime's functions is added to the module, and visiting the clone later changes
  nothing.\<close>
theorem clone_dispatch:
  assumes "\<not> skipped f" "ctor \<noteq> Some (f_name f)" "f_name f \<noteq> ''main''" "\<not> startswith (f_name f) ''.omp''"
    "f_blocks f = plain_blocks (entry # body)" "\<exists>i\<in>set entry. debug_loc i"
    "well_ids (entry # body)" "\<forall>i\<in>set (concat (entry # body)). valid_orderings i"
  shows "\<exists>Res f' c body'. runOnFunction m ctor f M = Some (Res, M\<lparr>m_globals := declare_extern (m_globals M),
        m_decls := getOrInsertFunctions initializeCallbacks (m_decls M), m_funcs := replace_func f' (m_funcs M) @ [c]\<rparr>) \<and>
    f_name f' = f_name f \<and> c = f\<lparr>f_name := f_name f @ ''__sword__'', f_blocks := plain_blocks body'\<rparr> \<and>
    instrument_body m (entry # body) = Some (Res, body') \<and>
    (\<forall>gl call vals. enter gl call vals f' = Some (
       if gl ''__sword_status__'' = 1
       then (Inr (if returns_void f then None else Some (call (f_name c) (map vals (f_args f)))), [(f_name c, map vals (f_args f))])
       else (Inl (NewEntryBB, map Prog entry), []))) \<and>
    (\<forall>n. map_of (f_blocks f') (OldBB (Suc n)) = map_of (f_blocks f) (OldBB (Suc n))) \<and>
    (\<forall>ctor N. runOnFunction m ctor c N = Some (False, N))"
proof -
  obtain Res body' where b: "instrument_body m (entry # body) = Some (Res, body')" using instrument_body_ok[OF assms(7,8)] by blast
  let ?new = "f_name f @ ''__sword__''"
  let ?c = "f\<lparr>f_name := ?new, f_blocks := plain_blocks body'\<rparr>"
  obtain f' where t: "insert_test f ?new = Some f'" "f_name f' = f_name f"
    "\<forall>gl call vals. enter gl call vals f' = Some (
       if gl ''__sword_status__'' = 1
       then (Inr (if returns_void f then None else Some (call ?new (map vals (f_args f)))), [(?new, map vals (f_args f))])
       else (Inl (NewEntryBB, map Prog entry), []))"
    "\<forall>n. map_of (f_blocks f') (OldBB (Suc n)) = map_of (f_blocks f) (OldBB (Suc n))"
    using insert_test_ok[OF assms(5,6), of ?new] by blast
  have "prog_body (f_blocks f) = entry # body" unfolding assms(5) by (rule prog_plain)
  then have r: "runOnFunction m ctor f M = Some (Res, M\<lparr>m_globals := declare_extern (m_globals M),
      m_decls := getOrInsertFunctions initializeCallbacks (m_decls M), m_funcs := replace_func f' (m_funcs M) @ [?c]\<rparr>)"
    using assms(1-4) b t(1) by (simp add: runOnFunction_def CloneFunction_def)
  have "skipped ?c" using endswith_append[of "f_name f"] by (simp add: skipped_def Let_def)
  then have "\<forall>ctor N. runOnFunction m ctor ?c N = Some (False, N)" by (simp add: runOnFunction_def)
  with r t(2-4) b show ?thesis by (intro exI[of _ Res] exI[of _ f'] exI[of _ ?c] exI[of _ body']) simp
qed

definition sample_func :: func where
  "sample_func = \<lparr>f_name = ''work'', available_externally = False, f_args = [3], returns_void = True, sanitize_thread = True,
     f_blocks = plain_blocks sample_body\<rparr>"

lemma clone_dispatch_witness:
  "\<exists>Res M' f'. runOnFunction sample_llvm None sample_func \<lparr>m_globals = [], m_funcs = [sample_func], m_decls = []\<rparr> = Some (Res, M') \<and>
     f' \<in> set (m_funcs M') \<and>
     enter (\<lambda>_. 1) (\<lambda>_ _. 0) (\<lambda>v. 5) f' = Some (Inr None, [(''work__sword__'', [5])]) \<and>
     enter (\<lambda>_. 0) (\<lambda>_ _. 0) (\<lambda>v. 5) f' = Some (Inl (NewEntryBB, map Prog [sample_load, sample_store]), [])"
proof -
  let ?M = "\<lparr>m_globals = [], m_funcs = [sample_func], m_decls = []\<rparr>"
  have 1: "\<not> skipped sample_func" "None \<noteq> Some (f_name sample_func)" "f_name sample_func \<noteq> ''main''"
    "\<not> startswith (f_name sample_func) ''.omp''"
    by (simp_all add: sample_func_def skipped_def endswith_def startswith_def Let_def)
  have b: "f_blocks sample_func = plain_blocks ([sample_load, sample_store] # [])" "\<exists>i\<in>set [sample_load, sample_store]. debug_loc i"
    by (simp_all add: sample_func_def sample_body_def sample_load_def)
  have 2: "well_ids ([sample_load, sample_store] # [])" "\<forall>i\<in>set (concat ([sample_load, sample_store] # [])). valid_orderings i"
    using sample_body_ok by (simp_all add: sample_body_def)
  obtain Res f' c where r: "runOnFunction sample_llvm None sample_func ?M = Some (Res, ?M\<lparr>m_globals := declare_extern (m_globals ?M),
        m_decls := getOrInsertFunctions initializeCallbacks (m_decls ?M), m_funcs := replace_func f' (m_funcs ?M) @ [c]\<rparr>)"
    "f_name f' = f_name sample_func" "f_name c = f_name sample_func @ ''__sword__''"
    "\<forall>gl call vals. enter gl call vals f' = Some (
       if gl ''__sword_status__'' = 1
       then (Inr (if returns_void sample_func then None else Some (call (f_name c) (map vals (f_args sample_func)))),
         [(f_name c, map vals (f_args sample_func))])
       else (Inl (NewEntryBB, map Prog [sample_load, sample_store]), []))"
    using clone_dispatch[OF 1 b 2, of sample_llvm ?M] by auto
  have "f' \<in> set (m_funcs (?M\<lparr>m_funcs := replace_func f' (m_funcs ?M) @ [c]\<rparr>))" using r(2) by (simp add: replace_func_def)
  then show ?thesis using r(1,3,4) by (auto simp: sample_func_def)
qed

text \<open>A function of which no access is instrumented still gets its test, but the pass says that it changed nothing.\<close>
lemma dispatch_not_reported:
  "\<exists>M'. runOnFunction sample_llvm None (sample_func\<lparr>f_blocks := plain_blocks [[sample_load\<lparr>opcode := OtherInst\<rparr>]]\<rparr>)
     \<lparr>m_globals = [], m_funcs = [sample_func\<lparr>f_blocks := plain_blocks [[sample_load\<lparr>opcode := OtherInst\<rparr>]]\<rparr>], m_decls = []\<rparr> = Some (False, M') \<and>
     length (m_funcs M') = 2"
  by (simp add: runOnFunction_def sample_func_def skipped_def endswith_def startswith_def Let_def insert_test_def splitBasicBlock_def
      plain_blocks_def prog_body_def
      CloneFunction_def instrument_body_def collect_def visit_def isAtomic_def sample_load_def flush_local_def choose_eq replace_func_def)

end
