(* ===== verification/Startup.thy ===== *)
theory Startup
  imports Metafile "HOL-Library.Sublist"
begin

text \<open>
  How the runtime starts and ends: the options in \<open>SWORD_OPTIONS\<close> (\<open>rtl/sword_flags.h\<close>), the folder of the traces and
  the callbacks (\<open>ompt_initialize\<close>, \<open>ompt_finalize\<close> in \<open>rtl/sword_rtl.cc\<close>), and the output of a command that the
  analyser runs (\<open>execute_command\<close> in \<open>tools/sword-tool-common.h\<close>). The file system, \<open>lzo_init\<close> and OMPT are
  parameters; \<open>None\<close> is undefined behaviour or an exception that nothing catches.
\<close>

section \<open>The options\<close>

text \<open>\<open>sscanf\<close> matches the literal text character by character; \<open>%s\<close> skips white space and reads up to the next.
  The result is the number of conversions, -1 when the input ends before the first one.\<close>

datatype literal = Matched string | Mismatch | InputEnd

fun match_literal :: "string \<Rightarrow> string \<Rightarrow> literal" where
  "match_literal [] s = Matched s"
| "match_literal (c # cs) [] = InputEnd"
| "match_literal (c # cs) (x # xs) = (if c = x then match_literal cs xs else Mismatch)"

definition sscanf_traces_path :: "string \<Rightarrow> int \<times> string option" where
  "sscanf_traces_path env = (case match_literal ''traces_path='' env of
     Mismatch \<Rightarrow> (0, None)
   | InputEnd \<Rightarrow> (-1, None)
   | Matched s \<Rightarrow> (let w = takeWhile (\<lambda>c. \<not> is_space c) (dropWhile is_space s) in
       if w = [] then (-1, None) else (1, Some w)))"

definition tmp_string_size :: nat where
  "tmp_string_size = 255"

text \<open>The path, and whether the message about illegal values is printed. A string that was not written is
  uninitialised, one that is too long overflows the buffer.\<close>

definition SwordFlags :: "string option \<Rightarrow> (string \<times> bool) option" where
  "SwordFlags env = (case env of
     None \<Rightarrow> Some (''./sword_data'', False)
   | Some env \<Rightarrow> (let (ret, tmp_string) = sscanf_traces_path env in
       if ret = 0 then Some (''./sword_data'', True)
       else (case tmp_string of
           None \<Rightarrow> None
         | Some w \<Rightarrow> if length w + 1 > tmp_string_size then None else Some (w, False))))"

section \<open>The folder of the traces\<close>

definition SWORD_DATA :: string where
  "SWORD_DATA = ''sword_data''"

text \<open>What is used of \<open>boost::filesystem\<close>; \<open>None\<close> is the exception.\<close>

record 'f fsops =
  is_directory :: "string \<Rightarrow> 'f \<Rightarrow> bool"
  rename :: "string \<Rightarrow> string \<Rightarrow> 'f \<Rightarrow> 'f option"
  remove_all :: "string \<Rightarrow> 'f \<Rightarrow> 'f option"
  create_directory :: "string \<Rightarrow> 'f \<Rightarrow> 'f option"

definition move_away :: "'f fsops \<Rightarrow> string \<Rightarrow> 'f \<Rightarrow> 'f option" where
  "move_away ops str f = (
     if is_directory ops str f then
       (case rename ops str (str @ ''.old'') f of
          Some f \<Rightarrow> Some f
        | None \<Rightarrow> do {
            f \<leftarrow> remove_all ops (str @ ''.old'') f;
            rename ops str (str @ ''.old'') f })
     else Some f)"

definition prepare_folder :: "'f fsops \<Rightarrow> string \<Rightarrow> 'f \<Rightarrow> (string \<times> 'f) option" where
  "prepare_folder ops traces_path f = do {
     f \<leftarrow> move_away ops traces_path f;
     let str = (if traces_path = [] then ''./'' @ SWORD_DATA else traces_path);
     f \<leftarrow> create_directory ops str f;
     Some (str, f)
   }"

section \<open>Start and end\<close>

text \<open>The names that are looked up, and the callbacks that are registered, in order.\<close>

definition entry_points :: "string list" where
  "entry_points = [''ompt_set_callback'', ''ompt_get_state'', ''ompt_get_task_info'', ''ompt_get_thread_data'',
     ''ompt_get_parallel_info'', ''ompt_get_unique_id'']"

definition callbacks :: "string list" where
  "callbacks = [''ompt_callback_thread_begin'', ''ompt_callback_thread_end'', ''ompt_callback_parallel_begin'',
     ''ompt_callback_parallel_end'', ''ompt_callback_implicit_task'', ''ompt_callback_sync_region'',
     ''ompt_callback_mutex_acquired'', ''ompt_callback_mutex_released'']"

definition register_callback :: "(string \<Rightarrow> bool) \<Rightarrow> string \<Rightarrow> string" where
  "register_callback set_never name =
     (if set_never name then ''0: Could not register callback '' @ [CHR 0x27] @ name @ [CHR 0x27] @ [CHR 0x0A] else [])"

datatype init_result =
    Initialized string string   \<comment> \<open>the path of the traces, and what was printed; the result of the function is 1\<close>
  | LzoError

definition illegal_values :: string where
  "illegal_values = ''Illegal values for SWORD_OPTIONS variable, no option has been set.'' @ [CHR 0x0A]"

definition ompt_initialize ::
    "'f fsops \<Rightarrow> bool \<Rightarrow> (string \<Rightarrow> bool) \<Rightarrow> string option \<Rightarrow> 'f \<Rightarrow> (init_result \<times> 'f) option" where
  "ompt_initialize ops lzo_ok set_never options f = do {
     (traces_path, illegal) \<leftarrow> SwordFlags options;
     let printed = (if illegal then illegal_values else []) @ concat (map (register_callback set_never) callbacks);
     (traces_path, f) \<leftarrow> prepare_folder ops traces_path f;
     if lzo_ok then Some (Initialized traces_path printed, f) else Some (LzoError, f)
   }"

text \<open>The commands that \<open>ompt_finalize\<close> tells the user to run.\<close>

definition ompt_finalize :: "string \<Rightarrow> string \<Rightarrow> string list" where
  "ompt_finalize traces_path progname = [
     ''Logs are stored in '' @ [CHR 0x22] @ traces_path @ [CHR 0x22] @ ''.'',
     [CHR 0x09] @ ''sword-offline-analysis --analysis-tool sword-race-analysis --executable '' @ progname @
       '' --traces-path ./sword_data --report-path ./sword_report'',
     [CHR 0x09] @ ''sword-print-report --executable '' @ progname @ '' --report-path ./sword_report'']"

section \<open>The output of a command\<close>

text \<open>\<open>fgets\<close> with 128 bytes: up to 127 characters, no further than a newline.\<close>

fun fgets :: "nat \<Rightarrow> string \<Rightarrow> string \<times> string" where
  "fgets 0 s = ([], s)"
| "fgets (Suc n) [] = ([], [])"
| "fgets (Suc n) (c # s) = (if c = CHR 0x0A then ([c], s) else (let (l, r) = fgets n s in (c # l, r)))"

lemma fgets_append: "fst (fgets n s) @ snd (fgets n s) = s"
  by (induction n s rule: fgets.induct) (auto simp: case_prod_beta Let_def)

lemma fgets_progress: "s \<noteq> [] \<Longrightarrow> 0 < n \<Longrightarrow> length (snd (fgets n s)) < length s"
proof -
  assume "s \<noteq> []" "0 < n"
  then have "fst (fgets n s) \<noteq> []" by (cases s; cases n) (auto simp: case_prod_beta Let_def)
  moreover have "length (fst (fgets n s)) + length (snd (fgets n s)) = length s"
    using arg_cong[OF fgets_append[of n s], of length] by simp
  ultimately show ?thesis by (cases "fst (fgets n s)") auto
qed

text \<open>The lines read; a buffer holds a C string, so what follows a null character in it is not appended.\<close>

function read_pipe :: "string \<Rightarrow> string" where
  "read_pipe s = (if s = [] then [] else
     (let (line, rest) = fgets 127 s in takeWhile (\<lambda>c. c \<noteq> CHR 0x00) line @ read_pipe rest))"
  by pat_completeness auto
termination
proof (relation "measure length")
  fix s x y and z :: string
  assume "s \<noteq> []" "x = fgets 127 s" "(y, z) = x"
  then show "(z, s) \<in> measure length" using fgets_progress[of s 127] by (metis in_measure snd_conv zero_less_numeral)
qed simp

declare read_pipe.simps [simp del]

datatype command_error = PopenFailed | OutOfRange

text \<open>\<open>out\<close> is what the command prints, \<open>None\<close> when \<open>popen\<close> fails. The end of the buffer is cut off: \<open>erase\<close> throws
  when there is less than that.\<close>

definition execute_command :: "string option \<Rightarrow> string \<Rightarrow> nat \<Rightarrow> command_error + string" where
  "execute_command out buf carrier = (case out of
     None \<Rightarrow> Inl PopenFailed
   | Some out \<Rightarrow> (let buf = buf @ read_pipe out in
       if carrier \<le> length buf then Inr (take (length buf - carrier) buf) else Inl OutOfRange))"

lemma read_pipe_text: "CHR 0x00 \<notin> set s \<Longrightarrow> read_pipe s = s"
proof (induction s rule: read_pipe.induct)
  case (1 s)
  obtain l r where lr: "fgets 127 s = (l, r)" by (cases "fgets 127 s")
  have e: "s = l @ r" using fgets_append[of 127 s] lr by simp
  have n: "CHR 0x00 \<notin> set l" "CHR 0x00 \<notin> set r" using 1(2) unfolding e by simp_all
  have t: "takeWhile (\<lambda>c. c \<noteq> CHR 0x00) l = l" using n(1) by (auto intro: takeWhile_eq_all_conv[THEN iffD2])
  show ?case
  proof (cases "s = []")
    case False
    have "read_pipe r = r" by (rule 1(1)[OF False lr[symmetric] refl n(2)])
    then have "read_pipe s = l @ r" by (simp add: read_pipe.simps[of s] False lr t)
    then show ?thesis using e by simp
  qed (simp add: read_pipe.simps)
qed

section \<open>Properties\<close>

lemma match_literal_append: "match_literal p (p @ s) = Matched s"
  by (induction p) auto

lemma match_literal_end: "match_literal p s = InputEnd \<longleftrightarrow> strict_prefix s p"
  by (induction p s rule: match_literal.induct) auto

lemma match_literal_iff: "match_literal p s = Matched r \<longleftrightarrow> s = p @ r"
  by (induction p s rule: match_literal.induct) auto

lemma takeWhile_word: "\<forall>c\<in>set w. \<not> is_space c \<Longrightarrow> takeWhile (\<lambda>c. \<not> is_space c) w = w \<and> dropWhile is_space w = w"
  by (cases w) auto

text \<open>C39: the options: without the variable, and when it does not start like an option, the default is kept; a path of up
  to 254 characters without white space is taken; a longer one overflows the buffer; and an empty variable, one that is cut off inside the
  keyword, or an option without a path, makes the constructor use a string that was never written.\<close>
theorem flags_correct:
  assumes "\<forall>c\<in>set w. \<not> is_space c" "\<not> prefix ''traces_path='' other" "\<not> strict_prefix other ''traces_path=''"
    "strict_prefix short ''traces_path=''"
  shows "SwordFlags None = Some (''./sword_data'', False) \<and>
    SwordFlags (Some other) = Some (''./sword_data'', True) \<and>
    SwordFlags (Some (''traces_path='' @ w)) = (if w \<noteq> [] \<and> length w < 255 then Some (w, False) else None) \<and>
    SwordFlags (Some short) = None"
proof -
  have o: "match_literal ''traces_path='' other = Mismatch"
    using assms(2,3) match_literal_end[of "''traces_path=''" other] match_literal_iff[of "''traces_path=''" other]
    by (cases "match_literal ''traces_path='' other") (auto simp: prefix_def)
  have c: "match_literal ''traces_path='' short = InputEnd" using assms(4) match_literal_end by blast
  have m: "match_literal ''traces_path='' (''traces_path='' @ w) = Matched w" by (rule match_literal_append)
  have 1: "SwordFlags (Some other) = Some (''./sword_data'', True)"
    unfolding SwordFlags_def sscanf_traces_path_def option.case o by simp
  have 2: "SwordFlags (Some short) = None" unfolding SwordFlags_def sscanf_traces_path_def option.case c by simp
  have 3: "SwordFlags (Some (''traces_path='' @ w)) = (if w \<noteq> [] \<and> length w < 255 then Some (w, False) else None)"
    unfolding SwordFlags_def sscanf_traces_path_def option.case m
    by (simp add: conjunct1[OF takeWhile_word[OF assms(1)]] conjunct2[OF takeWhile_word[OF assms(1)]] Let_def tmp_string_size_def)
  show ?thesis using 1 2 3 by (simp add: SwordFlags_def)
qed

lemma flags_correct_witness:
  "SwordFlags (Some ''traces_path=/tmp/t'') = Some (''/tmp/t'', False) \<and> SwordFlags (Some ''traces'') = None"
proof -
  have "\<forall>c\<in>set ''/tmp/t''. \<not> is_space c" by (simp add: is_space_def)
  moreover have "\<not> prefix ''traces_path='' ''verbose''" "\<not> strict_prefix ''verbose'' ''traces_path=''"
    "strict_prefix ''traces'' ''traces_path=''" by simp_all
  ultimately show ?thesis using flags_correct[of "''/tmp/t''" "''verbose''" "''traces''"] by simp
qed

text \<open>With a slash at the end of the path the new name is inside the folder, so it can never be moved there: the second
  exception is not caught.\<close>
lemma prepare_folder_slash:
  assumes "is_directory ops p f" "\<forall>g. rename ops p (p @ ''.old'') g = None"
  shows "prepare_folder ops p f = None"
proof -
  have "move_away ops p f = None"
    using assms by (cases "remove_all ops (p @ ''.old'') f") (simp_all add: move_away_def)
  then show ?thesis by (simp add: prepare_folder_def)
qed

text \<open>A command that prints nothing, or less than what is cut off, ends the program with an exception.\<close>
lemma execute_command_text:
  assumes "CHR 0x00 \<notin> set out"
  shows "execute_command (Some out) buf n =
    (if n \<le> length buf + length out then Inr (take (length buf + length out - n) (buf @ out)) else Inl OutOfRange)"
  by (simp add: execute_command_def read_pipe_text[OF assms] Let_def)

text \<open>The hint printed at the end names a fixed folder, whatever the option said.\<close>
lemma finalize_fixed_folder: "ompt_finalize p progname ! 1 = ompt_finalize q progname ! 1"
  by (simp add: ompt_finalize_def)

end
