(* ===== verification/TraceRecords.thy ===== *)
theory TraceRecords
  imports SwordCommon
begin

text \<open>
  The records of \<open>rtl/sword_common.h\<close> that a trace item could hold besides accesses, parallel regions and mutexes, and
  the constructors that the logged ones do not need. Nothing in the program stores these; the constants of OMPT's
  enumerations are arguments of the default constructors.
\<close>

definition Parallel_default :: parallel_rec where
  "Parallel_default = \<lparr>par_id = 0, par_team_size = 0\<rparr>"

definition mk_Parallel :: "64 word \<Rightarrow> uint \<Rightarrow> parallel_rec" where
  "mk_Parallel pid ts = \<lparr>par_id = pid, par_team_size = ts\<rparr>"

definition MutexRegion_default :: "uint \<Rightarrow> mutex_region" where
  "MutexRegion_default ompt_mutex = \<lparr>mr_kind = ompt_mutex, mr_wait_id = 0\<rparr>"

definition mk_MutexRegion :: "uint \<Rightarrow> 64 word \<Rightarrow> mutex_region" where
  "mk_MutexRegion k wid = \<lparr>mr_kind = k, mr_wait_id = wid\<rparr>"

record work_rec =
  wk_wstype :: uint
  wk_endpoint :: uint

definition Work_default :: "uint \<Rightarrow> uint \<Rightarrow> work_rec" where
  "Work_default ompt_work_loop ompt_scope_begin = \<lparr>wk_wstype = ompt_work_loop, wk_endpoint = ompt_scope_begin\<rparr>"

definition mk_Work :: "uint \<Rightarrow> uint \<Rightarrow> work_rec" where
  "mk_Work wt ep = \<lparr>wk_wstype = wt, wk_endpoint = ep\<rparr>"

record master_rec =
  ms_endpoint :: uint

definition Master_default :: "uint \<Rightarrow> master_rec" where
  "Master_default ompt_scope_begin = \<lparr>ms_endpoint = ompt_scope_begin\<rparr>"

definition mk_Master :: "uint \<Rightarrow> master_rec" where
  "mk_Master ep = \<lparr>ms_endpoint = ep\<rparr>"

record sync_region_rec =
  sr_kind :: uint
  sr_endpoint :: uint
  sr_barrier_id :: "64 word"

definition SyncRegion_default :: "uint \<Rightarrow> uint \<Rightarrow> sync_region_rec" where
  "SyncRegion_default ompt_sync_region_barrier ompt_scope_begin =
     \<lparr>sr_kind = ompt_sync_region_barrier, sr_endpoint = ompt_scope_begin, sr_barrier_id = 0\<rparr>"

definition mk_SyncRegion :: "64 word \<Rightarrow> uint \<Rightarrow> uint \<Rightarrow> sync_region_rec" where
  "mk_SyncRegion bid k ep = \<lparr>sr_kind = k, sr_endpoint = ep, sr_barrier_id = bid\<rparr>"

record task_create_rec =
  tc_task_id :: "64 word"
  tc_type :: uint
  tc_has_dependences :: "32 word"

definition TaskCreate_default :: "uint \<Rightarrow> task_create_rec" where
  "TaskCreate_default ompt_task_initial = \<lparr>tc_task_id = 0, tc_type = ompt_task_initial, tc_has_dependences = 0\<rparr>"

definition mk_TaskCreate :: "64 word \<Rightarrow> uint \<Rightarrow> 32 word \<Rightarrow> task_create_rec" where
  "mk_TaskCreate i t deps = \<lparr>tc_task_id = i, tc_type = t, tc_has_dependences = deps\<rparr>"

record task_schedule_rec =
  ts_task_id :: "64 word"
  ts_status :: uint

definition TaskSchedule_default :: "uint \<Rightarrow> task_schedule_rec" where
  "TaskSchedule_default ompt_task_complete = \<lparr>ts_task_id = 0, ts_status = ompt_task_complete\<rparr>"

definition mk_TaskSchedule :: "64 word \<Rightarrow> uint \<Rightarrow> task_schedule_rec" where
  "mk_TaskSchedule i s = \<lparr>ts_task_id = i, ts_status = s\<rparr>"

definition getTaskID :: "task_schedule_rec \<Rightarrow> 64 word" where
  "getTaskID t = ts_task_id t"

definition getStatus :: "task_schedule_rec \<Rightarrow> uint" where
  "getStatus t = ts_status t"

record offset_span =
  os_offset :: uint
  os_span :: uint

definition OffsetSpan_default :: offset_span where
  "OffsetSpan_default = \<lparr>os_offset = 0, os_span = 0\<rparr>"

definition mk_OffsetSpan :: "uint \<Rightarrow> uint \<Rightarrow> offset_span" where
  "mk_OffsetSpan p l = \<lparr>os_offset = p, os_span = l\<rparr>"

definition getOffset :: "offset_span \<Rightarrow> uint" where
  "getOffset l = os_offset l"

definition getSpan :: "offset_span \<Rightarrow> uint" where
  "getSpan l = os_span l"

definition AccessTypeStrings :: "string list" where
  "AccessTypeStrings = [''Read'', ''Write'', ''Atomic Read'', ''Atomic Write'']"

text \<open>The constructors keep what they are given, but for the dependences of a task.\<close>

lemma constructor_getters:
  "getTaskID (mk_TaskSchedule i s) = i" "getStatus (mk_TaskSchedule i s) = s"
  "getOffset (mk_OffsetSpan p l) = p" "getSpan (mk_OffsetSpan p l) = l"
  "getKind (mk_MutexRegion k wid) = k" "getWaitId (mk_MutexRegion k wid) = wid"
  by (simp_all add: getTaskID_def getStatus_def mk_TaskSchedule_def getOffset_def getSpan_def mk_OffsetSpan_def
      getKind_def getWaitId_def mk_MutexRegion_def)

lemma task_dependence_forgets: "mk_task_dependence i va df = mk_task_dependence i 0 0"
  by (simp add: mk_task_dependence_def)

text \<open>Every kind of access has a name in the table.\<close>

lemma access_type_named: "\<exists>name. map_of (zip [unsafe_read, unsafe_write, atomic_read, atomic_write] AccessTypeStrings) t = Some name \<and>
    AccessTypeStrings ! unat (type_code t) = name"
  by (cases t) (simp_all add: AccessTypeStrings_def)

end
