(* ===== verification/Dot.thy ===== *)
theory Dot
  imports Overlap Metafile
begin

text \<open>
  The printing of an interval tree as a graph (\<open>print_dot_null\<close>, \<open>print_dot_aux\<close> and \<open>interval_tree_print\<close> of
  \<open>tools/interval_tree_generic.h\<close>), which the analyser does for every tree with \<open>--print\<close>. \<open>key\<close> gives the number
  that the constructor drew for a node; \<open>nullcount\<close> is static and goes on from call to call.
\<close>

section \<open>The code\<close>

definition newline_char :: string where
  "newline_char = [CHR 0x0A]"

text \<open>The table of the access kinds has four entries; an index behind them is undefined.\<close>

definition TypeValue :: "u8 \<Rightarrow> string option" where
  "TypeValue n = (if n = 0 then Some ''R'' else if n = 1 then Some ''W'' else if n = 2 then Some ''AR''
     else if n = 3 then Some ''AW'' else None)"

definition dot_label :: "int \<Rightarrow> it_data \<Rightarrow> string option" where
  "dot_label key d = do {
     ty \<leftarrow> TypeValue (size_type d AND 0x0F);
     Some (print_int key @ '' [label=\"['' @ print_nat (unat (it_start d)) @ '','' @ print_nat (unat (it_last d)) @ ''],'' @
       print_nat (unat (count d)) @ newline_char @ ty @ '','' @ print_nat (2 ^ unat (drop_bit 4 (size_type d))) @ '','' @
       print_nat (unat (pc d)) @ ''\"]'' @ newline_char)
   }"

definition print_dot_null :: "int \<Rightarrow> nat \<Rightarrow> string" where
  "print_dot_null key nullcount =
     ''    null'' @ print_nat nullcount @ '' [shape=point];'' @ newline_char @
     ''    '' @ print_int key @ ''-> null'' @ print_nat nullcount @ '';'' @ newline_char"

definition dot_edge :: "int \<Rightarrow> it_data \<Rightarrow> int \<Rightarrow> it_data \<Rightarrow> string option" where
  "dot_edge key d key' d' = do {
     l \<leftarrow> dot_label key d;
     l' \<leftarrow> dot_label key' d';
     Some (''    '' @ print_int key @ '' -> '' @ print_int key' @ '';'' @ newline_char @ l @ l')
   }"

partial_function (option) print_dot_aux :: "(ptr \<Rightarrow> int) \<Rightarrow> ptr \<Rightarrow> nat \<Rightarrow> it_state \<Rightarrow> (string \<times> nat) option" where
  "print_dot_aux key node k s = do {
     d \<leftarrow> itf (\<lambda>d. d) node s;
     left \<leftarrow> ld rb_left node s;
     (s1, k) \<leftarrow> (if left \<noteq> 0 then do {
         e \<leftarrow> itf (\<lambda>d. d) left s;
         t \<leftarrow> dot_edge (key node) d (key left) e;
         (u, k) \<leftarrow> print_dot_aux key left k s;
         Some (t @ u, k) }
       else Some (print_dot_null (key node) k, k + 1));
     right \<leftarrow> ld rb_right node s;
     (s2, k) \<leftarrow> (if right \<noteq> 0 then do {
         e \<leftarrow> itf (\<lambda>d. d) right s;
         t \<leftarrow> dot_edge (key node) d (key right) e;
         (u, k) \<leftarrow> print_dot_aux key right k s;
         Some (t @ u, k) }
       else Some (print_dot_null (key node) k, k + 1));
     Some (s1 @ s2, k)
   }"

definition interval_tree_print :: "(ptr \<Rightarrow> int) \<Rightarrow> nat \<Rightarrow> it_state \<Rightarrow> (string \<times> nat) option" where
  "interval_tree_print key k s = do {
     (body, k) \<leftarrow> (if rb_root s = 0 then Some (newline_char @ newline_char, k)
       else do {
         r \<leftarrow> ld rb_right (rb_root s) s;
         l \<leftarrow> ld rb_left (rb_root s) s;
         if r = 0 \<and> l = 0 then Some (''    '' @ print_int (key (rb_root s)) @ '';'' @ newline_char, k)
         else print_dot_aux key (rb_root s) k s });
     Some (''digraph BST {'' @ newline_char @ newline_char @ ''    node [fontname=\"Arial\"];'' @ newline_char @ newline_char @
       body @ ''}'' @ newline_char, k)
   }"

section \<open>The graph of a tree\<close>

text \<open>Every line of the graph as a list: the edges with their labels, and the points for missing children.\<close>

definition label_text :: "(ptr \<Rightarrow> int) \<Rightarrow> it_map \<Rightarrow> ptr \<Rightarrow> string" where
  "label_text key m x = the (dot_label (key x) (dat m x))"

definition edge_text :: "(ptr \<Rightarrow> int) \<Rightarrow> it_map \<Rightarrow> ptr \<Rightarrow> ptr \<Rightarrow> string" where
  "edge_text key m x y = ''    '' @ print_int (key x) @ '' -> '' @ print_int (key y) @ '';'' @ newline_char @
     label_text key m x @ label_text key m y"

fun dot_lines :: "(ptr \<Rightarrow> int) \<Rightarrow> it_map \<Rightarrow> nat \<Rightarrow> ptree \<Rightarrow> string list" where
  "dot_lines key m k Leaf = []"
| "dot_lines key m k (Node l x c r) =
     (let k' = k + Suc (length (inorder l)) in
      (if l = Leaf then [print_dot_null (key x) k] else edge_text key m x (rootp l) # dot_lines key m k l) @
      (if r = Leaf then [print_dot_null (key x) k'] else edge_text key m x (rootp r) # dot_lines key m k' r))"

definition kinds_ok :: "it_map \<Rightarrow> ptree \<Rightarrow> bool" where
  "kinds_ok m t \<longleftrightarrow> (\<forall>x\<in>set (inorder t). size_type (dat m x) AND 0x0F < 4)"

lemma small_kind: "(n :: u8) < 4 \<Longrightarrow> n = 0 \<or> n = 1 \<or> n = 2 \<or> n = 3"
proof -
  assume "n < 4"
  then have "unat n < 4" by (simp add: word_less_nat_alt)
  then have "unat n = 0 \<or> unat n = 1 \<or> unat n = 2 \<or> unat n = 3" by linarith
  then show ?thesis by (simp add: word_unat_eq_iff)
qed

lemma label_ok:
  assumes "size_type (dat m x) AND 0x0F < 4"
  shows "dot_label (key x) (dat m x) = Some (label_text key m x)"
proof -
  have "\<exists>ty. TypeValue (size_type (dat m x) AND 0x0F) = Some ty"
    using small_kind[OF assms] by (auto simp: TypeValue_def)
  then show ?thesis by (auto simp: dot_label_def label_text_def)
qed

lemma edge_ok:
  "size_type (dat m x) AND 0x0F < 4 \<Longrightarrow> size_type (dat m y) AND 0x0F < 4 \<Longrightarrow>
   dot_edge (key x) (dat m x) (key y) (dat m y) = Some (edge_text key m x y)"
  by (simp add: dot_edge_def label_ok edge_text_def)

lemma rep_root:
  assumes "rep (mem s) p t" "t \<noteq> Leaf"
  shows "rootp t \<in> set (inorder t) \<and> rootp t \<noteq> 0 \<and> itf (\<lambda>d. d) (rootp t) s = Some (dat (mores (mem s)) (rootp t))"
proof -
  obtain l x c r where t: "t = Node l x c r" using assms(2) by (cases t) auto
  then have "node_at (mem s) x p c (rootp l) (rootp r)" using assms(1) by simp
  then obtain n where "mem s x = Some n" "x \<noteq> 0" by (auto simp: node_at_mem)
  then show ?thesis using t by (simp add: itf_mores mores_def)
qed

lemma print_dot_aux_ok:
  assumes "rep (mem s) p t" "t \<noteq> Leaf" "kinds_ok (mores (mem s)) t"
  shows "print_dot_aux key (rootp t) k s = Some (concat (dot_lines key (mores (mem s)) k t), k + Suc (length (inorder t)))"
  using assms
proof (induction t arbitrary: p k)
  case (Node l x c r)
  let ?m = "mores (mem s)"
  have na: "node_at (mem s) x p c (rootp l) (rootp r)" and rl: "rep (mem s) x l" and rr: "rep (mem s) x r"
    using Node.prems(1) by simp_all
  then obtain n where n: "mem s x = Some n" "x \<noteq> 0" "rb_left n = rootp l" "rb_right n = rootp r"
    by (auto simp: node_at_def links_def)
  have ld: "ld rb_left x s = Some (rootp l)" "ld rb_right x s = Some (rootp r)" using n by (simp_all add: ld_def)
  have d: "itf (\<lambda>d. d) x s = Some (dat ?m x)" using n by (simp add: itf_mores mores_def)
  have ks: "kinds_ok ?m l" "kinds_ok ?m r" "size_type (dat ?m x) AND 0x0F < 4" using Node.prems(3) by (auto simp: kinds_ok_def)
  have sub: "\<exists>e. itf (\<lambda>d. d) (rootp t) s = Some e \<and> dot_edge (key x) (dat ?m x) (key (rootp t)) e = Some (edge_text key ?m x (rootp t))"
    if "rep (mem s) x t" "t \<noteq> Leaf" "kinds_ok ?m t" for t
    using rep_root[OF that(1,2)] that(3) ks(3) edge_ok[of ?m x "rootp t" key] by (auto simp: kinds_ok_def)
  define k' where "k' = k + Suc (length (inorder l))"
  let ?one = "\<lambda>t k. if rootp t \<noteq> 0 then do {
         e \<leftarrow> itf (\<lambda>d. d) (rootp t) s;
         u \<leftarrow> dot_edge (key x) (dat ?m x) (key (rootp t)) e;
         (v, k) \<leftarrow> print_dot_aux key (rootp t) k s;
         Some (u @ v, k) }
       else Some (print_dot_null (key x) k, k + 1)"
  have L: "?one l k = Some (concat (if l = Leaf then [print_dot_null (key x) k]
      else edge_text key ?m x (rootp l) # dot_lines key ?m k l), k')"
  proof (cases "l = Leaf")
    case False
    obtain e where "itf (\<lambda>d. d) (rootp l) s = Some e" "dot_edge (key x) (dat ?m x) (key (rootp l)) e = Some (edge_text key ?m x (rootp l))"
      using sub[OF rl False ks(1)] by blast
    moreover have "print_dot_aux key (rootp l) k s = Some (concat (dot_lines key ?m k l), k')"
      using Node.IH(1)[OF rl False ks(1)] by (simp add: k'_def)
    ultimately show ?thesis using rep_root[OF rl False] False by simp
  qed (simp add: k'_def)
  have R: "?one r k' = Some (concat (if r = Leaf then [print_dot_null (key x) k']
      else edge_text key ?m x (rootp r) # dot_lines key ?m k' r), k + Suc (length (inorder (Node l x c r))))"
  proof (cases "r = Leaf")
    case False
    obtain e where "itf (\<lambda>d. d) (rootp r) s = Some e" "dot_edge (key x) (dat ?m x) (key (rootp r)) e = Some (edge_text key ?m x (rootp r))"
      using sub[OF rr False ks(2)] by blast
    moreover have "print_dot_aux key (rootp r) k' s = Some (concat (dot_lines key ?m k' r), k + Suc (length (inorder (Node l x c r))))"
      using Node.IH(2)[OF rr False ks(2)] by (simp add: k'_def)
    ultimately show ?thesis using rep_root[OF rr False] False by simp
  qed (simp add: k'_def)
  have "print_dot_aux key x k s = Option.bind (?one l k) (\<lambda>(s1, k). Option.bind (?one r k) (\<lambda>(s2, k). Some (s1 @ s2, k)))"
    by (subst print_dot_aux.simps) (simp add: d ld)
  also have "\<dots> = Some (concat (dot_lines key ?m k (Node l x c r)), k + Suc (length (inorder (Node l x c r))))"
    unfolding L by (simp only: Option.bind.bind_lunit prod.case R) (simp add: k'_def Let_def)
  finally show ?case by simp
qed simp

section \<open>Properties\<close>

text \<open>C40: printing a tree whose accesses are of one of the four kinds ends without reading outside the tree, draws every
  edge between a node and its child once, with the labels of both, and a numbered point for each of the missing
  children of a tree of more than one node.\<close>
theorem interval_tree_print_correct:
  assumes "tree_rep s t" "kinds_ok (mores (mem s)) t"
  shows "interval_tree_print key k s = Some (
    (let nl = newline_char in ''digraph BST {'' @ nl @ nl @ ''    node [fontname=\"Arial\"];'' @ nl @ nl @
      (case t of Leaf \<Rightarrow> nl @ nl
       | Node l x c r \<Rightarrow> if l = Leaf \<and> r = Leaf then ''    '' @ print_int (key x) @ '';'' @ nl
           else concat (dot_lines key (mores (mem s)) k t)) @ ''}'' @ nl),
    k + (if length (inorder t) > 1 then Suc (length (inorder t)) else 0))"
proof (cases t)
  case Leaf
  then show ?thesis using assms(1) by (simp add: interval_tree_print_def tree_rep_def Let_def)
next
  case (Node l x c r)
  have rp: "rep (mem s) 0 t" "rb_root s = x" using assms(1) Node by (simp_all add: tree_rep_def)
  then obtain n where n: "mem s x = Some n" "x \<noteq> 0" "rb_left n = rootp l" "rb_right n = rootp r"
    using Node by (auto simp: node_at_def links_def)
  have ld: "ld rb_left x s = Some (rootp l)" "ld rb_right x s = Some (rootp r)" using n by (simp_all add: ld_def)
  have z: "rootp l = 0 \<longleftrightarrow> l = Leaf" "rootp r = 0 \<longleftrightarrow> r = Leaf"
    using rep_root[of s x l] rep_root[of s x r] rp(1) Node by auto
  have A: "print_dot_aux key x k s = Some (concat (dot_lines key (mores (mem s)) k t), k + Suc (length (inorder t)))"
    using print_dot_aux_ok[OF rp(1) _ assms(2), of key k] Node by simp
  have len: "length (inorder t) > 1 \<longleftrightarrow> \<not> (l = Leaf \<and> r = Leaf)" using Node by (cases l; cases r) auto
  show ?thesis
    using n(2) A len by (simp add: interval_tree_print_def rp(2) ld z Let_def Node)
qed

lemma interval_tree_print_correct_witness:
  "\<exists>text. interval_tree_print (\<lambda>x. 1) 5 (two_trees 200) = Some (text, 9)"
proof -
  have "kinds_ok (mores (mem (two_trees 200))) tree3" by (simp add: kinds_ok_def tree3_def two_trees_defs)
  from interval_tree_print_correct[OF two_trees_rep(1) this, of "\<lambda>x. 1" 5] show ?thesis by (simp add: tree3_def)
qed

end
