(* ===== verification/LzoCodec.thy ===== *)
theory LzoCodec
  imports Lzo
begin

text \<open>
  \<open>lzo1x_decompress\<close> undoes \<open>lzo1x_1_compress\<close>: the compressor never reads or writes outside its buffers, what it
  writes decodes to its input, and its output stays within the documented bound.
\<close>

section \<open>Reading what was written\<close>

lemma rd_append: "rd (xs @ b # ys) (length xs) = Some b"
  by (simp add: rd_def)

lemma copy_literals_ok: "ip + n \<le> length xs \<Longrightarrow> copy_literals xs n ip op = Some (ip + n, op @ take n (drop ip xs))"
proof (induction n arbitrary: ip op)
  case (Suc n)
  then have "take (Suc n) (drop ip xs) = xs ! ip # take n (drop (Suc ip) xs)"
    by (simp add: Cons_nth_drop_Suc[symmetric])
  with Suc show ?case by (simp add: rd_def)
qed simp

lemma copy_literals_append: "length ls = n \<Longrightarrow> ip = length xs \<Longrightarrow>
   copy_literals (xs @ ls @ ys) n ip op = Some (length xs + n, op @ ls)"
  by (simp add: copy_literals_ok)

lemma zero_run_zeros: "b \<noteq> 0 \<Longrightarrow> zero_run (xs @ replicate k 0 @ b # ys) (length xs) t = Some (t + 255 * k, length xs + k)"
proof (induction k arbitrary: xs t)
  case 0
  then show ?case by (simp add: zero_run.simps[of _ "length xs"] rd_append)
next
  case (Suc k)
  have "zero_run (xs @ replicate (Suc k) 0 @ b # ys) (length xs) t = zero_run ((xs @ [0]) @ replicate k 0 @ b # ys) (length (xs @ [0])) (t + 255)"
    by (subst zero_run.simps) (simp add: rd_append)
  also have "\<dots> = Some (t + 255 + 255 * k, length (xs @ [0]) + k)" by (rule Suc.IH[OF Suc.prems])
  finally show ?case by simp
qed

lemma LZO_BYTE_small: "n < 256 \<Longrightarrow> unat (LZO_BYTE n) = n"
  by (simp add: LZO_BYTE_def unat_of_nat)

text \<open>A long count is zeros and a rest from 1 to 255.\<close>

lemma emit_zeros_form:
  assumes "0 < n"
  shows "\<exists>k r. n = 255 * k + r \<and> 0 < r \<and> r < 256 \<and> (\<forall>op. emit_zeros n op = op @ replicate k 0 @ [LZO_BYTE r])"
  using assms
proof (induction n rule: less_induct)
  case (less n)
  show ?case
  proof (cases "n > 255")
    case True
    then obtain k r where k: "n - 255 = 255 * k + r" "0 < r" "r < 256"
      "\<forall>op. emit_zeros (n - 255) op = op @ replicate k 0 @ [LZO_BYTE r]" using less.IH[of "n - 255"] by auto
    have "emit_zeros n op = op @ replicate (Suc k) 0 @ [LZO_BYTE r]" for op using True k(4) by (simp add: emit_zeros.simps[of n op])
    moreover have "n = 255 * Suc k + r" using True k(1) by simp
    ultimately show ?thesis using k(2,3) by blast
  next
    case False
    then show ?thesis using less.prems by (intro exI[of _ 0] exI[of _ n]) (simp add: emit_zeros.simps)
  qed
qed

lemma long_count_zeros:
  assumes "0 < r" "r < 256" "ip = length xs"
  shows "long_count (xs @ replicate k 0 @ LZO_BYTE r # ys) base 0 ip = Some (255 * k + base + r, length xs + k + 1)"
proof -
  have u: "unat (LZO_BYTE r) = r" using assms(2) by (rule LZO_BYTE_small)
  then have "LZO_BYTE r \<noteq> 0" using assms(1) by auto
  moreover have "rd (xs @ replicate k 0 @ LZO_BYTE r # ys) (length xs + k) = Some (LZO_BYTE r)"
    using rd_append[of "xs @ replicate k 0" "LZO_BYTE r" ys] by simp
  ultimately show ?thesis by (simp add: long_count_def assms(3) zero_run_zeros u)
qed

section \<open>The decoder on what the encoder writes\<close>

definition decode :: "u8 list \<Rightarrow> (nat \<times> u8 list) option" where
  "decode inp = (case start_from inp of Some (Goto l ip op) \<Rightarrow> run_from inp l ip op | _ \<Rightarrow> None)"

lemma decompress_decode:
  "lzo1x_decompress inp = map_option (\<lambda>(ip, op). (if ip = length inp then LZO_E_OK else LZO_E_INPUT_NOT_CONSUMED, op)) (decode inp)"
  by (auto simp: lzo1x_decompress_def decode_def split: option.splits jump.splits intro!: arg_cong2[where f = Option.bind] ext)
    (simp_all add: map_conv_bind_option comp_def case_prod_beta')

lemma run_goto: "jump_from inp l ip op = Some (Goto l' ip' op') \<Longrightarrow> run_from inp l ip op = run_from inp l' ip' op'"
  by (subst run_from.simps) simp

text \<open>The literals are decoded and the next instruction is a match.\<close>

definition at_match :: "u8 list \<Rightarrow> u8 list \<Rightarrow> bool" where
  "at_match op out \<longleftrightarrow> (\<forall>b rest. 16 \<le> unat b \<longrightarrow>
     decode (op @ b # rest) = run_from (op @ b # rest) (Match (unat b)) (length op + 1) out)"

text \<open>A match is decoded; the number of literals after it may still be written into its last byte but one.\<close>

definition after_match :: "u8 list \<Rightarrow> u8 list \<Rightarrow> bool" where
  "after_match op out \<longleftrightarrow> 2 \<le> length op \<and> unat (op ! (length op - 2)) AND 3 = 0 \<and>
     (\<forall>s<4. \<forall>op' rest. or_back2 op s = Some op' \<longrightarrow>
        decode (op' @ rest) = run_from (op' @ rest) Match_Done (length op) out)"

text \<open>The header of a run of at least four literals.\<close>

lemma run_header:
  assumes "4 \<le> t"
  shows "\<exists>h hs. (\<forall>op. emit_run_length t op = Some (op @ h # hs)) \<and> unat h < 16 \<and> 16 * length (h # hs) \<le> t + 16 \<and>
    (\<forall>xs ls ys b out. length ls = t \<longrightarrow> 16 \<le> unat b \<longrightarrow>
       run_from (xs @ (h # hs) @ ls @ b # ys) Loop (length xs) out =
       run_from (xs @ (h # hs) @ ls @ b # ys) (Match (unat b)) (length (xs @ (h # hs) @ ls) + 1) (out @ ls))"
proof -
  have finish: "run_from (xs @ (h # hs) @ ls @ b # ys) Loop (length xs) out =
      run_from (xs @ (h # hs) @ ls @ b # ys) (Match (unat b)) (length (xs @ (h # hs) @ ls) + 1) (out @ ls)"
    if h: "unat h < 16" "long_count (xs @ (h # hs) @ ls @ b # ys) 15 (unat h) (length xs + 1) = Some (t - 3, length (xs @ h # hs))"
      and l: "length ls = t" "16 \<le> unat b" for h hs xs ls b ys out
  proof -
    let ?inp = "xs @ (h # hs) @ ls @ b # ys"
    have "rd ?inp (length xs) = Some h" using rd_append[of xs h] by simp
    moreover have "copy_literals ?inp t (length (xs @ h # hs)) out = Some (length (xs @ h # hs) + t, out @ ls)"
      using copy_literals_append[of ls t _ "xs @ h # hs" "b # ys" out] l(1) by simp
    moreover have "t - 3 + 3 = t" using assms by simp
    ultimately have "jump_from ?inp Loop (length xs) out = Some (Goto First_Literal_Run (length (xs @ h # hs) + t) (out @ ls))"
      using h by (simp add: do_loop_def Let_def)
    note 1 = run_goto[OF this]
    have "rd ?inp (length (xs @ h # hs) + t) = Some b" using rd_append[of "xs @ (h # hs) @ ls" b ys] l(1) by (simp add: add.assoc)
    then have "jump_from ?inp First_Literal_Run (length (xs @ h # hs) + t) (out @ ls) =
        Some (Goto (Match (unat b)) (length (xs @ (h # hs) @ ls) + 1) (out @ ls))"
      using l by (simp add: do_first_literal_run_def Let_def)
    from 1 run_goto[OF this] show ?thesis by simp
  qed
  show ?thesis
  proof (cases "t \<le> 18")
    case True
    have u: "unat (LZO_BYTE (t - 3)) = t - 3" using True by (intro LZO_BYTE_small) simp
    have "run_from (xs @ [LZO_BYTE (t - 3)] @ ls @ b # ys) Loop (length xs) out =
        run_from (xs @ [LZO_BYTE (t - 3)] @ ls @ b # ys) (Match (unat b)) (length (xs @ [LZO_BYTE (t - 3)] @ ls) + 1) (out @ ls)"
      if "length ls = t" "16 \<le> unat b" for xs ls b ys out
      by (rule finish[OF _ _ that]) (use True assms u in \<open>simp_all add: long_count_def\<close>)
    then show ?thesis using True assms u
      by (intro exI[of _ "LZO_BYTE (t - 3)"] exI[of _ "[]"]) (auto simp: emit_run_length_def)
  next
    case False
    then obtain k r where k: "t - 18 = 255 * k + r" "0 < r" "r < 256" "\<And>op. emit_zeros (t - 18) op = op @ replicate k 0 @ [LZO_BYTE r]"
      using emit_zeros_form[of "t - 18"] by auto
    let ?hs = "replicate k 0 @ [LZO_BYTE r]"
    have "run_from (xs @ (0 # ?hs) @ ls @ b # ys) Loop (length xs) out =
        run_from (xs @ (0 # ?hs) @ ls @ b # ys) (Match (unat b)) (length (xs @ (0 # ?hs) @ ls) + 1) (out @ ls)"
      if "length ls = t" "16 \<le> unat b" for xs ls b ys out
    proof (rule finish[OF _ _ that])
      show "long_count (xs @ (0 # ?hs) @ ls @ b # ys) 15 (unat (0 :: u8)) (length xs + 1) = Some (t - 3, length (xs @ 0 # ?hs))"
        using long_count_zeros[OF k(2,3), of "length xs + 1" "xs @ [0]" k "ls @ b # ys" 15] k(1) False by simp
    qed simp
    moreover have "16 * length (0 # ?hs) \<le> t + 16" using k(1,2) False by simp
    ultimately show ?thesis using False k(4)
      by (intro exI[of _ 0] exI[of _ ?hs]) (auto simp: emit_run_length_def)
  qed
qed

text \<open>From a match, or the start, over the literals to the next match.\<close>

lemma or_back2_0: "2 \<le> length op \<Longrightarrow> or_back2 op 0 = Some op"
  by (simp add: or_back2_def LZO_BYTE_def)

lemma after_match_loop:
  assumes "after_match op out"
  shows "decode (op @ rest) = run_from (op @ rest) Loop (length op) out"
proof -
  have a: "2 \<le> length op" "unat (op ! (length op - 2)) AND 3 = 0" using assms by (simp_all add: after_match_def)
  have "decode (op @ rest) = run_from (op @ rest) Match_Done (length op) out"
    using assms or_back2_0[OF a(1)] unfolding after_match_def by (metis zero_less_numeral)
  moreover have lt: "length op - 2 < length op" using a(1) by linarith
  then have "rd (op @ rest) (length op - 2) = Some (op ! (length op - 2))" by (simp add: rd_def nth_append)
  then have "jump_from (op @ rest) Match_Done (length op) out = Some (Goto Loop (length op) out)"
    using a by (simp add: do_match_done_def)
  ultimately show ?thesis using run_goto by simp
qed

lemma small_or:
  assumes "unat (x :: u8) AND 3 = 0" "s < 4"
  shows "unat (x OR LZO_BYTE s) AND 3 = s"
proof -
  have x: "x AND 3 = 0" using assms(1) by (simp add: unsigned_and_eq flip: unat_eq_0)
  have "s = 0 \<or> s = 1 \<or> s = 2 \<or> s = 3" using assms(2) by auto
  then have "LZO_BYTE s AND 3 = LZO_BYTE s" by (auto simp: LZO_BYTE_def)
  then have "(x OR LZO_BYTE s) AND 3 = LZO_BYTE s" using x by (simp add: bit.conj_disj_distrib2)
  then have "unat ((x OR LZO_BYTE s) AND 3) = s" using assms(2) LZO_BYTE_small[of s] by simp
  then show ?thesis by (simp add: unsigned_and_eq)
qed

lemma after_match_short:
  assumes "after_match op out" "0 < s" "s < 4" "length ls = s"
  shows "\<exists>op'. or_back2 op s = Some op' \<and> length op' = length op \<and> at_match (op' @ ls) (out @ ls)"
proof -
  have a: "2 \<le> length op" "unat (op ! (length op - 2)) AND 3 = 0" using assms(1) by (simp_all add: after_match_def)
  let ?b = "op ! (length op - 2) OR LZO_BYTE s"
  define op' where "op' = op[length op - 2 := ?b]"
  have op': "or_back2 op s = Some op'" "length op' = length op" using a(1) by (simp_all add: or_back2_def op'_def)
  have "decode ((op' @ ls) @ b # rest) = run_from ((op' @ ls) @ b # rest) (Match (unat b)) (length (op' @ ls) + 1) (out @ ls)"
    for b rest
  proof -
    let ?inp = "op' @ ls @ b # rest"
    have 1: "decode ?inp = run_from ?inp Match_Done (length op) out"
      using assms(1,3) op'(1) unfolding after_match_def by blast
    have "length op - 2 < length op" using a(1) by linarith
    then have "rd ?inp (length op - 2) = Some ?b" by (simp add: rd_def nth_append op'_def)
    then have "jump_from ?inp Match_Done (length op) out = Some (Goto (Match_Next s) (length op) out)"
      using a(1) small_or[OF a(2) assms(3)] assms(2) by (simp add: do_match_done_def Let_def)
    note 2 = run_goto[OF this]
    have "copy_literals ?inp s (length op) out = Some (length op + s, out @ ls)"
      using copy_literals_append[OF assms(4), of "length op" op' "b # rest" out] op'(2) by simp
    moreover have "rd ?inp (length op + s) = Some b" using rd_append[of "op' @ ls" b rest] op'(2) assms(4) by simp
    ultimately have "jump_from ?inp (Match_Next s) (length op) out = Some (Goto (Match (unat b)) (length op + s + 1) (out @ ls))"
      by (simp add: do_match_next_def)
    from 1 2 run_goto[OF this] show ?thesis using op'(2) assms(4) by simp
  qed
  then show ?thesis using op' by (auto simp: at_match_def)
qed

lemma from_start:
  assumes "unat h < 16"
  shows "decode (h # rest) = run_from (h # rest) Loop 0 []"
  using assms by (simp add: decode_def start_from_def rd_def)

lemma literals_decoded:
  assumes op: "op = [] \<and> out = [] \<and> 4 \<le> t \<or> after_match op out" and ls: "length ls = t"
  shows "\<exists>op'. (if t = 0 then op' = op else emit_run_length t op = Some op') \<and> at_match (op' @ ls) (out @ ls) \<and>
    length op \<le> length op' \<and> 16 * length op' \<le> 16 * length op + t + 16 \<and> (op = [] \<longrightarrow> op' \<noteq> [])"
proof -
  consider "t = 0" | "0 < t" "t < 4" | "4 \<le> t" by linarith
  then show ?thesis
  proof cases
    case 1
    then have a: "after_match op out" using op by auto
    have "at_match op out" unfolding at_match_def
    proof (intro allI impI)
      fix b rest assume b: "16 \<le> unat (b :: u8)"
      have "jump_from (op @ b # rest) Loop (length op) out = Some (Goto (Match (unat b)) (length op + 1) out)"
        using b by (simp add: do_loop_def rd_append)
      then show "decode (op @ b # rest) = run_from (op @ b # rest) (Match (unat b)) (length op + 1) out"
        unfolding after_match_loop[OF a] by (rule run_goto)
    qed
    then show ?thesis using 1 ls a by (auto simp: after_match_def)
  next
    case 2
    then have a: "after_match op out" using op by auto
    then have ne: "op \<noteq> []" by (auto simp: after_match_def)
    obtain op' where "or_back2 op t = Some op'" "length op' = length op" "at_match (op' @ ls) (out @ ls)"
      using after_match_short[OF a 2 ls] by blast
    then show ?thesis using 2 ne by (intro exI[of _ op']) (simp add: emit_run_length_def)
  next
    case 3
    obtain h hs where H: "\<And>op. emit_run_length t op = Some (op @ h # hs)" "unat h < 16" "16 * length (h # hs) \<le> t + 16"
      "\<And>xs ls ys b out. length ls = t \<Longrightarrow> 16 \<le> unat b \<Longrightarrow>
       run_from (xs @ (h # hs) @ ls @ b # ys) Loop (length xs) out =
       run_from (xs @ (h # hs) @ ls @ b # ys) (Match (unat b)) (length (xs @ (h # hs) @ ls) + 1) (out @ ls)"
      using run_header[OF 3] by blast
    have "at_match ((op @ h # hs) @ ls) (out @ ls)" unfolding at_match_def
    proof (intro allI impI)
      fix b rest assume b: "16 \<le> unat (b :: u8)"
      let ?inp = "op @ (h # hs) @ ls @ b # rest"
      have "decode ?inp = run_from ?inp Loop (length op) out"
        using op after_match_loop[of op out] from_start[OF H(2)] by (cases "op = []") (auto simp: after_match_def)
      with H(4)[OF ls b, of op rest out]
      show "decode (((op @ h # hs) @ ls) @ b # rest) =
        run_from (((op @ h # hs) @ ls) @ b # rest) (Match (unat b)) (length ((op @ h # hs) @ ls) + 1) (out @ ls)"
        by simp
    qed
    moreover have "16 * length (op @ h # hs) \<le> 16 * length op + t + 16" using H(3) by (simp add: distrib_left)
    ultimately show ?thesis using 3 H(1) by (intro exI[of _ "op @ h # hs"]) simp
  qed
qed

section \<open>Matches\<close>

lemma LZO_BYTE_or: "unat (LZO_BYTE m OR LZO_BYTE n) = take_bit 8 (m OR n)"
  by (simp add: LZO_BYTE_def unsigned_or_eq unsigned_of_nat)

lemma M2_byte:
  assumes "3 \<le> a" "a < 8" "q < 8" "s < 4"
  shows "push_bit 5 a OR push_bit 2 q OR s < (256 :: nat) \<and> 64 \<le> push_bit 5 a OR push_bit 2 q OR s \<and>
    drop_bit 2 (push_bit 5 a OR push_bit 2 q OR s) AND 7 = q \<and> drop_bit 5 (push_bit 5 a OR push_bit 2 q OR s) = a \<and>
    (push_bit 5 a OR push_bit 2 q) AND 3 = 0"
proof -
  have m: "a \<in> {3, 4, 5, 6, 7}" "q \<in> {0, 1, 2, 3, 4, 5, 6, 7}" "s \<in> {0, 1, 2, 3}" using assms by auto
  have all: "\<forall>a\<in>{3, 4, 5, 6, 7}. \<forall>q\<in>{0, 1, 2, 3, 4, 5, 6, 7}. \<forall>s\<in>{0, 1, 2, 3}.
    push_bit 5 a OR push_bit 2 q OR s < (256 :: nat) \<and> 64 \<le> push_bit 5 a OR push_bit 2 q OR s \<and>
    drop_bit 2 (push_bit 5 a OR push_bit 2 q OR s) AND 7 = q \<and> drop_bit 5 (push_bit 5 a OR push_bit 2 q OR s) = a \<and>
    (push_bit 5 a OR push_bit 2 q) AND 3 = 0"
    by (simp add: push_bit_eq_mult drop_bit_eq_div)
  show ?thesis by (rule all[THEN bspec, THEN bspec, THEN bspec, OF m])
qed

lemma offset_byte:
  assumes "s < 4"
  shows "drop_bit 2 (unat (LZO_BYTE (push_bit 2 q) OR LZO_BYTE s)) = q mod 64"
    "unat (LZO_BYTE (push_bit 2 q)) AND 3 = 0"
proof -
  have s: "drop_bit 2 s = 0" using assms by (simp add: drop_bit_eq_div)
  show "drop_bit 2 (unat (LZO_BYTE (push_bit 2 q) OR LZO_BYTE s)) = q mod 64"
    by (simp add: LZO_BYTE_or drop_bit_take_bit s flip: take_bit_eq_mod)
      (simp add: take_bit_eq_mod push_bit_eq_mult drop_bit_eq_div)
  have "unat (LZO_BYTE (push_bit 2 q)) = 4 * q mod 256"
    unfolding LZO_BYTE_def unat_of_nat push_bit_eq_mult by (simp add: mult.commute)
  moreover have "x AND 3 = x mod 4" for x :: nat using take_bit_eq_mask[of 2 x] by (simp add: mask_eq_exp_minus_1 take_bit_eq_mod)
  ultimately show "unat (LZO_BYTE (push_bit 2 q)) AND 3 = 0" by (simp add: mod_mod_cancel)
qed

lemma offset_high: "unat (LZO_BYTE (drop_bit 6 q)) = q div 64 mod 256"
  by (simp add: LZO_BYTE_def unat_of_nat drop_bit_eq_div)

text \<open>The first byte of a long match: the flags and the length, or the flags and the length in the bytes that follow.\<close>

lemma match_count:
  assumes len: "4 \<le> m_len" and f: "f = 32 \<and> base = 31 \<or> (f = 16 \<or> f = 24) \<and> base = 7"
  shows "\<exists>n h hs. (\<forall>op. (if m_len \<le> base + 2 then op @ [LZO_BYTE (f OR (m_len - 2))]
      else emit_zeros (m_len - (base + 2)) (op @ [LZO_BYTE f])) = op @ h # hs) \<and>
    unat h = f + n \<and> n \<le> base \<and> 16 * length (h # hs) + 48 \<le> 17 * m_len \<and>
    (\<forall>xs ys. long_count (xs @ h # hs @ ys) base n (length xs + 1) = Some (m_len - 2, length (xs @ h # hs)))"
proof (cases "m_len \<le> base + 2")
  case True
  define n where "n = m_len - 2"
  have n: "n \<in> set [0..<base + 1]" "0 < n" using True len by (auto simp: n_def)
  have "\<forall>n\<in>set [0..<32]. 32 OR n = 32 + (n :: nat)" "\<forall>n\<in>set [0..<8]. 16 OR n = 16 + (n :: nat)" "\<forall>n\<in>set [0..<8]. 24 OR n = 24 + (n :: nat)"
    by code_simp+
  then have "f OR n = f + n" "f + n < 256" using f n by auto
  then have "unat (LZO_BYTE (f OR n)) = f + n" by (simp add: LZO_BYTE_small)
  then show ?thesis using True len n
    by (intro exI[of _ n] exI[of _ "LZO_BYTE (f OR n)"] exI[of _ "[]"]) (simp add: n_def long_count_def)
next
  case False
  then obtain k r where k: "m_len - (base + 2) = 255 * k + r" "0 < r" "r < 256"
    "\<And>op. emit_zeros (m_len - (base + 2)) op = op @ replicate k 0 @ [LZO_BYTE r]"
    using emit_zeros_form[of "m_len - (base + 2)"] by auto
  have u: "unat (LZO_BYTE f) = f + 0" using f by (auto intro: LZO_BYTE_small)
  have "long_count (xs @ LZO_BYTE f # (replicate k 0 @ [LZO_BYTE r]) @ ys) base 0 (length xs + 1) =
      Some (m_len - 2, length (xs @ LZO_BYTE f # replicate k 0 @ [LZO_BYTE r]))" for xs ys
    using long_count_zeros[OF k(2,3), of "length xs + 1" "xs @ [LZO_BYTE f]" k ys base] k(1) False by simp
  moreover have "16 * length (LZO_BYTE f # replicate k 0 @ [LZO_BYTE r]) + 48 \<le> 17 * m_len" using k(1,2) False f by auto
  ultimately show ?thesis using False u k(4)
    by (intro exI[of _ 0] exI[of _ "LZO_BYTE f"] exI[of _ "replicate k 0 @ [LZO_BYTE r]"]) simp
qed

text \<open>A match that copies \<open>m_len\<close> bytes is decoded as that.\<close>

lemma after_matchI:
  assumes at: "at_match op out" and code: "2 \<le> length code" "16 \<le> unat (hd code)" "unat (code ! (length code - 2)) AND 3 = 0"
    and jump: "\<And>s code' xs ys. s < 4 \<Longrightarrow> code' = code[length code - 2 := code ! (length code - 2) OR LZO_BYTE s] \<Longrightarrow>
      16 \<le> unat (hd code') \<and> jump_from (xs @ code' @ ys) (Match (unat (hd code'))) (length xs + 1) out =
      Some (Goto Match_Done (length (xs @ code')) out')"
  shows "after_match (op @ code) out'"
proof -
  have e: "length (op @ code) - 2 = length op + (length code - 2)" using code(1) by simp
  then have last: "(op @ code) ! (length (op @ code) - 2) = code ! (length code - 2)" by (simp only: nth_append_length_plus)
  have "decode (op' @ rest) = run_from (op' @ rest) Match_Done (length (op @ code)) out'"
    if "s < 4" "or_back2 (op @ code) s = Some op'" for s op' rest
  proof -
    define code' where "code' = code[length code - 2 := code ! (length code - 2) OR LZO_BYTE s]"
    have op': "op' = op @ code'" using that(2) code(1) last e by (auto simp: or_back2_def code'_def list_update_append)
    have "code' = hd code' # tl code'" using code(1) by (cases code') (auto simp: code'_def)
    note c = this jump[OF that(1) code'_def]
    have "decode (op' @ rest) = decode (op @ hd code' # (tl code' @ rest))" by (subst op', subst c(1)) simp
    also have "\<dots> = run_from (op @ hd code' # (tl code' @ rest)) (Match (unat (hd code'))) (length op + 1) out"
      using at c(2) by (simp add: at_match_def)
    also have "\<dots> = run_from (op' @ rest) (Match (unat (hd code'))) (length op + 1) out"
      by (subst op', subst (3) c(1)) simp
    also have "\<dots> = run_from (op' @ rest) Match_Done (length (op @ code')) out'"
      using run_goto c(2)[of op rest] by (simp add: op')
    finally show ?thesis by (simp add: code'_def)
  qed
  then show ?thesis using code(1,3) last by (auto simp: after_match_def)
qed

lemma match_M2:
  assumes at: "at_match op out" and off: "1 \<le> off" "off \<le> 0x800" and len: "4 \<le> m_len" "m_len \<le> 8"
    and copied: "copy_match off m_len out = Some out'"
  shows "after_match (op @ [LZO_BYTE (push_bit 5 (m_len - 1) OR push_bit 2 ((off - 1) AND 7)), LZO_BYTE (drop_bit 3 (off - 1))]) out'"
proof (rule after_matchI[OF at])
  define q where "q = (off - 1) AND 7"
  let ?B = "LZO_BYTE (push_bit 5 (m_len - 1) OR push_bit 2 q)"
  let ?D = "LZO_BYTE (drop_bit 3 (off - 1))"
  have q8: "x AND 7 = x mod 8" for x :: nat using take_bit_eq_mask[of 3 x] by (simp add: mask_eq_exp_minus_1 take_bit_eq_mod)
  have q: "q < 8" by (simp add: q_def q8)
  have a: "3 \<le> m_len - 1" "m_len - 1 < 8" using len by auto
  note b = M2_byte[OF a q]
  have B: "unat (?B OR LZO_BYTE s) = push_bit 5 (m_len - 1) OR push_bit 2 q OR s" if "s < 4" for s
    using b[OF that] by (simp add: LZO_BYTE_or take_bit_eq_mod or.assoc)
  have B0: "unat ?B = push_bit 5 (m_len - 1) OR push_bit 2 q" using b[of 0] by (simp add: LZO_BYTE_small)
  have D: "unat ?D = (off - 1) div 8" using off by (simp add: LZO_BYTE_small drop_bit_eq_div)
  show "16 \<le> unat (hd [?B, ?D])" using b[of 0] B0 by simp
  show "unat ([?B, ?D] ! (length [?B, ?D] - 2)) AND 3 = 0" using b[of 0] B0 by simp
  fix s code' xs ys
  assume s: "(s :: nat) < 4" and code': "code' = [?B, ?D][length [?B, ?D] - 2 := [?B, ?D] ! (length [?B, ?D] - 2) OR LZO_BYTE s]"
  let ?t = "push_bit 5 (m_len - 1) OR push_bit 2 q OR s"
  have c: "code' = [?B OR LZO_BYTE s, ?D]" using code' by simp
  have t: "64 \<le> ?t" "drop_bit 2 ?t AND 7 = q" "drop_bit 5 ?t = m_len - 1" using b[OF s] by auto
  have rd: "rd (xs @ code' @ ys) (length xs + 1) = Some ?D" using rd_append[of "xs @ [?B OR LZO_BYTE s]" ?D ys] by (simp add: c)
  have o: "1 + q + push_bit 3 (unat ?D) = off" using off D by (simp add: q_def q8 push_bit_eq_mult)
  have "m_len - 1 - 1 + 2 = m_len" using len by simp
  then have "do_match (xs @ code' @ ys) ?t (length xs + 1) out = Some (Goto Match_Done (length xs + 2) out')"
    unfolding do_match_def Let_def t(2,3) rd Option.bind.bind_lunit o using t(1) copied by simp
  then show "16 \<le> unat (hd code') \<and> jump_from (xs @ code' @ ys) (Match (unat (hd code'))) (length xs + 1) out =
      Some (Goto Match_Done (length (xs @ code')) out')"
    using B[OF s] t(1) by (simp add: c)
qed simp

text \<open>A long match: the flags and the length, and the offset in two bytes.\<close>

lemma match_long:
  assumes at: "at_match op out" and q: "q < 0x8000"
    and h: "unat h = f + n" "16 \<le> f"
    and lc: "\<And>xs ys. long_count (xs @ h # hs @ ys) base n (length xs + 1) = Some (m_len - 2, length (xs @ h # hs))"
    and dm: "\<And>inp ip ip1 c0 c1. long_count inp base n ip = Some (m_len - 2, ip1) \<Longrightarrow> rd inp ip1 = Some c0 \<Longrightarrow> rd inp (ip1 + 1) = Some c1 \<Longrightarrow>
      drop_bit 2 (unat c0) = q mod 64 \<Longrightarrow> unat c1 = q div 64 mod 256 \<Longrightarrow>
      do_match inp (f + n) ip out = Some (Goto Match_Done (ip1 + 2) out')"
  shows "after_match (op @ (h # hs) @ [LZO_BYTE (push_bit 2 q), LZO_BYTE (drop_bit 6 q)]) out'"
proof (rule after_matchI[OF at])
  let ?code = "(h # hs) @ [LZO_BYTE (push_bit 2 q), LZO_BYTE (drop_bit 6 q)]"
  have l: "length ?code - 2 = length (h # hs)" by simp
  have m: "?code ! (length ?code - 2) = LZO_BYTE (push_bit 2 q)" unfolding l by (simp only: nth_append_length)
  show "2 \<le> length ?code" by simp
  show "16 \<le> unat (hd ?code)" using h by simp
  show "unat (?code ! (length ?code - 2)) AND 3 = 0" unfolding m by (rule offset_byte(2)[of 0]) simp
  fix s code' xs ys
  assume s: "(s :: nat) < 4" and code': "code' = ?code[length ?code - 2 := ?code ! (length ?code - 2) OR LZO_BYTE s]"
  let ?c0 = "LZO_BYTE (push_bit 2 q) OR LZO_BYTE s"
  have c: "code' = h # hs @ [?c0, LZO_BYTE (drop_bit 6 q)]" using code' unfolding m l by (simp add: list_update_append)
  let ?inp = "xs @ code' @ ys"
  have "long_count ?inp base n (length xs + 1) = Some (m_len - 2, length (xs @ h # hs))"
    using lc[of xs "[?c0, LZO_BYTE (drop_bit 6 q)] @ ys"] by (simp add: c)
  moreover have "rd ?inp (length (xs @ h # hs)) = Some ?c0"
    using rd_append[of "xs @ h # hs" ?c0] by (simp add: c)
  moreover have "rd ?inp (length (xs @ h # hs) + 1) = Some (LZO_BYTE (drop_bit 6 q))"
    using rd_append[of "xs @ h # hs @ [?c0]" "LZO_BYTE (drop_bit 6 q)" ys] by (simp add: c)
  ultimately have "do_match ?inp (f + n) (length xs + 1) out = Some (Goto Match_Done (length (xs @ h # hs) + 2) out')"
    using offset_byte(1)[OF s] offset_high by (rule dm)
  then show "16 \<le> unat (hd code') \<and> jump_from ?inp (Match (unat (hd code'))) (length xs + 1) out =
      Some (Goto Match_Done (length (xs @ code')) out')"
    using h by (simp add: c)
qed

lemma match_M3:
  assumes at: "at_match op out" and off: "1 \<le> off" "off \<le> 0x4000" and len: "3 \<le> m_len"
    and h: "unat h = 32 + n" "n \<le> 31"
    and lc: "\<And>xs ys. long_count (xs @ h # hs @ ys) 31 n (length xs + 1) = Some (m_len - 2, length (xs @ h # hs))"
    and copied: "copy_match off m_len out = Some out'"
  shows "after_match (op @ (h # hs) @ [LZO_BYTE (push_bit 2 (off - 1)), LZO_BYTE (drop_bit 6 (off - 1))]) out'"
proof (rule match_long[OF at _ h(1) _ lc])
  have a31: "x AND 31 = x mod 32" for x :: nat using take_bit_eq_mask[of 5 x] by (simp add: mask_eq_exp_minus_1 take_bit_eq_mod)
  have t: "(32 + n) AND 31 = n" using h(2) by (simp add: a31)
  fix inp ip ip1 c0 c1
  assume l: "long_count inp 31 n ip = Some (m_len - 2, ip1)" "rd inp ip1 = Some c0" "rd inp (ip1 + 1) = Some c1"
    and c: "drop_bit 2 (unat c0) = (off - 1) mod 64" "unat c1 = (off - 1) div 64 mod 256"
  have "drop_bit 2 (unat c0) + push_bit 6 (unat c1) = off - 1" using off unfolding c by (simp add: push_bit_eq_mult)
  then have o: "1 + (drop_bit 2 (unat c0) + push_bit 6 (unat c1)) = off" using off by simp
  have "m_len - 2 + 2 = m_len" using len by simp
  then show "do_match inp (32 + n) ip out = Some (Goto Match_Done (ip1 + 2) out')"
    using l o copied h(2) t by (simp add: do_match_def)
qed (use off in auto)

lemma split_M4:
  assumes "(q :: nat) < 0x8000"
  shows "(if q < 0x4000 then 0 else 8) * 2 ^ 11 + (q mod 64 + q div 64 mod 256 * 2 ^ 6) = q"
proof (cases "q < 0x4000")
  case False
  then obtain p where p: "q = p + 0x4000" using le_Suc_ex[of "0x4000" q] by (auto simp: add.commute)
  have "(p + 256 * 64) mod 64 = p mod 64" "(p + 256 * 64) div 64 = 256 + p div 64" by (rule mod_mult_self1, subst div_mult_self1) simp_all
  moreover have "p div 64 < 256" using assms p by simp
  ultimately show ?thesis using False by (simp add: p)
qed auto

lemma match_M4:
  assumes at: "at_match op out" and off: "0x4000 < off" "off \<le> 0xbfff" and len: "3 \<le> m_len"
    and h: "unat h = (16 + (drop_bit 11 (off - 0x4000) AND 8)) + n" "n \<le> 7"
    and lc: "\<And>xs ys. long_count (xs @ h # hs @ ys) 7 n (length xs + 1) = Some (m_len - 2, length (xs @ h # hs))"
    and copied: "copy_match off m_len out = Some out'"
  shows "after_match (op @ (h # hs) @ [LZO_BYTE (push_bit 2 (off - 0x4000)), LZO_BYTE (drop_bit 6 (off - 0x4000))]) out'"
proof (rule match_long[OF at _ h(1) _ lc])
  let ?q = "off - 0x4000"
  let ?f = "drop_bit 11 ?q AND 8"
  have q: "0 < ?q" "?q < 0x8000" using off by auto
  have k: "drop_bit 11 ?q \<in> set [0..<16]" using q(2) by (simp add: drop_bit_eq_div)
  have "\<forall>x\<in>set [0..<16]. x AND 8 = (if x < 8 then 0 else 8 :: nat)" by code_simp
  from bspec[OF this k] have f: "?f = (if ?q < 0x4000 then 0 else 8)" by (auto simp: drop_bit_eq_div)
  have n: "n \<in> set [0..<8]" using h(2) by simp
  have "\<forall>n\<in>set [0..<8]. (16 + n) AND 8 = (0 :: nat) \<and> (16 + 8 + n) AND 8 = (8 :: nat) \<and> (16 + n) AND 7 = n \<and> (16 + 8 + n) AND 7 = n"
    by code_simp
  from bspec[OF this n] have t: "(16 + ?f + n) AND 8 = ?f" "(16 + ?f + n) AND 7 = n" by (auto simp: f)
  fix inp ip ip1 c0 c1
  assume l: "long_count inp 7 n ip = Some (m_len - 2, ip1)" "rd inp ip1 = Some c0" "rd inp (ip1 + 1) = Some c1"
    and c: "drop_bit 2 (unat c0) = ?q mod 64" "unat c1 = ?q div 64 mod 256"
  have o: "push_bit 11 ?f + (drop_bit 2 (unat c0) + push_bit 6 (unat c1)) = ?q"
    unfolding c f push_bit_eq_mult by (rule split_M4[OF q(2)])
  have m: "?q + 0x4000 = off" "m_len - 2 + 2 = m_len" using off len by auto
  have b: "\<not> 64 \<le> 16 + ?f + n" "\<not> 32 \<le> 16 + ?f + n" "16 \<le> 16 + ?f + n" using f h(2) by auto
  show "do_match inp (16 + ?f + n) ip out = Some (Goto Match_Done (ip1 + 2) out')"
    unfolding do_match_def Let_def t l(1) Option.bind.bind_lunit prod.case l(2,3) o m using b copied q(1) by simp
qed (use off in auto)

lemma after_emit_match:
  assumes at: "at_match op out" and off: "1 \<le> off" "off \<le> 0xbfff" and len: "4 \<le> m_len"
    and copied: "copy_match off m_len out = Some out'"
  shows "after_match (emit_match off m_len op) out' \<and> 16 * length (emit_match off m_len op) + 16 \<le> 16 * length op + 17 * m_len"
proof -
  have len3: "3 \<le> m_len" using len by simp
  consider "m_len \<le> 8" "off \<le> 0x800" | "\<not> (m_len \<le> 8 \<and> off \<le> 0x800)" "off \<le> 0x4000" | "\<not> (m_len \<le> 8 \<and> off \<le> 0x800)" "0x4000 < off"
    by linarith
  then show ?thesis
  proof cases
    case 1
    then show ?thesis using match_M2[OF at off(1) 1(2) len 1(1) copied] len by (simp add: emit_match_def Let_def)
  next
    case 2
    from match_count[of m_len 32 31] len obtain n h hs where H:
      "\<And>op. (if m_len \<le> 31 + 2 then op @ [LZO_BYTE (32 OR (m_len - 2))] else emit_zeros (m_len - (31 + 2)) (op @ [LZO_BYTE 32])) = op @ h # hs"
      "unat h = 32 + n" "n \<le> 31" "16 * length (h # hs) + 48 \<le> 17 * m_len"
      "\<And>xs ys. long_count (xs @ h # hs @ ys) 31 n (length xs + 1) = Some (m_len - 2, length (xs @ h # hs))" by blast
    have "emit_match off m_len op = op @ (h # hs) @ [LZO_BYTE (push_bit 2 (off - 1)), LZO_BYTE (drop_bit 6 (off - 1))]"
      using 2 H(1)[of op] unfolding emit_match_def Let_def by (simp add: LZO_BYTE_def split: if_splits)
    then show ?thesis using match_M3[OF at off(1) 2(2) len3 H(2,3,5) copied] H(4) by simp
  next
    case 3
    define g where "g = drop_bit 11 (off - 0x4000) AND 8"
    have "\<forall>x\<in>set [0..<16]. x AND 8 = (if x < 8 then 0 else 8 :: nat)" by code_simp
    moreover have "drop_bit 11 (off - 0x4000) \<in> set [0..<16]" using off by (simp add: drop_bit_eq_div)
    ultimately have g: "g = 0 \<or> g = 8" by (auto simp: g_def)
    have f: "16 OR g = 16 + g" using g by auto
    from match_count[of m_len "16 + g" 7] len g obtain n h hs where H:
      "\<And>op. (if m_len \<le> 7 + 2 then op @ [LZO_BYTE (16 + g OR (m_len - 2))] else emit_zeros (m_len - (7 + 2)) (op @ [LZO_BYTE (16 + g)])) = op @ h # hs"
      "unat h = 16 + g + n" "n \<le> 7" "16 * length (h # hs) + 48 \<le> 17 * m_len"
      "\<And>xs ys. long_count (xs @ h # hs @ ys) 7 n (length xs + 1) = Some (m_len - 2, length (xs @ h # hs))" by auto
    have "emit_match off m_len op = op @ (h # hs) @ [LZO_BYTE (push_bit 2 (off - 0x4000)), LZO_BYTE (drop_bit 6 (off - 0x4000))]"
      using 3 H(1)[of op] unfolding emit_match_def Let_def g_def[symmetric] f[symmetric] by (simp add: or.assoc split: if_splits)
    then show ?thesis using match_M4[OF at 3(2) off(2) len3 H(2)[unfolded g_def] H(3,5) copied] H(4) by simp
  qed
qed

lemma emit_zeros_length: "length op \<le> length (emit_zeros n op)"
  by (induction n op rule: emit_zeros.induct) (subst emit_zeros.simps, auto)

lemma emit_match_length: "length op \<le> length (emit_match off n op)"
proof -
  have "length op \<le> length (emit_zeros k (op @ [b]))" for k b using emit_zeros_length[of "op @ [b]" k] by simp
  then show ?thesis unfolding emit_match_def Let_def by (simp add: le_SucI)
qed

text \<open>The mark of the end is a match that would reach back by nothing.\<close>

lemma eof_decoded:
  assumes "at_match op out"
  shows "lzo1x_decompress (op @ [16 OR 1, 0, 0]) = Some (LZO_E_OK, out)"
proof -
  let ?inp = "op @ [17, 0, 0]"
  have "decode ?inp = run_from ?inp (Match 17) (length op + 1) out" using assms unfolding at_match_def by (elim allE[of _ 17]) auto
  moreover have "do_match ?inp 17 (length op + 1) out = Some (Eof_Found (length op + 3) out)"
  proof -
    have "rd ?inp (length op + 1) = Some 0" "rd ?inp (length op + 1 + 1) = Some 0" by (simp_all add: rd_def nth_append)
    moreover have "long_count ?inp 7 (17 AND 7) (length op + 1) = Some (1, length op + 1)" by (simp add: long_count_def)
    ultimately show ?thesis by (simp add: do_match_def Let_def)
  qed
  ultimately have "decode ?inp = Some (length op + 3, out)" by (simp add: run_from.simps)
  then show ?thesis by (simp add: decompress_decode)
qed

section \<open>What the encoder finds\<close>

lemma UA_GET_LE32_ok: "i + 4 \<le> length inp \<Longrightarrow> \<exists>v. UA_GET_LE32 inp i = Some v"
  by (simp add: UA_GET_LE32_def rd_def)

lemma LE32_inj:
  fixes a0 a1 a2 a3 b0 b1 b2 b3 :: u8
  assumes "ucast a0 OR push_bit 8 (ucast a1) OR push_bit 16 (ucast a2) OR push_bit 24 (ucast a3) =
    (ucast b0 OR push_bit 8 (ucast b1) OR push_bit 16 (ucast b2) OR push_bit 24 (ucast b3) :: uint)" (is "?a = ?b")
  shows "a0 = b0 \<and> a1 = b1 \<and> a2 = b2 \<and> a3 = b3"
proof -
  have g: "ucast (ucast x0 OR push_bit 8 (ucast x1) OR push_bit 16 (ucast x2) OR push_bit 24 (ucast x3) :: uint) = x0"
    "ucast (drop_bit 8 (ucast x0 OR push_bit 8 (ucast x1) OR push_bit 16 (ucast x2) OR push_bit 24 (ucast x3) :: uint)) = x1"
    "ucast (drop_bit 16 (ucast x0 OR push_bit 8 (ucast x1) OR push_bit 16 (ucast x2) OR push_bit 24 (ucast x3) :: uint)) = x2"
    "ucast (drop_bit 24 (ucast x0 OR push_bit 8 (ucast x1) OR push_bit 16 (ucast x2) OR push_bit 24 (ucast x3) :: uint)) = x3" for x0 x1 x2 x3 :: u8
    by (rule bit_word_eqI; auto simp: bit_simps dest: bit_imp_le_length)+
  have "ucast ?a = (ucast ?b :: u8)" "ucast (drop_bit 8 ?a) = (ucast (drop_bit 8 ?b) :: u8)"
    "ucast (drop_bit 16 ?a) = (ucast (drop_bit 16 ?b) :: u8)" "ucast (drop_bit 24 ?a) = (ucast (drop_bit 24 ?b) :: u8)"
    by (simp_all only: assms)
  then show ?thesis unfolding g by blast
qed

lemma UA_GET_LE32_eq:
  assumes "UA_GET_LE32 inp a = Some v" "UA_GET_LE32 inp b = Some v" "j < 4"
  shows "inp ! (a + j) = inp ! (b + j)"
proof -
  have "inp ! a = inp ! b \<and> inp ! (a + 1) = inp ! (b + 1) \<and> inp ! (a + 2) = inp ! (b + 2) \<and> inp ! (a + 3) = inp ! (b + 3)"
    using assms(1,2) by (intro LE32_inj) (auto simp: UA_GET_LE32_def rd_Some bind_eq_Some_conv)
  moreover have "j = 0 \<or> j = 1 \<or> j = 2 \<or> j = 3" using assms(3) by auto
  ultimately show ?thesis by auto
qed

text \<open>The dictionary only holds places before \<open>ip\<close> in the same chunk.\<close>

definition dict_before :: "nat \<Rightarrow> dict \<Rightarrow> nat \<Rightarrow> bool" where
  "dict_before start dict ip \<longleftrightarrow> (\<forall>i. start + unat (dict i) < ip)"

lemma dict_before_mono: "dict_before start dict ip \<Longrightarrow> ip \<le> ip' \<Longrightarrow> dict_before start dict ip'"
  by (auto simp: dict_before_def intro: less_le_trans)

lemma search_match_ok:
  assumes "dict_before start dict ip" "start \<le> ip" "ip_end + 20 \<le> length inp" "ip_end \<le> start + 49152"
  shows "\<exists>ip' found dict'. search_match inp start ip_end ii ip dict = Some (ip', found, dict') \<and> ip \<le> ip' \<and>
    (\<forall>m. found = Some m \<longrightarrow> start \<le> m \<and> m < ip' \<and> ip' < ip_end \<and> (\<forall>j<4. inp ! (m + j) = inp ! (ip' + j)) \<and>
       dict_before start dict' (ip' + 1))"
  using assms
proof (induction inp start ip_end ii ip dict rule: search_match.induct)
  case (1 inp start ip_end ii ip dict)
  show ?case
  proof (cases "ip \<ge> ip_end")
    case True
    then show ?thesis by (simp add: search_match.simps[of inp start ip_end ii ip dict])
  next
    case False
    then obtain dv where dv: "UA_GET_LE32 inp ip = Some dv" using UA_GET_LE32_ok[of ip inp] 1(4) by auto
    let ?m = "start + unat (dict (DINDEX dv))"
    let ?dict = "dict(DINDEX dv := of_nat (ip - start))"
    have m: "?m < ip" using 1(2) by (simp add: dict_before_def)
    then obtain v where v: "UA_GET_LE32 inp ?m = Some v" using UA_GET_LE32_ok[of ?m inp] 1(4) False by auto
    have "ip - start < 65536" using False 1(5) by auto
    then have "unat (of_nat (ip - start) :: 16 word) = ip - start" by (simp add: unat_of_nat)
    then have d: "dict_before start ?dict (ip + 1)" using 1(2,3) by (auto simp: dict_before_def less_Suc_eq)
    show ?thesis
    proof (cases "dv = v")
      case True
      then have "\<forall>j<4. inp ! (?m + j) = inp ! (ip + j)" using UA_GET_LE32_eq[OF v] dv by auto
      then show ?thesis using True False dv v m d by (simp add: search_match.simps[of inp start ip_end ii ip dict] Let_def)
    next
      case False
      let ?ip = "ip + (1 + drop_bit 5 (ip - ii))"
      have "dict_before start ?dict ?ip" by (rule dict_before_mono[OF d]) simp
      have "start \<le> ?ip" using 1(3) by simp
      from 1(1)[OF \<open>\<not> ip \<ge> ip_end\<close> dv refl refl refl v False \<open>dict_before start ?dict ?ip\<close> this 1(4,5)]
      obtain ip' found dict' where r: "search_match inp start ip_end ii ?ip ?dict = Some (ip', found, dict')" "?ip \<le> ip'"
        "\<forall>m. found = Some m \<longrightarrow> start \<le> m \<and> m < ip' \<and> ip' < ip_end \<and> (\<forall>j<4. inp ! (m + j) = inp ! (ip' + j)) \<and>
         dict_before start dict' (ip' + 1)" by blast
      have "search_match inp start ip_end ii ip dict = search_match inp start ip_end ii ?ip ?dict"
        using False \<open>\<not> ip \<ge> ip_end\<close> dv v by (simp add: search_match.simps[of inp start ip_end ii ip dict] Let_def)
      then show ?thesis using r by auto
    qed
  qed
qed

lemma same_bytes_ok:
  assumes "a + n \<le> length inp" "b + n \<le> length inp"
  shows "\<exists>k\<le>n. same_bytes inp n a b = Some k \<and> (\<forall>j<k. inp ! (a + j) = inp ! (b + j))"
  using assms
proof (induction n arbitrary: a b)
  case (Suc n)
  from Suc.IH[of "a + 1" "b + 1"] Suc.prems obtain k where k: "k \<le> n" "same_bytes inp n (a + 1) (b + 1) = Some k"
    "\<forall>j<k. inp ! (a + 1 + j) = inp ! (b + 1 + j)" by auto
  show ?case
  proof (cases "inp ! a = inp ! b")
    case True
    then have "\<forall>j<Suc k. inp ! (a + j) = inp ! (b + j)" using k(3) by (auto simp: less_Suc_eq_0_disj)
    then show ?thesis using True k(1,2) Suc.prems by (intro exI[of _ "Suc k"]) (simp add: rd_def)
  next
    case False
    then show ?thesis using Suc.prems by (intro exI[of _ 0]) (simp add: rd_def)
  qed
qed simp

lemma match_length_ok:
  assumes "ip + m_len < ip_end + 4" "m_pos < ip" "ip_end + 20 \<le> length inp" "\<forall>j<m_len. inp ! (m_pos + j) = inp ! (ip + j)"
  shows "\<exists>k. match_length inp ip_end ip m_pos m_len = Some k \<and> m_len \<le> k \<and> ip + k < ip_end + 12 \<and>
    (\<forall>j<k. inp ! (m_pos + j) = inp ! (ip + j))"
  using assms
proof (induction inp ip_end ip m_pos m_len rule: match_length.induct)
  case (1 inp ip_end ip m_pos m_len)
  obtain n where n: "n \<le> 8" "same_bytes inp 8 (ip + m_len) (m_pos + m_len) = Some n"
    "\<forall>j<n. inp ! (ip + m_len + j) = inp ! (m_pos + m_len + j)"
    using same_bytes_ok[of "ip + m_len" 8 inp "m_pos + m_len"] 1(2-4) by auto
  have eq: "inp ! (m_pos + j) = inp ! (ip + j)" if "j < m_len + n" for j
  proof (cases "j < m_len")
    case True
    then show ?thesis using 1(5) by simp
  next
    case False
    then have "j - m_len < n" "ip + m_len + (j - m_len) = ip + j" "m_pos + m_len + (j - m_len) = m_pos + j" using that by auto
    with n(3)[rule_format, of "j - m_len"] show ?thesis by simp
  qed
  show ?case
  proof (cases "n < 8 \<or> ip + (m_len + 8) \<ge> ip_end")
    case True
    then show ?thesis using n(1,2) eq 1(2) by (auto simp: match_length.simps[of inp ip_end ip m_pos m_len])
  next
    case False
    then have "n = 8" using n(1) by simp
    then have "\<forall>j<m_len + 8. inp ! (m_pos + j) = inp ! (ip + j)" using eq by simp
    then show ?thesis using 1(1)[OF n(2) _ _ _ 1(3,4)] False n(2)
      by (auto simp: match_length.simps[of inp ip_end ip m_pos m_len])
  qed
qed

lemma copy_bytes_take:
  assumes "m < ip" "ip + n \<le> length inp" "\<forall>j<n. inp ! (m + j) = inp ! (ip + j)"
  shows "copy_bytes n m (take ip inp) = Some (take (ip + n) inp)"
  using assms
proof (induction n arbitrary: m ip)
  case (Suc n)
  have "rd (take ip inp) m = Some (inp ! ip)" using Suc.prems by (auto simp: rd_def)
  moreover have "take ip inp @ [inp ! ip] = take (ip + 1) inp" using Suc.prems(2) by (simp add: take_Suc_conv_app_nth)
  moreover have "\<forall>j<n. inp ! (m + 1 + j) = inp ! (ip + 1 + j)" using Suc.prems(3) by auto
  ultimately show ?case using Suc.IH[of "m + 1" "ip + 1"] Suc.prems(1,2) by simp
qed simp

lemma copy_match_take:
  assumes "m < ip" "ip + n \<le> length inp" "\<forall>j<n. inp ! (m + j) = inp ! (ip + j)"
  shows "copy_match (ip - m) n (take ip inp) = Some (take (ip + n) inp)"
  using copy_bytes_take[OF assms] assms(1,2) by (simp add: copy_match_def)

section \<open>The encoder\<close>

text \<open>The output so far decodes to the first \<open>k\<close> bytes, and is at most a sixteenth longer.\<close>

definition encoded :: "u8 list \<Rightarrow> nat \<Rightarrow> u8 list \<Rightarrow> bool" where
  "encoded inp k op \<longleftrightarrow> k \<le> length inp \<and> 16 * length op \<le> 17 * k \<and>
     (if op = [] then k = 0 else after_match op (take k inp) \<and> 5 \<le> length op)"

definition comp_ok :: "u8 list \<Rightarrow> nat \<Rightarrow> nat \<Rightarrow> comp \<Rightarrow> bool" where
  "comp_ok inp start len c \<longleftrightarrow> len \<le> 49152 \<and> 20 < len \<and> start + len \<le> length inp \<and> c_ti c \<le> c_ii c \<and> start \<le> c_ip c \<and>
     c_ii c \<le> c_ip c \<and> c_ii c \<le> start + len \<and> encoded inp (c_ii c - c_ti c) (c_op c) \<and> dict_before start (c_dict c) (c_ip c) \<and>
     (c_op c = [] \<longrightarrow> c_ii c - c_ti c + 4 \<le> c_ip c)"

lemma encoded_literals:
  assumes enc: "encoded inp k op" and t: "k + t \<le> length inp" "op = [] \<longrightarrow> 4 \<le> t"
  shows "\<exists>op'. (if t = 0 then op' = op else emit_run_length t op = Some op') \<and>
    at_match (op' @ take t (drop k inp)) (take (k + t) inp) \<and> 16 * length op' \<le> 17 * k + t + 16 \<and>
    (op = [] \<longrightarrow> op' \<noteq> []) \<and> length op \<le> length op'"
proof -
  let ?ls = "take t (drop k inp)"
  have a: "op = [] \<and> take k inp = [] \<and> 4 \<le> t \<or> after_match op (take k inp)" "16 * length op \<le> 17 * k"
    using enc t(2) by (auto simp: encoded_def split: if_splits)
  have "length ?ls = t" using t(1) by simp
  from literals_decoded[OF a(1) this] obtain op' where o: "if t = 0 then op' = op else emit_run_length t op = Some op'"
    "at_match (op' @ ?ls) (take k inp @ ?ls)" "length op \<le> length op'" "16 * length op' \<le> 16 * length op + t + 16"
    "op = [] \<longrightarrow> op' \<noteq> []" by blast
  have "take k inp @ ?ls = take (k + t) inp" by (simp only: take_add)
  moreover have "16 * length op' \<le> 17 * k + t + 16" using o(4) a(2) by linarith
  ultimately show ?thesis using o(1,2,3,5) by (intro exI[of _ op']) simp
qed

lemma emit_literals_ok:
  assumes "encoded inp k op" "k + t \<le> length inp" "op = [] \<longrightarrow> 4 \<le> t"
  shows "\<exists>op'. emit_literals inp k t op = Some op' \<and> at_match op' (take (k + t) inp) \<and> 16 * length op' \<le> 17 * (k + t) + 16 \<and>
    5 \<le> length op'"
proof -
  obtain op' where op': "if t = 0 then op' = op else emit_run_length t op = Some op'"
    "at_match (op' @ take t (drop k inp)) (take (k + t) inp)" "16 * length op' \<le> 17 * k + t + 16"
    "op = [] \<longrightarrow> op' \<noteq> []" "length op \<le> length op'" using encoded_literals[OF assms] by blast
  have "emit_literals inp k t op = Some (op' @ take t (drop k inp))"
    using op'(1) assms(2) by (auto simp: emit_literals_def copy_literals_ok split: if_splits)
  moreover have "5 \<le> length (op' @ take t (drop k inp))"
    using assms op'(4,5) by (cases "op = []") (auto simp: encoded_def Suc_le_eq simp flip: length_greater_0_conv)
  moreover have "16 * length (op' @ take t (drop k inp)) \<le> 17 * (k + t) + 16" using op'(3) assms(2) by simp
  ultimately show ?thesis using op'(2) by blast
qed

lemma compress_turn_ok:
  assumes "comp_ok inp start len c"
  shows "(\<exists>c'. compress_turn inp start len c = Some (Next c') \<and> comp_ok inp start len c') \<or>
    (\<exists>t op. compress_turn inp start len c = Some (Finished t op) \<and> t \<le> start + len \<and> encoded inp (start + len - t) op)"
proof -
  let ?ip_end = "start + len - 20"
  let ?k = "c_ii c - c_ti c"
  note c = assms[unfolded comp_ok_def]
  have b: "?ip_end + 20 \<le> length inp" "?ip_end \<le> start + 49152" using c by auto
  obtain ip found dict where s: "search_match inp start ?ip_end (c_ii c) (c_ip c) (c_dict c) = Some (ip, found, dict)" "c_ip c \<le> ip"
    "\<forall>m. found = Some m \<longrightarrow> start \<le> m \<and> m < ip \<and> ip < ?ip_end \<and> (\<forall>j<4. inp ! (m + j) = inp ! (ip + j)) \<and> dict_before start dict (ip + 1)"
    using search_match_ok[of start "c_dict c" "c_ip c" ?ip_end inp "c_ii c"] b c by blast
  show ?thesis
  proof (cases found)
    case None
    have "start + len - (start + len - ?k) = ?k" using c by simp
    moreover have "start + len - ?k \<le> start + len" by (rule diff_le_self)
    moreover have "compress_turn inp start len c = Some (Finished (start + len - ?k) (c_op c))"
      using None s(1) by (simp add: compress_turn_def Let_def)
    ultimately show ?thesis using c by metis
  next
    case (Some m)
    with s(3) have m: "start \<le> m" "m < ip" "ip < ?ip_end" "\<forall>j<4. inp ! (m + j) = inp ! (ip + j)" "dict_before start dict (ip + 1)"
      by auto
    have k: "?k + (ip - ?k) = ip" using c s(2) by simp
    have "?k + (ip - ?k) \<le> length inp" "c_op c = [] \<longrightarrow> 4 \<le> ip - ?k" using c s(2) m(3) by auto
    then obtain op where op: "emit_literals inp ?k (ip - ?k) (c_op c) = Some op" "at_match op (take ip inp)"
      "16 * length op \<le> 17 * ip + 16" "5 \<le> length op"
      using emit_literals_ok[of inp ?k "c_op c" "ip - ?k"] c k by auto
    have "ip + 4 < ?ip_end + 4" using m(3) by linarith
    from match_length_ok[OF this m(2) b(1) m(4)]
    obtain n where n: "match_length inp ?ip_end ip m 4 = Some n" "4 \<le> n" "ip + n < ?ip_end + 12" "\<forall>j<n. inp ! (m + j) = inp ! (ip + j)"
      by blast
    have "copy_match (ip - m) n (take ip inp) = Some (take (ip + n) inp)" using n m(2,3) b(1) by (intro copy_match_take) auto
    moreover have "1 \<le> ip - m" "ip - m \<le> 0xbfff" using m b(2) by auto
    ultimately have e: "after_match (emit_match (ip - m) n op) (take (ip + n) inp)"
      "16 * length (emit_match (ip - m) n op) + 16 \<le> 16 * length op + 17 * n"
      using after_emit_match[OF op(2) _ _ n(2)] by auto
    have "length op \<le> length (emit_match (ip - m) n op)" by (rule emit_match_length)
    then have l: "5 \<le> length (emit_match (ip - m) n op)" using op(4) by simp
    have bound: "ip + n \<le> start + len" "ip + n \<le> length inp" "start \<le> ip + n" using n(3) c m(1,2) by linarith+
    have "16 * length (emit_match (ip - m) n op) \<le> 17 * (ip + n)" using e(2) op(3) by (simp add: distrib_left)
    moreover have ne: "emit_match (ip - m) n op \<noteq> []" using l by auto
    ultimately have "encoded inp (ip + n) (emit_match (ip - m) n op)" using e(1) l bound(2) by (simp add: encoded_def)
    moreover have "dict_before start dict (ip + n)" by (rule dict_before_mono[OF m(5)]) (use n(2) in simp)
    ultimately have "comp_ok inp start len \<lparr>c_ip = ip + n, c_ii = ip + n, c_ti = 0, c_dict = dict, c_op = emit_match (ip - m) n op\<rparr>"
      using c bound(1,3) ne by (simp add: comp_ok_def)
    then show ?thesis using Some s(1) op(1) n(1) by (simp add: compress_turn_def Let_def)
  qed
qed

lemma compress_turns_ok:
  "comp_ok inp start len c \<Longrightarrow>
   \<exists>t op. compress_turns inp start len c = Some (t, op) \<and> t \<le> start + len \<and> encoded inp (start + len - t) op"
proof (induction inp start len c rule: compress_turns.induct)
  case (1 inp start len c)
  from compress_turn_ok[OF 1(2)] show ?case
    using 1(1) by (auto simp: compress_turns.simps[of inp start len c])
qed

lemma do_compress_ok:
  assumes "encoded inp (start - ti) op" "ti \<le> start" "20 < len" "len \<le> 49152" "start + len \<le> length inp"
  shows "\<exists>t op'. do_compress inp start len op ti (\<lambda>_. 0) = Some (t, op') \<and> t \<le> start + len \<and> encoded inp (start + len - t) op'"
  unfolding do_compress_def Let_def
  by (rule compress_turns_ok) (use assms in \<open>auto simp: comp_ok_def dict_before_def\<close>)

lemma compress_chunks_ok:
  assumes "encoded inp (ip - t) op" "t \<le> ip" "ip + l = length inp"
  shows "\<exists>t' op'. compress_chunks inp ip op l t = Some (t', op') \<and> t' \<le> length inp \<and> encoded inp (length inp - t') op'"
  using assms
proof (induction inp ip op l t rule: compress_chunks.induct)
  case (1 inp ip op l t)
  let ?ll = "min l 49152"
  have stop: "t + l \<le> length inp" "length inp - (t + l) = ip - t" using 1(3,4) by auto
  show ?case
  proof (cases "20 < l \<and> drop_bit 5 (t + ?ll) \<noteq> 0")
    case True
    have "20 < ?ll" "?ll \<le> 49152" "ip + ?ll \<le> length inp" using True 1(4) by auto
    from do_compress_ok[OF 1(2,3) this] obtain t' op' where d: "do_compress inp ip ?ll op t (\<lambda>_. 0) = Some (t', op')"
      "t' \<le> ip + ?ll" "encoded inp (ip + ?ll - t') op'" by blast
    have "ip + ?ll + (l - ?ll) = length inp" using 1(4) by simp
    with 1(1)[of ?ll "(t', op')" t' op'] d True show ?thesis by (auto simp: compress_chunks.simps[of inp ip op l t] Let_def)
  next
    case False
    then have "compress_chunks inp ip op l t = Some (t + l, op)" by (auto simp: compress_chunks.simps[of inp ip op l t] Let_def)
    then show ?thesis using stop 1(2) by simp
  qed
qed

lemma start_run:
  assumes "0 < t" "t \<le> 238" "length ls = t"
  shows "at_match (LZO_BYTE (17 + t) # ls) ls"
  unfolding at_match_def
proof (intro allI impI)
  fix b rest assume b: "16 \<le> unat (b :: u8)"
  let ?inp = "LZO_BYTE (17 + t) # ls @ b # rest"
  have u: "unat (LZO_BYTE (17 + t)) = 17 + t" using assms(2) by (intro LZO_BYTE_small) simp
  have c: "copy_literals ?inp t 1 [] = Some (1 + t, ls)"
    using copy_literals_append[OF assms(3), of 1 "[LZO_BYTE (17 + t)]" "b # rest" "[]"] by simp
  have r: "rd ?inp 0 = Some (LZO_BYTE (17 + t))" "rd ?inp (1 + t) = Some b"
    using rd_append[of "LZO_BYTE (17 + t) # ls" b rest] assms(3) by (simp_all add: rd_def)
  have "decode ?inp = run_from ?inp (Match (unat b)) (1 + t + 1) ls"
  proof (cases "t < 4")
    case True
    have "jump_from ?inp (Match_Next t) 1 [] = Some (Goto (Match (unat b)) (1 + t + 1) ls)"
      unfolding jump_from.simps do_match_next_def c Option.bind.bind_lunit prod.case r(2) by simp
    then show ?thesis using True u assms(1) r(1) run_goto by (simp add: decode_def start_from_def Let_def)
  next
    case False
    have "jump_from ?inp First_Literal_Run (1 + t) ls = Some (Goto (Match (unat b)) (1 + t + 1) ls)"
      using b unfolding jump_from.simps do_first_literal_run_def r(2) Option.bind.bind_lunit Let_def by simp
    note j = run_goto[OF this]
    have "start_from ?inp = Some (Goto First_Literal_Run (1 + t) ls)"
      using False unfolding start_from_def r(1) Option.bind.bind_lunit u Let_def by (simp add: c[simplified])
    then show ?thesis using j by (simp add: decode_def)
  qed
  then show "decode ((LZO_BYTE (17 + t) # ls) @ b # rest) =
      run_from ((LZO_BYTE (17 + t) # ls) @ b # rest) (Match (unat b)) (length (LZO_BYTE (17 + t) # ls) + 1) ls"
    using assms(3) by simp
qed

lemma emit_rest_ok:
  assumes enc: "encoded inp k op" and t: "k + t = length inp" and ne: "inp \<noteq> []"
  shows "\<exists>op'. emit_rest inp t op = Some op' \<and> at_match op' inp \<and> 16 * length op' \<le> 17 * length inp + 16 \<and>
    (16 \<le> length inp \<longrightarrow> 5 \<le> length op')"
proof -
  have l: "take (k + t) inp = inp" "length inp - t = k" using t by auto
  have k: "take t (drop k inp) = drop k inp" using t by simp
  show ?thesis
  proof (cases "op = [] \<and> t \<le> 238")
    case True
    then have k0: "k = 0" using enc by (simp add: encoded_def)
    then have t0: "0 < t" "length inp = t" using t ne by auto
    have "emit_rest inp t op = Some (LZO_BYTE (17 + t) # inp)"
      using True t0 by (simp add: emit_rest_def copy_literals_ok)
    moreover have "at_match (LZO_BYTE (17 + t) # inp) inp" using True by (intro start_run t0) simp
    ultimately show ?thesis by auto
  next
    case False
    have "op = [] \<longrightarrow> 4 \<le> t" using False by auto
    then obtain op' where op': "if t = 0 then op' = op else emit_run_length t op = Some op'"
      "at_match (op' @ drop k inp) inp" "16 * length op' \<le> 17 * k + t + 16" "op = [] \<longrightarrow> op' \<noteq> []" "length op \<le> length op'"
      using encoded_literals[OF enc, of t] t unfolding l k by auto
    have "emit_rest inp t op = Some (op' @ drop k inp)"
      using op'(1) t False by (auto simp: emit_rest_def l copy_literals_ok k split: if_splits)
    moreover have "5 \<le> length (op' @ drop k inp)" if "16 \<le> length inp"
      using enc op'(5) that t by (cases "op = []") (auto simp: encoded_def)
    moreover have "16 * length (op' @ drop k inp) \<le> 17 * length inp + 16" using op'(3) t by simp
    ultimately show ?thesis using op'(2) by blast
  qed
qed

lemma compress_decompress:
  "\<exists>y. lzo1x_1_compress x = Some y \<and> lzo1x_decompress y = Some (LZO_E_OK, x) \<and> 16 * length y \<le> 17 * length x + 64 \<and>
    (16 \<le> length x \<longrightarrow> 8 \<le> length y)"
proof (cases "x = []")
  case True
  have "compress_chunks [] 0 [] 0 0 = Some (0, [])" by (simp add: compress_chunks.simps)
  then have "lzo1x_1_compress [] = Some [17, 0, 0]" by (simp add: lzo1x_1_compress_def emit_rest_def)
  moreover have "lzo1x_decompress [17, 0, 0] = Some (0, [])" by code_simp
  ultimately show ?thesis using True by auto
next
  case False
  obtain t op where c: "compress_chunks x 0 [] (length x) 0 = Some (t, op)" "t \<le> length x" "encoded x (length x - t) op"
    using compress_chunks_ok[of x 0 0 "[]" "length x"] by (auto simp: encoded_def)
  have "length x - t + t = length x" using c(2) by simp
  from emit_rest_ok[OF c(3) this False] obtain op' where r: "emit_rest x t op = Some op'" "at_match op' x"
    "16 * length op' \<le> 17 * length x + 16" "16 \<le> length x \<longrightarrow> 5 \<le> length op'" by blast
  have "lzo1x_1_compress x = Some (op' @ [16 OR 1, 0, 0])" using c(1) r(1) by (simp add: lzo1x_1_compress_def)
  then show ?thesis using eof_decoded[OF r(2)] r(3,4) by (intro exI[of _ "op' @ [16 OR 1, 0, 0]"]) simp
qed

text \<open>The compressor as the runtime calls it: the result is never \<open>None\<close>.\<close>

definition compressed :: "u8 list \<Rightarrow> u8 list" where
  "compressed x = (case lzo1x_1_compress x of None \<Rightarrow> [] | Some y \<Rightarrow> y)"

lemma compressed_ok:
  "lzo1x_1_compress x = Some (compressed x)" "lzo1x_decompress (compressed x) = Some (LZO_E_OK, x)"
  "16 * length (compressed x) \<le> 17 * length x + 64" "16 \<le> length x \<Longrightarrow> 8 \<le> length (compressed x)"
  using compress_decompress[of x] by (auto simp: compressed_def)

section \<open>Property\<close>

text \<open>C11: the compressor of the runtime and the decompressor of the analyser: compression never reads or writes outside
  its buffers, for any input; decompressing what it wrote never does either, consumes all of it and gives the input
  back with the result code 0; and the output is at most a sixteenth and four bytes longer than the input, less than
  the 67 bytes that the runtime's buffer has to spare.\<close>
theorem lzo_roundtrip:
  "\<exists>y. lzo1x_1_compress x = Some y \<and> lzo1x_decompress y = Some (LZO_E_OK, x) \<and>
     length y \<le> length x + length x div 16 + 4"
  using compress_decompress[of x] by auto

end
