(* ===== verification/Trace.thy ===== *)
theory Trace
  imports Rtl LzoCodec
begin

text \<open>
  The trace of a thread from end to end: the flush at barriers and at the start of a region, the metafile lines
  that describe the segments of the data file, and what the analyser loads from a segment.
\<close>

section \<open>Flushing\<close>

abbreviation dumped :: "compressor \<Rightarrow> trace_item list list \<Rightarrow> u8 list" where
  "dumped lzo bs \<equiv> blocks_bytes (map (\<lambda>b. lzo (items_bytes b)) bs)"

text \<open>The blocks of a log, the current one included if it has items.\<close>

definition closed_blocks :: "trace_item list list \<times> trace_item list \<Rightarrow> trace_item list list" where
  "closed_blocks l = (if snd l = [] then fst l else fst l @ [snd l])"

lemma concat_closed: "concat (closed_blocks l) = concat (fst l) @ snd l"
  by (simp add: closed_blocks_def)

lemma flush_ok:
  assumes lb: "lzo_bound lzo" and lg: "logs_at hc lzo pre l s"
  shows "\<exists>s'. Option.bind (DUMPNOCHECK_TO_FILE lzo s) (fut_wait lzo) = Some s' \<and>
    logs hc lzo pre (closed_blocks l) [] s' \<and> same_region s s'"
proof (cases "snd l = []")
  case True
  then have "t_idx s = 0" using logs_length[OF lg] by simp
  then have "Option.bind (DUMPNOCHECK_TO_FILE lzo s) (fut_wait lzo) = Some s"
    using lg by (simp add: DUMPNOCHECK_TO_FILE_def fut_wait_def run_job_def logs_def)
  then show ?thesis using lg True by (simp add: closed_blocks_def)
next
  case False
  have i: "t_idx s = length (snd l)" by (rule logs_length[OF lg])
  obtain n where n: "hs_inv n (t_set s)" "NUM_OF_ACCESSES \<le> 2 ^ n" using lg by (auto simp: logs_def)
  have "Option.bind (DUMPNOCHECK_TO_FILE lzo s) (fut_wait lzo) = run_job lzo (start_dump (t_idx s) s)"
    using lg False i by (simp add: DUMPNOCHECK_TO_FILE_def fut_wait_def run_job_def logs_def)
  moreover obtain s' where "run_job lzo (start_dump (t_idx s) s) = Some s'"
    "logs hc lzo pre (fst l @ [snd l]) [] s'" "same_region s s'"
    using dump_buffer_ok[OF lb, of s "t_idx s" "snd l" n "fst l" pre hc] lg False i n
    by (auto simp: logs_def)
  ultimately show ?thesis using False by (auto simp: closed_blocks_def)
qed

lemma logs_shift:
  assumes "logs hc lzo pre bs [] s"
  shows "logs hc lzo (pre @ dumped lzo bs) [] [] (s\<lparr>t_begin := t_end s\<rparr>)"
  using assms by (simp add: logs_def)

text \<open>The line for what was logged since the last one.\<close>

definition line_of :: "ParallelData \<Rightarrow> 64 word \<Rightarrow> uint \<Rightarrow> uint \<Rightarrow> nat \<Rightarrow> nat \<Rightarrow> meta_line" where
  "line_of pd bid off sp a b = \<lparr>ml_pid = parallel_id pd, ml_ppid = parent_parallel_id pd, ml_bid = bid,
     ml_offset = off, ml_span = sp, ml_level = sint (level pd), ml_begin = of_nat a, ml_end = of_nat b\<rparr>"

lemma sync_ok:
  assumes lb: "lzo_bound lzo" and lg: "logs_at hc lzo pre l s" and h: "h task = Some pd" and m: "t_metafile s = Some m"
  defines "bs \<equiv> closed_blocks l"
  shows "\<exists>s'. on_sync_region lzo scope_begin task h s = Some s' \<and> logs_at hc lzo (pre @ dumped lzo bs) ([], []) s' \<and>
    t_metafile s' = Some (m @ print_meta (line_of pd (t_bid s) (t_offset s) (t_span s) (length pre) (length (pre @ dumped lzo bs)))) \<and>
    t_bid s' = t_bid s + 1 \<and> t_offset s' = t_offset s \<and> t_span s' = t_span s \<and> t_status s' = t_status s"
proof -
  obtain s1 where 1: "Option.bind (DUMPNOCHECK_TO_FILE lzo s) (fut_wait lzo) = Some s1"
    "logs hc lzo pre bs [] s1" "same_region s s1"
    using flush_ok[OF lb lg] unfolding bs_def by blast
  let ?l = "line_of pd (t_bid s) (t_offset s) (t_span s) (length pre) (length (pre @ dumped lzo bs))"
  let ?s = "s1\<lparr>t_metafile := Some (m @ print_meta ?l), t_begin := t_end s1, t_bid := t_bid s1 + 1\<rparr>"
  have be: "t_begin s1 = of_nat (length pre)" "t_end s1 = of_nat (length (pre @ dumped lzo bs))"
    using 1(2) by (simp_all add: logs_def)
  have r: "t_bid s1 = t_bid s" "t_offset s1 = t_offset s" "t_span s1 = t_span s" "t_metafile s1 = Some m" "t_status s1 = t_status s"
    using 1(3) m by (simp_all add: same_region_def)
  have ln: "\<lparr>ml_pid = parallel_id pd, ml_ppid = parent_parallel_id pd, ml_bid = t_bid s1, ml_offset = t_offset s1,
      ml_span = t_span s1, ml_level = sint (level pd), ml_begin = t_begin s1, ml_end = t_end s1\<rparr> = ?l"
    by (simp only: line_of_def r be)
  have "on_sync_region lzo scope_begin task h s =
    Option.bind (Option.bind (DUMPNOCHECK_TO_FILE lzo s) (fut_wait lzo)) (\<lambda>s. Option.bind (h task) (\<lambda>pd.
      Option.bind (fprintf_meta \<lparr>ml_pid = parallel_id pd, ml_ppid = parent_parallel_id pd, ml_bid = t_bid s, ml_offset = t_offset s,
        ml_span = t_span s, ml_level = sint (level pd), ml_begin = t_begin s, ml_end = t_end s\<rparr> s)
        (\<lambda>s. Some (s\<lparr>t_begin := t_end s, t_bid := t_bid s + 1\<rparr>))))"
    by (simp add: on_sync_region_def)
  also have "\<dots> = Some ?s"
    by (simp only: 1(1) h Option.bind.bind_lunit ln) (simp add: fprintf_meta_def r)
  finally have "on_sync_region lzo scope_begin task h s = Some ?s" .
  moreover have "logs hc lzo (pre @ dumped lzo bs) [] [] ?s" using 1(2) by (simp add: logs_def)
  ultimately show ?thesis using r by simp
qed

text \<open>The start of an implicit task at the outermost level also writes a line, for what came before the region.\<close>

lemma task_begin_ok:
  assumes lb: "lzo_bound lzo" and lg: "logs_at hc lzo pre l s" and h: "h par = Some pd" and m: "t_metafile s = Some m"
    and new: "newp \<noteq> 0" "h newp = None" and lvl: "level pd = 1"
  defines "bs \<equiv> closed_blocks l"
  shows "\<exists>s'. on_implicit_task_begin lzo num newp par team h s = Some (newp, h(newp \<mapsto> copy_ParallelData pd), s') \<and>
    logs_at hc lzo (pre @ dumped lzo bs) ([], []) s' \<and>
    t_metafile s' = Some (m @ print_meta (line_of pd 0 num team (length pre) (length (pre @ dumped lzo bs)))) \<and>
    t_bid s' = 0 \<and> t_status s' = 1 \<and>
    (t_offset s', t_span s') = (if t_span s = 0 then (num, team) else (t_offset s, t_span s))"
proof -
  let ?s0 = "s\<lparr>t_status := 1, t_bid := 0\<rparr>"
  have cp: "copy_ParallelData pd = pd" by (simp add: copy_ParallelData_def)
  have lg0: "logs_at hc lzo pre l ?s0" using lg by (simp add: logs_def)
  obtain s1 where 1: "Option.bind (DUMPNOCHECK_TO_FILE lzo ?s0) (fut_wait lzo) = Some s1"
    "logs hc lzo pre bs [] s1" "same_region ?s0 s1"
    using flush_ok[OF lb lg0] unfolding bs_def by blast
  let ?l = "line_of pd 0 num team (length pre) (length (pre @ dumped lzo bs))"
  let ?s2 = "s1\<lparr>t_metafile := Some (m @ print_meta ?l)\<rparr>"
  let ?s3 = "if t_span s = 0 then ?s2\<lparr>t_offset := num, t_span := team\<rparr> else ?s2"
  have be: "t_begin s1 = of_nat (length pre)" "t_end s1 = of_nat (length (pre @ dumped lzo bs))"
    using 1(2) by (simp_all add: logs_def)
  have r: "t_bid s1 = 0" "t_offset s1 = t_offset s" "t_span s1 = t_span s" "t_metafile s1 = Some m" "t_status s1 = 1"
    using 1(3) m by (simp_all add: same_region_def)
  have ln: "\<lparr>ml_pid = parallel_id pd, ml_ppid = parent_parallel_id pd, ml_bid = t_bid s1, ml_offset = num,
      ml_span = team, ml_level = sint (level pd), ml_begin = t_begin s1, ml_end = t_end s1\<rparr> = ?l"
    by (simp only: line_of_def r be)
  have "on_implicit_task_begin lzo num newp par team h s =
    Option.bind (Option.bind (DUMPNOCHECK_TO_FILE lzo ?s0) (fut_wait lzo)) (\<lambda>s.
      Option.bind (fprintf_meta \<lparr>ml_pid = parallel_id pd, ml_ppid = parent_parallel_id pd, ml_bid = t_bid s, ml_offset = num,
        ml_span = team, ml_level = sint (level pd), ml_begin = t_begin s, ml_end = t_end s\<rparr> s)
        (\<lambda>s. let s = (if t_span s = 0 then s\<lparr>t_offset := num, t_span := team\<rparr> else s) in
          Some (newp, h(newp \<mapsto> pd), s\<lparr>t_begin := t_end s\<rparr>)))"
    using new h lvl by (simp add: on_implicit_task_begin_def Let_def cp)
  also have "\<dots> = Some (newp, h(newp \<mapsto> pd), ?s3\<lparr>t_begin := t_end ?s3\<rparr>)"
    by (simp only: 1(1) Option.bind.bind_lunit ln) (simp add: fprintf_meta_def r Let_def)
  finally have "on_implicit_task_begin lzo num newp par team h s = \<dots>" .
  moreover have "logs hc lzo (pre @ dumped lzo bs) [] [] (?s3\<lparr>t_begin := t_end ?s3\<rparr>)" using 1(2) by (simp add: logs_def)
  ultimately show ?thesis using r by (simp add: cp)
qed

section \<open>What the log covers\<close>

text \<open>
  The items logged are events in order, with every mutex event among them; an access is missing only if one with
  the same hash is there.
\<close>

definition covers :: "hash_combine \<Rightarrow> log_event list \<Rightarrow> trace_item list \<Rightarrow> bool" where
  "covers hc es is \<longleftrightarrow> subseq is (map event_item es) \<and>
     filter (\<lambda>i. \<not> is_access i) is = filter (\<lambda>i. \<not> is_access i) (map event_item es) \<and>
     (\<forall>e\<in>set es. is_access (event_item e) \<longrightarrow> (\<exists>i\<in>set is. is_access i \<and> hash_item hc i = hash_item hc (event_item e)))"

abbreviation items_in :: "trace_item list list \<times> trace_item list \<Rightarrow> trace_item list" where
  "items_in l \<equiv> concat (fst l) @ snd l"

lemma items_in_log: "items_in (log_item i l) = items_in l @ [i]"
  by (simp add: log_item_def)

lemma spec_step_items:
  "items_in (spec_step hc i l) = items_in l @ [i] \<or>
   items_in (spec_step hc i l) = items_in l \<and> is_access i \<and> (\<exists>j\<in>set (items_in l). is_access j \<and> hash_item hc j = hash_item hc i)"
proof (cases "is_access i \<and> hash_item hc i \<in> hash_item hc ` set (filter is_access (snd l))")
  case True
  then obtain j where "j \<in> set (snd l)" "is_access j" "hash_item hc i = hash_item hc j" by auto
  then show ?thesis using True by (auto simp: spec_step_def)
next
  case False
  then have "spec_step hc i l = log_item i l" unfolding spec_step_def by (rule if_not_P)
  then show ?thesis using items_in_log by simp
qed

lemma covers_snoc:
  assumes "covers hc es L"
  shows "covers hc (es @ [e]) (L @ [event_item e])"
proof -
  have "subseq (L @ [event_item e]) (map event_item es @ [event_item e])"
    using assms by (intro list_emb_append_mono) (simp_all add: covers_def)
  then show ?thesis using assms by (auto simp: covers_def)
qed

lemma covers_skip:
  assumes "covers hc es L" "is_access (event_item e)" "\<exists>j\<in>set L. is_access j \<and> hash_item hc j = hash_item hc (event_item e)"
  shows "covers hc (es @ [e]) L"
proof -
  have "subseq L (map event_item es @ [event_item e])"
    using list_emb_append_mono[of "(=)" L "map event_item es" "[]" "[event_item e]"] assms(1) by (simp add: covers_def)
  then show ?thesis using assms by (auto simp: covers_def)
qed

lemma spec_run_covers: "covers hc es (items_in (spec_run hc es ([], [])))"
proof (induction es rule: rev_induct)
  case Nil
  then show ?case by (simp add: covers_def)
next
  case (snoc e es)
  let ?l = "spec_run hc es ([], [])" and ?i = "event_item e"
  have run: "spec_run hc (es @ [e]) ([], []) = spec_step hc ?i ?l" by simp
  from spec_step_items[of hc ?i ?l] show ?case
    unfolding run using covers_snoc[OF snoc, of e] covers_skip[OF snoc, of e] by (elim disjE conjE) simp_all
qed

section \<open>From a barrier interval to the tree\<close>

text \<open>What loading needs of a compressor and a decompressor; the blocks have at least one item of 16 bytes.\<close>

definition codec :: "compressor \<Rightarrow> decompressor \<Rightarrow> bool" where
  "codec lzo dec \<longleftrightarrow> lzo_bound lzo \<and> (\<forall>x. dec (lzo x) = Some (LZO_E_OK, x)) \<and> (\<forall>x. 16 \<le> length x \<longrightarrow> 8 \<le> length (lzo x))"

lemma lzo_codec: "codec compressed lzo1x_decompress"
proof -
  have "length (compressed x) \<le> length x + length x div 16 + 64 + 3" for x using compressed_ok(3)[of x] by linarith
  then show ?thesis by (simp add: codec_def lzo_bound_def compressed_ok)
qed

primrec event_ok :: "log_event \<Rightarrow> bool" where
  "event_ok (Entry e a p) = (unat a < 2 ^ 62)"
| "event_ok (Acquired kind w) = True"
| "event_ok (Released kind w) = True"

lemma event_item_ok: "event_ok e \<Longrightarrow> item_ok (event_item e) \<and> (\<forall>a. item_data (event_item e) = Access a \<longrightarrow> unat (acc_address a) < 2 ^ 62)"
  by (cases e) (simp_all add: item_ok_def item_access_def item_mutex_def mk_access_def)

lemma length_item_nodes: "length (item_nodes is mx) \<le> length is"
  by (induction "is" mx rule: item_nodes.induct) (auto split: item_data.split intro: le_SucI)

lemma length_nodes: "length (concat (map (\<lambda>b. item_nodes b {}) bs)) \<le> length (concat bs)"
proof (induction bs)
  case (Cons b bs)
  then show ?case using length_item_nodes[of b "{}"] by simp
qed simp

lemma block_of_ok:
  assumes "codec lzo dec" "b \<noteq> []" "length b \<le> NUM_OF_ACCESSES"
  shows "block_ok dec (lzo (items_bytes b)) b" and "length (lzo (items_bytes b)) + 8 \<le> OUT_LEN"
proof -
  have x: "length (items_bytes b) = 16 * length b" by (rule length_items_bytes)
  have "length (lzo (items_bytes b)) \<le> length (items_bytes b) + length (items_bytes b) div 16 + 64 + 3"
    using assms(1) by (simp add: codec_def lzo_bound_def)
  also have "\<dots> \<le> 17 * NUM_OF_ACCESSES + 67" using x assms(3) by simp
  finally show len: "length (lzo (items_bytes b)) + 8 \<le> OUT_LEN" by (simp add: OUT_LEN_val NUM_OF_ACCESSES_def)
  have "16 \<le> length (items_bytes b)" using x assms(2) by (cases b) auto
  then show "block_ok dec (lzo (items_bytes b)) b"
    using assms len by (simp add: block_ok_def codec_def)
qed

lemma length_dumped:
  assumes "codec lzo dec" "\<forall>b\<in>set bs. b \<noteq> [] \<and> length b \<le> NUM_OF_ACCESSES"
  shows "length (dumped lzo bs) \<le> OUT_LEN * length (concat bs)"
  using assms(2)
proof (induction bs)
  case (Cons b bs)
  have "8 + length (lzo (items_bytes b)) \<le> OUT_LEN * 1" using block_of_ok(2)[OF assms(1)] Cons.prems by (simp add: add.commute)
  also have "\<dots> \<le> OUT_LEN * length b" using Cons.prems by (intro mult_le_mono2) (cases b; simp)
  finally show ?case using Cons by (simp add: distrib_left)
qed simp

lemma fresh_supply_le: "fresh_supply newp t k n \<Longrightarrow> n' \<le> n \<Longrightarrow> fresh_supply newp t k n'"
  by (auto simp: fresh_supply_def intro: inj_on_subset)

text \<open>The blocks that cover the events can be loaded.\<close>

lemma interval_blocks:
  assumes cd: "codec lzo dec" and ok: "\<forall>e\<in>set es. event_ok e" and cv: "covers hc es (concat bs)" and es: "length es \<le> 2 ^ 26"
    and bs: "\<forall>b\<in>set bs. b \<noteq> [] \<and> length b \<le> NUM_OF_ACCESSES" and pre: "length pre < 2 ^ 62"
  shows "list_all2 (block_ok dec) (map (\<lambda>b. lzo (items_bytes b)) bs) bs \<and> (\<forall>is\<in>set bs. items_ok is) \<and>
    length pre + length (dumped lzo bs) < 2 ^ 63 \<and> length (concat (map (\<lambda>b. item_nodes b {}) bs)) \<le> length es"
proof (intro conjI)
  have sub: "subseq (concat bs) (map event_item es)" using cv by (simp add: covers_def)
  then have "length (concat bs) \<le> length (map event_item es)" by (rule list_emb_length)
  then have lc: "length (concat bs) \<le> length es" by simp
  then show "length (concat (map (\<lambda>b. item_nodes b {}) bs)) \<le> length es" using length_nodes[of bs] by simp
  show "\<forall>is\<in>set bs. items_ok is"
  proof (intro ballI)
    fix b assume b: "b \<in> set bs"
    have "i \<in> event_item ` set es" if "i \<in> set b" for i
      using list_emb_set[OF sub, of i] that b by auto
    then show "items_ok b" unfolding items_ok_def using ok event_item_ok by blast
  qed
  show "list_all2 (block_ok dec) (map (\<lambda>b. lzo (items_bytes b)) bs) bs"
    using block_of_ok(1)[OF cd] bs by (simp add: list_all2_conv_all_nth)
  have "length (concat bs) \<le> 2 ^ 26" using lc es by (rule le_trans)
  then have "OUT_LEN * length (concat bs) \<le> OUT_LEN * 2 ^ 26" by (rule mult_le_mono2)
  with length_dumped[OF cd bs] have "length (dumped lzo bs) \<le> OUT_LEN * 2 ^ 26" by (rule le_trans)
  then show "length pre + length (dumped lzo bs) < 2 ^ 63" using pre by (simp add: OUT_LEN_val)
qed

lemma loaded_interval:
  assumes cd: "codec lzo dec" and ok: "\<forall>e\<in>set es. event_ok e" and cv: "covers hc es (concat bs)" and es: "length es \<le> 2 ^ 26"
    and bs: "\<forall>b\<in>set bs. b \<noteq> [] \<and> length b \<le> NUM_OF_ACCESSES" and pre: "length pre < 2 ^ 62"
    and sup: "fresh_supply newp t k (length es)" "rb_root t = 0"
  shows "\<exists>k' t' T. load_and_convert_file dec newp (Some (pre @ dumped lzo bs @ post)) (of_nat (length pre))
        (of_nat (length (pre @ dumped lzo bs))) (k, t) = Some (Inr (k', t')) \<and> data_tree (length es) t' T \<and>
      accesses (mores (mem t')) T \<subseteq> (\<lambda>n. (site n, unat (it_start n))) ` set (concat (map (\<lambda>b. item_nodes b {}) bs)) \<and>
      fst ` accesses (mores (mem t')) T = site ` set (concat (map (\<lambda>b. item_nodes b {}) bs))"
proof -
  let ?nodes = "concat (map (\<lambda>b. item_nodes b {}) bs)"
  note I = interval_blocks[OF cd ok cv es bs pre]
  have "length ?nodes \<le> 2 ^ 26" using I es by linarith
  from load_segment[OF _ _ refl this fresh_supply_le[OF sup(1)] _ sup(2), of dec "map (\<lambda>b. lzo (items_bytes b)) bs" pre post] I
  obtain t' T where "load_and_convert_file dec newp (Some (pre @ dumped lzo bs @ post)) (of_nat (length pre))
        (of_nat (length pre + length (dumped lzo bs))) (k, t) = Some (Inr (k + length ?nodes, t'))"
      "data_tree (length ?nodes) t' T"
      "accesses (mores (mem t')) T \<subseteq> (\<lambda>n. (site n, unat (it_start n))) ` set ?nodes"
      "fst ` accesses (mores (mem t')) T = site ` set ?nodes" by blast
  moreover have "data_tree (length es) t' T" using data_tree_grow[OF calculation(2), of "length es - length ?nodes"] I by simp
  ultimately show ?thesis unfolding length_append by blast
qed

section \<open>Properties\<close>

text \<open>A thread that begins with a new data file starts with an empty log; if a file cannot be opened the program
  ends with an error.\<close>
theorem thread_begin_correct:
  assumes "hs_any (t_set s)" "num_filled (t_set s) = 0" "elems (t_set s) = {}" "\<forall>n. length (junk n) = n" "t_idx s = 0"
  shows "(\<exists>s'. on_thread_begin junk (Some []) (Some m) nid s = Some (Inr (nid + 1, s')) \<and>
      logs_at hc lzo [] ([], []) s' \<and> t_metafile s' = Some m \<and> t_tid s' = ucast nid \<and> t_span s' = 0) \<and>
    on_thread_begin junk None open_meta nid s = Some (Inl DatafileError) \<and>
    on_thread_begin junk (Some data) None nid s = Some (Inl MetafileError)"
proof -
  obtain n h' where h: "reserve junk SET_SIZE (t_set s) = Some h'" "hs_inv n h'" "elems h' = {}" "num_filled h' = 0" "SET_SIZE < 2 ^ n"
    using reserve_ok[OF assms(1), of SET_SIZE junk] assms by (auto simp: SET_SIZE_def)
  then have "\<exists>n. hs_inv n h' \<and> NUM_OF_ACCESSES \<le> 2 ^ n" by (intro exI[of _ n]) (simp add: SET_SIZE_def NUM_OF_ACCESSES_def)
  then show ?thesis
    using h assms(5) by (simp add: on_thread_begin_def Let_def my_next_id_def logs_def NUM_OF_ACCESSES_def)
qed

definition fresh_thread :: rtl where
  "fresh_thread = \<lparr>t_tid = 0, t_status = 0, t_bid = 0, t_idx = 0, t_offset = 0, t_span = 0, t_begin = 0, t_end = 0,
     t_accesses1 = [], t_accesses2 = [], t_accesses = Buffer1, t_set = empty_hset, t_datafile = None, t_metafile = None,
     t_fut = None\<rparr>"

definition sum_hash :: hash_combine where
  "sum_hash h x = 31 * h + x"

lemma empty_hset_facts: "hs_any empty_hset" "num_filled empty_hset = 0" "elems empty_hset = {}"
  by (auto simp: hs_any_def elems_def empty_hset_def)

lemma fresh_ready: "hs_any (t_set fresh_thread)" "num_filled (t_set fresh_thread) = 0" "elems (t_set fresh_thread) = {}"
  "\<forall>n. length (replicate n (0 :: 64 word)) = n" "t_idx fresh_thread = 0"
  by (simp_all add: fresh_thread_def empty_hset_facts)

lemma thread_begin_correct_witness:
  "\<exists>s'. on_thread_begin (\<lambda>n. replicate n 0) (Some []) (Some []) 7 fresh_thread = Some (Inr (8, s')) \<and>
     logs_at sum_hash (\<lambda>x. x) [] ([], []) s' \<and> t_tid s' = 7"
  using thread_begin_correct[OF fresh_ready, of "[]" 7 sum_hash "\<lambda>x. x"] by auto

text \<open>A thread after its begin, for the witnesses; the identity compresses within the bounds.\<close>

lemma ready_thread:
  "\<exists>s. logs_at sum_hash lzo [] ([], []) s \<and> t_metafile s = Some [] \<and> t_bid s = 0"
proof -
  let ?f = "\<lambda>n. replicate n (0 :: 64 word)"
  have "reserve ?f SET_SIZE empty_hset \<noteq> None"
    using reserve_ok[of empty_hset SET_SIZE ?f] empty_hset_facts by (auto simp: SET_SIZE_def)
  then obtain h' where r: "reserve ?f SET_SIZE empty_hset = Some h'" by auto
  obtain n where h: "hs_inv n h'" "elems h' = {}" "num_filled h' = 0" "SET_SIZE < 2 ^ n"
    using reserve_ok[of empty_hset SET_SIZE ?f] empty_hset_facts r by (auto simp: SET_SIZE_def)
  let ?s = "fresh_thread\<lparr>t_accesses1 := replicate NUM_OF_ACCESSES default_item, t_set := h', t_datafile := Some [], t_metafile := Some []\<rparr>"
  have "\<exists>n. hs_inv n h' \<and> NUM_OF_ACCESSES \<le> 2 ^ n" using h by (intro exI[of _ n]) (simp add: SET_SIZE_def NUM_OF_ACCESSES_def)
  then have "logs_at sum_hash lzo [] ([], []) ?s" using h by (simp add: logs_def fresh_thread_def NUM_OF_ACCESSES_def)
  then show ?thesis by (intro exI[of _ ?s]) (simp add: fresh_thread_def)
qed

lemma id_bound: "lzo_bound (\<lambda>x. x)"
  by (simp add: lzo_bound_def)

text \<open>C16: logging never fails and does exactly what the abstract log does, as long as the dump runs before the next
  event: accesses with the hash of one in the current block are dropped, a full block is compressed and appended.\<close>
theorem logging_refines:
  assumes "lzo_bound lzo" "logs_at hc lzo pre l s"
  shows "\<exists>s'. run_prompt lzo hc es s = Some s' \<and>
    logs_at hc lzo pre (fold (\<lambda>e. spec_step hc (event_item e)) es l) s' \<and> t_metafile s' = t_metafile s"
  using run_prompt_ok[OF assms] by (auto simp: same_region_def)

lemma logging_refines_witness:
  "\<exists>s s'. run_prompt (\<lambda>x. x) sum_hash [Entry sword_write4 1000 7, Entry sword_write4 1000 7, Acquired 1 5] s = Some s' \<and>
     logs_at sum_hash (\<lambda>x. x) [] ([], [event_item (Entry sword_write4 1000 7), event_item (Acquired 1 5)]) s'"
proof -
  obtain s where s: "logs_at sum_hash (\<lambda>x. x) [] ([], []) s" using ready_thread by blast
  have "fold (\<lambda>e. spec_step sum_hash (event_item e)) [Entry sword_write4 1000 7, Entry sword_write4 1000 7, Acquired 1 5] ([], []) =
    ([], [event_item (Entry sword_write4 1000 7), event_item (Acquired 1 5)])"
    by (simp add: spec_step_def log_item_def is_access_def item_access_def item_mutex_def NUM_OF_ACCESSES_def)
  then show ?thesis
    using logging_refines[OF id_bound s, of "[Entry sword_write4 1000 7, Entry sword_write4 1000 7, Acquired 1 5]"] by (simp only:) blast
qed

text \<open>C5: from the events of a barrier interval to the analyser's tree, when each dump finishes before the next event of
  its thread (\<open>run_prompt\<close>; without that, \<open>pending_dump_overwritten\<close> shows items lost): the events are logged and the barrier
  flushes them and writes one metafile line; the segment that the line names, decompressed with LZO whatever is
  appended to the file later, loads into a tree of exactly the sites of the blocks logged, and those blocks cover the
  events up to hash collisions.\<close>
theorem barrier_interval_correct:
  assumes "logs_at hc compressed pre ([], []) s" "t_metafile s = Some m" "h task = Some pd"
    and "\<forall>e\<in>set es. event_ok e" "length es \<le> 2 ^ 26" "length pre < 2 ^ 62" "fresh_supply newp t k (length es)" "rb_root t = 0"
  shows "\<exists>s1 s2 bs. run_prompt compressed hc es s = Some s1 \<and> on_sync_region compressed scope_begin task h s1 = Some s2 \<and>
    covers hc es (concat bs) \<and> logs_at hc compressed (pre @ dumped compressed bs) ([], []) s2 \<and>
    t_datafile s2 = Some (pre @ dumped compressed bs) \<and> t_bid s2 = t_bid s + 1 \<and>
    t_metafile s2 = Some (m @ print_meta (line_of pd (t_bid s) (t_offset s) (t_span s) (length pre) (length (pre @ dumped compressed bs)))) \<and>
    (\<forall>post. \<exists>k' t' T. load_and_convert_file lzo1x_decompress newp (Some (pre @ dumped compressed bs @ post)) (of_nat (length pre))
        (of_nat (length (pre @ dumped compressed bs))) (k, t) = Some (Inr (k', t')) \<and> data_tree (length es) t' T \<and>
      fst ` accesses (mores (mem t')) T = site ` set (concat (map (\<lambda>b. item_nodes b {}) bs)))"
proof -
  let ?l = "fold (\<lambda>e. spec_step hc (event_item e)) es ([], [])"
  let ?bs = "closed_blocks ?l"
  have lb: "lzo_bound compressed" using lzo_codec by (simp add: codec_def)
  obtain s1 where 1: "run_prompt compressed hc es s = Some s1" "logs_at hc compressed pre ?l s1" "same_region s s1"
    using run_prompt_ok[OF lb assms(1), of es] by auto
  have m1: "t_metafile s1 = Some m" "t_bid s1 = t_bid s" "t_offset s1 = t_offset s" "t_span s1 = t_span s"
    using 1(3) assms(2) by (simp_all add: same_region_def)
  obtain s2 where 2: "on_sync_region compressed scope_begin task h s1 = Some s2" "logs_at hc compressed (pre @ dumped compressed ?bs) ([], []) s2"
    "t_metafile s2 = Some (m @ print_meta (line_of pd (t_bid s) (t_offset s) (t_span s) (length pre) (length (pre @ dumped compressed ?bs))))"
    "t_bid s2 = t_bid s + 1"
    using sync_ok[where h = h, OF lb 1(2) assms(3) m1(1)] m1 by auto
  have cv: "covers hc es (concat ?bs)" using spec_run_covers[of hc es] by (simp add: concat_closed)
  have bl: "\<forall>b\<in>set ?bs. b \<noteq> [] \<and> length b \<le> NUM_OF_ACCESSES"
    using flush_ok[OF lb 1(2)] by (auto simp: logs_def)
  have "t_datafile s2 = Some (pre @ dumped compressed ?bs)" using 2(2) by (simp add: logs_def)
  moreover have "\<exists>k' t' T. load_and_convert_file lzo1x_decompress newp (Some (pre @ dumped compressed ?bs @ post)) (of_nat (length pre))
        (of_nat (length (pre @ dumped compressed ?bs))) (k, t) = Some (Inr (k', t')) \<and> data_tree (length es) t' T \<and>
      fst ` accesses (mores (mem t')) T = site ` set (concat (map (\<lambda>b. item_nodes b {}) ?bs))" for post
    using loaded_interval[OF lzo_codec assms(4) cv assms(5) bl assms(6-8), of post] by blast
  ultimately show ?thesis
    using 1(1) 2 cv by (intro exI[of _ s1] exI[of _ s2] exI[of _ ?bs]) (simp only: simp_thms)
qed

lemma three_fresh: "fresh_supply sample_new empty_state 0 3"
proof -
  have "{0..<0 + 3 :: nat} = {0, 1, 2}" by auto
  then show ?thesis by (simp add: fresh_supply_def sample_new_def aligned_def empty_state_def)
qed

lemma barrier_interval_correct_witness:
  "\<exists>s s1 s2 bs. run_prompt compressed sum_hash [Acquired 1 5, Entry sword_write4 1000 7, Released 1 5] s = Some s1 \<and>
    on_sync_region compressed scope_begin 8 [8 \<mapsto> mk_ParallelData 3 0 1 0 2] s1 = Some s2 \<and>
    covers sum_hash [Acquired 1 5, Entry sword_write4 1000 7, Released 1 5] (concat bs) \<and>
    (\<exists>r. load_and_convert_file lzo1x_decompress sample_new (t_datafile s2) 0 (of_nat (length (dumped compressed bs))) (0, empty_state) = Some (Inr r))"
proof -
  let ?es = "[Acquired 1 5, Entry sword_write4 1000 7, Released 1 5]" and ?h = "[8 \<mapsto> mk_ParallelData 3 0 1 0 2] :: pd_heap"
  obtain s where s: "logs_at sum_hash compressed [] ([], []) s" "t_metafile s = Some []" using ready_thread by blast
  have h: "?h 8 = Some (mk_ParallelData 3 0 1 0 2)" by simp
  have ok: "\<forall>e\<in>set ?es. event_ok e" "length ?es \<le> 2 ^ 26" "length ([] :: u8 list) < 2 ^ 62"
    "fresh_supply sample_new empty_state 0 (length ?es)" "rb_root empty_state = 0"
    using three_fresh by (simp_all add: empty_state_def numeral_3_eq_3)
  obtain s1 s2 bs where 1: "run_prompt compressed sum_hash ?es s = Some s1" "on_sync_region compressed scope_begin 8 ?h s1 = Some s2"
    "covers sum_hash ?es (concat bs)" "t_datafile s2 = Some ([] @ dumped compressed bs)"
    and 2: "\<forall>post. \<exists>k' t' T. load_and_convert_file lzo1x_decompress sample_new (Some ([] @ dumped compressed bs @ post)) (of_nat (length ([] :: u8 list)))
        (of_nat (length ([] @ dumped compressed bs))) (0, empty_state) = Some (Inr (k', t')) \<and> data_tree (length ?es) t' T \<and>
      fst ` accesses (mores (mem t')) T = site ` set (concat (map (\<lambda>b. item_nodes b {}) bs))"
    using barrier_interval_correct[where h = ?h and task = 8, OF s h ok] by blast
  have "\<exists>r. load_and_convert_file lzo1x_decompress sample_new (t_datafile s2) 0 (of_nat (length (dumped compressed bs))) (0, empty_state) = Some (Inr r)"
    using 1(4) spec[OF 2, of "[]"] by auto
  then show ?thesis using 1(1-3) by blast
qed

text \<open>The set of seen accesses does not know the locks: an access made under a lock hides the same access made
  without it afterwards, whatever the hash function; the tree then only has the protected one.\<close>
theorem logging_forgets_unlocked_access:
  assumes "lzo_bound lzo" "logs_at hc lzo pre ([], []) s"
  shows "\<exists>s'. run_prompt lzo hc [Acquired kind w, Entry e a p, Released kind w, Entry e a p] s = Some s' \<and>
      logs_at hc lzo pre ([], map event_item [Acquired kind w, Entry e a p, Released kind w]) s' \<and>
      map mutex (item_nodes (map event_item [Acquired kind w, Entry e a p, Released kind w]) {}) = [{w}]"
proof -
  let ?es = "[Acquired kind w, Entry e a p, Released kind w, Entry e a p]"
  have "fold (\<lambda>e. spec_step hc (event_item e)) ?es ([], []) =
    ([], map event_item [Acquired kind w, Entry e a p, Released kind w])"
    by (simp add: spec_step_def log_item_def is_access_def item_access_def item_mutex_def NUM_OF_ACCESSES_def)
  moreover have "map mutex (item_nodes (map event_item [Acquired kind w, Entry e a p, Released kind w]) {}) = [{w}]"
    by (simp add: item_access_def item_mutex_def interval_tree_node_def)
  ultimately show ?thesis
    using run_prompt_ok[OF assms, of ?es] by (simp only:) blast
qed

lemma logging_forgets_unlocked_access_witness:
  "\<exists>s s'. run_prompt (\<lambda>x. x) sum_hash [Acquired 1 5, Entry sword_write4 1000 7, Released 1 5, Entry sword_write4 1000 7] s = Some s' \<and>
     logs_at sum_hash (\<lambda>x. x) [] ([], map event_item [Acquired 1 5, Entry sword_write4 1000 7, Released 1 5]) s'"
proof -
  obtain s where s: "logs_at sum_hash (\<lambda>x. x) [] ([], []) s" using ready_thread by blast
  show ?thesis using logging_forgets_unlocked_access[OF id_bound s, of 1 5 sword_write4 1000 7] by blast
qed

text \<open>When the dump of a full buffer does not run before the next event, that event overwrites the first item of
  the block: the buffers are never swapped.\<close>
theorem pending_dump_overwritten:
  assumes lb: "lzo_bound lzo" and lg: "logs hc lzo pre bs cur s" and full: "Suc (length cur) = NUM_OF_ACCESSES"
    and i: "i1 = event_item (Acquired k1 w1)" "i2 = event_item (Acquired k2 w2)"
  shows "(\<exists>s1 s2 s3. on_mutex_acquired lzo k1 w1 s = Some s1 \<and> on_mutex_acquired lzo k2 w2 s1 = Some s2 \<and>
      run_job lzo s2 = Some s3 \<and> t_datafile s3 = Some (pre @ dumped lzo (bs @ [i2 # tl cur @ [i1]]))) \<and>
    (\<exists>s1 s2 s3. on_mutex_acquired lzo k1 w1 s = Some s1 \<and> run_job lzo s1 = Some s2 \<and>
      on_mutex_acquired lzo k2 w2 s2 = Some s3 \<and> t_datafile s3 = Some (pre @ dumped lzo (bs @ [cur @ [i1]])))"
proof -
  have idx: "t_idx s = length cur" by (rule logs_length[OF lg])
  have s: "t_accesses s = Buffer1" "length (t_accesses1 s) = NUM_OF_ACCESSES" "t_fut s = None"
    "take (length cur) (t_accesses1 s) = cur" "t_datafile s = Some (pre @ dumped lzo bs)"
    using lg idx by (auto simp: logs_def)
  let ?a1 = "(t_accesses1 s)[length cur := i1]"
  let ?s1 = "start_dump NUM_OF_ACCESSES (s\<lparr>t_accesses1 := ?a1, t_idx := Suc (length cur)\<rparr>)"
  have acc1: "on_mutex_acquired lzo k1 w1 s = Some ?s1"
    using s full idx
    by (simp add: on_mutex_acquired_def store_item_def DUMP_TO_FILE_def Let_def fut_wait_def run_job_def i(1) NUM_OF_ACCESSES_def)
  have a1: "take NUM_OF_ACCESSES ?a1 = cur @ [i1]" using s full take_upd_last[of "length cur" "t_accesses1 s" i1] by simp
  have cur: "cur \<noteq> []" using full by (auto simp: NUM_OF_ACCESSES_def)
  then have "take NUM_OF_ACCESSES (?a1[0 := i2]) = (cur @ [i1])[0 := i2]" using a1 by (simp add: take_update_swap)
  also have "\<dots> = i2 # tl cur @ [i1]" using cur by (cases cur) auto
  finally have a2: "take NUM_OF_ACCESSES (?a1[0 := i2]) = i2 # tl cur @ [i1]" .
  let ?s2 = "?s1\<lparr>t_accesses1 := ?a1[0 := i2], t_idx := Suc 0\<rparr>"
  have acc2: "on_mutex_acquired lzo k2 w2 ?s1 = Some ?s2"
    using s by (simp add: on_mutex_acquired_def store_item_def DUMP_TO_FILE_def Let_def start_dump_def i(2) NUM_OF_ACCESSES_def)
  have "run_job lzo ?s2 = dump_to_file lzo (?a1[0 := i2]) NUM_OF_ACCESSES (?s2\<lparr>t_fut := None\<rparr>)"
    using s(1) by (simp add: run_job_def start_dump_def buffer_of_def)
  also have "\<dots> = Some ((?s2\<lparr>t_fut := None\<rparr>)\<lparr>t_datafile := Some (pre @ dumped lzo bs @ dumped lzo [i2 # tl cur @ [i1]]),
      t_end := t_end (?s2\<lparr>t_fut := None\<rparr>) + of_nat (length (dumped lzo [i2 # tl cur @ [i1]]))\<rparr>)"
    using dump_ok[OF lb, of "?s2\<lparr>t_fut := None\<rparr>" "pre @ dumped lzo bs" NUM_OF_ACCESSES "?a1[0 := i2]"] s a2
    by (simp add: start_dump_def)
  finally have "\<exists>s3. run_job lzo ?s2 = Some s3 \<and> t_datafile s3 = Some (pre @ dumped lzo (bs @ [i2 # tl cur @ [i1]]))" by simp
  moreover have "\<exists>s2 s3. run_job lzo ?s1 = Some s2 \<and> on_mutex_acquired lzo k2 w2 s2 = Some s3 \<and>
      t_datafile s3 = Some (pre @ dumped lzo (bs @ [cur @ [i1]]))"
  proof -
    have e: "log_item i1 (bs, cur) = (bs @ [cur @ [i1]], [])" using full by (simp add: log_item_def)
    have st: "spec_step hc i1 (bs, cur) = log_item i1 (bs, cur)"
      by (simp add: spec_step_def i(1) is_access_def item_mutex_def)
    have "logs_at hc lzo pre (bs, cur) s" using lg by simp
    from log_step_ok[OF lb this, of "Acquired k1 w1"] obtain s2 where s2: "run_job lzo ?s1 = Some s2"
      "logs_at hc lzo pre (spec_step hc (event_item (Acquired k1 w1)) (bs, cur)) s2"
      using acc1 by auto
    have l2: "logs hc lzo pre (bs @ [cur @ [i1]]) [] s2" using s2(2) unfolding i(1)[symmetric] st e by simp
    then have "t_idx s2 = 0" using logs_length[OF l2] by simp
    then have "\<exists>s3. on_mutex_acquired lzo k2 w2 s2 = Some s3 \<and> t_datafile s3 = t_datafile s2"
      using l2 by (simp add: logs_def on_mutex_acquired_def store_item_def DUMP_TO_FILE_def Let_def NUM_OF_ACCESSES_def)
    then show ?thesis using s2(1) l2 by (auto simp: logs_def)
  qed
  ultimately show ?thesis using acc1 acc2 by blast
qed

lemma spec_run_acquired:
  "n < NUM_OF_ACCESSES \<Longrightarrow> fold (\<lambda>e. spec_step hc (event_item e)) (replicate n (Acquired k w)) ([], []) =
     ([], replicate n (event_item (Acquired k w)))"
proof (induction n)
  case (Suc n)
  have "replicate (Suc n) (Acquired k w) = replicate n (Acquired k w) @ [Acquired k w]" by (simp add: replicate_append_same)
  then show ?case
    using Suc by (simp only: fold_append comp_def fold_simps) (simp add: spec_step_def log_item_def is_access_def item_mutex_def replicate_append_same)
qed simp

lemma pending_dump_overwritten_witness:
  "\<exists>s s1 s2 s3. on_mutex_acquired (\<lambda>x. x) 2 6 s = Some s1 \<and> on_mutex_acquired (\<lambda>x. x) 3 7 s1 = Some s2 \<and>
      run_job (\<lambda>x. x) s2 = Some s3 \<and>
      t_datafile s3 = Some (dumped (\<lambda>x. x) [event_item (Acquired 3 7) # replicate 24998 (event_item (Acquired 1 5)) @ [event_item (Acquired 2 6)]])"
proof -
  obtain s where s: "logs_at sum_hash (\<lambda>x. x) [] ([], []) s" using ready_thread by blast
  have "(24999 :: nat) < NUM_OF_ACCESSES" by (simp add: NUM_OF_ACCESSES_def)
  from run_prompt_ok[OF id_bound s, of "replicate 24999 (Acquired 1 5)"] spec_run_acquired[OF this, of sum_hash 1 5]
  obtain s' where s': "logs sum_hash (\<lambda>x. x) [] [] (replicate 24999 (event_item (Acquired 1 5))) s'" by (simp only:) auto
  have "Suc (length (replicate 24999 (event_item (Acquired 1 5)))) = NUM_OF_ACCESSES" by (simp add: NUM_OF_ACCESSES_def)
  moreover have "tl (replicate 24999 (event_item (Acquired 1 5))) = replicate 24998 (event_item (Acquired 1 5))" by simp
  ultimately show ?thesis
    using pending_dump_overwritten[OF id_bound s' _ refl refl, of 2 6 3 7] by (simp only: append_Nil) blast
qed

text \<open>An implicit task at an inner level and its end leave the heap of region data as it was; a second end of
  the same task reads freed memory, so the assertion on \<open>freed\<close> can never report it.\<close>
theorem task_lifetime:
  assumes "h par = Some pd" "newp \<noteq> 0" "h newp = None" "level pd \<noteq> 1" "freed pd = 0"
  shows "\<exists>h1 s1 s2. on_implicit_task_begin lzo num newp par team h s = Some (newp, h1, s1) \<and> t_status s1 = level pd \<and>
    on_implicit_task_end newp h1 s1 = Some (Inr (h, s2)) \<and> t_status s2 = level pd - 1 \<and>
    on_implicit_task_end newp h s2 = None"
proof -
  have "h(newp := None) = h" using assms(3) by auto
  then show ?thesis
    using assms by (simp add: on_implicit_task_begin_def on_implicit_task_end_def Let_def copy_ParallelData_def)
qed

lemma task_lifetime_witness:
  "\<exists>h1 s1 s2. on_implicit_task_begin (\<lambda>x. x) 1 16 8 4 [8 \<mapsto> mk_ParallelData 3 2 2 0 4] fresh_thread = Some (16, h1, s1) \<and>
    on_implicit_task_end 16 h1 s1 = Some (Inr ([8 \<mapsto> mk_ParallelData 3 2 2 0 4], s2)) \<and>
    on_implicit_task_end 16 [8 \<mapsto> mk_ParallelData 3 2 2 0 4] s2 = None"
  using task_lifetime[of "[8 \<mapsto> mk_ParallelData 3 2 2 0 4]" 8 "mk_ParallelData 3 2 2 0 4" 16 "\<lambda>x. x" 1 4 fresh_thread]
  by (auto simp: mk_ParallelData_def)

end
