(* ===== verification/Analysis.thy ===== *)
theory Analysis
  imports Metafile Report Overlap "HOL-Library.Multiset"
begin

text \<open>
  \<open>main\<close> of \<open>tools/sword-race-analysis.cc\<close> after the options: the traces of a barrier interval found in the
  metafiles, the reduction of the list of interval trees by comparing them two by two, and the races handed to
  \<open>ReportRace\<close>.
\<close>

section \<open>The metafiles\<close>

record TraceInfo =
  file_offset_begin :: "64 word"
  file_offset_end :: "64 word"

definition mk_TraceInfo :: "64 word \<Rightarrow> 64 word \<Rightarrow> TraceInfo" where
  "mk_TraceInfo fob foe = \<lparr>file_offset_begin = fob, file_offset_end = foe\<rparr>"

type_synonym traces = "uint \<rightharpoonup> TraceInfo"

text \<open>\<open>sscanf(name, "metafile_%d", &tid)\<close>; \<open>None\<close> leaves \<open>tid\<close> uninitialised.\<close>

definition scan_tid :: "string \<Rightarrow> uint option" where
  "scan_tid fname =
     (if prefix ''metafile_'' fname then map_option (\<lambda>(v, r). v) (scan_uint (drop 9 fname)) else None)"

text \<open>The lines of one file; a line that is not converted or a use of the uninitialised \<open>tid\<close> is undefined.\<close>

fun scan_lines :: "64 word \<Rightarrow> 64 word \<Rightarrow> uint option \<Rightarrow> string list \<Rightarrow> traces \<Rightarrow> traces option" where
  "scan_lines pregion barrier_id tid [] tr = Some tr"
| "scan_lines pregion barrier_id tid (l # ls) tr = do {
     m \<leftarrow> scan_meta l;
     if pregion = ml_pid m \<and> barrier_id = ml_bid m then do {
       t \<leftarrow> tid;
       scan_lines pregion barrier_id tid ls (tr(t \<mapsto> mk_TraceInfo (ml_begin m) (ml_end m)))
     }
     else scan_lines pregion barrier_id tid ls tr
   }"

text \<open>The files of the folder, by name, in the order of the directory iterator.\<close>

fun scan_folder :: "64 word \<Rightarrow> 64 word \<Rightarrow> (string \<times> string) list \<Rightarrow> traces \<Rightarrow> traces option" where
  "scan_folder pregion barrier_id [] tr = Some tr"
| "scan_folder pregion barrier_id ((fname, text) # fs) tr =
     (if sublist ''metafile_'' fname then do {
        tr \<leftarrow> scan_lines pregion barrier_id (scan_tid fname) (getlines text) tr;
        scan_folder pregion barrier_id fs tr
      }
      else scan_folder pregion barrier_id fs tr)"

section \<open>The reduction of the trees\<close>

record TreeRoot =
  tr_tid :: uint
  tr_root :: ptr

definition mk_TreeRoot :: "uint \<Rightarrow> ptr \<Rightarrow> TreeRoot" where
  "mk_TreeRoot i r = \<lparr>tr_tid = i, tr_root = r\<rparr>"

text \<open>The arguments of the thread that runs \<open>analyze_trees\<close>.\<close>

record tree_job =
  jb_last :: bool
  jb_tree1 :: TreeRoot
  jb_tree2 :: TreeRoot

text \<open>
  The inner loop: \<open>rest\<close> is the list from \<open>it\<close> on, \<open>sz\<close> the current size of the whole list. \<open>None\<close> stands for
  reading behind the end of the list.
\<close>

function pair_trees :: "int \<Rightarrow> nat \<Rightarrow> TreeRoot list \<Rightarrow> (tree_job list \<times> TreeRoot list) option" where
  "pair_trees lst_size sz rest =
     (if lst_size \<noteq> 1 \<and> rest \<noteq> [] then
        (case rest of
           t1 # t2 # rest' \<Rightarrow> do {
             (jobs, left) \<leftarrow> pair_trees (lst_size - 2) (sz - 1) rest';
             Some (\<lparr>jb_last = (sz = 2), jb_tree1 = t1, jb_tree2 = t2\<rparr> # jobs, t1 # left)
           }
         | _ \<Rightarrow> None)
      else Some ([], rest))"
  by pat_completeness auto
termination by (relation "measure (\<lambda>(l, sz, rest). length rest)") auto

declare pair_trees.simps [simp del]

text \<open>The outer loop; the jobs of one round run concurrently and are joined before the next one.\<close>

partial_function (option) reduce_trees :: "TreeRoot list \<Rightarrow> (tree_job list list \<times> TreeRoot list) option" where
  "reduce_trees trees =
     (if length trees > 1 then do {
        (jobs, left) \<leftarrow> pair_trees (int (length trees)) (length trees) trees;
        (rounds, left) \<leftarrow> reduce_trees left;
        Some (jobs # rounds, left)
      }
      else Some ([], trees))"

section \<open>The report\<close>

text \<open>The arguments that \<open>main\<close> makes for \<open>ReportRace\<close> from a pair of copied nodes.\<close>

definition race_args_of :: "it_data \<times> it_data \<Rightarrow> race_args" where
  "race_args_of p =
     (let i = fst p; j = snd p in
      (it_start i, size_type i AND 0x0F, size_type j AND 0x0F, drop_bit 4 (size_type i), drop_bit 4 (size_type j),
       pc i - 1, pc j - 1))"

text \<open>The report file, when there is anything to report; \<open>None\<close> when no file is written.\<close>

definition main_report ::
    "hash_fun \<Rightarrow> u8 list \<Rightarrow> string \<Rightarrow> 64 word \<Rightarrow> (it_data \<times> it_data) list \<Rightarrow> (string \<times> u8 list) option" where
  "main_report hc pad report_data pregion rep_races =
     (let rs = region_races hc (map race_args_of rep_races) in
      if length rs > 0 then
        Some (report_data @ ''/'' @ ''race_report_'' @ print_nat (unat pregion), SaveReport pad rs)
      else None)"

section \<open>What the scan finds\<close>

definition matches :: "64 word \<Rightarrow> 64 word \<Rightarrow> meta_line \<Rightarrow> bool" where
  "matches p b l \<longleftrightarrow> ml_pid l = p \<and> ml_bid l = b"

definition segment :: "meta_line \<Rightarrow> TraceInfo" where
  "segment l = mk_TraceInfo (ml_begin l) (ml_end l)"

text \<open>The segment of a thread: the last of its lines for the interval.\<close>

definition last_segment :: "64 word \<Rightarrow> 64 word \<Rightarrow> meta_line list \<Rightarrow> TraceInfo option" where
  "last_segment p b ls =
     (let ms = filter (matches p b) ls in if ms = [] then None else Some (segment (last ms)))"

definition metafile_name :: "uint \<Rightarrow> string" where
  "metafile_name t = ''metafile_'' @ print_nat (unat t)"

definition metafile :: "uint \<times> meta_line list \<Rightarrow> string \<times> string" where
  "metafile f = (metafile_name (fst f), concat (map print_meta (snd f)))"

lemma scan_tid_name: "scan_tid (metafile_name t) = Some t"
  using scan_uint_print[of "[]" t] by (simp add: scan_tid_def metafile_name_def)

lemma scan_lines_ok:
  assumes "\<forall>l\<in>set ls. meta_ok l"
  shows "scan_lines p b (Some t) (map meta_text ls) tr =
    Some (case last_segment p b ls of None \<Rightarrow> tr | Some g \<Rightarrow> tr(t \<mapsto> g))"
  using assms
  by (induction ls arbitrary: tr)
    (auto simp: scan_meta_text last_segment_def matches_def segment_def Let_def split: if_splits)

lemma sublist_metafile: "sublist ''metafile_'' (metafile_name t)"
  unfolding metafile_name_def by (rule sublist_append_rightI)

lemma scan_folder_ok:
  assumes "\<forall>(t, ls)\<in>set fs. \<forall>l\<in>set ls. meta_ok l" "distinct (map fst fs)"
  shows "scan_folder p b (map metafile fs) tr =
    Some (\<lambda>t. case map_of fs t of None \<Rightarrow> tr t | Some ls \<Rightarrow> (case last_segment p b ls of None \<Rightarrow> tr t | Some g \<Rightarrow> Some g))"
  using assms
proof (induction fs arbitrary: tr)
  case (Cons f fs)
  obtain t ls where f: "f = (t, ls)" by (cases f)
  have 1: "scan_lines p b (scan_tid (metafile_name t)) (getlines (concat (map print_meta ls))) tr =
    Some (case last_segment p b ls of None \<Rightarrow> tr | Some g \<Rightarrow> tr(t \<mapsto> g))"
    unfolding scan_tid_name getlines_metas by (rule scan_lines_ok) (use Cons.prems f in auto)
  have "t \<notin> fst ` set fs" using Cons.prems(2) f by simp
  then have t: "map_of fs t = None" by (simp add: map_of_eq_None_iff)
  have fs: "\<forall>(t, ls)\<in>set fs. \<forall>l\<in>set ls. meta_ok l" "distinct (map fst fs)" using Cons.prems by auto
  show ?case
    unfolding f list.map metafile_def fst_conv snd_conv scan_folder.simps
    using sublist_metafile[of t] t
    by (simp add: 1 Cons.IH[OF fs, unfolded metafile_def] fun_eq_iff split: option.splits)
qed simp

section \<open>What the reduction compares\<close>

text \<open>The inner loop as a function that does not fail.\<close>

fun pair_list :: "nat \<Rightarrow> TreeRoot list \<Rightarrow> tree_job list \<times> TreeRoot list" where
  "pair_list sz (t1 # t2 # ts) =
     (let (jobs, left) = pair_list (sz - 1) ts in
      (\<lparr>jb_last = (sz = 2), jb_tree1 = t1, jb_tree2 = t2\<rparr> # jobs, t1 # left))"
| "pair_list sz ts = ([], ts)"

lemma pair_trees_list: "pair_trees (int (length ts)) sz ts = Some (pair_list sz ts)"
proof (induction sz ts rule: pair_list.induct)
  case (1 sz t1 t2 ts)
  have "int (length (t1 # t2 # ts)) - 2 = int (length ts)" by simp
  then show ?case
    using 1 by (subst pair_trees.simps) (simp add: case_prod_beta' prod_eq_iff Let_def)
qed (simp_all add: pair_trees.simps)

lemma length_pair_list:
  "length (fst (pair_list sz ts)) = length ts div 2 \<and> length (snd (pair_list sz ts)) = length ts - length ts div 2"
  by (induction sz ts rule: pair_list.induct) (auto simp: case_prod_beta' Let_def)

lemma last_flags:
  "map jb_last (fst (pair_list sz ts)) = map (\<lambda>i. sz - i = 2) [0..<length ts div 2]"
proof (induction sz ts rule: pair_list.induct)
  case (1 sz t1 t2 ts)
  have "map (\<lambda>i. sz - i = 2) [0..<Suc n] = (sz = 2) # map (\<lambda>i. sz - 1 - i = 2) [0..<n]" for n
    by (simp add: map_upt_Suc del: upt_Suc)
  with 1 show ?case by (simp add: case_prod_beta' Let_def del: upt_Suc)
qed simp_all

text \<open>
  A job compares the threads merged so far into its two trees, and unless it is the last one merges the second
  into the first: \<open>g\<close> maps the thread of a tree to the threads whose accesses it holds.
\<close>

definition job_step :: "tree_job \<Rightarrow> (uint \<Rightarrow> uint list) \<times> (uint \<times> uint) list \<Rightarrow> (uint \<Rightarrow> uint list) \<times> (uint \<times> uint) list" where
  "job_step j x =
     (let g = fst x; a = g (tr_tid (jb_tree1 j)); b = g (tr_tid (jb_tree2 j)) in
      (if jb_last j then g else g(tr_tid (jb_tree1 j) := a @ b), snd x @ List.product a b))"

definition compared :: "tree_job list \<Rightarrow> (uint \<times> uint) list" where
  "compared js = snd (fold job_step js (\<lambda>t. [t], []))"

fun pairs_of :: "'a list \<Rightarrow> ('a \<times> 'a) list" where
  "pairs_of [] = []"
| "pairs_of (x # xs) = map (Pair x) xs @ pairs_of xs"

lemma product_append: "mset (List.product xs (ys @ zs)) = mset (List.product xs ys) + mset (List.product xs zs)"
  by (induction xs) auto

lemma mset_product_single: "mset (List.product xs [y]) = image_mset (\<lambda>x. (x, y)) (mset xs)"
  by (induction xs) auto

lemma pairs_of_append: "mset (pairs_of (xs @ ys)) = mset (pairs_of xs) + mset (pairs_of ys) + mset (List.product xs ys)"
  by (induction xs) auto

definition merge_step :: "tree_job \<Rightarrow> (uint \<Rightarrow> uint list) \<times> (uint \<times> uint) list \<Rightarrow> (uint \<Rightarrow> uint list) \<times> (uint \<times> uint) list" where
  "merge_step j = job_step (j\<lparr>jb_last := False\<rparr>)"

abbreviation (input) threads :: "(uint \<Rightarrow> uint list) \<Rightarrow> TreeRoot list \<Rightarrow> uint list" where
  "threads g ts \<equiv> concat (map (\<lambda>t. g (tr_tid t)) ts)"

abbreviation (input) inner :: "(uint \<Rightarrow> uint list) \<Rightarrow> TreeRoot list \<Rightarrow> (uint \<times> uint) multiset" where
  "inner g ts \<equiv> (\<Sum>t\<leftarrow>ts. mset (pairs_of (g (tr_tid t))))"

definition merged :: "TreeRoot list \<Rightarrow> tree_job list \<Rightarrow> TreeRoot list \<Rightarrow> bool" where
  "merged ts js left \<longleftrightarrow> (\<forall>g ps. \<exists>g' qs. fold merge_step js (g, ps) = (g', ps @ qs) \<and> threads g' left = threads g ts \<and>
     mset qs + inner g ts = inner g' left \<and> (\<forall>t. t \<notin> tr_tid ` set ts \<longrightarrow> g' t = g t)) \<and>
     distinct (map tr_tid left) \<and> set left \<subseteq> set ts"

lemma pair_list_merged:
  "distinct (map tr_tid ts) \<Longrightarrow> merged ts (fst (pair_list sz ts)) (snd (pair_list sz ts))"
proof (induction sz ts rule: pair_list.induct)
  case (1 sz t1 t2 ts)
  let ?r = "pair_list (sz - 1) ts"
  have IH: "merged ts (fst ?r) (snd ?r)" using 1 by simp
  have "\<exists>g' qs. fold merge_step (fst (pair_list sz (t1 # t2 # ts))) (g, ps) = (g', ps @ qs) \<and>
      threads g' (t1 # snd ?r) = threads g (t1 # t2 # ts) \<and> mset qs + inner g (t1 # t2 # ts) = inner g' (t1 # snd ?r) \<and>
      (\<forall>t. t \<notin> tr_tid ` set (t1 # t2 # ts) \<longrightarrow> g' t = g t)" for g ps
  proof -
    let ?a = "g (tr_tid t1)" and ?b = "g (tr_tid t2)"
    let ?g = "g(tr_tid t1 := ?a @ ?b)" and ?ps = "ps @ List.product ?a ?b"
    obtain g' qs where IH': "fold merge_step (fst ?r) (?g, ?ps) = (g', ?ps @ qs)" "threads g' (snd ?r) = threads ?g ts"
      "mset qs + inner ?g ts = inner g' (snd ?r)" "\<forall>t. t \<notin> tr_tid ` set ts \<longrightarrow> g' t = ?g t"
      using IH unfolding merged_def by meson
    have ne: "tr_tid t \<noteq> tr_tid t1" if "t \<in> set ts" for t
    proof
      assume "tr_tid t = tr_tid t1"
      then have "tr_tid t1 \<in> tr_tid ` set ts" using that by (metis imageI)
      then show False using 1(2) by simp
    qed
    have same: "map (\<lambda>t. ?g (tr_tid t)) ts = map (\<lambda>t. g (tr_tid t)) ts" using ne by simp
    have "inner ?g ts = inner g ts" by (intro arg_cong[of _ _ sum_list] map_cong refl) (use ne in simp)
    note inner_same = this
    have t1: "g' (tr_tid t1) = ?a @ ?b" using IH'(4) 1(2) by auto
    have run: "fold merge_step (fst (pair_list sz (t1 # t2 # ts))) (g, ps) = (g', ps @ List.product ?a ?b @ qs)"
      using IH'(1) by (simp add: case_prod_beta' Let_def merge_step_def job_step_def)
    have thr: "threads g' (t1 # snd ?r) = threads g (t1 # t2 # ts)"
      unfolding list.map concat.simps t1 IH'(2) same by simp
    have mm: "mset (List.product ?a ?b @ qs) + inner g (t1 # t2 # ts) = inner g' (t1 # snd ?r)"
      unfolding list.map sum_list.Cons t1 IH'(3)[symmetric] inner_same pairs_of_append by (simp add: ac_simps)
    have rest: "\<forall>t. t \<notin> tr_tid ` set (t1 # t2 # ts) \<longrightarrow> g' t = g t" using IH'(4) by auto
    show ?thesis using run thr mm rest by blast
  qed
  then show ?case
    using IH 1(2) by (auto simp: merged_def case_prod_beta' Let_def)
qed (auto simp: merged_def)

text \<open>The rounds.\<close>

lemma mergedD:
  assumes "merged ts js left"
  obtains g' qs where "fold merge_step js (g, ps) = (g', ps @ qs)" "threads g' left = threads g ts"
    "mset qs + inner g ts = inner g' left" "\<forall>t. t \<notin> tr_tid ` set ts \<longrightarrow> g' t = g t"
  using assms unfolding merged_def by meson

lemma merged_trans:
  assumes "merged ts js l" "merged l js' l'"
  shows "merged ts (js @ js') l'"
proof -
  have "\<exists>g' qs. fold merge_step (js @ js') (g, ps) = (g', ps @ qs) \<and> threads g' l' = threads g ts \<and>
     mset qs + inner g ts = inner g' l' \<and> (\<forall>t. t \<notin> tr_tid ` set ts \<longrightarrow> g' t = g t)" for g ps
  proof -
    obtain g1 q1 where 1: "fold merge_step js (g, ps) = (g1, ps @ q1)" "threads g1 l = threads g ts"
      "mset q1 + inner g ts = inner g1 l" "\<forall>t. t \<notin> tr_tid ` set ts \<longrightarrow> g1 t = g t"
      by (rule mergedD[OF assms(1)])
    obtain g2 q2 where 2: "fold merge_step js' (g1, ps @ q1) = (g2, (ps @ q1) @ q2)" "threads g2 l' = threads g1 l"
      "mset q2 + inner g1 l = inner g2 l'" "\<forall>t. t \<notin> tr_tid ` set l \<longrightarrow> g2 t = g1 t"
      by (rule mergedD[OF assms(2)])
    have "set l \<subseteq> set ts" using assms(1) by (simp add: merged_def)
    then have "\<forall>t. t \<notin> tr_tid ` set ts \<longrightarrow> g2 t = g t" using 1(4) 2(4) by (metis image_mono subsetD)
    moreover have "mset (q1 @ q2) + inner g ts = inner g2 l'"
      unfolding 2(3)[symmetric] 1(3)[symmetric] by (simp add: ac_simps)
    ultimately show ?thesis
      using 1(1,2) 2(1,2) by (intro exI[of _ g2] exI[of _ "q1 @ q2"]) (simp only: fold_append comp_apply append_assoc simp_thms)
  qed
  then show ?thesis using assms unfolding merged_def by (simp only: simp_thms) blast
qed

lemma merged_Nil: "distinct (map tr_tid ts) \<Longrightarrow> merged ts [] ts"
  by (simp add: merged_def)

lemma reduce_trees_ok:
  assumes "distinct (map tr_tid ts)" "ts \<noteq> []"
  shows "\<exists>rounds t. reduce_trees ts = Some (rounds, [t]) \<and> merged ts (concat rounds) [t] \<and>
    map jb_last (concat rounds) = map (\<lambda>i. length ts - i = 2) [0..<length ts - 1]"
  using assms
proof (induction "length ts" arbitrary: ts rule: less_induct)
  case less
  let ?n = "length ts"
  show ?case
  proof (cases "?n > 1")
    case False
    then obtain t where "ts = [t]" using less.prems(2) by (cases ts) auto
    then show ?thesis by (simp add: reduce_trees.simps merged_Nil)
  next
    case True
    obtain js left where p: "pair_list ?n ts = (js, left)" by (cases "pair_list ?n ts")
    have len: "length left = ?n - ?n div 2" using length_pair_list[of ?n ts] p by simp
    have m: "merged ts js left" using pair_list_merged[OF less.prems(1), of ?n] p by simp
    have fl: "map jb_last js = map (\<lambda>i. ?n - i = 2) [0..<?n div 2]" using last_flags[of ?n ts] p by simp
    have "length left < ?n" "left \<noteq> []" using True len by auto
    moreover have "distinct (map tr_tid left)" using m by (simp add: merged_def)
    ultimately obtain rounds t where r: "reduce_trees left = Some (rounds, [t])" "merged left (concat rounds) [t]"
      "map jb_last (concat rounds) = map (\<lambda>i. length left - i = 2) [0..<length left - 1]"
      using less.hyps[of left] by blast
    have "reduce_trees ts = Some (js # rounds, [t])"
      using True by (subst reduce_trees.simps) (simp add: pair_trees_list p r(1))
    moreover have "merged ts (concat (js # rounds)) [t]" using merged_trans[OF m r(2)] by simp
    moreover have "map jb_last (concat (js # rounds)) = map (\<lambda>i. ?n - i = 2) [0..<?n - 1]"
    proof -
      have "?n - 1 = ?n div 2 + (length left - 1)" using True len by linarith
      then have "[0..<?n - 1] = [0..<?n div 2] @ map (\<lambda>i. i + ?n div 2) [0..<length left - 1]"
        by (simp only: upt_add_eq_append[OF le0] map_add_upt) (simp add: add.commute)
      then show ?thesis using fl r(3) len by (simp add: comp_def add.commute)
    qed
    ultimately show ?thesis by blast
  qed
qed

lemma merge_steps:
  "\<forall>j\<in>set js. \<not> jb_last j \<Longrightarrow> fold job_step js x = fold merge_step js x"
proof (induction js arbitrary: x)
  case (Cons j js)
  have "j\<lparr>jb_last := False\<rparr> = j" using Cons.prems by simp
  then have "merge_step j x = job_step j x" by (simp only: merge_step_def)
  with Cons show ?case by simp
qed simp

lemma compared_merge:
  assumes "\<forall>j\<in>set (butlast js). \<not> jb_last j"
  shows "compared js = snd (fold merge_step js (\<lambda>t. [t], []))"
proof (cases js rule: rev_cases)
  case (snoc js' j)
  then have "\<forall>j\<in>set js'. \<not> jb_last j" using assms by simp
  note e = merge_steps[OF this]
  have "snd (job_step j x) = snd (merge_step j x)" for x by (simp add: merge_step_def job_step_def Let_def)
  then show ?thesis by (simp add: compared_def snoc e)
qed (simp add: compared_def)

section \<open>Properties\<close>

text \<open>C19: the folder of metafiles that the runtime writes, in any order, is scanned
  to the last segment of the interval of each thread, and no other thread.\<close>
theorem scan_folder_correct:
  assumes "\<forall>(t, ls)\<in>set fs. \<forall>l\<in>set ls. - (2 ^ 31) \<le> ml_level l \<and> ml_level l < 2 ^ 31" "distinct (map fst fs)"
  shows "scan_folder p b (map metafile fs) Map.empty =
    Some (\<lambda>t. case map_of fs t of None \<Rightarrow> None | Some ls \<Rightarrow> last_segment p b ls)"
proof -
  have "\<forall>(t, ls)\<in>set fs. \<forall>l\<in>set ls. meta_ok l" using assms(1) by (simp add: meta_ok_def)
  from scan_folder_ok[OF this assms(2), of p b Map.empty] show ?thesis
    by (simp add: fun_eq_iff split: option.splits)
qed

text \<open>C12: the reduction of the interval trees returns for every number of threads, never reads behind the end of the
  list, starts one job less than there are trees, flags exactly the final one as the last, and compares every two
  threads exactly once, whatever the rounds were.\<close>
theorem reduce_trees_correct:
  assumes "distinct (map tr_tid ts)" "ts \<noteq> []"
  shows "\<exists>rounds t. reduce_trees ts = Some (rounds, [t]) \<and>
    map jb_last (concat rounds) = replicate (length ts - 2) False @ replicate (if length ts = 1 then 0 else 1) True \<and>
    mset (compared (concat rounds)) = mset (pairs_of (map tr_tid ts))"
proof -
  obtain rounds t where r: "reduce_trees ts = Some (rounds, [t])" "merged ts (concat rounds) [t]"
    "map jb_last (concat rounds) = map (\<lambda>i. length ts - i = 2) [0..<length ts - 1]"
    using reduce_trees_ok[OF assms] by blast
  have fl: "map jb_last (concat rounds) = replicate (length ts - 2) False @ replicate (if length ts = 1 then 0 else 1) True"
  proof (cases "length ts = 1")
    case True
    then show ?thesis using r(3) by simp
  next
    case False
    then obtain n where n: "length ts = Suc (Suc n)" using assms(2) by (metis One_nat_def length_0_conv not0_implies_Suc)
    have "map (\<lambda>i. Suc (Suc n) - i = 2) [0..<n] = replicate n False" by (rule replicate_eqI) auto
    then show ?thesis using r(3) n by simp
  qed
  have "butlast (map jb_last (concat rounds)) = replicate (length ts - 2) False"
    unfolding fl by (cases "length ts = 1") (simp_all add: butlast_append)
  then have "set (map jb_last (butlast (concat rounds))) \<subseteq> {False}"
    by (simp add: map_butlast set_replicate_conv_if)
  then have nl: "\<forall>j\<in>set (butlast (concat rounds)). \<not> jb_last j" by auto
  obtain g' qs where g: "fold merge_step (concat rounds) (\<lambda>t. [t], []) = (g', [] @ qs)" "threads g' [t] = threads (\<lambda>t. [t]) ts"
    "mset qs + inner (\<lambda>t. [t]) ts = inner g' [t]"
    by (rule mergedD[OF r(2)])
  have "threads (\<lambda>t. [t]) ts = map tr_tid ts" by (induction ts) auto
  moreover have "inner (\<lambda>t. [t]) ts = {#}" by (induction ts) auto
  ultimately have "mset (compared (concat rounds)) = mset (pairs_of (map tr_tid ts))"
    using g compared_merge[OF nl] by simp
  then show ?thesis using r(1) fl by blast
qed

lemma reduce_trees_correct_witness:
  "\<exists>rounds t. reduce_trees [mk_TreeRoot 0 8, mk_TreeRoot 1 16, mk_TreeRoot 2 24] = Some (rounds, [t]) \<and>
    mset (compared (concat rounds)) = {#(0, 1), (0, 2), (1, 2)#}"
  using reduce_trees_correct[of "[mk_TreeRoot 0 8, mk_TreeRoot 1 16, mk_TreeRoot 2 24]"]
  by (auto simp: mk_TreeRoot_def)

lemma scan_folder_correct_witness:
  "scan_folder 3 1 (map metafile [(2, [sample_line, sample_line\<lparr>ml_bid := 2\<rparr>]), (0, [sample_line\<lparr>ml_pid := 4\<rparr>])]) Map.empty =
     Some [2 \<mapsto> mk_TraceInfo 120 99999]"
  using scan_folder_correct[of "[(2, [sample_line, sample_line\<lparr>ml_bid := 2\<rparr>]), (0, [sample_line\<lparr>ml_pid := 4\<rparr>])]" 3 1]
  by (auto simp: sample_line_def last_segment_def matches_def segment_def fun_eq_iff)

end
