(* ===== verification/Merge.thy ===== *)
theory Merge
  imports RbLocal Analysis Load
begin

text \<open>
  \<open>interval_tree_merge\<close> and \<open>interval_tree_remove\<close> of \<open>tools/interval_tree_generic.h\<close>, and \<open>analyze_trees\<close> of
  \<open>tools/sword-race-analysis.cc\<close>: the second tree of a comparison is taken apart node by node and its intervals are
  joined with, or added to, the first.
\<close>

section \<open>The code\<close>

definition interval_tree_remove :: "ptr \<Rightarrow> it_state \<Rightarrow> it_state option" where
  "interval_tree_remove node s = rb_erase_augmented augment_copy augment_propagate augment_rotate node s"

text \<open>The three places that compute the count again.\<close>

definition recount :: "it_data \<Rightarrow> it_data" where
  "recount parent =
     (if diff parent \<noteq> 0 then
        parent\<lparr>count := ucast ((it_last parent - it_start parent) div ucast (diff parent) + 1)\<rparr>
      else parent\<lparr>count := 1\<rparr>)"

text \<open>The tests of one step of the walk: whether \<open>node\<close> is merged into \<open>parent\<close>, and \<open>parent\<close> after the assignments.\<close>

definition join :: "it_data \<Rightarrow> it_data \<Rightarrow> bool \<times> it_data" where
  "join node parent =
     (if same_site node parent \<and> diff node = diff parent then
        if \<not> (count node = count parent \<and> count parent = 1) then
          if it_start parent - it_last node = ucast (diff parent) then
            (True, recount (parent\<lparr>it_start := it_start node\<rparr>))
          else if it_start node - it_last parent = ucast (diff parent) then
            (True, recount (parent\<lparr>it_last := it_last node\<rparr>))
          else if it_start node \<le> it_last parent \<and> it_start parent \<le> it_last node then
            (True, recount (parent
               \<lparr>it_start := (if it_start parent < it_start node then it_start parent else it_start node),
                it_last := (if it_last parent < it_last node then it_last node else it_last parent)\<rparr>))
          else (False, parent)
        else if it_start parent = it_start node then (True, parent)
        else (False, parent)
      else (False, parent))"

text \<open>
  The walk through the first tree: whether the node was merged, the link reached and \<open>rb_parent\<close>, a variable that
  starts uninitialised (\<open>None\<close>) and keeps its value from node to node. The data of \<open>node\<close>, which is in the other
  tree, does not change on the way.
\<close>

partial_function (option) merge_walk ::
    "it_data \<Rightarrow> link \<Rightarrow> ptr option \<Rightarrow> it_state \<Rightarrow> (bool \<times> link \<times> ptr option \<times> it_state) option" where
  "merge_walk node link rbp s = do {
     x \<leftarrow> get_link link s;
     if x = 0 then Some (False, link, rbp, s)
     else do {
       parent \<leftarrow> itf (\<lambda>d. d) x s;
       if fst (join node parent) then do {
         s \<leftarrow> itu (\<lambda>_. snd (join node parent)) x s;
         Some (True, link, Some x, s)
       }
       else do {
         sub \<leftarrow> itf subtree_last x s;
         s \<leftarrow> (if sub < it_last node then itu (subtree_last_update (\<lambda>_. it_last node)) x s else Some s);
         pstart \<leftarrow> itf it_start x s;
         if it_start node < pstart then merge_walk node (LeftLink x) (Some x) s
         else merge_walk node (RightLink x) (Some x) s
       }
     }
   }"

text \<open>The new node, linked below \<open>rb_parent\<close>; \<open>newp k\<close> is the address of the \<open>k\<close>-th allocation.\<close>

definition merge_new ::
    "(nat \<Rightarrow> ptr) \<Rightarrow> it_data \<Rightarrow> link \<Rightarrow> ptr option \<Rightarrow> nat \<Rightarrow> it_state \<Rightarrow> (nat \<times> it_state) option" where
  "merge_new newp node link rbp k s = do {
     s \<leftarrow> alloc_node (newp k) ((interval_tree_node (it_start node) (it_last node) (size_type node)
            (pc node) (mutex node))\<lparr>subtree_last := it_last node\<rparr>) s;
     p \<leftarrow> rbp;
     s \<leftarrow> Option.bind (rb_link_node (newp k) p link s) (rb_insert_augmented augment_rotate (newp k));
     Some (Suc k, s)
   }"

text \<open>The root in the state is that of the first tree, \<open>root2\<close> the cell of the second; \<open>free\<close> ends the node.\<close>

partial_function (option) merge_loop ::
    "(nat \<Rightarrow> ptr) \<Rightarrow> ptr \<Rightarrow> ptr option \<Rightarrow> ptr \<Rightarrow> nat \<Rightarrow> it_state \<Rightarrow> (nat \<times> ptr \<times> it_state) option" where
  "merge_loop newp node2 rbp root2 k s =
     (if node2 = 0 then Some (k, root2, s)
      else do {
        node \<leftarrow> itf (\<lambda>d. d) node2 s;
        (mrg, link, rbp, s) \<leftarrow> merge_walk node RootLink rbp s;
        (k, s) \<leftarrow> (if \<not> mrg then merge_new newp node link rbp k s else Some (k, s));
        prev \<leftarrow> rb_prev node2 s;
        s2 \<leftarrow> rb_erase node2 (s\<lparr>rb_root := root2\<rparr>);
        merge_loop newp prev rbp (rb_root s2) k (s2\<lparr>rb_root := rb_root s, mem := (mem s2)(node2 := None)\<rparr>)
      })"

definition interval_tree_merge ::
    "(nat \<Rightarrow> ptr) \<Rightarrow> ptr \<Rightarrow> nat \<Rightarrow> it_state \<Rightarrow> (nat \<times> ptr \<times> it_state) option" where
  "interval_tree_merge newp root2 k s = do {
     node2 \<leftarrow> rb_last (s\<lparr>rb_root := root2\<rparr>);
     merge_loop newp node2 None root2 k s
   }"

text \<open>One job: the trees are compared and, unless it is the last comparison, merged. A tree that does not exist is
  \<open>None\<close>; the result is the races and the cells of the two roots.\<close>

definition analyze_trees ::
    "glpk \<Rightarrow> (nat \<Rightarrow> ptr) \<Rightarrow> bool \<Rightarrow> ptr option \<Rightarrow> ptr option \<Rightarrow> (it_data \<times> it_data) list \<Rightarrow> nat \<Rightarrow> it_state \<Rightarrow>
       ((it_data \<times> it_data) list \<times> ptr option \<times> ptr option \<times> nat \<times> it_state) option" where
  "analyze_trees g newp islast t1 t2 rs k s =
     (case (t1, t2) of
        (Some root1, Some root2) \<Rightarrow> do {
          (rs, s) \<leftarrow> interval_tree_overlap g root2 rs (s\<lparr>rb_root := root1\<rparr>);
          if \<not> islast then do {
            (k, root2, s) \<leftarrow> interval_tree_merge newp root2 k s;
            Some (rs, Some (rb_root s), Some root2, k, s)
          }
          else Some (rs, Some (rb_root s), Some root2, k, s)
        }
      | _ \<Rightarrow> Some (rs, t1, t2, k, s))"

section \<open>Joining two intervals\<close>

text \<open>An interval that does not wrap around, neither itself nor one stride above it.\<close>

definition hull_ok :: "it_data \<Rightarrow> bool" where
  "hull_ok d \<longleftrightarrow> it_start d \<le> it_last d \<and> unat (it_last d) + unat (diff d) < 2 ^ 64"

text \<open>A node that counts one access spans one address.\<close>

definition single_ok :: "it_data \<Rightarrow> bool" where
  "single_ok d \<longleftrightarrow> (count d = 1 \<longrightarrow> it_last d = it_start d)"

definition covers :: "it_data \<Rightarrow> it_data \<Rightarrow> bool" where
  "covers b d \<longleftrightarrow> site b = site d \<and> it_start b \<le> it_start d \<and> it_last d \<le> it_last b"

lemma covers_refl [simp]: "covers d d"
  by (simp add: covers_def)

lemma covers_trans: "covers a b \<Longrightarrow> covers b c \<Longrightarrow> covers a c"
  by (auto simp: covers_def)

lemma hull_strip: "strip d = strip d' \<Longrightarrow> hull_ok d = hull_ok d' \<and> single_ok d = single_ok d' \<and>
    covers d e = covers d' e \<and> covers e d = covers e d'"
  by (drule strip_fields) (simp add: hull_ok_def single_ok_def covers_def site_def)

lemma recount_simps [simp]: "it_start (recount d) = it_start d" "it_last (recount d) = it_last d"
    "diff (recount d) = diff d" "site (recount d) = site d" "subtree_last (recount d) = subtree_last d"
  by (simp_all add: recount_def site_def)

lemma stride_above:
  fixes a b :: size_t and d :: uint
  assumes "b - a = ucast d" "unat a + unat d < 2 ^ 64"
  shows "a \<le> b"
proof -
  have "b = a + ucast d" using assms(1) by (metis diff_eq_eq add.commute)
  then have "unat b = unat a + unat d" using assms(2) by (simp add: unat_word_ariths)
  then show ?thesis by (simp add: word_le_nat_alt)
qed

lemma site_upd [simp]: "site (d\<lparr>it_start := a\<rparr>) = site d" "site (d\<lparr>it_last := b\<rparr>) = site d"
  by (simp_all add: site_def)

lemma join_ok:
  assumes "hull_ok node" "hull_ok parent" "single_ok node" "fst (join node parent)"
  shows "hull_ok (snd (join node parent)) \<and> covers (snd (join node parent)) node \<and> covers (snd (join node parent)) parent"
proof -
  let ?p = "snd (join node parent)"
  let ?b = "it_start parent - it_last node = ucast (diff parent)"
  let ?a = "it_start node - it_last parent = ucast (diff parent)"
  let ?c = "count node = count parent \<and> count parent = 1"
  have ss': "same_site node parent" "diff node = diff parent"
    using assms(4) by (simp_all add: join_def split: if_split_asm)
  then have ss: "site node = site parent" "diff node = diff parent" by (simp_all add: same_site_iff)
  note H = assms(1,2)[unfolded hull_ok_def]
  consider (below) "?b" "?p = recount (parent\<lparr>it_start := it_start node\<rparr>)"
    | (above) "?a" "?p = recount (parent\<lparr>it_last := it_last node\<rparr>)"
    | (meet) "?p = recount (parent\<lparr>it_start := (if it_start parent < it_start node then it_start parent else it_start node),
         it_last := (if it_last parent < it_last node then it_last node else it_last parent)\<rparr>)"
    | (same) "?p = parent" "it_start parent = it_start node" "count node = 1"
  proof (cases ?c)
    case True
    then have "it_start parent = it_start node" using assms(4) ss' by (simp add: join_def split: if_split_asm)
    then show ?thesis using same True ss' by (simp add: join_def)
  next
    case False
    note j = join_def[of node parent, simplified ss' simp_thms if_True, simplified False not_False_eq_True if_True]
    show ?thesis
    proof (cases ?b)
      case True
      then show ?thesis using below j by simp
    next
      case nb: False
      show ?thesis
      proof (cases ?a)
        case True
        then show ?thesis using above j nb by simp
      next
        case na: False
        then show ?thesis using meet j nb assms(4) by (simp split: if_split_asm)
      qed
    qed
  qed
  then show ?thesis
  proof cases
    case below
    have "it_last node \<le> it_start parent" using stride_above[OF below(1)] H ss(2) by simp
    then show ?thesis using H ss by (auto simp: below(2) hull_ok_def covers_def)
  next
    case above
    have "it_last parent \<le> it_start node" using stride_above[OF above(1)] H by simp
    then show ?thesis using H ss by (auto simp: above(2) hull_ok_def covers_def)
  next
    case meet
    then show ?thesis using H ss by (auto simp: hull_ok_def covers_def)
  next
    case same
    then show ?thesis using H ss assms(2,3) by (auto simp: hull_ok_def covers_def single_ok_def)
  qed
qed

section \<open>The walk\<close>

definition walked ::
    "it_data \<Rightarrow> ptree \<Rightarrow> frame list \<Rightarrow> ptr option \<Rightarrow> it_state \<Rightarrow> bool \<Rightarrow> link \<Rightarrow> ptr option \<Rightarrow> it_state \<Rightarrow> bool" where
  "walked node t k rbp s mrg link rbp' s' \<longleftrightarrow>
     rb_root s' = rb_root s \<and> links (mem s') = links (mem s) \<and>
     (\<forall>y. y \<notin> set (inorder t) \<longrightarrow> mores (mem s') y = mores (mem s) y) \<and>
     (let m = mores (mem s); m' = mores (mem s') in
      if mrg then (\<exists>x\<in>set (inorder t). fst (join node (dat m x)) \<and>
          stripm m' = (stripm m)(x \<mapsto> strip (snd (join node (dat m x)))))
      else stripm m' = stripm m \<and>
        (\<exists>k'. link = clink k' \<and> plug Leaf k' = plug t k \<and> (if t = Leaf then rbp' = rbp \<and> k' = k else rbp' = Some (cpar k'))))"

lemma walked_step:
  assumes w: "walked node t1 k1 (Some x) s1 b link rbp' s'" and "rb_root s1 = rb_root s" "links (mem s1) = links (mem s)"
    and "stripm (mores (mem s1)) = stripm (mores (mem s))"
    and out: "\<And>y. y \<noteq> x \<Longrightarrow> mores (mem s1) y = mores (mem s) y" "x \<notin> set (inorder t1)"
    and t: "plug t1 k1 = plug t k" "set (inorder t1) \<subseteq> set (inorder t)" "x \<in> set (inorder t)" "cpar k1 = x"
  shows "walked node t k rbp s b link rbp' s'"
proof -
  have ds: "dat (mores (mem s1)) y = dat (mores (mem s)) y" if "y \<in> set (inorder t1)" for y
  proof -
    have "y \<noteq> x" using that out(2) by auto
    then show ?thesis using out(1)[of y] by simp
  qed
  have t': "t \<noteq> Leaf" using t(3) by auto
  have y: "mores (mem s') y = mores (mem s) y" if "y \<notin> set (inorder t)" for y
  proof -
    have "y \<notin> set (inorder t1)" "y \<noteq> x" using t(2,3) that by auto
    then show ?thesis using w[unfolded walked_def] out(1)[of y] by simp
  qed
  show ?thesis
  proof (cases b)
    case True
    with w obtain z where z: "z \<in> set (inorder t1)" "fst (join node (dat (mores (mem s1)) z))"
      "stripm (mores (mem s')) = (stripm (mores (mem s1)))(z \<mapsto> strip (snd (join node (dat (mores (mem s1)) z))))"
      by (auto simp: walked_def Let_def)
    have "z \<in> set (inorder t)" using z(1) t(2) by blast
    moreover have "rb_root s' = rb_root s" "links (mem s') = links (mem s)" using w assms(2,3) by (simp_all add: walked_def)
    ultimately show ?thesis using True y z ds[OF z(1)] assms(4) by (simp add: walked_def Let_def) blast
  next
    case False
    with w obtain k' where k': "link = clink k'" "plug Leaf k' = plug t1 k1"
      "if t1 = Leaf then rbp' = Some x \<and> k' = k1 else rbp' = Some (cpar k')"
      and sm: "stripm (mores (mem s')) = stripm (mores (mem s1))"
      by (auto simp: walked_def Let_def)
    have "rbp' = Some (cpar k')" using k'(3) t(4) by (auto split: if_splits)
    moreover have "rb_root s' = rb_root s" "links (mem s') = links (mem s)" using w assms(2,3) by (simp_all add: walked_def)
    moreover have "plug Leaf k' = plug t k" using k'(2) t(1) by simp
    ultimately show ?thesis using y t' k'(1) sm assms(4) False by (simp add: walked_def Let_def) blast
  qed
qed

lemma merge_walk_ok:
  "tree_rep s (plug t k) \<Longrightarrow>
   \<exists>b link rbp' s'. merge_walk node (clink k) rbp s = Some (b, link, rbp', s') \<and> walked node t k rbp s b link rbp' s'"
proof (induction t arbitrary: k s rbp)
  case Leaf
  then have "crep (mem s) (rb_root s) k 0" by (simp add: tree_rep_plug)
  from get_link_ok[OF this] show ?case
    by (auto simp: merge_walk.simps[of node "clink k"] walked_def)
next
  case (Node l x c r)
  let ?m = "mores (mem s)"
  let ?d = "dat ?m x"
  have na: "node_at (mem s) x (cpar k) c (rootp l) (rootp r)" and cr: "crep (mem s) (rb_root s) k x"
    and d: "distinct (inorder l @ x # inorder r)"
    using Node.prems by (auto simp: tree_rep_plug)
  then obtain n where n: "mem s x = Some n" "x \<noteq> 0" by (auto simp: node_at_mem)
  then have mx: "?m x = Some (rb_node.more n)" and dx: "rb_node.more n = ?d" by (simp_all add: mores_Some)
  have fx: "itf f x s = Some (f ?d)" for f using n dx by (simp add: itf_Some)
  note run = merge_walk.simps[of node "clink k" rbp s] get_link_ok[OF cr]
  show ?case
  proof (cases "fst (join node ?d)")
    case True
    obtain s0 where s0: "itu (\<lambda>_. snd (join node ?d)) x s = Some s0" "rb_root s0 = rb_root s"
      "links (mem s0) = links (mem s)" "mores (mem s0) = ?m(x \<mapsto> snd (join node ?d))"
      using itu_ok[OF n(2,1), of "\<lambda>_. snd (join node ?d)"] by blast
    have "merge_walk node (clink k) rbp s = Some (True, clink k, Some x, s0)"
      using n(2) fx[of "\<lambda>d. d"] s0(1) True by (simp add: run)
    moreover have "walked node (Node l x c r) k rbp s True (clink k) (Some x) s0"
      using True s0(2-4) by (auto simp: walked_def Let_def stripm_upd_Some)
    ultimately show ?thesis by blast
  next
    case False
    obtain s1 where s1: "(if subtree_last ?d < it_last node then itu (subtree_last_update (\<lambda>_. it_last node)) x s else Some s) = Some s1"
      "rb_root s1 = rb_root s" "links (mem s1) = links (mem s)"
      "mores (mem s1) = ?m(x \<mapsto> ?d\<lparr>subtree_last := max (subtree_last ?d) (it_last node)\<rparr>)"
      using raise_sub_ok[OF n(2,1), of "it_last node"] dx by auto
    have f1: "itf it_start x s1 = Some (it_start ?d)" using n(2) by (simp add: itf_mores s1(4))
    have step: "merge_walk node (clink k) rbp s =
      (if it_start node < it_start ?d then merge_walk node (LeftLink x) (Some x) s1
       else merge_walk node (RightLink x) (Some x) s1)"
      using n(2) fx[of "\<lambda>d. d"] fx[of subtree_last] f1 s1(1) False by (simp add: run)
    have sm: "stripm (mores (mem s1)) = stripm ?m"
      using mx dx s1(4) by (simp add: stripm_upd del: fun_upd_apply)
    have tr: "tree_rep s1 (plug l (LHole x c r # k))" "tree_rep s1 (plug r (RHole l x c # k))"
      using Node.prems tree_rep_links[OF s1(3,2)] by simp_all
    have out: "mores (mem s1) y = ?m y" if "y \<noteq> x" for y using that s1(4) by simp
    show ?thesis
    proof (cases "it_start node < it_start ?d")
      case True
      obtain b lk rb' s' where q: "merge_walk node (LeftLink x) (Some x) s1 = Some (b, lk, rb', s')"
        "walked node l (LHole x c r # k) (Some x) s1 b lk rb' s'"
        using Node.IH(1)[OF tr(1), of "Some x"] by auto
      have "walked node (Node l x c r) k rbp s b lk rb' s'"
        by (rule walked_step[OF q(2) s1(2,3) sm out]) (use d in auto)
      with step True q(1) show ?thesis by auto
    next
      case False
      obtain b lk rb' s' where q: "merge_walk node (RightLink x) (Some x) s1 = Some (b, lk, rb', s')"
        "walked node r (RHole l x c # k) (Some x) s1 b lk rb' s'"
        using Node.IH(2)[OF tr(2), of "Some x"] by auto
      have "walked node (Node l x c r) k rbp s b lk rb' s'"
        by (rule walked_step[OF q(2) s1(2,3) sm out]) (use d in auto)
      with step False q(1) show ?thesis by auto
    qed
  qed
qed

lemma dat_strip: "stripm m x = Some (strip d) \<Longrightarrow> strip (dat m x) = strip d"
  by (auto simp: stripm_def)

lemma stripm_at: "m x \<noteq> None \<Longrightarrow> stripm m x = Some (strip (dat m x))"
  by (auto simp: stripm_def)

lemma go_right_root:
  assumes "go_right n s = Some y"
  shows "go_right n (s\<lparr>rb_root := r\<rparr>) = Some y"
proof (rule go_right.raw_induct[OF _ assms, where P = "\<lambda>n s y. go_right n (s\<lparr>rb_root := r\<rparr>) = Some y"])
  fix f :: "ptr \<Rightarrow> 'a rbs \<Rightarrow> ptr option" and n s y
  assume IH: "\<And>n s y. f n s = Some y \<Longrightarrow> go_right n (s\<lparr>rb_root := r\<rparr>) = Some y"
    and "do { r \<leftarrow> ld rb_right n s; if r \<noteq> 0 then f r s else Some n } = Some y"
  then show "go_right n (s\<lparr>rb_root := r\<rparr>) = Some y"
    by (auto simp: go_right.simps[of n] bind_eq_Some_conv split: if_splits)
qed

lemma climb_left_root:
  assumes "climb_left n s = Some y"
  shows "climb_left n (s\<lparr>rb_root := r\<rparr>) = Some y"
proof (rule climb_left.raw_induct[OF _ assms, where P = "\<lambda>n s y. climb_left n (s\<lparr>rb_root := r\<rparr>) = Some y"])
  fix f :: "ptr \<Rightarrow> 'a rbs \<Rightarrow> ptr option" and n s y
  assume IH: "\<And>n s y. f n s = Some y \<Longrightarrow> climb_left n (s\<lparr>rb_root := r\<rparr>) = Some y"
    and "do { parent \<leftarrow> rb_parent n s; if parent = 0 then Some parent
          else do { q \<leftarrow> ld rb_left parent s; if n = q then f parent s else Some parent } } = Some y"
  then show "climb_left n (s\<lparr>rb_root := r\<rparr>) = Some y"
    by (auto simp: climb_left.simps[of n] bind_eq_Some_conv rb_parent_def split: if_splits)
qed

lemma rb_prev_root:
  assumes "rb_prev n s = Some y"
  shows "rb_prev n (s\<lparr>rb_root := r\<rparr>) = Some y"
proof (cases "rb_empty_node n s = Some True")
  case True
  with assms show ?thesis by (simp add: rb_prev_def rb_empty_node_def)
next
  case False
  with assms obtain q where q: "rb_empty_node n s = Some False" "ld rb_left n s = Some q"
    "(if q \<noteq> 0 then go_right q s else climb_left n s) = Some y"
    by (auto simp: rb_prev_def bind_eq_Some_conv)
  have "(if q \<noteq> 0 then go_right q (s\<lparr>rb_root := r\<rparr>) else climb_left n (s\<lparr>rb_root := r\<rparr>)) = Some y"
    using q(3) go_right_root[of q s y r] climb_left_root[of n s y r] by (cases "q = 0") auto
  with q(1,2) show ?thesis by (simp add: rb_prev_def rb_empty_node_def)
qed

section \<open>What merging keeps\<close>

text \<open>
  The contract of joining two intervals, from the point of view of the merge: \<open>own\<close> holds of the intervals of the
  first tree, \<open>inq\<close> of those that come in, and \<open>cov\<close> relates an interval to the ones that went into it.
\<close>

definition copied :: "it_data \<Rightarrow> it_data" where
  "copied node = (interval_tree_node (it_start node) (it_last node) (size_type node) (pc node) (mutex node))
     \<lparr>subtree_last := it_last node\<rparr>"

text \<open>The first tree before and after: \<open>m\<close> and \<open>m'\<close> are the data, \<open>P\<close> and \<open>Q\<close> the nodes.\<close>

definition absorbs :: "(it_data \<Rightarrow> bool) \<Rightarrow> (it_data \<Rightarrow> it_data \<Rightarrow> bool) \<Rightarrow> it_map \<Rightarrow> ptr set \<Rightarrow> it_data \<Rightarrow> it_map \<Rightarrow> ptr set \<Rightarrow> bool" where
  "absorbs own cov m P node m' Q \<longleftrightarrow> P \<subseteq> Q \<and> (\<forall>x\<in>Q. own (dat m' x)) \<and> (\<forall>x\<in>P. cov (dat m' x) (dat m x)) \<and>
     (\<exists>x\<in>Q. cov (dat m' x) node) \<and> (\<forall>x\<in>Q. site (dat m' x) = site node \<or> (\<exists>y\<in>P. site (dat m' x) = site (dat m y)))"

definition placed_node ::
    "(it_data \<Rightarrow> bool) \<Rightarrow> (it_data \<Rightarrow> it_data \<Rightarrow> bool) \<Rightarrow> (nat \<Rightarrow> ptr) \<Rightarrow> it_data \<Rightarrow> nat \<Rightarrow> it_state \<Rightarrow> ptree \<Rightarrow> nat \<Rightarrow> it_state \<Rightarrow> ptree \<Rightarrow> bool" where
  "placed_node own cov newp node k s t k' s' T \<longleftrightarrow> tree_rep s' T \<and> rb_tree T \<and> k \<le> k' \<and> k' \<le> Suc k \<and>
     set (inorder T) = set (inorder t) \<union> newp ` {k..<k'} \<and> (\<forall>x. x \<notin> set (inorder T) \<longrightarrow> mem s' x = mem s x) \<and>
     absorbs own cov (mores (mem s)) (set (inorder t)) node (mores (mem s')) (set (inorder T))"

definition merging_by ::
    "(it_data \<Rightarrow> bool) \<Rightarrow> (it_data \<Rightarrow> bool) \<Rightarrow> (nat \<Rightarrow> ptr) \<Rightarrow> nat \<Rightarrow> ptr \<Rightarrow> it_state \<Rightarrow> ptree \<Rightarrow> ptree \<Rightarrow> bool" where
  "merging_by inq own newp k root2 s t1 t2 \<longleftrightarrow> tree_rep s t1 \<and> rb_tree t1 \<and> t1 \<noteq> Leaf \<and>
     tree_rep (s\<lparr>rb_root := root2\<rparr>) t2 \<and> rb_tree t2 \<and> set (inorder t1) \<inter> set (inorder t2) = {} \<and>
     (\<forall>x\<in>set (inorder t1). own (dat (mores (mem s)) x)) \<and>
     (\<forall>x\<in>set (inorder t2). inq (dat (mores (mem s)) x)) \<and> fresh_supply newp s k (length (inorder t2))"

text \<open>What one round of the loop, or all of them, does to the first tree and to the store.\<close>

definition moved ::
    "(it_data \<Rightarrow> it_data \<Rightarrow> bool) \<Rightarrow> (nat \<Rightarrow> ptr) \<Rightarrow> ptr set \<Rightarrow> ptr set \<Rightarrow> nat \<Rightarrow> it_state \<Rightarrow> ptree \<Rightarrow> nat \<Rightarrow> it_state \<Rightarrow> ptree \<Rightarrow> bool" where
  "moved cov newp A B k s t k' s' T \<longleftrightarrow> k \<le> k' \<and> k' \<le> k + card A \<and> set (inorder T) = set (inorder t) \<union> newp ` {k..<k'} \<and>
     (\<forall>x\<in>A. mem s' x = None) \<and> (\<forall>x. x \<notin> set (inorder T) \<union> B \<longrightarrow> mem s' x = mem s x) \<and>
     (\<forall>x\<in>set (inorder t) \<union> A. \<exists>y\<in>set (inorder T). cov (dat (mores (mem s')) y) (dat (mores (mem s)) x)) \<and>
     (\<forall>y\<in>set (inorder T). \<exists>x\<in>set (inorder t) \<union> A. site (dat (mores (mem s')) y) = site (dat (mores (mem s)) x))"

text \<open>The nodes of two lists of intervals in one: each is covered, none is of another site.\<close>

definition gathered_by :: "(it_data \<Rightarrow> it_data \<Rightarrow> bool) \<Rightarrow> it_map \<Rightarrow> ptr set \<Rightarrow> it_map \<Rightarrow> ptr set \<Rightarrow> bool" where
  "gathered_by cov m P m' Q \<longleftrightarrow> (\<forall>x\<in>P. \<exists>y\<in>Q. cov (dat m' y) (dat m x)) \<and>
     (\<forall>y\<in>Q. \<exists>x\<in>P. site (dat m' y) = site (dat m x))"

abbreviation (input) merging where
  "merging \<equiv> merging_by (\<lambda>d. hull_ok d \<and> single_ok d) hull_ok"

abbreviation (input) gathered where
  "gathered \<equiv> gathered_by covers"

locale joining =
  fixes inq own :: "it_data \<Rightarrow> bool" and cov :: "it_data \<Rightarrow> it_data \<Rightarrow> bool"
  assumes inq_strip: "strip d = strip e \<Longrightarrow> inq e \<Longrightarrow> inq d"
    and own_strip: "strip d = strip e \<Longrightarrow> own e \<Longrightarrow> own d"
    and cov_strip: "strip d = strip e \<Longrightarrow> cov e f \<Longrightarrow> cov d f"
    and cov_strip_right: "strip d = strip e \<Longrightarrow> cov f e \<Longrightarrow> cov f d"
    and cov_refl: "cov d d"
    and cov_trans: "cov d e \<Longrightarrow> cov e f \<Longrightarrow> cov d f"
    and cov_site: "cov d e \<Longrightarrow> site d = site e"
    and cov_join: "inq node \<Longrightarrow> own parent \<Longrightarrow> fst (join node parent) \<Longrightarrow>
      own (snd (join node parent)) \<and> cov (snd (join node parent)) node \<and> cov (snd (join node parent)) parent"
    and cov_copied: "inq node \<Longrightarrow> own (copied node) \<and> cov (copied node) node"
begin

lemma absorbs_joined:
  assumes P: "\<forall>x\<in>P. m x \<noteq> None \<and> own (dat m x)" and node: "inq node"
    and z: "z \<in> P" "fst (join node (dat m z))"
    and sm: "stripm m' = (stripm m)(z \<mapsto> strip (snd (join node (dat m z))))"
  shows "absorbs own cov m P node m' P"
proof -
  let ?p = "snd (join node (dat m z))"
  have J: "own ?p" "cov ?p node" "cov ?p (dat m z)" using cov_join[OF node _ z(2)] P z(1) by auto
  have sz: "strip (dat m' z) = strip ?p" by (rule dat_strip) (simp add: sm)
  have sx: "strip (dat m' x) = strip (dat m x)" if "x \<in> P" "x \<noteq> z" for x
    by (rule dat_strip) (use that P stripm_at[of m x] in \<open>simp add: sm\<close>)
  have c: "cov (dat m' x) (dat m x)" "own (dat m' x)" if "x \<in> P" for x
  proof -
    have "cov (dat m' x) (dat m x) \<and> own (dat m' x)"
    proof (cases "x = z")
      case True
      then show ?thesis using J sz cov_strip own_strip by blast
    next
      case False
      then show ?thesis using sx[OF that] P that cov_strip[OF _ cov_refl] own_strip by blast
    qed
    then show "cov (dat m' x) (dat m x)" "own (dat m' x)" by auto
  qed
  moreover have "cov (dat m' z) node" using cov_strip[OF sz J(2)] .
  moreover have "\<exists>y\<in>P. site (dat m' x) = site (dat m y)" if "x \<in> P" for x using cov_site[OF c(1)[OF that]] that by blast
  ultimately show ?thesis using z(1) unfolding absorbs_def by blast
qed

lemma absorbs_added:
  assumes P: "\<forall>x\<in>P. m x \<noteq> None \<and> own (dat m x)" "z \<notin> P" and node: "inq node"
    and sm: "stripm m' = (stripm m)(z \<mapsto> strip d)" and d: "own d" "cov d node"
  shows "absorbs own cov m P node m' (insert z P)"
proof -
  have sz: "strip (dat m' z) = strip d" by (rule dat_strip) (simp add: sm)
  have sx: "strip (dat m' x) = strip (dat m x)" if "x \<in> P" for x
    by (rule dat_strip) (use that P stripm_at[of m x] in \<open>auto simp: sm\<close>)
  have z: "cov (dat m' z) node" "own (dat m' z)" using sz d cov_strip own_strip by blast+
  have c: "cov (dat m' x) (dat m x)" "own (dat m' x)" if "x \<in> P" for x
    using sx[OF that] P that cov_strip[OF _ cov_refl] own_strip by blast+
  have "\<exists>y\<in>P. site (dat m' x) = site (dat m y)" if "x \<in> P" for x using cov_site[OF c(1)[OF that]] that by blast
  then show ?thesis using z c cov_site[OF z(1)] unfolding absorbs_def by blast
qed

lemma place_ok:
  assumes tr: "tree_rep s t" "rb_tree t" "t \<noteq> Leaf" and H: "\<forall>x\<in>set (inorder t). own (dat (mores (mem s)) x)"
    and node: "inq node" and p: "newp k \<noteq> 0" "aligned (newp k)" "mem s (newp k) = None"
  shows "\<exists>mrg link rbp' s1 k' s' T. merge_walk node RootLink rbp s = Some (mrg, link, rbp', s1) \<and>
    (if \<not> mrg then merge_new newp node link rbp' k s1 else Some (k, s1)) = Some (k', s') \<and>
    placed_node own cov newp node k s t k' s' T"
proof -
  let ?m = "mores (mem s)"
  have tr0: "tree_rep s (plug t [])" using tr(1) by simp
  obtain b lk rb' s1 where w: "merge_walk node RootLink rbp s = Some (b, lk, rb', s1)"
    and W: "walked node t [] rbp s b lk rb' s1"
    using merge_walk_ok[OF tr0, of node rbp] by auto
  have L: "rb_root s1 = rb_root s" "links (mem s1) = links (mem s)"
    and O: "\<And>y. y \<notin> set (inorder t) \<Longrightarrow> mores (mem s1) y = ?m y"
    using W by (auto simp: walked_def)
  have t1: "tree_rep s1 t" using tr(1) tree_rep_links[OF L(2,1)] by simp
  have out1: "mem s1 y = mem s y" if "y \<notin> set (inorder t)" for y
    by (rule mem_links) (simp_all add: L O that)
  have P: "\<forall>x\<in>set (inorder t). ?m x \<noteq> None \<and> own (dat ?m x)"
    using H tree_rep_dom[OF tr(1)] by (simp add: mores_def)
  show ?thesis
  proof (cases b)
    case True
    obtain z where z: "z \<in> set (inorder t)" "fst (join node (dat ?m z))"
      "stripm (mores (mem s1)) = (stripm ?m)(z \<mapsto> strip (snd (join node (dat ?m z))))"
      using W True by (auto simp: walked_def Let_def)
    have "placed_node own cov newp node k s t k s1 t"
      using t1 tr(2) out1 absorbs_joined[OF P node z] by (simp add: placed_node_def)
    moreover have "(if \<not> b then merge_new newp node lk rb' k s1 else Some (k, s1)) = Some (k, s1)" using True by simp
    ultimately show ?thesis using w by blast
  next
    case False
    then obtain c where c: "lk = clink c" "plug Leaf c = t" "rb' = Some (cpar c)" and sm: "stripm (mores (mem s1)) = stripm ?m"
      using W tr(3) by (auto simp: walked_def Let_def)
    let ?d = "(interval_tree_node (it_start node) (it_last node) (size_type node) (pc node) (mutex node))
      \<lparr>subtree_last := it_last node\<rparr>"
    have npt: "newp k \<notin> set (inorder t)" using tree_rep_dom[OF tr(1), of "newp k"] p(3) by auto
    have p1: "mem s1 (newp k) = None" using out1[OF npt] p(3) by simp
    have t1': "tree_rep s1 (plug Leaf c)" "rb_tree (plug Leaf c)" using t1 tr(2) c(2) by simp_all
    obtain s2 s' T where A: "alloc_node (newp k) ?d s1 = Some s2"
      "Option.bind (rb_link_node (newp k) (cpar c) (clink c) s2) (rb_insert_augmented augment_rotate (newp k)) = Some s'"
      "tree_rep s' T" "rb_tree T" "inorder T = cpre c @ newp k # cpost c"
      "stripm (mores (mem s')) = (stripm (mores (mem s1)))(newp k \<mapsto> strip ?d)"
      "\<forall>x. x \<notin> insert (newp k) (set (cpre c) \<union> set (cpost c)) \<longrightarrow> mem s' x = mem s1 x"
      using add_beside[OF t1' p(1,2) p1, of ?d] by blast
    have io: "set (inorder t) = set (cpre c) \<union> set (cpost c)" using c(2) inorder_plug[of Leaf c] by auto
    have d: "own ?d" "cov ?d node" using cov_copied[OF node] by (simp_all add: copied_def)
    have ab: "absorbs own cov ?m (set (inorder t)) node (mores (mem s')) (insert (newp k) (set (inorder t)))"
      by (rule absorbs_added[OF P npt node _ d]) (simp add: A(6) sm)
    have "placed_node own cov newp node k s t (Suc k) s' T"
      using A(3-5,7) ab io out1 by (simp add: placed_node_def)
    moreover have "(if \<not> b then merge_new newp node lk rb' k s1 else Some (k, s1)) = Some (Suc k, s')"
      using False c(1,3) A(1,2) by (auto simp: merge_new_def bind_eq_Some_conv)
    ultimately show ?thesis using w by blast
  qed
qed

lemma merge_step_ok:
  assumes M: "merging_by inq own newp k root2 s t1 t2" and a: "inorder t2 = ys @ [a]"
  shows "\<exists>rbp' root2' k' s' T1 T2. merge_loop newp a rbp root2 k s = merge_loop newp (last0 ys) rbp' root2' k' s' \<and>
    merging_by inq own newp k' root2' s' T1 T2 \<and> inorder T2 = ys \<and> (\<forall>x\<in>set ys. mores (mem s') x = mores (mem s) x) \<and>
    moved cov newp {a} (set (inorder t2)) k s t1 k' s' T1"
proof -
  let ?m = "mores (mem s)"
  let ?node = "dat ?m a"
  note M' = M[unfolded merging_by_def fresh_supply_def]
  have d2: "distinct (inorder t2)" using M' by (simp add: tree_rep_def)
  have a0: "a \<noteq> 0" "mem s a \<noteq> None"
    using M' a tree_rep_dom[of "s\<lparr>rb_root := root2\<rparr>" t2 a] rep_nonnull[of "mem s" 0 t2]
    by (auto simp: tree_rep_def)
  then have na: "itf (\<lambda>d. d) a s = Some ?node" by (auto simp: itf_mores mores_def)
  have nd: "inq ?node" using M' a by auto
  have "k \<in> {k..<k + length (inorder t2)}" using a by simp
  then have fk: "newp k \<noteq> 0" "aligned (newp k)" "mem s (newp k) = None" using M' by blast+
  obtain mrg lk rb' s1 k' s2 T1 where w: "merge_walk ?node RootLink rbp s = Some (mrg, lk, rb', s1)"
    "(if \<not> mrg then merge_new newp ?node lk rb' k s1 else Some (k, s1)) = Some (k', s2)"
    and P: "placed_node own cov newp ?node k s t1 k' s2 T1"
    using place_ok[of s t1 ?node newp k rbp] nd fk M' by blast
  have new: "newp j \<notin> set (inorder t2)" "newp j \<notin> set (inorder t1)" if "j \<in> {k..<k + Suc (length ys)}" for j
    using M' that a tree_rep_dom[of "s\<lparr>rb_root := root2\<rparr>" t2 "newp j"] tree_rep_dom[of s t1 "newp j"] by auto
  have iT: "set (inorder T1) = set (inorder t1) \<union> newp ` {k..<k'}" and kk: "k \<le> k'" "k' \<le> Suc k"
    using P by (simp_all add: placed_node_def)
  have "newp j \<notin> set (inorder t2)" if "j \<in> {k..<k'}" for j using new(1)[of j] that kk by simp
  then have dj: "set (inorder T1) \<inter> set (inorder t2) = {}" using iT M' by auto
  have o2: "mem s2 x = mem s x" if "x \<notin> set (inorder T1)" for x using P that by (simp add: placed_node_def)
  have e2: "mem s2 x = mem s x" if "x \<in> set (inorder t2)" for x using o2[of x] dj that by blast
  have t2: "tree_rep (s2\<lparr>rb_root := root2\<rparr>) t2"
    using tree_rep_mem[of t2 "s2\<lparr>rb_root := root2\<rparr>" "s\<lparr>rb_root := root2\<rparr>"] e2 M' by simp
  have pv: "rb_prev a s2 = Some (last0 ys)"
    using rb_prev_root[of a "s2\<lparr>rb_root := root2\<rparr>" "last0 ys" "rb_root s2"] rb_prev_ok[OF t2 a] by simp
  obtain s3 T2 where E: "rb_erase a (s2\<lparr>rb_root := root2\<rparr>) = Some s3" "tree_rep s3 T2" "rb_tree T2" "inorder T2 = ys"
    "mores (mem s3) = mores (mem s2)" "\<forall>x. x \<notin> set (inorder t2) \<longrightarrow> mem s3 x = mem s2 x"
    using erase_beside[OF t2 _ a] M' by auto
  let ?s' = "s3\<lparr>rb_root := rb_root s2, mem := (mem s3)(a := None)\<rparr>"
  have aT: "a \<notin> set (inorder T1)" "a \<notin> set ys" using dj a d2 by auto
  have run: "merge_loop newp a rbp root2 k s = merge_loop newp (last0 ys) rb' (rb_root s3) k' ?s'"
    using a0(1) na w pv E(1) by (simp add: merge_loop.simps[of newp a])
  have m1: "mem ?s' x = mem s2 x" if "x \<in> set (inorder T1)" for x using that E(6) dj aT by auto
  have tr1: "tree_rep ?s' T1"
    using tree_rep_mem[of T1 ?s' s2] m1 P by (simp add: placed_node_def)
  have tr2: "tree_rep (?s'\<lparr>rb_root := rb_root s3\<rparr>) T2"
  proof -
    have "mem (?s'\<lparr>rb_root := rb_root s3\<rparr>) x = mem s3 x" if "x \<in> set (inorder T2)" for x
      using that aT(2) unfolding E(4) by auto
    from tree_rep_mem[OF this] E(2) show ?thesis by simp
  qed
  have my: "mores (mem ?s') x = ?m x" if "x \<in> set ys" for x
    using that E(5) e2[of x] a aT by (auto simp: mores_def dest: fun_cong[of _ _ x])
  have mT: "mores (mem ?s') x = mores (mem s2) x" if "x \<in> set (inorder T1)" for x
    using m1[OF that] by (simp add: mores_def)
  have ab: "absorbs own cov ?m (set (inorder t1)) ?node (mores (mem s2)) (set (inorder T1))" using P unfolding placed_node_def by blast
  have fr: "fresh_supply newp ?s' k' (length ys)"
  proof -
    have "newp j \<noteq> 0 \<and> aligned (newp j) \<and> mem ?s' (newp j) = None" if j: "j \<in> {k'..<k' + length ys}" for j
    proof -
      have kj: "j \<in> {k..<k + Suc (length ys)}" using j kk by simp
      have "newp j \<noteq> newp i" if "i \<in> {k..<k'}" for i
        using that j kk M' a by (auto simp: inj_on_eq_iff)
      then have "newp j \<notin> newp ` {k..<k'}" by blast
      then have "newp j \<notin> set (inorder T1)" "newp j \<notin> set (inorder t2)" using new[OF kj] iT by auto
      then have "mem s3 (newp j) = mem s (newp j)" using E(6) o2 by simp
      then show ?thesis using M' kj a by simp
    qed
    moreover have "inj_on newp {k'..<k' + length ys}" by (rule inj_on_subset[of newp "{k..<k + length (inorder t2)}"]) (use M' kk a in auto)
    ultimately show ?thesis by (simp add: fresh_supply_def)
  qed
  have T1: "T1 \<noteq> Leaf" using iT M' by (cases t1) auto
  have h1: "own (dat (mores (mem ?s')) x)" if "x \<in> set (inorder T1)" for x
    using ab that mT[OF that] by (simp add: absorbs_def)
  have h2: "inq (dat (mores (mem ?s')) x)" if "x \<in> set ys" for x
    using my[OF that] M' a that by simp
  have "merging_by inq own newp k' (rb_root s3) ?s' T1 T2"
    unfolding merging_by_def using tr1 tr2 T1 P E(3) dj a h1 h2 fr by (auto simp: placed_node_def E(4))
  moreover have "moved cov newp {a} (set (inorder t2)) k s t1 k' ?s' T1"
  proof -
    have "mem ?s' x = mem s x" if "x \<notin> set (inorder T1) \<union> set (inorder t2)" for x
      using that E(6) o2 a by simp
    moreover have "\<exists>y\<in>set (inorder T1). cov (dat (mores (mem ?s')) y) (dat ?m x)" if x: "x \<in> set (inorder t1) \<union> {a}" for x
    proof -
      obtain y where "y \<in> set (inorder T1)" "cov (dat (mores (mem s2)) y) (dat ?m x)"
        using x ab unfolding absorbs_def by blast
      then show ?thesis using mT[of y] by metis
    qed
    moreover have "\<exists>x\<in>set (inorder t1) \<union> {a}. site (dat (mores (mem ?s')) y) = site (dat ?m x)" if "y \<in> set (inorder T1)" for y
      using that ab unfolding mT[OF that] absorbs_def by blast
    ultimately show ?thesis using P iT by (simp add: moved_def placed_node_def)
  qed
  ultimately show ?thesis using run E(4) my by blast
qed

lemma moved_trans:
  assumes m1: "moved cov newp {a} (set (ys @ [a])) k s t k1 s1 T1" and m2: "moved cov newp (set ys) (set ys) k1 s1 T1 k' s' T"
    and keep: "\<forall>x\<in>set ys. mores (mem s1) x = mores (mem s) x" and a: "a \<notin> set (inorder T)" "distinct (ys @ [a])"
  shows "moved cov newp (set (ys @ [a])) (set (ys @ [a])) k s t k' s' T"
proof -
  let ?A = "set (ys @ [a])" and ?m = "mores (mem s)" and ?m1 = "mores (mem s1)" and ?m' = "mores (mem s')"
  note M1 = m1[unfolded moved_def] and M2 = m2[unfolded moved_def]
  have k: "k \<le> k'" "k' \<le> k + card ?A" using M1 M2 a(2) by auto
  have "{k..<k'} = {k..<k1} \<union> {k1..<k'}" using M1 M2 by auto
  then have T: "set (inorder T) = set (inorder t) \<union> newp ` {k..<k'}" using M1 M2 by auto
  have "mem s' a = None" using M1 M2 a by auto
  then have gone: "\<forall>x\<in>?A. mem s' x = None" using M2 by simp
  have out: "\<forall>x. x \<notin> set (inorder T) \<union> ?A \<longrightarrow> mem s' x = mem s x" using M1 M2 by auto
  have c: "\<exists>y\<in>set (inorder T). cov (dat ?m' y) (dat ?m x)" if "x \<in> set (inorder t) \<union> ?A" for x
  proof (cases "x \<in> set ys")
    case True
    then obtain y where "y \<in> set (inorder T)" "cov (dat ?m' y) (dat ?m1 x)" using M2 by blast
    then show ?thesis using keep True by auto
  next
    case False
    then have "x \<in> set (inorder t) \<union> {a}" using that by auto
    then obtain y where y: "y \<in> set (inorder T1)" "cov (dat ?m1 y) (dat ?m x)" using M1 by blast
    then obtain z where "z \<in> set (inorder T)" "cov (dat ?m' z) (dat ?m1 y)" using M2 by blast
    then show ?thesis using y(2) cov_trans by blast
  qed
  have f: "\<exists>x\<in>set (inorder t) \<union> ?A. site (dat ?m' y) = site (dat ?m x)" if y: "y \<in> set (inorder T)" for y
  proof -
    obtain x where x: "x \<in> set (inorder T1) \<union> set ys" "site (dat ?m' y) = site (dat ?m1 x)" using M2 y by blast
    show ?thesis
    proof (cases "x \<in> set ys")
      case True
      then show ?thesis using x(2) keep by auto
    next
      case False
      then obtain z where "z \<in> set (inorder t) \<union> {a}" "site (dat ?m1 x) = site (dat ?m z)" using M1 x(1) by blast
      then show ?thesis using x(2) by auto
    qed
  qed
  show ?thesis using k T gone out c f by (simp add: moved_def)
qed

lemma merge_loop_ok:
  "merging_by inq own newp k root2 s t1 t2 \<Longrightarrow> inorder t2 = ys \<Longrightarrow>
   \<exists>k' s' T. merge_loop newp (last0 ys) rbp root2 k s = Some (k', 0, s') \<and> tree_rep s' T \<and> rb_tree T \<and>
     (\<forall>x\<in>set (inorder T). own (dat (mores (mem s')) x)) \<and> moved cov newp (set ys) (set ys) k s t1 k' s' T"
proof (induction ys arbitrary: k root2 s t1 t2 rbp rule: rev_induct)
  case Nil
  then have "t2 = Leaf" by (cases t2) auto
  then have "root2 = 0" using Nil.prems by (simp add: merging_by_def tree_rep_def)
  then have "merge_loop newp (last0 []) rbp root2 k s = Some (k, 0, s)" by (simp add: merge_loop.simps[of newp 0])
  moreover have "moved cov newp (set []) (set []) k s t1 k s t1"
    unfolding moved_def using cov_refl by (simp, blast)
  ultimately show ?case using Nil.prems by (auto simp: merging_by_def)
next
  case (snoc a ys)
  obtain rbp' root2' k1 s1 T1 T2 where S: "merge_loop newp a rbp root2 k s = merge_loop newp (last0 ys) rbp' root2' k1 s1"
    "merging_by inq own newp k1 root2' s1 T1 T2" "inorder T2 = ys" "\<forall>x\<in>set ys. mores (mem s1) x = mores (mem s) x"
    "moved cov newp {a} (set (inorder t2)) k s t1 k1 s1 T1"
    using merge_step_ok[OF snoc.prems, of rbp] by blast
  obtain k' s' T where R: "merge_loop newp (last0 ys) rbp' root2' k1 s1 = Some (k', 0, s')" "tree_rep s' T" "rb_tree T"
    "\<forall>x\<in>set (inorder T). own (dat (mores (mem s')) x)" "moved cov newp (set ys) (set ys) k1 s1 T1 k' s' T"
    using snoc.IH[OF S(2,3), of rbp'] by blast
  have tr2: "tree_rep (s\<lparr>rb_root := root2\<rparr>) t2" using snoc.prems(1) by (simp add: merging_by_def)
  have d: "distinct (ys @ [a])" using tr2 snoc.prems(2) by (simp add: tree_rep_def)
  have "mem s a \<noteq> None" using tree_rep_dom[OF tr2, of a] snoc.prems(2) by simp
  then have an: "a \<noteq> newp j" if "j \<in> {k..<k + Suc (length ys)}" for j
    using snoc.prems that by (auto simp: merging_by_def fresh_supply_def)
  have a1: "a \<notin> set (inorder t1)" using snoc.prems by (auto simp: merging_by_def)
  have k1: "k \<le> k1" "k1 \<le> Suc k" "set (inorder T1) = set (inorder t1) \<union> newp ` {k..<k1}"
    using S(5) by (simp_all add: moved_def)
  have k': "k1 \<le> k'" "k' \<le> k1 + length ys" "set (inorder T) = set (inorder T1) \<union> newp ` {k1..<k'}"
    using R(5) d by (simp_all add: moved_def distinct_card)
  have "newp ` {k..<k1} \<subseteq> newp ` {k..<k + Suc (length ys)}" "newp ` {k1..<k'} \<subseteq> newp ` {k..<k + Suc (length ys)}"
    by (rule image_mono, use k1(1,2) k'(1,2) in auto)+
  moreover have "a \<notin> newp ` {k..<k + Suc (length ys)}" using an by blast
  ultimately have "a \<notin> newp ` {k..<k1}" "a \<notin> newp ` {k1..<k'}" by blast+
  then have aT: "a \<notin> set (inorder T)" using a1 k1(3) k'(3) by simp
  have "moved cov newp (set (ys @ [a])) (set (ys @ [a])) k s t1 k' s' T"
    by (rule moved_trans[OF _ R(5) S(4) aT d]) (use S(5) snoc.prems(2) in simp)
  moreover have "last0 (ys @ [a]) = a" by (simp add: last0_append)
  ultimately show ?case using S(1) R(1-4) by auto
qed

lemma interval_tree_merge_ok:
  assumes M: "merging_by inq own newp k root2 s t1 t2"
  shows "\<exists>k' s' T. interval_tree_merge newp root2 k s = Some (k', 0, s') \<and> tree_rep s' T \<and> rb_tree T \<and>
    (\<forall>x\<in>set (inorder T). own (dat (mores (mem s')) x)) \<and>
    moved cov newp (set (inorder t2)) (set (inorder t2)) k s t1 k' s' T"
proof -
  have "rb_last (s\<lparr>rb_root := root2\<rparr>) = Some (last0 (inorder t2))" using M by (simp add: merging_by_def rb_last_ok)
  then show ?thesis using merge_loop_ok[OF M refl, of None] by (simp add: interval_tree_merge_def)
qed

lemma merging_stripm:
  assumes "merging_by inq own newp k root2 s t1 t2" "stripm (mores (mem s')) = stripm (mores (mem s))"
    and "tree_rep s' t1" "tree_rep (s'\<lparr>rb_root := root2\<rparr>) t2"
  shows "merging_by inq own newp k root2 s' t1 t2"
proof -
  have sx: "strip (dat (mores (mem s')) x) = strip (dat (mores (mem s)) x)" if "x \<in> set (inorder t1) \<union> set (inorder t2)" for x
  proof -
    have "mem s x \<noteq> None" using that assms(1) tree_rep_dom[of s t1 x] tree_rep_dom[of "s\<lparr>rb_root := root2\<rparr>" t2 x]
      by (auto simp: merging_by_def)
    then show ?thesis using stripm_dat[OF assms(2)[symmetric], of x] by (simp add: mores_def)
  qed
  have h: "own (dat (mores (mem s')) x)" if x: "x \<in> set (inorder t1)" for x
    using own_strip[OF sx] assms(1) x by (simp add: merging_by_def)
  have g: "inq (dat (mores (mem s')) x)" if x: "x \<in> set (inorder t2)" for x
    using inq_strip[OF sx] assms(1) x by (simp add: merging_by_def)
  have "mem s' x = None \<longleftrightarrow> mem s x = None" for x using stripm_None[OF assms(2), of x] by (simp add: mores_def)
  then have "fresh_supply newp s' k (length (inorder t2))" using assms(1) by (simp add: merging_by_def fresh_supply_def)
  then show ?thesis using assms h g by (simp add: merging_by_def)
qed

lemma moved_gathered: "moved cov newp A B k s t k' s' T \<Longrightarrow> gathered_by cov (mores (mem s)) (set (inorder t) \<union> A) (mores (mem s')) (set (inorder T))"
  unfolding moved_def gathered_by_def by blast

lemma gathered_strip:
  assumes g: "gathered_by cov m1 P m' Q" and e: "\<And>x. x \<in> P \<Longrightarrow> strip (dat m x) = strip (dat m1 x)"
  shows "gathered_by cov m P m' Q"
proof -
  have "\<exists>y\<in>Q. cov (dat m' y) (dat m x)" if x: "x \<in> P" for x
  proof -
    obtain y where "y \<in> Q" "cov (dat m' y) (dat m1 x)" using g x by (auto simp: gathered_by_def)
    then show ?thesis using cov_strip_right[OF e[OF x]] by blast
  qed
  moreover have "\<exists>x\<in>P. site (dat m' y) = site (dat m x)" if y: "y \<in> Q" for y
  proof -
    obtain x where "x \<in> P" "site (dat m' y) = site (dat m1 x)" using g y unfolding gathered_by_def by blast
    then show ?thesis using site_strip[OF e] by metis
  qed
  ultimately show ?thesis by (simp add: gathered_by_def)
qed

lemma analyze_trees_ok:
  assumes M: "merging_by inq own newp k root2 (s\<lparr>rb_root := root1\<rparr>) t1 t2"
  shows "\<exists>R s' T k' root2'. analyze_trees g newp islast (Some root1) (Some root2) rs k s
      = Some (rs @ R, Some (rb_root s'), Some root2', k', s') \<and>
    map strip2 R = concat (map (\<lambda>a. map strip2 (found g (mores (mem s)) a t1)) (inorder t2)) \<and>
    tree_rep s' T \<and> rb_tree T \<and>
    (if islast then T = t1 \<and> k' = k \<and> tree_rep (s'\<lparr>rb_root := root2'\<rparr>) t2 \<and> stripm (mores (mem s')) = stripm (mores (mem s)) \<and>
       (\<forall>x. x \<notin> set (inorder t1) \<longrightarrow> mem s' x = mem s x)
     else root2' = 0 \<and> (\<forall>x\<in>set (inorder T). own (dat (mores (mem s')) x)) \<and>
       k \<le> k' \<and> k' \<le> k + length (inorder t2) \<and> set (inorder T) = set (inorder t1) \<union> newp ` {k..<k'} \<and>
       gathered_by cov (mores (mem s)) (set (inorder t1) \<union> set (inorder t2)) (mores (mem s')) (set (inorder T)) \<and>
       (\<forall>x\<in>set (inorder t2). mem s' x = None) \<and>
       (\<forall>x. x \<notin> set (inorder T) \<union> set (inorder t2) \<longrightarrow> mem s' x = mem s x))"
proof -
  let ?s = "s\<lparr>rb_root := root1\<rparr>"
  have A: "tree_rep ?s t1" "tree_rep (?s\<lparr>rb_root := root2\<rparr>) t2" "set (inorder t1) \<inter> set (inorder t2) = {}" "rb_tree t1"
    using M by (simp_all add: merging_by_def)
  obtain R s1 where O: "interval_tree_overlap g root2 rs ?s = Some (rs @ R, s1)"
    "map strip2 R = concat (map (\<lambda>a. map strip2 (found g (mores (mem ?s)) a t1)) (inorder t2))"
    "tree_rep s1 t1" "tree_rep (s1\<lparr>rb_root := root2\<rparr>) t2" "stripm (mores (mem s1)) = stripm (mores (mem ?s))"
    "\<forall>y. y \<notin> set (inorder t1) \<longrightarrow> mem s1 y = mem ?s y"
    using interval_tree_overlap_ok[OF A(1-3)] by blast
  show ?thesis
  proof (cases islast)
    case True
    then show ?thesis using O A(4) by (simp add: analyze_trees_def)
  next
    case False
    have M1: "merging_by inq own newp k root2 s1 t1 t2" by (rule merging_stripm[OF M O(5,3,4)])
    obtain k' s' T where m: "interval_tree_merge newp root2 k s1 = Some (k', 0, s')" "tree_rep s' T" "rb_tree T"
      "\<forall>x\<in>set (inorder T). own (dat (mores (mem s')) x)"
      "moved cov newp (set (inorder t2)) (set (inorder t2)) k s1 t1 k' s' T"
      using interval_tree_merge_ok[OF M1] by blast
    have g: "gathered_by cov (mores (mem s)) (set (inorder t1) \<union> set (inorder t2)) (mores (mem s')) (set (inorder T))"
    proof (rule gathered_strip[OF moved_gathered[OF m(5)]])
      fix x assume "x \<in> set (inorder t1) \<union> set (inorder t2)"
      then have "mem s1 x \<noteq> None" using tree_rep_dom[OF O(3), of x] tree_rep_dom[OF O(4), of x] by auto
      then show "strip (dat (mores (mem s)) x) = strip (dat (mores (mem s1)) x)"
        using stripm_dat[OF O(5), of x] by (simp add: mores_def)
    qed
    have "card (set (inorder t2)) = length (inorder t2)" using A(2) by (simp add: tree_rep_def distinct_card)
    then have k: "k \<le> k'" "k' \<le> k + length (inorder t2)" "set (inorder T) = set (inorder t1) \<union> newp ` {k..<k'}"
      "\<forall>x\<in>set (inorder t2). mem s' x = None"
      using m(5) by (simp_all add: moved_def)
    have f: "\<forall>x. x \<notin> set (inorder T) \<union> set (inorder t2) \<longrightarrow> mem s' x = mem s x"
    proof (intro allI impI)
      fix x assume x: "x \<notin> set (inorder T) \<union> set (inorder t2)"
      then have "mem s' x = mem s1 x" using m(5) by (simp add: moved_def)
      moreover have "x \<notin> set (inorder t1)" using x k(3) by blast
      ultimately show "mem s' x = mem s x" using O(6) by simp
    qed
    have run: "analyze_trees g newp islast (Some root1) (Some root2) rs k s =
        Some (rs @ R, Some (rb_root s'), Some 0, k', s')"
      using False O(1) m(1) by (simp add: analyze_trees_def)
    show ?thesis
      by (rule exI[of _ R], rule exI[of _ s'], rule exI[of _ T], rule exI[of _ k'], rule exI[of _ 0])
        (use run O(2) m(2-4) k(1,2,4) g f k(3) False in \<open>simp only: if_False simp_thms\<close>, simp)
  qed
qed

end

interpretation cv: joining "\<lambda>d. hull_ok d \<and> single_ok d" hull_ok covers
proof unfold_locales
  fix d e f node parent
  show "strip d = strip e \<Longrightarrow> hull_ok e \<and> single_ok e \<Longrightarrow> hull_ok d \<and> single_ok d"
    and "strip d = strip e \<Longrightarrow> hull_ok e \<Longrightarrow> hull_ok d"
    and "strip d = strip e \<Longrightarrow> covers e f \<Longrightarrow> covers d f" and "strip d = strip e \<Longrightarrow> covers f e \<Longrightarrow> covers f d"
    using hull_strip by blast+
  show "hull_ok node \<and> single_ok node \<Longrightarrow> hull_ok parent \<Longrightarrow> fst (join node parent) \<Longrightarrow>
    hull_ok (snd (join node parent)) \<and> covers (snd (join node parent)) node \<and> covers (snd (join node parent)) parent"
    using join_ok by blast
  show "covers d e \<Longrightarrow> covers e f \<Longrightarrow> covers d f" by (rule covers_trans)
qed (simp_all add: hull_ok_def covers_def copied_def interval_tree_node_def site_def)

text \<open>With nothing in the first tree the new node is linked below an uninitialised pointer.\<close>

lemma merge_into_empty:
  assumes "rb_root s = 0" "tree_rep (s\<lparr>rb_root := root2\<rparr>) t2" "t2 \<noteq> Leaf"
  shows "interval_tree_merge newp root2 k s = None"
proof -
  let ?a = "last0 (inorder t2)"
  have "inorder t2 \<noteq> []" using assms(3) by (cases t2) auto
  then have "?a = last (inorder t2)" by (cases "inorder t2") auto
  then have "?a \<in> set (inorder t2)" using \<open>inorder t2 \<noteq> []\<close> by simp
  then have a: "?a \<noteq> 0" "mem s ?a \<noteq> None"
    using assms(2) tree_rep_dom[OF assms(2)] rep_nonnull[of "mem s" 0 t2 ?a] by (auto simp: tree_rep_def)
  then obtain d where d: "itf (\<lambda>d. d) ?a s = Some d" by (auto simp: itf_mores mores_def)
  have "merge_walk d RootLink None s = Some (False, RootLink, None, s)"
    using assms(1) by (simp add: merge_walk.simps[of d RootLink])
  moreover have "merge_new newp d RootLink None k s = None"
    by (auto simp: merge_new_def bind_eq_None_conv alloc_node_def)
  ultimately have "merge_loop newp ?a None root2 k s = None" using a(1) d by (simp add: merge_loop.simps[of newp ?a])
  then show ?thesis using rb_last_ok[OF assms(2)] by (simp add: interval_tree_merge_def)
qed

section \<open>Properties\<close>


definition newp8 :: "nat \<Rightarrow> ptr" where
  "newp8 j = 40 + 8 * of_nat j"

lemma two_trees_merging: "merging newp8 0 32 (two_trees 200) tree3 tree1"
proof -
  have "fresh_supply newp8 (two_trees 200) 0 (length (inorder tree1))"
    by (simp add: fresh_supply_def tree1_def newp8_def aligned_def two_trees_defs)
  moreover have "set (inorder tree3) = {8, 16, 24}" "set (inorder tree1) = {32}" by (auto simp: tree3_def tree1_def)
  ultimately show ?thesis
    using two_trees_rep(1)[of 200] two_trees_rep(2)[of 200] two_trees_rep(3) tree3_rb
    by (simp add: merging_by_def two_trees_defs hull_ok_def single_ok_def) (simp add: tree3_def tree1_def rb_tree_def)
qed




text \<open>Merging anything into an empty tree uses the uninitialised \<open>rb_parent\<close>: it is undefined. A thread with an
  empty log has an empty tree.\<close>
theorem merge_into_empty_undefined:
  assumes "tree_rep (s\<lparr>rb_root := root2\<rparr>) t2" "t2 \<noteq> Leaf"
  shows "interval_tree_merge newp root2 k (s\<lparr>rb_root := 0\<rparr>) = None"
  by (rule merge_into_empty[OF _ _ assms(2)]) (use assms(1) in simp_all)

theorem merge_into_empty_undefined_witness: "interval_tree_merge newp8 32 0 (two_trees 200\<lparr>rb_root := 0\<rparr>) = None"
  by (rule merge_into_empty_undefined[OF two_trees_rep(2)]) (simp add: tree1_def)

text \<open>A store with two trees of one node: a single access, and the strided one at 100, 200, 300.\<close>

definition strided :: it_data where
  "strided = (interval_tree_node 100 300 0x31 7 {})\<lparr>subtree_last := 300, count := 3, diff := 100\<rparr>"

definition stride_pair :: it_state where
  "stride_pair = \<lparr>rb_root = 8, mem = [8 \<mapsto> mk_node 1 0 0 ((interval_tree_node 50 50 0x31 5 {})\<lparr>subtree_last := 50\<rparr>),
     16 \<mapsto> mk_node 1 0 0 strided]\<rparr>"

definition probe :: it_data where
  "probe = interval_tree_node 150 150 0x31 9 {}"

text \<open>A merged interval loses its stride: the accesses at 100, 200 and 300 become one access from 100 to 300, and
  an access of another thread at 150, which meets none of them, is then reported as a race with it.\<close>
theorem merge_forgets_stride:
  "(\<exists>s'. interval_tree_merge newp8 16 0 stride_pair = Some (1, 0, s') \<and>
      strip (dat (mores (mem s')) 40) = strip (interval_tree_node 100 300 0x31 7 {})) \<and>
   \<not> report_test ref_glpk probe strided 150 150 \<and> report_test ref_glpk probe (interval_tree_node 100 300 0x31 7 {}) 150 150"
proof -
  note defs = strided_def probe_def interval_tree_node_def
  have far: "\<not> meet (Suc (Suc 0)) 4 probe strided"
  proof
    assume "meet (Suc (Suc 0)) 4 probe strided"
    then obtain j b1 b2 :: nat where "j < 4" "b1 < 8" "b2 < 8" "150 + b1 = 100 + j * 100 + b2"
      by (auto simp: meet_def defs access_size_def)
    then show False by presburger
  qed
  then have "\<not> solve_mip ref_glpk probe strided"
    using solve_mip_meet[of ref_glpk probe strided] ref_glpk_ok by (simp add: defs access_size_def)
  then have "\<not> report_test ref_glpk probe strided 150 150" by (simp add: report_test_def Let_def defs)
  moreover have "report_test ref_glpk probe (interval_tree_node 100 300 0x31 7 {}) 150 150"
    by (simp add: report_test_def race_def get_access_type_def probe_def interval_tree_node_def)
  moreover have "\<exists>s'. interval_tree_merge newp8 16 0 stride_pair = Some (1, 0, s') \<and>
      strip (dat (mores (mem s')) 40) = strip (interval_tree_node 100 300 0x31 7 {})"
    by (simp add: interval_tree_merge_def stride_pair_def rb_last_def go_right.simps merge_loop.simps merge_walk.simps
        join_def same_site_def strided_def interval_tree_node_def itf_def itu_def ld_def st_def mk_node_def Let_def newp8_def
        merge_new_def alloc_node_def rb_link_node_def rb_insert_augmented_def rb_insert_def rb_insert_loop.simps
        set_pc_def set_right_def set_left_def rb_red_parent_def rb_is_black_def rb_parent_def pc_is_black_def pc_color_def pc_parent_def
        rb_change_child_def rb_empty_node_def rb_prev_def climb_left.simps rb_erase_def rb_erase_augmented_def er_unlink_def dummy_propagate_def mores_def strip_def)
  ultimately show ?thesis by blast
qed

end
