(* ===== verification/Pipeline.thy ===== *)
theory Pipeline
  imports Merge
begin

text \<open>
  \<open>main\<close> of \<open>tools/sword-race-analysis.cc\<close> from the metafiles to the report: the trees of the threads are loaded, the
  jobs of each round of the reduction run \<open>analyze_trees\<close> on them, and the races they find are reported. The
  theorem follows every reported race back to accesses that two threads logged. The runs are without \<open>--print\<close>, and the
  threads that load the traces, which share nothing but \<open>rep_races\<close>, are taken one after the other.
\<close>

section \<open>The code\<close>

text \<open>
  What the threads share: \<open>rep_races\<close>, the cells that \<open>new rb_root()\<close> returned, the allocations made and the store.
\<close>

record run =
  rn_races :: "(it_data \<times> it_data) list"
  rn_roots :: "ptr \<Rightarrow> ptr"
  rn_next :: nat
  rn_store :: it_state

definition cell :: "ptr \<Rightarrow> run \<Rightarrow> ptr option" where
  "cell c x = (if c = 0 then None else Some (rn_roots x c))"

definition set_cell :: "ptr \<Rightarrow> ptr option \<Rightarrow> (ptr \<Rightarrow> ptr) \<Rightarrow> ptr \<Rightarrow> ptr" where
  "set_cell c r f = (case r of None \<Rightarrow> f | Some p \<Rightarrow> f(c := p))"

text \<open>The body of the thread of one job.\<close>

definition thread_job :: "glpk \<Rightarrow> (nat \<Rightarrow> ptr) \<Rightarrow> tree_job \<Rightarrow> run \<Rightarrow> run option" where
  "thread_job g newp j x =
     (let c1 = tr_root (jb_tree1 j); c2 = tr_root (jb_tree2 j) in do {
        (rs, r1, r2, k, s) \<leftarrow> analyze_trees g newp (jb_last j) (cell c1 x) (cell c2 x) (rn_races x) (rn_next x) (rn_store x);
        Some \<lparr>rn_races = rs, rn_roots = set_cell c2 r2 (set_cell c1 r1 (rn_roots x)), rn_next = k, rn_store = s\<rparr>
      })"

fun thread_jobs :: "glpk \<Rightarrow> (nat \<Rightarrow> ptr) \<Rightarrow> tree_job list \<Rightarrow> run \<Rightarrow> run option" where
  "thread_jobs g newp [] x = Some x"
| "thread_jobs g newp (j # js) x = do { x \<leftarrow> thread_job g newp j x; thread_jobs g newp js x }"

text \<open>
  The jobs of a round run concurrently on trees that no two of them share, and lock the list of races for each of
  them: \<open>sched\<close> is the order in which they run. All are joined before the next round.
\<close>

type_synonym scheduler = "tree_job list \<Rightarrow> tree_job list"

fun run_rounds :: "glpk \<Rightarrow> (nat \<Rightarrow> ptr) \<Rightarrow> scheduler \<Rightarrow> tree_job list list \<Rightarrow> run \<Rightarrow> run option" where
  "run_rounds g newp sched [] x = Some x"
| "run_rounds g newp sched (js # rounds) x = do { x \<leftarrow> thread_jobs g newp (sched js) x; run_rounds g newp sched rounds x }"

text \<open>
  The loop over \<open>traces\<close>: a new root for each thread, filled by \<open>load_and_convert_file\<close>. \<open>datafile t\<close> is the contents
  of \<open>datafile_t\<close>; an error ends the program. \<open>newr\<close> gives the cells of the roots.
\<close>

fun load_threads ::
    "decompressor \<Rightarrow> (nat \<Rightarrow> ptr) \<Rightarrow> (uint \<Rightarrow> u8 list option) \<Rightarrow> (uint \<Rightarrow> ptr) \<Rightarrow> (uint \<times> TraceInfo) list \<Rightarrow> run \<Rightarrow>
       (load_error + TreeRoot list \<times> run) option" where
  "load_threads dec newp datafile newr [] x = Some (Inr ([], x))"
| "load_threads dec newp datafile newr ((t, ti) # ts) x = do {
     l \<leftarrow> load_and_convert_file dec newp (datafile t) (file_offset_begin ti) (file_offset_end ti)
            (rn_next x, (rn_store x)\<lparr>rb_root := 0\<rparr>);
     case l of
       Inl e \<Rightarrow> Some (Inl e)
     | Inr (k, s) \<Rightarrow> do {
         r \<leftarrow> load_threads dec newp datafile newr ts
                (x\<lparr>rn_roots := (rn_roots x)(newr t := rb_root s), rn_next := k, rn_store := s\<rparr>);
         case r of
           Inl e \<Rightarrow> Some (Inl e)
         | Inr (trees, x) \<Rightarrow> Some (Inr (mk_TreeRoot t (newr t) # trees, x))
       }
   }"

text \<open>The entries of \<open>traces\<close> in the order of the map.\<close>

definition trace_list :: "traces \<Rightarrow> (uint \<times> TraceInfo) list" where
  "trace_list tr = map (\<lambda>t. (t, the (tr t))) (sorted_list_of_set (dom tr))"

definition empty_run :: run where
  "empty_run = \<lparr>rn_races = [], rn_roots = (\<lambda>_. 0), rn_next = 0, rn_store = \<lparr>rb_root = 0, mem = Map.empty\<rparr>\<rparr>"

text \<open>
  From the files of the folder to the report file, \<open>Inr None\<close> when nothing is written. Without the folder the iterator
  throws an exception that ends the program, \<open>None\<close>.
\<close>

definition analyze_region ::
    "glpk \<Rightarrow> hash_fun \<Rightarrow> decompressor \<Rightarrow> (nat \<Rightarrow> ptr) \<Rightarrow> (uint \<Rightarrow> ptr) \<Rightarrow> scheduler \<Rightarrow> u8 list \<Rightarrow> string \<Rightarrow> 64 word \<Rightarrow> 64 word \<Rightarrow>
       (string \<times> string) list option \<Rightarrow> (uint \<Rightarrow> u8 list option) \<Rightarrow> (load_error + (string \<times> u8 list) option) option" where
  "analyze_region g hc dec newp newr sched pad report_data pregion barrier_id files datafile =
     (case files of
        None \<Rightarrow> None
      | Some files \<Rightarrow>
          if files = [] then Some (Inr None)
          else do {
            tr \<leftarrow> scan_folder pregion barrier_id files Map.empty;
            l \<leftarrow> load_threads dec newp datafile newr (trace_list tr) empty_run;
            case l of
              Inl e \<Rightarrow> Some (Inl e)
            | Inr (trees, x) \<Rightarrow> do {
                (rounds, left) \<leftarrow> reduce_trees trees;
                x \<leftarrow> run_rounds g newp sched rounds x;
                Some (Inr (main_report hc pad report_data pregion (rn_races x)))
              }
          })"

section \<open>Where an interval comes from\<close>

text \<open>
  \<open>A\<close> are the accesses of some threads, each with its thread. The ends of an interval are the addresses of accesses
  of its site.
\<close>

type_synonym logged = "(uint \<times> it_data) set"

definition end_points :: "logged \<Rightarrow> it_data \<Rightarrow> uint \<times> it_data \<Rightarrow> uint \<times> it_data \<Rightarrow> bool" where
  "end_points A d p q \<longleftrightarrow> p \<in> A \<and> q \<in> A \<and> site (snd p) = site d \<and> site (snd q) = site d \<and>
     it_start (snd p) = it_start d \<and> it_start (snd q) = it_last d"

definition comes_from :: "logged \<Rightarrow> it_data \<Rightarrow> bool" where
  "comes_from A d \<longleftrightarrow> (\<exists>p q. end_points A d p q)"

lemma comes_from_fields:
  "site d = site e \<Longrightarrow> it_start d = it_start e \<Longrightarrow> it_last d = it_last e \<Longrightarrow> comes_from A d = comes_from A e"
  by (simp add: comes_from_def end_points_def)

lemma comes_from_strip: "strip d = strip e \<Longrightarrow> comes_from A e \<Longrightarrow> comes_from A d"
  using comes_from_fields[of d e A] site_strip[of d e] strip_fields[of d e] by simp

lemma comes_from_mono: "comes_from A d \<Longrightarrow> A \<subseteq> B \<Longrightarrow> comes_from B d"
  unfolding comes_from_def end_points_def by blast

lemma join_ends:
  assumes "fst (join node parent)"
  shows "site node = site parent \<and> site (snd (join node parent)) = site parent \<and>
    it_start (snd (join node parent)) \<in> {it_start node, it_start parent} \<and>
    it_last (snd (join node parent)) \<in> {it_last node, it_last parent}"
  using assms by (simp add: join_def same_site_iff split: if_splits)

lemma comes_from_join:
  assumes "comes_from A node" "comes_from A parent" "fst (join node parent)"
  shows "comes_from A (snd (join node parent))"
proof -
  let ?d = "snd (join node parent)"
  note J = join_ends[OF assms(3)]
  obtain p q p' q' where "end_points A node p q" "end_points A parent p' q'" using assms by (auto simp: comes_from_def)
  then have "end_points A ?d p q \<or> end_points A ?d p q' \<or> end_points A ?d p' q \<or> end_points A ?d p' q'"
    using J by (auto simp: end_points_def)
  then show ?thesis unfolding comes_from_def by blast
qed

interpretation src: joining "comes_from A" "comes_from A" "\<lambda>d e. site d = site e" for A
proof unfold_locales
  fix d e f node parent
  show "strip d = strip e \<Longrightarrow> comes_from A e \<Longrightarrow> comes_from A d" by (rule comes_from_strip)
  show "strip d = strip e \<Longrightarrow> site e = site f \<Longrightarrow> site d = site f" "strip d = strip e \<Longrightarrow> site f = site e \<Longrightarrow> site f = site d"
    using site_strip by metis+
  show "comes_from A node \<Longrightarrow> comes_from A parent \<Longrightarrow> fst (join node parent) \<Longrightarrow>
    comes_from A (snd (join node parent)) \<and> site (snd (join node parent)) = site node \<and> site (snd (join node parent)) = site parent"
    using comes_from_join join_ends by metis
  have "site (copied node) = site node" "it_start (copied node) = it_start node" "it_last (copied node) = it_last node"
    by (simp_all add: copied_def site_def interval_tree_node_def)
  then show "comes_from A node \<Longrightarrow> comes_from A (copied node) \<and> site (copied node) = site node"
    using comes_from_fields by metis
qed auto

section \<open>Explained races\<close>

text \<open>
  A pair of intervals is explained by the accesses \<open>A\<close>: their kinds race, no lock is common, their hulls meet, and
  the ends of the one are accesses of other threads than those of the other.
\<close>

definition explained :: "logged \<Rightarrow> it_data \<Rightarrow> it_data \<Rightarrow> bool" where
  "explained A d e \<longleftrightarrow> race d e \<and> \<not> common_lock d e \<and> it_start d \<le> it_last e \<and> it_start e \<le> it_last d \<and>
     (\<exists>p p' q q'. end_points A d p p' \<and> end_points A e q q' \<and> {fst p, fst p'} \<inter> {fst q, fst q'} = {})"

lemma explained_strip:
  assumes "strip d = strip d'" "strip e = strip e'" "explained A d' e'"
  shows "explained A d e"
proof -
  have f: "site d = site d'" "it_start d = it_start d'" "it_last d = it_last d'" "site e = site e'" "it_start e = it_start e'"
    "it_last e = it_last e'"
    using assms(1,2) site_strip strip_fields by metis+
  moreover have "race d e = race d' e'" "common_lock d e = common_lock d' e'"
    using f(1,4) by (simp_all add: race_def get_access_type_def common_lock_def site_def)
  ultimately show ?thesis using assms(3) by (simp add: explained_def end_points_def)
qed

lemma explained_mono: "explained A d e \<Longrightarrow> A \<subseteq> B \<Longrightarrow> explained B d e"
  unfolding explained_def end_points_def by blast

lemma found_explained:
  assumes d: "comes_from A2 (dat m a)" and e: "\<forall>x\<in>set (inorder t). comes_from A1 (dat m x)"
    and dis: "fst ` A1 \<inter> fst ` A2 = {}" and f: "(d, e) \<in> set (found g m a t)"
  shows "explained (A1 \<union> A2) d e"
proof -
  obtain x where x: "x \<in> set (path (start_of m) (start_of m a) t)" "d = dat m a" "e = dat m x"
    "report_test g d e (it_start d) (it_last d)"
    using f by (auto simp: found_def split: if_splits)
  have xt: "x \<in> set (inorder t)" using x(1) path_subset by blast
  obtain p p' where p: "end_points A2 d p p'" using d x(2) unfolding comes_from_def by blast
  obtain q q' where q: "end_points A1 e q q'" using e xt x(3) unfolding comes_from_def by blast
  have "{fst p, fst p'} \<subseteq> fst ` A2" "{fst q, fst q'} \<subseteq> fst ` A1" using p q by (simp_all add: end_points_def)
  then have "{fst p, fst p'} \<inter> {fst q, fst q'} = {}" using dis by blast
  moreover have "end_points (A1 \<union> A2) d p p'" "end_points (A1 \<union> A2) e q q'" using p q by (simp_all add: end_points_def)
  ultimately show ?thesis using x(4)[unfolded report_testI] unfolding explained_def by blast
qed

lemma all_found_explained:
  assumes "\<forall>a\<in>set (inorder t2). comes_from A2 (dat m a)" "\<forall>x\<in>set (inorder t1). comes_from A1 (dat m x)"
    and "fst ` A1 \<inter> fst ` A2 = {}" and R: "map strip2 R = concat (map (\<lambda>a. map strip2 (found g m a t1)) (inorder t2))"
    and p: "(d, e) \<in> set R"
  shows "explained (A1 \<union> A2) d e"
proof -
  have "strip2 (d, e) \<in> set (map strip2 R)" using p by simp
  then obtain a d' e' where a: "a \<in> set (inorder t2)" "(d', e') \<in> set (found g m a t1)" "strip2 (d, e) = strip2 (d', e')"
    unfolding R by auto
  have "explained (A1 \<union> A2) d' e'" using found_explained[OF _ assms(2,3) a(2)] assms(1) a(1) by blast
  then show ?thesis using explained_strip[of d d' e e'] a(3) by (simp add: strip2_def)
qed

section \<open>The trees between two jobs\<close>

definition holds :: "logged \<Rightarrow> run \<Rightarrow> ptr \<Rightarrow> ptree \<Rightarrow> bool" where
  "holds A x c t \<longleftrightarrow> c \<noteq> 0 \<and> tree_rep ((rn_store x)\<lparr>rb_root := rn_roots x c\<rparr>) t \<and> rb_tree t \<and> t \<noteq> Leaf \<and>
     (\<forall>a\<in>set (inorder t). comes_from A (dat (mores (mem (rn_store x))) a))"

text \<open>
  The trees of \<open>C\<close>, with no node in common, the accesses they stand for, of disjoint sets of threads; \<open>M\<close> bounds the
  nodes of all of them and \<open>n\<close> the jobs to come.
\<close>

definition forest ::
    "(nat \<Rightarrow> ptr) \<Rightarrow> nat \<Rightarrow> nat \<Rightarrow> logged \<Rightarrow> (uint \<Rightarrow> logged) \<Rightarrow> (uint \<Rightarrow> ptree) \<Rightarrow> TreeRoot set \<Rightarrow> run \<Rightarrow> bool" where
  "forest newp n M A G T C x \<longleftrightarrow>
     finite C \<and> inj_on tr_tid C \<and> inj_on tr_root C \<and>
     (\<forall>t\<in>C. holds (G (tr_tid t)) x (tr_root t) (T (tr_tid t)) \<and> G (tr_tid t) \<subseteq> A) \<and>
     (\<forall>t\<in>C. \<forall>u\<in>C. t \<noteq> u \<longrightarrow> set (inorder (T (tr_tid t))) \<inter> set (inorder (T (tr_tid u))) = {} \<and>
        fst ` G (tr_tid t) \<inter> fst ` G (tr_tid u) = {}) \<and>
     (\<Sum>t\<in>C. length (inorder (T (tr_tid t)))) \<le> M \<and> fresh_supply newp (rn_store x) (rn_next x) (n * M) \<and>
     (\<forall>(d, e)\<in>set (rn_races x). explained A d e)"

lemma fresh_supply_mono:
  "fresh_supply newp s k n \<Longrightarrow> m \<le> n \<Longrightarrow> mem s' = mem s \<Longrightarrow> fresh_supply newp s' k m"
  by (auto simp: fresh_supply_def intro: inj_on_subset)

lemma fresh_supply_after:
  assumes F: "fresh_supply newp s k (Suc n * M)" and k': "k \<le> k'" "k' \<le> k + M" and N: "\<forall>a\<in>N. mem s a \<noteq> None"
    and out: "\<forall>a. a \<notin> newp ` {k..<k'} \<union> N \<longrightarrow> mem s' a = mem s a"
  shows "fresh_supply newp s' k' (n * M)"
proof -
  have sub: "{k'..<k' + n * M} \<subseteq> {k..<k + Suc n * M}" "{k..<k'} \<subseteq> {k..<k + Suc n * M}" using k' by auto
  have inj: "inj_on newp {k..<k + Suc n * M}" using F by (simp add: fresh_supply_def)
  have new: "newp i \<noteq> 0 \<and> aligned (newp i) \<and> mem s (newp i) = None" if "i \<in> {k'..<k' + n * M}" for i
    using F subsetD[OF sub(1) that] unfolding fresh_supply_def by blast
  have "mem s' (newp i) = None" if i: "i \<in> {k'..<k' + n * M}" for i
  proof -
    have "newp i \<notin> newp ` {k..<k'}"
    proof
      assume "newp i \<in> newp ` {k..<k'}"
      then obtain l where l: "l \<in> {k..<k'}" "newp i = newp l" by blast
      then have "i = l" using inj_onD[OF inj l(2)] subsetD[OF sub(1) i] subsetD[OF sub(2) l(1)] by blast
      then show False using l(1) i by simp
    qed
    moreover have "newp i \<notin> N" using N new[OF i] by auto
    ultimately show ?thesis using out new[OF i] by simp
  qed
  then show ?thesis using new inj_on_subset[OF inj sub(1)] by (simp add: fresh_supply_def)
qed

lemma holds_nodes: "holds A x c t \<Longrightarrow> a \<in> set (inorder t) \<Longrightarrow> mem (rn_store x) a \<noteq> None"
  using tree_rep_dom[of "(rn_store x)\<lparr>rb_root := rn_roots x c\<rparr>" t a] by (simp add: holds_def)

lemma holds_frame:
  assumes "holds A x c t" "\<And>a. a \<in> set (inorder t) \<Longrightarrow> mem (rn_store y) a = mem (rn_store x) a" "rn_roots y c = rn_roots x c"
  shows "holds A y c t"
  using assms tree_rep_mem[of t "(rn_store y)\<lparr>rb_root := rn_roots y c\<rparr>" "(rn_store x)\<lparr>rb_root := rn_roots x c\<rparr>"]
  by (simp add: holds_def mores_def)

section \<open>One job\<close>

lemma forestD:
  assumes "forest newp n M A G T C x" "t \<in> C"
  shows "holds (G (tr_tid t)) x (tr_root t) (T (tr_tid t))" "G (tr_tid t) \<subseteq> A"
    "u \<in> C \<Longrightarrow> t \<noteq> u \<Longrightarrow> set (inorder (T (tr_tid t))) \<inter> set (inorder (T (tr_tid u))) = {} \<and> fst ` G (tr_tid t) \<inter> fst ` G (tr_tid u) = {}"
  using assms unfolding forest_def by blast+

lemma forest_merging:
  assumes F: "forest newp (Suc n) M A G T C x" and t: "t1 \<in> C" "t2 \<in> C" "t1 \<noteq> t2"
  defines "B \<equiv> G (tr_tid t1) \<union> G (tr_tid t2)"
  shows "merging_by (comes_from B) (comes_from B) newp (rn_next x) (rn_roots x (tr_root t2))
    ((rn_store x)\<lparr>rb_root := rn_roots x (tr_root t1)\<rparr>) (T (tr_tid t1)) (T (tr_tid t2))"
proof -
  note H = forestD(1)[OF F t(1)] forestD(1)[OF F t(2)]
  have "comes_from B (dat (mores (mem (rn_store x))) a)"
    if "a \<in> set (inorder (T (tr_tid t1))) \<union> set (inorder (T (tr_tid t2)))" for a
  proof -
    from that have "comes_from (G (tr_tid t1)) (dat (mores (mem (rn_store x))) a) \<or>
        comes_from (G (tr_tid t2)) (dat (mores (mem (rn_store x))) a)"
      using H unfolding holds_def by blast
    then show ?thesis unfolding B_def using comes_from_mono by (metis Un_upper1 Un_upper2)
  qed
  moreover have "length (inorder (T (tr_tid t2))) \<le> Suc n * M"
  proof -
    have "length (inorder (T (tr_tid t2))) \<le> (\<Sum>t\<in>C. length (inorder (T (tr_tid t))))"
      by (rule member_le_sum[OF t(2)]) (use F in \<open>auto simp: forest_def\<close>)
    also have "\<dots> \<le> M" using F by (simp add: forest_def)
    finally show ?thesis by simp
  qed
  then have "fresh_supply newp ((rn_store x)\<lparr>rb_root := rn_roots x (tr_root t1)\<rparr>) (rn_next x) (length (inorder (T (tr_tid t2))))"
    using F by (auto simp: forest_def intro: fresh_supply_mono)
  ultimately show ?thesis
    using H forestD(3)[OF F t(1,2,3)] by (simp add: merging_by_def holds_def)
qed

lemma forest_size:
  assumes F: "forest newp (Suc n) M A G T C x" and t: "t1 \<in> C" "t2 \<in> C" "t1 \<noteq> t2" and T1: "tree_rep s' T1"
    and k': "k \<le> k'" "k' \<le> k + length (inorder (T (tr_tid t2)))"
      "set (inorder T1) = set (inorder (T (tr_tid t1))) \<union> newp ` {k..<k'}"
  shows "length (inorder (T (tr_tid t1))) + length (inorder (T (tr_tid t2))) \<le> M \<and>
    length (inorder T1) \<le> length (inorder (T (tr_tid t1))) + length (inorder (T (tr_tid t2))) \<and>
    (\<Sum>t\<in>C - {t2}. length (inorder ((T(tr_tid t1 := T1)) (tr_tid t)))) \<le> M"
proof -
  let ?l = "\<lambda>t. length (inorder (T (tr_tid t)))"
  have f: "finite C" "inj_on tr_tid C" "sum ?l C \<le> M" using F by (simp_all add: forest_def)
  have "length (inorder T1) = card (set (inorder T1))" using T1 by (simp add: tree_rep_def distinct_card)
  also have "\<dots> \<le> card (set (inorder (T (tr_tid t1)))) + card (newp ` {k..<k'})" unfolding k'(3) by (rule card_Un_le)
  also have "\<dots> \<le> ?l t1 + (k' - k)" by (intro add_mono card_length order_trans[OF card_image_le]) simp_all
  finally have T1l: "length (inorder T1) \<le> ?l t1 + ?l t2" using k'(1,2) by simp
  have e: "sum ?l C = ?l t2 + (?l t1 + sum ?l (C - {t2} - {t1}))"
    using t f(1) by (simp add: sum.remove[of C t2] sum.remove[of "C - {t2}" t1])
  have "tr_tid t \<noteq> tr_tid t1" if "t \<in> C - {t2} - {t1}" for t using f(2) t(1) that by (auto dest: inj_onD)
  then have "(\<Sum>t\<in>C - {t2} - {t1}. length (inorder ((T(tr_tid t1 := T1)) (tr_tid t)))) = sum ?l (C - {t2} - {t1})"
    by (intro sum.cong) auto
  then have "(\<Sum>t\<in>C - {t2}. length (inorder ((T(tr_tid t1 := T1)) (tr_tid t)))) = length (inorder T1) + sum ?l (C - {t2} - {t1})"
    using t f(1) by (simp add: sum.remove[of "C - {t2}" t1])
  then show ?thesis using T1l e f(3) by simp
qed

lemma thread_job_ok:
  assumes F: "forest newp (Suc n) M A G T C x" and t: "jb_tree1 j \<in> C" "jb_tree2 j \<in> C" "jb_tree1 j \<noteq> jb_tree2 j"
    and nl: "\<not> jb_last j"
  shows "\<exists>x' G' T'. thread_job g newp j x = Some x' \<and> forest newp n M A G' T' (C - {jb_tree2 j}) x'"
proof -
  let ?t1 = "jb_tree1 j" and ?t2 = "jb_tree2 j"
  let ?i1 = "tr_tid ?t1" and ?i2 = "tr_tid ?t2" and ?c1 = "tr_root ?t1" and ?c2 = "tr_root ?t2"
  let ?B = "G ?i1 \<union> G ?i2" and ?s = "rn_store x" and ?k = "rn_next x"
  let ?N1 = "set (inorder (T ?i1))" and ?N2 = "set (inorder (T ?i2))"
  note F' = F[unfolded forest_def]
  note H1 = forestD(1)[OF F t(1)] and H2 = forestD(1)[OF F t(2)] and D = forestD(3)[OF F t]
  have inj: "inj_on tr_tid C" "inj_on tr_root C" using F' by blast+
  have i12: "?i1 \<noteq> ?i2" "?c1 \<noteq> ?c2" using inj t by (auto dest: inj_onD)
  have c0: "?c1 \<noteq> 0" "?c2 \<noteq> 0" using H1 H2 by (simp_all add: holds_def)
  from src.analyze_trees_ok[OF forest_merging[OF F t], where islast = False and g = g and rs = "rn_races x"]
  obtain R s' T1 k' where A: "analyze_trees g newp False (Some (rn_roots x ?c1)) (Some (rn_roots x ?c2)) (rn_races x) ?k ?s
      = Some (rn_races x @ R, Some (rb_root s'), Some 0, k', s')"
    and R: "map strip2 R = concat (map (\<lambda>a. map strip2 (found g (mores (mem ?s)) a (T ?i1))) (inorder (T ?i2)))"
    and T1: "tree_rep s' T1" "rb_tree T1" "\<forall>a\<in>set (inorder T1). comes_from ?B (dat (mores (mem s')) a)"
    and k': "?k \<le> k'" "k' \<le> ?k + length (inorder (T ?i2))" "set (inorder T1) = ?N1 \<union> newp ` {?k..<k'}"
    and out: "\<forall>a. a \<notin> set (inorder T1) \<union> ?N2 \<longrightarrow> mem s' a = mem ?s a"
    unfolding if_False by (elim exE conjE) (rule that, (simp only: if_False)+)
  let ?x = "\<lparr>rn_races = rn_races x @ R, rn_roots = (rn_roots x)(?c1 := rb_root s', ?c2 := 0), rn_next = k', rn_store = s'\<rparr>"
  let ?G = "G(?i1 := ?B)" and ?T = "T(?i1 := T1)"
  have run: "thread_job g newp j x = Some ?x"
    using A nl c0 by (simp add: thread_job_def cell_def set_cell_def Let_def)
  have len: "length (inorder (T ?i1)) + length (inorder (T ?i2)) \<le> M" "length (inorder T1) \<le> length (inorder (T ?i1)) + length (inorder (T ?i2))"
    and sum: "(\<Sum>t\<in>C - {?t2}. length (inorder (?T (tr_tid t)))) \<le> M"
    using forest_size[OF F t T1(1) k'] by simp_all
  have new: "newp i \<noteq> 0 \<and> aligned (newp i) \<and> mem ?s (newp i) = None" if "i \<in> {?k..<?k + Suc n * M}" for i
    using F that unfolding forest_def fresh_supply_def by blast
  have kM: "{?k..<k'} \<subseteq> {?k..<?k + Suc n * M}" using k'(2) len(1) by auto
  have keep: "mem s' a = mem ?s a" "a \<notin> set (inorder T1)"
    if "mem ?s a \<noteq> None" "a \<notin> ?N1" "a \<notin> ?N2" for a
  proof -
    have "a \<notin> newp ` {?k..<k'}"
    proof
      assume "a \<in> newp ` {?k..<k'}"
      then obtain i where "i \<in> {?k..<k'}" "a = newp i" by blast
      then show False using new[of i] subsetD[OF kM] that(1) by simp
    qed
    then show "a \<notin> set (inorder T1)" using k'(3) that(2) by simp
    then show "mem s' a = mem ?s a" using out that(3) by simp
  qed
  have other: "holds (?G (tr_tid u)) ?x (tr_root u) (?T (tr_tid u)) \<and> set (inorder (?T (tr_tid u))) \<inter> set (inorder T1) = {}"
    if u: "u \<in> C" "u \<noteq> ?t1" "u \<noteq> ?t2" for u
  proof -
    have ne: "tr_tid u \<noteq> ?i1" "tr_root u \<noteq> ?c1" "tr_root u \<noteq> ?c2" using inj u t(1,2) by (auto dest: inj_onD)
    note Hu = forestD(1)[OF F u(1)]
    have "a \<notin> ?N1 \<and> a \<notin> ?N2" if "a \<in> set (inorder (T (tr_tid u)))" for a
      using forestD(3)[OF F u(1) t(1) u(2)] forestD(3)[OF F u(1) t(2) u(3)] that by blast
    then have "mem s' a = mem ?s a" "a \<notin> set (inorder T1)" if "a \<in> set (inorder (T (tr_tid u)))" for a
      using keep[of a] holds_nodes[OF Hu that] that by blast+
    then show ?thesis using holds_frame[OF Hu, of ?x] ne by auto
  qed
  have one: "holds (?G ?i1) ?x ?c1 (?T ?i1)"
  proof -
    have "s'\<lparr>rb_root := rb_root s'\<rparr> = s'" by simp
    moreover have "T1 \<noteq> Leaf" using k'(3) H1 by (cases "T ?i1") (auto simp: holds_def)
    ultimately show ?thesis using T1 c0(1) i12(2) by (simp add: holds_def)
  qed
  have sup: "fresh_supply newp s' k' (n * M)"
  proof (rule fresh_supply_after)
    show "fresh_supply newp ?s ?k (Suc n * M)" using F' by blast
    show "\<forall>a\<in>?N1 \<union> ?N2. mem ?s a \<noteq> None" using holds_nodes[OF H1] holds_nodes[OF H2] by blast
    show "\<forall>a. a \<notin> newp ` {?k..<k'} \<union> (?N1 \<union> ?N2) \<longrightarrow> mem s' a = mem ?s a" using out k'(3) by blast
  qed (use k'(1,2) len(1) in simp_all)
  have races: "\<forall>(d, e)\<in>set (rn_races x @ R). explained A d e"
  proof (safe)
    fix d e assume "(d, e) \<in> set (rn_races x @ R)"
    then show "explained A d e"
    proof (unfold set_append, elim UnE)
      assume "(d, e) \<in> set R"
      then have "explained ?B d e" using all_found_explained[OF _ _ _ R] H1 H2 D by (simp add: holds_def)
      then show ?thesis by (rule explained_mono) (use forestD(2)[OF F t(1)] forestD(2)[OF F t(2)] in blast)
    qed (use F' in blast)
  qed
  have "forest newp n M A ?G ?T (C - {?t2}) ?x"
    unfolding forest_def
  proof (intro conjI)
    show "\<forall>u\<in>C - {?t2}. holds (?G (tr_tid u)) ?x (tr_root u) (?T (tr_tid u)) \<and> ?G (tr_tid u) \<subseteq> A"
    proof
      fix u assume u: "u \<in> C - {?t2}"
      then have "?G (tr_tid u) \<subseteq> A"
        using forestD(2)[OF F] t(1,2) by (cases "tr_tid u = ?i1") auto
      then show "holds (?G (tr_tid u)) ?x (tr_root u) (?T (tr_tid u)) \<and> ?G (tr_tid u) \<subseteq> A"
        using u one other by (cases "u = ?t1") auto
    qed
    show "\<forall>u\<in>C - {?t2}. \<forall>v\<in>C - {?t2}. u \<noteq> v \<longrightarrow>
        set (inorder (?T (tr_tid u))) \<inter> set (inorder (?T (tr_tid v))) = {} \<and> fst ` ?G (tr_tid u) \<inter> fst ` ?G (tr_tid v) = {}"
    proof (intro ballI impI)
      fix u v assume u: "u \<in> C - {?t2}" and v: "v \<in> C - {?t2}" and uv: "u \<noteq> v"
      have ne: "tr_tid w \<noteq> ?i1" if "w \<in> C" "w \<noteq> ?t1" for w using inj(1) that t(1) by (auto dest: inj_onD)
      have g: "fst ` ?B \<inter> fst ` G (tr_tid w) = {}" if "w \<in> C" "w \<noteq> ?t1" "w \<noteq> ?t2" for w
        using forestD(3)[OF F t(1) that(1)] forestD(3)[OF F t(2) that(1)] that(2,3) by (auto simp: image_Un)
      consider "u = ?t1" "v \<noteq> ?t1" | "v = ?t1" "u \<noteq> ?t1" | "u \<noteq> ?t1" "v \<noteq> ?t1" using uv by blast
      then show "set (inorder (?T (tr_tid u))) \<inter> set (inorder (?T (tr_tid v))) = {} \<and> fst ` ?G (tr_tid u) \<inter> fst ` ?G (tr_tid v) = {}"
      proof cases
        case 1
        then show ?thesis using other[of v] g[of v] ne[of v] v by auto
      next
        case 2
        then show ?thesis using other[of u] g[of u] ne[of u] u by auto
      next
        case 3
        then show ?thesis using forestD(3)[OF F _ _ uv] ne[of u] ne[of v] u v by auto
      qed
    qed
  qed (use F' inj sum sup races in \<open>auto intro: inj_on_subset\<close>)
  then show ?thesis using run by blast
qed

lemma thread_job_last:
  assumes F: "forest newp (Suc n) M A G T C x" and t: "jb_tree1 j \<in> C" "jb_tree2 j \<in> C" "jb_tree1 j \<noteq> jb_tree2 j"
    and l: "jb_last j"
  shows "\<exists>x'. thread_job g newp j x = Some x' \<and> (\<forall>(d, e)\<in>set (rn_races x'). explained A d e)"
proof -
  let ?t1 = "jb_tree1 j" and ?t2 = "jb_tree2 j"
  let ?i1 = "tr_tid ?t1" and ?i2 = "tr_tid ?t2" and ?c1 = "tr_root ?t1" and ?c2 = "tr_root ?t2" and ?s = "rn_store x"
  note H1 = forestD(1)[OF F t(1)] and H2 = forestD(1)[OF F t(2)] and D = forestD(3)[OF F t]
  have c0: "?c1 \<noteq> 0" "?c2 \<noteq> 0" using H1 H2 by (simp_all add: holds_def)
  from src.analyze_trees_ok[OF forest_merging[OF F t], where islast = True and g = g and rs = "rn_races x"]
  obtain R s' k' r2 where A: "analyze_trees g newp True (Some (rn_roots x ?c1)) (Some (rn_roots x ?c2)) (rn_races x) (rn_next x) ?s
      = Some (rn_races x @ R, Some (rb_root s'), Some r2, k', s')"
    and R: "map strip2 R = concat (map (\<lambda>a. map strip2 (found g (mores (mem ?s)) a (T ?i1))) (inorder (T ?i2)))"
    by (elim exE conjE) (rule that, simp_all)
  have "\<forall>(d, e)\<in>set (rn_races x @ R). explained A d e"
  proof (safe)
    fix d e assume "(d, e) \<in> set (rn_races x @ R)"
    then show "explained A d e"
    proof (unfold set_append, elim UnE)
      assume "(d, e) \<in> set R"
      then have "explained (G ?i1 \<union> G ?i2) d e" using all_found_explained[OF _ _ _ R] H1 H2 D by (simp add: holds_def)
      then show ?thesis by (rule explained_mono) (use forestD(2)[OF F t(1)] forestD(2)[OF F t(2)] in blast)
    qed (use F in \<open>auto simp: forest_def\<close>)
  qed
  then show ?thesis using A l c0 by (simp add: thread_job_def cell_def set_cell_def Let_def)
qed

section \<open>All rounds\<close>

lemma thread_jobs_ok:
  "forest newp (length js + n) M A G T C x \<Longrightarrow> \<forall>j\<in>set js. \<not> jb_last j \<Longrightarrow> distinct (map jb_tree1 js @ map jb_tree2 js) \<Longrightarrow>
   set (map jb_tree1 js @ map jb_tree2 js) \<subseteq> C \<Longrightarrow>
   \<exists>x' G' T'. thread_jobs g newp js x = Some x' \<and> forest newp n M A G' T' (C - set (map jb_tree2 js)) x'"
proof (induction js arbitrary: x G T C)
  case (Cons j js)
  have "jb_tree1 j \<in> C" "jb_tree2 j \<in> C" "jb_tree1 j \<noteq> jb_tree2 j" "\<not> jb_last j"
    "forest newp (Suc (length js + n)) M A G T C x"
    using Cons.prems by auto
  then obtain x1 G1 T1 where 1: "thread_job g newp j x = Some x1" "forest newp (length js + n) M A G1 T1 (C - {jb_tree2 j}) x1"
    using thread_job_ok by blast
  have P: "\<forall>j\<in>set js. \<not> jb_last j" "distinct (map jb_tree1 js @ map jb_tree2 js)"
    "set (map jb_tree1 js @ map jb_tree2 js) \<subseteq> C - {jb_tree2 j}"
    using Cons.prems(2-4) by (auto simp: image_iff)
  obtain x' G' T' where "thread_jobs g newp js x1 = Some x'"
    "forest newp n M A G' T' (C - {jb_tree2 j} - set (map jb_tree2 js)) x'"
    using Cons.IH[OF 1(2) P] by blast
  moreover have "C - {jb_tree2 j} - set (map jb_tree2 js) = C - set (map jb_tree2 (j # js))" by auto
  ultimately show ?case using 1(1) by auto
qed auto

lemma pair_list_split:
  "distinct ts \<Longrightarrow>
   distinct (map jb_tree1 (fst (pair_list sz ts)) @ map jb_tree2 (fst (pair_list sz ts))) \<and>
   set (map jb_tree1 (fst (pair_list sz ts)) @ map jb_tree2 (fst (pair_list sz ts))) \<subseteq> set ts \<and>
   distinct (snd (pair_list sz ts)) \<and> set (snd (pair_list sz ts)) = set ts - set (map jb_tree2 (fst (pair_list sz ts)))"
proof (induction sz ts rule: pair_list.induct)
  case (1 sz t1 t2 ts)
  let ?p = "pair_list (sz - 1) ts"
  have IH: "distinct (map jb_tree1 (fst ?p) @ map jb_tree2 (fst ?p))" "set (map jb_tree1 (fst ?p) @ map jb_tree2 (fst ?p)) \<subseteq> set ts"
    "distinct (snd ?p)" "set (snd ?p) = set ts - set (map jb_tree2 (fst ?p))" and d: "t1 \<notin> set ts" "t2 \<notin> set ts" "t1 \<noteq> t2"
    using 1 by auto
  have n: "t1 \<notin> jb_tree1 ` set (fst ?p)" "t1 \<notin> jb_tree2 ` set (fst ?p)" "t2 \<notin> jb_tree1 ` set (fst ?p)" "t2 \<notin> jb_tree2 ` set (fst ?p)"
    using IH(2) d by auto
  show ?case using IH d n by (auto simp: case_prod_beta' Let_def)
qed auto

lemma pair_list_not_last:
  assumes "2 < length ts"
  shows "\<forall>j\<in>set (fst (pair_list (length ts) ts)). \<not> jb_last j"
proof -
  have "set (map jb_last (fst (pair_list (length ts) ts))) \<subseteq> {False}"
    unfolding last_flags using assms by auto
  then show ?thesis by auto
qed

lemma run_rounds_ok:
  assumes sched: "\<And>js. mset (sched js) = mset js"
  shows "reduce_trees ts = Some (rounds, left) \<Longrightarrow> distinct ts \<Longrightarrow> forest newp (length ts) M A G T (set ts) x \<Longrightarrow>
    \<exists>x'. run_rounds g newp sched rounds x = Some x' \<and> (\<forall>(d, e)\<in>set (rn_races x'). explained A d e)"
proof (induction "length ts" arbitrary: ts rounds x G T rule: less_induct)
  case less
  have run: "reduce_trees ts = (if length ts > 1 then do {
        (rounds, left) \<leftarrow> reduce_trees (snd (pair_list (length ts) ts));
        Some (fst (pair_list (length ts) ts) # rounds, left) } else Some ([], ts))"
    by (subst reduce_trees.simps) (simp add: pair_trees_list case_prod_beta')
  let ?js = "fst (pair_list (length ts) ts)" and ?ts = "snd (pair_list (length ts) ts)"
  note S = pair_list_split[OF less.prems(2), of "length ts"] and L = length_pair_list[of "length ts" ts]
  consider (small) "length ts \<le> 1" | (two) a b where "ts = [a, b]" | (more) "2 < length ts"
    by (metis One_nat_def Suc_1 length_0_conv length_Suc_conv less_Suc_eq_le linorder_neqE_nat)
  then show ?case
  proof cases
    case small
    then show ?thesis using less.prems run by (auto simp: forest_def)
  next
    case two
    let ?j = "\<lparr>jb_last = True, jb_tree1 = a, jb_tree2 = b\<rparr>"
    have "reduce_trees [a] = Some ([], [a])" by (subst reduce_trees.simps) simp
    then have r: "rounds = [[?j]]" using less.prems(1) run two by simp
    have "mset (sched [?j]) = {#?j#}" by (simp add: sched)
    then have "sched [?j] = [?j]" by simp
    moreover have "forest newp (Suc 1) M A G T (set ts) x" using less.prems(3) two by simp
    then obtain x' where "thread_job g newp ?j x = Some x'" "\<forall>(d, e)\<in>set (rn_races x'). explained A d e"
      using thread_job_last[of newp 1 M A G T "set ts" x ?j g] two less.prems(2) by auto
    ultimately show ?thesis using r by auto
  next
    case more
    then obtain rounds' where r: "reduce_trees ?ts = Some (rounds', left)" "rounds = ?js # rounds'"
      using less.prems(1) run by (auto simp: bind_eq_Some_conv)
    note s = sched[of ?js]
    have "length ts = length (sched ?js) + length ?ts" using L mset_eq_length[OF s] by simp
    then have F: "forest newp (length (sched ?js) + length ?ts) M A G T (set ts) x" using less.prems(3) by simp
    have m: "mset (map f (sched ?js)) = mset (map f ?js)" for f :: "tree_job \<Rightarrow> TreeRoot" using s by simp
    have p1: "\<forall>j\<in>set (sched ?js). \<not> jb_last j" using pair_list_not_last[OF more] mset_eq_setD[OF s] by simp
    have mm: "mset (map jb_tree1 (sched ?js) @ map jb_tree2 (sched ?js)) = mset (map jb_tree1 ?js @ map jb_tree2 ?js)" using m by simp
    have p2: "distinct (map jb_tree1 (sched ?js) @ map jb_tree2 (sched ?js))" using S mset_eq_imp_distinct_iff[OF mm] by blast
    have p3: "set (map jb_tree1 (sched ?js) @ map jb_tree2 (sched ?js)) \<subseteq> set ts" using S mset_eq_setD[OF mm] by simp
    have p4: "set ts - set (map jb_tree2 (sched ?js)) = set ?ts" using S mset_eq_setD[OF m] by simp
    obtain x1 G1 T1 where 1: "thread_jobs g newp (sched ?js) x = Some x1" "forest newp (length ?ts) M A G1 T1 (set ?ts) x1"
      using thread_jobs_ok[OF F p1 p2 p3, of g] unfolding p4 by blast
    have "length ?ts < length ts" using L more by simp
    from less.hyps[OF this r(1) _ 1(2)] S show ?thesis using 1(1) r(2) by auto
  qed
qed

section \<open>Loading\<close>

text \<open>The data file holds at the offsets of the segment the dumped blocks \<open>bs\<close>.\<close>

definition segment_ok :: "decompressor \<Rightarrow> u8 list option \<Rightarrow> TraceInfo \<Rightarrow> trace_item list list \<Rightarrow> bool" where
  "segment_ok dec img ti bs \<longleftrightarrow> (\<exists>pre cs post. img = Some (pre @ blocks_bytes cs @ post) \<and>
     file_offset_begin ti = of_nat (length pre) \<and> file_offset_end ti = of_nat (length pre + length (blocks_bytes cs)) \<and>
     length pre + length (blocks_bytes cs) < 2 ^ 63 \<and> list_all2 (block_ok dec) cs bs) \<and> (\<forall>is\<in>set bs. items_ok is)"

text \<open>The accesses of the blocks, each with the locks held in its block.\<close>

definition accesses_of :: "trace_item list list \<Rightarrow> it_data list" where
  "accesses_of bs = concat (map (\<lambda>b. item_nodes b {}) bs)"

lemma data_tree_comes_from:
  assumes dt: "data_tree N s T" and a: "a \<in> set (inorder T)"
    and sub: "accesses (mores (mem s)) T \<subseteq> (\<lambda>n. (site n, unat (it_start n))) ` set nodes"
  shows "comes_from ({t} \<times> set nodes) (dat (mores (mem s)) a)"
proof -
  let ?d = "dat (mores (mem s)) a"
  have ok: "node_ok N ?d" using dt a by (simp add: data_tree_def)
  have at: "\<exists>n\<in>set nodes. site n = site ?d \<and> unat (it_start n) = v" if "v \<in> addrs ?d" for v
  proof -
    have "(site ?d, v) \<in> accesses (mores (mem s)) T" using that a by (auto simp: accesses_def)
    then have "(site ?d, v) \<in> (\<lambda>n. (site n, unat (it_start n))) ` set nodes" using sub by blast
    then show ?thesis by force
  qed
  have "unat (it_start ?d) \<in> addrs ?d" using ok by (force simp: addrs_def node_ok_def)
  moreover have "unat (it_last ?d) \<in> addrs ?d"
    using ok by (auto simp: addrs_def node_ok_def intro!: exI[of _ "unat (count ?d) - 1"])
  ultimately obtain n n' where "n \<in> set nodes" "site n = site ?d" "it_start n = it_start ?d"
    "n' \<in> set nodes" "site n' = site ?d" "it_start n' = it_last ?d"
    using at by (metis word_unat_eq_iff)
  then have "end_points ({t} \<times> set nodes) ?d (t, n) (t, n')" by (simp add: end_points_def)
  then show ?thesis unfolding comes_from_def by blast
qed

lemma load_segment_ok:
  assumes seg: "segment_ok dec img ti bs" and l: "length (accesses_of bs) \<le> 2 ^ 26" "accesses_of bs \<noteq> []"
    and sup: "fresh_supply newp s k (length (accesses_of bs))" and r: "rb_root s = 0"
  shows "\<exists>s' T. load_and_convert_file dec newp img (file_offset_begin ti) (file_offset_end ti) (k, s)
        = Some (Inr (k + length (accesses_of bs), s')) \<and>
    tree_rep s' T \<and> rb_tree T \<and> T \<noteq> Leaf \<and> data_tree (length (accesses_of bs)) s' T \<and>
    (\<forall>a\<in>set (inorder T). comes_from ({t} \<times> set (accesses_of bs)) (dat (mores (mem s')) a)) \<and>
    set (inorder T) \<subseteq> newp ` {k..<k + length (accesses_of bs)} \<and>
    (\<forall>x. x \<notin> newp ` {k..<k + length (accesses_of bs)} \<longrightarrow> mem s' x = mem s x)"
proof -
  let ?nodes = "accesses_of bs"
  obtain pre cs post where S: "img = Some (pre @ blocks_bytes cs @ post)"
    "file_offset_begin ti = of_nat (length pre)" "file_offset_end ti = of_nat (length pre + length (blocks_bytes cs))"
    "length pre + length (blocks_bytes cs) < 2 ^ 63" "list_all2 (block_ok dec) cs bs" "\<forall>is\<in>set bs. items_ok is"
    using seg unfolding segment_ok_def by blast
  have dt: "data_tree 0 s Leaf" using r by (simp add: data_tree_def tree_rep_def rb_tree_def)
  note nd = accesses_of_def[of bs, symmetric]
  have l': "0 + length ?nodes \<le> 2 ^ 26" using l(1) by simp
  obtain s' T where 1: "process_blocks newp bs (k, s) = Some (k + length ?nodes, s')" "data_tree (0 + length ?nodes) s' T"
    "loaded ?nodes s Leaf s' T" "beside (set (inorder Leaf)) (newp ` {k..<k + length ?nodes}) s s' T"
    using process_blocks_ok[OF dt S(6), of newp k, unfolded nd, OF l' sup] by blast
  have ok: "\<forall>is\<in>set bs. \<forall>i\<in>set is. item_ok i" using S(6) by (simp add: items_ok_def)
  have "accesses (mores (mem s)) Leaf = {}" by (simp add: accesses_def)
  then have acc: "accesses (mores (mem s')) T \<subseteq> (\<lambda>n. (site n, unat (it_start n))) ` set ?nodes"
    "fst ` accesses (mores (mem s')) T = site ` set ?nodes"
    using 1(3) by (simp_all add: loaded_def Let_def)
  have "T \<noteq> Leaf" using acc(2) l(2) by (auto simp: accesses_def)
  moreover have "load_and_convert_file dec newp img (file_offset_begin ti) (file_offset_end ti) (k, s)
      = Some (Inr (k + length ?nodes, s'))"
    unfolding S(1-3) using load_file_ok[OF S(5) ok refl S(4) 1(1), of post] by simp
  ultimately show ?thesis
    using 1(2,4) data_tree_comes_from[OF 1(2) _ acc(1)] by (auto simp: data_tree_def beside_def)
qed

lemma forest_add:
  assumes F: "forest newp (Suc n) M A G T C x" and k: "k' = rn_next x + l" "l \<le> M"
    and t: "t \<notin> tr_tid ` C" "c \<notin> tr_root ` C" "c \<noteq> 0" "t \<notin> (\<Union>u\<in>C. fst ` G (tr_tid u))" "B \<subseteq> A" "fst ` B \<subseteq> {t}"
    and T1: "tree_rep s' T1" "rb_tree T1" "T1 \<noteq> Leaf" "\<forall>a\<in>set (inorder T1). comes_from B (dat (mores (mem s')) a)"
    and N: "set (inorder T1) \<subseteq> newp ` {rn_next x..<k'}"
    and out: "\<forall>a. a \<notin> newp ` {rn_next x..<k'} \<longrightarrow> mem s' a = mem (rn_store x) a"
    and sum: "(\<Sum>u\<in>C. length (inorder (T (tr_tid u)))) + l \<le> M"
  shows "forest newp n M A (G(t := B)) (T(t := T1)) (insert (mk_TreeRoot t c) C)
      (x\<lparr>rn_roots := (rn_roots x)(c := rb_root s'), rn_next := k', rn_store := s'\<rparr>)"
    and "(\<Sum>u\<in>insert (mk_TreeRoot t c) C. length (inorder ((T(t := T1)) (tr_tid u)))) \<le> (\<Sum>u\<in>C. length (inorder (T (tr_tid u)))) + l"
proof -
  let ?x = "x\<lparr>rn_roots := (rn_roots x)(c := rb_root s'), rn_next := k', rn_store := s'\<rparr>"
  let ?G = "G(t := B)" and ?T = "T(t := T1)" and ?t = "mk_TreeRoot t c" and ?k = "rn_next x"
  note F' = F[unfolded forest_def]
  have mk [simp]: "tr_tid ?t = t" "tr_root ?t = c" by (simp_all add: mk_TreeRoot_def)
  have ne: "tr_tid u \<noteq> t" "tr_root u \<noteq> c" if "u \<in> C" for u using t(1,2) that by auto
  have tC: "?t \<notin> C" using t(1) mk(1) by (metis imageI)
  have kM: "{?k..<k'} \<subseteq> {?k..<?k + Suc n * M}" using k by auto
  have sup: "fresh_supply newp (rn_store x) ?k (Suc n * M)" using F' by blast
  have fresh: "a \<notin> newp ` {?k..<k'}" if "mem (rn_store x) a \<noteq> None" for a
  proof
    assume "a \<in> newp ` {?k..<k'}"
    then obtain i where "i \<in> {?k..<k'}" "a = newp i" by blast
    then show False using sup subsetD[OF kM] that by (auto simp: fresh_supply_def)
  qed
  have old: "holds (G (tr_tid u)) ?x (tr_root u) (T (tr_tid u)) \<and> set (inorder (T (tr_tid u))) \<inter> set (inorder T1) = {}"
    if u: "u \<in> C" for u
  proof -
    note H = forestD(1)[OF F u]
    have fr: "a \<notin> newp ` {?k..<k'}" if "a \<in> set (inorder (T (tr_tid u)))" for a using fresh holds_nodes[OF H that] by blast
    then have "mem s' a = mem (rn_store x) a" if "a \<in> set (inorder (T (tr_tid u)))" for a using out that by blast
    then have "holds (G (tr_tid u)) ?x (tr_root u) (T (tr_tid u))"
      by (intro holds_frame[OF H]) (use ne[OF u] in auto)
    then show ?thesis using fr N by blast
  qed
  have new: "holds B ?x c T1" using T1 t(3) by (simp add: holds_def)
  have Bd: "fst ` B \<inter> fst ` G (tr_tid u) = {}" if "u \<in> C" for u using t(4,6) that by blast
  have "length (inorder T1) = card (set (inorder T1))" using T1(1) by (simp add: tree_rep_def distinct_card)
  also have "\<dots> \<le> card (newp ` {?k..<k'})" using N by (intro card_mono) simp_all
  also have "\<dots> \<le> l" using card_image_le[of "{?k..<k'}" newp] k(1) by simp
  finally have len: "length (inorder T1) \<le> l" .
  have "(\<Sum>u\<in>C. length (inorder (?T (tr_tid u)))) = (\<Sum>u\<in>C. length (inorder (T (tr_tid u))))"
    by (intro sum.cong) (auto dest: ne(1))
  then have s: "(\<Sum>u\<in>insert ?t C. length (inorder (?T (tr_tid u)))) = length (inorder T1) + (\<Sum>u\<in>C. length (inorder (T (tr_tid u))))"
    using F' tC by simp
  then show "(\<Sum>u\<in>insert ?t C. length (inorder (?T (tr_tid u)))) \<le> (\<Sum>u\<in>C. length (inorder (T (tr_tid u)))) + l"
    using len by simp
  then have sM: "(\<Sum>u\<in>insert ?t C. length (inorder (?T (tr_tid u)))) \<le> M" using sum by simp
  have "fresh_supply newp s' k' (n * M)"
    by (rule fresh_supply_after[OF sup, of _ "{}"]) (use k out in auto)
  moreover have "inj_on tr_tid (insert ?t C)" "inj_on tr_root (insert ?t C)"
    using F' t(1,2) tC by simp_all
  moreover have "\<forall>u\<in>insert ?t C. holds (?G (tr_tid u)) ?x (tr_root u) (?T (tr_tid u)) \<and> ?G (tr_tid u) \<subseteq> A"
    using new old ne(1) t(5) forestD(2)[OF F] by simp
  moreover have "\<forall>u\<in>insert ?t C. \<forall>v\<in>insert ?t C. u \<noteq> v \<longrightarrow> set (inorder (?T (tr_tid u))) \<inter> set (inorder (?T (tr_tid v))) = {} \<and>
      fst ` ?G (tr_tid u) \<inter> fst ` ?G (tr_tid v) = {}"
  proof (intro ballI impI)
    fix u v assume "u \<in> insert ?t C" "v \<in> insert ?t C" "u \<noteq> v"
    then consider "u = ?t" "v \<in> C" | "v = ?t" "u \<in> C" | "u \<in> C" "v \<in> C" by blast
    then show "set (inorder (?T (tr_tid u))) \<inter> set (inorder (?T (tr_tid v))) = {} \<and> fst ` ?G (tr_tid u) \<inter> fst ` ?G (tr_tid v) = {}"
    proof cases
      case 1
      then show ?thesis using old[of v] Bd[of v] ne(1)[of v] by (simp add: Int_commute)
    next
      case 2
      then show ?thesis using old[of u] Bd[of u] ne(1)[of u] by (simp add: Int_commute)
    next
      case 3
      then show ?thesis using forestD(3)[OF F _ _ \<open>u \<noteq> v\<close>] ne(1) by simp
    qed
  qed
  ultimately show "forest newp n M A ?G ?T (insert ?t C) ?x"
    using F' sM unfolding forest_def by simp
qed

text \<open>The file of a thread holds its segment, with at most \<open>2\<^sup>2\<^sup>6\<close> accesses, possibly none.\<close>

definition loadable :: "decompressor \<Rightarrow> (uint \<Rightarrow> u8 list option) \<Rightarrow> (uint \<Rightarrow> trace_item list list) \<Rightarrow> uint \<times> TraceInfo \<Rightarrow> bool" where
  "loadable dec datafile bs p \<longleftrightarrow> segment_ok dec (datafile (fst p)) (snd p) (bs (fst p)) \<and>
     length (accesses_of (bs (fst p))) \<le> 2 ^ 26"

definition new_trees :: "(uint \<Rightarrow> ptr) \<Rightarrow> (uint \<times> TraceInfo) list \<Rightarrow> TreeRoot list" where
  "new_trees newr ts = map (\<lambda>p. mk_TreeRoot (fst p) (newr (fst p))) ts"

lemma load_threads_ok:
  assumes "\<forall>p\<in>set ts. loadable dec datafile bs p \<and> accesses_of (bs (fst p)) \<noteq> [] \<and> {fst p} \<times> set (accesses_of (bs (fst p))) \<subseteq> A \<and> newr (fst p) \<noteq> 0"
    and "distinct (map fst ts)" "distinct (map (newr \<circ> fst) ts)"
    and "fst ` set ts \<inter> tr_tid ` C = {}" "newr ` fst ` set ts \<inter> tr_root ` C = {}"
    and "\<forall>u\<in>C. fst ` G (tr_tid u) \<subseteq> {tr_tid u}" "forest newp (length ts + n) M A G T C x"
    and "(\<Sum>u\<in>C. length (inorder (T (tr_tid u)))) + (\<Sum>p\<leftarrow>ts. length (accesses_of (bs (fst p)))) \<le> M"
  shows "\<exists>x' G' T'. load_threads dec newp datafile newr ts x = Some (Inr (new_trees newr ts, x')) \<and>
    forest newp n M A G' T' (C \<union> set (new_trees newr ts)) x' \<and> rn_races x' = rn_races x"
  using assms
proof (induction ts arbitrary: C G T x)
  case Nil
  then show ?case by (auto simp: new_trees_def)
next
  case (Cons p ts)
  obtain t ti where p: "p = (t, ti)" by (cases p)
  let ?a = "accesses_of (bs t)" and ?s = "(rn_store x)\<lparr>rb_root := 0\<rparr>" and ?k = "rn_next x" and ?B = "{t} \<times> set (accesses_of (bs t))"
  have ld: "segment_ok dec (datafile t) ti (bs t)" "?a \<noteq> []" "length ?a \<le> 2 ^ 26" "?B \<subseteq> A" "newr t \<noteq> 0"
    using Cons.prems(1) by (simp_all add: p loadable_def)
  have F: "forest newp (Suc (length ts + n)) M A G T C x" using Cons.prems(7) by simp
  have lM: "length ?a \<le> M" using Cons.prems(8) by (simp add: p)
  have "fresh_supply newp (rn_store x) ?k (Suc (length ts + n) * M)" using F by (simp add: forest_def)
  from fresh_supply_mono[OF this, of "length ?a" ?s]
  have "fresh_supply newp ?s ?k (length ?a)" using lM by simp
  from load_segment_ok[OF ld(1,3,2) this, of t]
  obtain s' T1 where L: "load_and_convert_file dec newp (datafile t) (file_offset_begin ti) (file_offset_end ti) (?k, ?s)
      = Some (Inr (?k + length ?a, s'))" "tree_rep s' T1" "rb_tree T1" "T1 \<noteq> Leaf"
    "\<forall>a\<in>set (inorder T1). comes_from ?B (dat (mores (mem s')) a)"
    "set (inorder T1) \<subseteq> newp ` {?k..<?k + length ?a}"
    "\<forall>a. a \<notin> newp ` {?k..<?k + length ?a} \<longrightarrow> mem s' a = mem (rn_store x) a"
    by auto
  let ?x = "x\<lparr>rn_roots := (rn_roots x)(newr t := rb_root s'), rn_next := ?k + length ?a, rn_store := s'\<rparr>"
  let ?C = "insert (mk_TreeRoot t (newr t)) C" and ?G = "G(t := ?B)"
  have mk: "tr_tid (mk_TreeRoot t (newr t)) = t" "tr_root (mk_TreeRoot t (newr t)) = newr t" by (simp_all add: mk_TreeRoot_def)
  have t: "t \<notin> tr_tid ` C" "newr t \<notin> tr_root ` C" using Cons.prems(4,5) by (auto simp: p)
  have tG: "t \<notin> (\<Union>u\<in>C. fst ` G (tr_tid u))" using t(1) Cons.prems(6) by blast
  have BB: "fst ` ?B \<subseteq> {t}" by auto
  have sm: "(\<Sum>u\<in>C. length (inorder (T (tr_tid u)))) + length ?a \<le> M" using Cons.prems(8) by (simp add: p)
  note A = forest_add[OF F refl lM t ld(5) tG ld(4) BB L(2-7) sm]
  have G: "\<forall>u\<in>?C. fst ` ?G (tr_tid u) \<subseteq> {tr_tid u}" using Cons.prems(6) BB by (auto simp: mk)
  have ps: "\<forall>p\<in>set ts. loadable dec datafile bs p \<and> accesses_of (bs (fst p)) \<noteq> [] \<and> {fst p} \<times> set (accesses_of (bs (fst p))) \<subseteq> A \<and> newr (fst p) \<noteq> 0"
    "distinct (map fst ts)" "distinct (map (newr \<circ> fst) ts)"
    "fst ` set ts \<inter> tr_tid ` ?C = {}" "newr ` fst ` set ts \<inter> tr_root ` ?C = {}"
    using Cons.prems(1-5) by (auto simp: p mk comp_def)
  have "(\<Sum>u\<in>?C. length (inorder ((T(t := T1)) (tr_tid u)))) + (\<Sum>p\<leftarrow>ts. length (accesses_of (bs (fst p)))) \<le> M"
    using A(2) Cons.prems(8) by (simp add: p)
  from Cons.IH[OF ps G A(1) this]
  obtain x' G' T' where "load_threads dec newp datafile newr ts ?x = Some (Inr (new_trees newr ts, x'))"
    "forest newp n M A G' T' (?C \<union> set (new_trees newr ts)) x'" "rn_races x' = rn_races x"
    by auto
  then show ?case
    using L(1) by (auto simp: p new_trees_def)
qed

section \<open>The report\<close>

text \<open>
  What a race of the report stands for: two sites at which disjoint sets of threads made accesses, with kinds that
  conflict and no common lock, and such that the range between two accesses of the one meets the range between two
  accesses of the other. No address need be in both: an interval of the tree is the hull of accesses, and the solver
  allows steps that were not made. The line of the report describes the sites.
\<close>

definition ranges_meet :: "logged \<Rightarrow> race_info \<Rightarrow> bool" where
  "ranges_meet A r \<longleftrightarrow> (\<exists>p\<in>A. \<exists>p'\<in>A. \<exists>q\<in>A. \<exists>q'\<in>A. {fst p, fst p'} \<inter> {fst q, fst q'} = {} \<and>
     site (snd p) = site (snd p') \<and> site (snd q) = site (snd q') \<and> kinds_conflict (snd p) (snd q) \<and> mutex (snd p) \<inter> mutex (snd q) = {} \<and>
     it_start (snd p) \<le> it_start (snd q') \<and> it_start (snd q) \<le> it_start (snd p') \<and>
     r = args_race (race_args_of (snd p, snd q)))"

lemma explained_conflict:
  assumes "explained A d e"
  shows "ranges_meet A (args_race (race_args_of (d, e)))"
proof -
  obtain p p' q q' where p: "end_points A d p p'" "end_points A e q q'" "{fst p, fst p'} \<inter> {fst q, fst q'} = {}"
    and r: "race d e" "\<not> common_lock d e" "it_start d \<le> it_last e" "it_start e \<le> it_last d"
    using assms unfolding explained_def by blast
  have "race (snd p) (snd q) = race d e" "common_lock (snd p) (snd q) = common_lock d e"
    "race_args_of (snd p, snd q) = race_args_of (d, e)"
    using p(1,2) by (auto simp: end_points_def race_def get_access_type_def common_lock_def site_def race_args_of_def Let_def)
  then have "kinds_conflict (snd p) (snd q)" "mutex (snd p) \<inter> mutex (snd q) = {}" "race_args_of (snd p, snd q) = race_args_of (d, e)"
    using r race_kinds by (auto simp: common_lock_def)
  with p r show ?thesis
    unfolding ranges_meet_def end_points_def
    by (intro bexI[of _ p] bexI[of _ p'] bexI[of _ q] bexI[of _ q']) auto
qed

lemma race_file:
  "main_report hc pad dir pregion rs = (let l = region_races hc (map race_args_of rs) in
     if l = [] then None else Some (dir @ ''/'' @ ''race_report_'' @ print_nat (unat pregion), SaveReport pad l))"
  by (simp add: main_report_def Let_def)

section \<open>The whole analysis\<close>

definition segments :: "64 word \<Rightarrow> 64 word \<Rightarrow> (uint \<times> meta_line list) list \<Rightarrow> traces" where
  "segments p b fs = (\<lambda>t. case map_of fs t of None \<Rightarrow> None | Some ls \<Rightarrow> last_segment p b ls)"

definition logged_by :: "uint set \<Rightarrow> (uint \<Rightarrow> trace_item list list) \<Rightarrow> logged" where
  "logged_by D bs = (SIGMA t:D. set (accesses_of (bs t)))"

lemma dom_segments: "finite (dom (segments p b fs))"
proof -
  have "dom (segments p b fs) \<subseteq> fst ` set fs"
    by (force simp: segments_def split: option.splits dest: map_of_SomeD)
  then show ?thesis using finite_subset by blast
qed

lemma trace_list_simps:
  assumes "finite (dom tr)"
  shows "map fst (trace_list tr) = sorted_list_of_set (dom tr)" "set (trace_list tr) = {(t, ti). tr t = Some ti}"
  using assms by (auto simp: trace_list_def comp_def image_def dom_def)

lemma sum_trace_list:
  assumes "finite (dom tr)"
  shows "(\<Sum>p\<leftarrow>trace_list tr. f (fst p)) = sum f (dom tr)" "length (trace_list tr) = card (dom tr)"
  using assms by (simp_all add: trace_list_def comp_def sum_list_distinct_conv_sum_set)

lemma empty_forest: "fresh_supply newp (rn_store empty_run) 0 (n * M) \<Longrightarrow> forest newp n M A G T {} empty_run"
  by (simp add: forest_def empty_run_def)

lemma reduce_small: "length ts \<le> 1 \<Longrightarrow> reduce_trees ts = Some ([], ts)"
  by (subst reduce_trees.simps) simp

lemma analyze_region_ok:
  fixes newp :: "nat \<Rightarrow> ptr" and bs :: "uint \<Rightarrow> trace_item list list"
  assumes tr: "scan_folder pregion barrier_id files Map.empty = Some tr" "finite (dom tr)"
    and ld: "\<And>t ti. tr t = Some ti \<Longrightarrow> loadable dec datafile bs (t, ti) \<and> accesses_of (bs t) \<noteq> [] \<and> newr t \<noteq> 0" "inj_on newr (dom tr)"
    and sched: "\<And>js. mset (sched js) = mset js"
    and sup: "fresh_supply newp (rn_store empty_run) 0 (2 * card (dom tr) * (\<Sum>t\<in>dom tr. length (accesses_of (bs t))))"
  shows "\<exists>rs. analyze_region g hc dec newp newr sched pad dir pregion barrier_id (Some files) datafile =
      Some (Inr (main_report hc pad dir pregion rs)) \<and> (\<forall>(d, e)\<in>set rs. explained (logged_by (dom tr) bs) d e)"
proof (cases "files = []")
  case True
  then show ?thesis by (intro exI[of _ "[]"]) (simp add: analyze_region_def main_report_def region_races_def empty_report_def)
next
  case False
  let ?ts = "trace_list tr" and ?M = "\<Sum>t\<in>dom tr. length (accesses_of (bs t))" and ?A = "logged_by (dom tr) bs"
  let ?trees = "new_trees newr ?ts"
  note T = trace_list_simps[OF tr(2)] and S = sum_trace_list[OF tr(2)]
  have p: "\<forall>p\<in>set ?ts. loadable dec datafile bs p \<and> accesses_of (bs (fst p)) \<noteq> [] \<and> {fst p} \<times> set (accesses_of (bs (fst p))) \<subseteq> ?A \<and> newr (fst p) \<noteq> 0"
    using ld(1) unfolding T(2) by (auto simp: logged_by_def)
  have d: "distinct (map fst ?ts)" unfolding T(1) by simp
  have dn: "distinct (map (newr \<circ> fst) ?ts)"
    unfolding map_map[symmetric] T(1) by (simp add: distinct_map ld(2) tr(2))
  have "fresh_supply newp (rn_store empty_run) 0 ((length ?ts + length ?ts) * ?M)" using sup S(2) by (simp add: mult_2)
  from empty_forest[OF this] have F: "forest newp (length ?ts + length ?ts) ?M ?A (\<lambda>_. {}) (\<lambda>_. Leaf) {} empty_run" .
  obtain x G T' where L: "load_threads dec newp datafile newr ?ts empty_run = Some (Inr (?trees, x))"
    "forest newp (length ?ts) ?M ?A G T' (set ?trees) x"
    using load_threads_ok[OF p d dn _ _ _ F] S(1)[of "\<lambda>t. length (accesses_of (bs t))"] by auto
  have len: "length ?trees = length ?ts" by (simp add: new_trees_def)
  have mt: "map tr_tid ?trees = map fst ?ts" by (simp add: new_trees_def mk_TreeRoot_def)
  then have dt: "distinct (map tr_tid ?trees)" using d by simp
  obtain rounds left where r: "reduce_trees ?trees = Some (rounds, left)"
    using reduce_trees_ok[OF dt] reduce_small[of ?trees] by (cases "?trees = []") auto
  have dd: "distinct ?trees" using dt by (simp add: distinct_map)
  have F2: "forest newp (length ?trees) ?M ?A G T' (set ?trees) x" using L(2) len by simp
  obtain x' where x': "run_rounds g newp sched rounds x = Some x'" "\<forall>(d, e)\<in>set (rn_races x'). explained ?A d e"
    using run_rounds_ok[OF sched r dd F2] by blast
  then show ?thesis
    using False tr(1) L(1) r by (intro exI[of _ "rn_races x'"]) (simp add: analyze_region_def)
qed

lemma analyze_region_conflicts:
  fixes newp :: "nat \<Rightarrow> ptr" and bs :: "uint \<Rightarrow> trace_item list list"
  assumes "\<forall>(t, ls)\<in>set fs. \<forall>l\<in>set ls. meta_ok l" "distinct (map fst fs)"
    and "\<forall>t\<in>dom (segments p b fs). loadable dec datafile bs (t, the (segments p b fs t)) \<and> newr t \<noteq> 0"
    and "\<forall>t\<in>dom (segments p b fs). accesses_of (bs t) \<noteq> []"
    and "inj_on newr (dom (segments p b fs))" "\<forall>js. mset (sched js) = mset js"
    and "fresh_supply newp (rn_store empty_run) 0
      (2 * card (dom (segments p b fs)) * (\<Sum>t\<in>dom (segments p b fs). length (accesses_of (bs t))))"
  shows "\<exists>rs. analyze_region g hc dec newp newr sched pad dir p b (Some (map metafile fs)) datafile =
      Some (Inr (if rs = [] then None
                 else Some (dir @ ''/'' @ ''race_report_'' @ print_nat (unat p), SaveReport pad rs))) \<and>
    (\<forall>r\<in>set rs. ranges_meet (logged_by (dom (segments p b fs)) bs) r)"
proof -
  let ?tr = "segments p b fs"
  have "scan_folder p b (map metafile fs) Map.empty = Some ?tr"
    unfolding scan_folder_ok[OF assms(1,2)] by (simp add: segments_def fun_eq_iff split: option.splits)
  moreover have "loadable dec datafile bs (t, ti) \<and> accesses_of (bs t) \<noteq> [] \<and> newr t \<noteq> 0" if "?tr t = Some ti" for t ti
    using assms(3,4) that by (metis domI option.sel)
  ultimately obtain rs where rs: "analyze_region g hc dec newp newr sched pad dir p b (Some (map metafile fs)) datafile =
      Some (Inr (main_report hc pad dir p rs))" "\<forall>(d, e)\<in>set rs. explained (logged_by (dom ?tr) bs) d e"
    using analyze_region_ok[OF _ dom_segments, of p b "map metafile fs" p b fs] assms(5-7) by blast
  let ?l = "region_races hc (map race_args_of rs)"
  have "ranges_meet (logged_by (dom ?tr) bs) r" if r: "r \<in> set ?l" for r
  proof -
    obtain d e where "(d, e) \<in> set rs" "r = args_race (race_args_of (d, e))"
      using region_races_sub[of hc "map race_args_of rs"] r by auto
    then show ?thesis using explained_conflict rs(2) by blast
  qed
  then show ?thesis using rs(1) unfolding race_file Let_def by (intro exI[of _ ?l]) auto
qed

section \<open>Two threads with one access each\<close>

text \<open>A tree of one node that stands for one access.\<close>

definition single :: "it_data \<Rightarrow> it_state \<Rightarrow> ptr \<Rightarrow> ptree \<Rightarrow> bool" where
  "single n s a T \<longleftrightarrow> (\<exists>c. T = Node Leaf a c Leaf) \<and> tree_rep s T \<and> count (dat (mores (mem s)) a) = 1 \<and>
     site (dat (mores (mem s)) a) = site n \<and> it_start (dat (mores (mem s)) a) = it_start n \<and>
     it_last (dat (mores (mem s)) a) = it_start n"

lemma load_single:
  assumes seg: "segment_ok dec img ti bs" and n: "accesses_of bs = [n]" and sup: "fresh_supply newp s k (Suc 0)" and r: "rb_root s = 0"
  shows "\<exists>s' T. load_and_convert_file dec newp img (file_offset_begin ti) (file_offset_end ti) (k, s) = Some (Inr (Suc k, s')) \<and>
    single n s' (newp k) T \<and> (\<forall>x. x \<noteq> newp k \<longrightarrow> mem s' x = mem s x)"
proof -
  have l: "length (accesses_of bs) \<le> 2 ^ 26" "accesses_of bs \<noteq> []" "fresh_supply newp s k (length (accesses_of bs))"
    using n sup by simp_all
  obtain s' T where L: "load_and_convert_file dec newp img (file_offset_begin ti) (file_offset_end ti) (k, s) = Some (Inr (Suc k, s'))"
    "tree_rep s' T" "T \<noteq> Leaf" "data_tree 1 s' T" "\<forall>a\<in>set (inorder T). comes_from ({0 :: uint} \<times> {n}) (dat (mores (mem s')) a)"
    "set (inorder T) \<subseteq> {newp k}" "\<forall>x. x \<noteq> newp k \<longrightarrow> mem s' x = mem s x"
    using load_segment_ok[OF seg l r, of 0] n by auto
  have d: "distinct (inorder T)" using L(2) by (simp add: tree_rep_def)
  obtain t1 a c t2 where T: "T = Node t1 a c t2" using L(3) by (cases T) auto
  have a: "a = newp k" using L(6) T by auto
  have "set (inorder t1) \<subseteq> {a}" "a \<notin> set (inorder t1)" "set (inorder t2) \<subseteq> {a}" "a \<notin> set (inorder t2)"
    using L(6) d unfolding a[symmetric] by (simp_all add: T)
  then have "set (inorder t1) = {}" "set (inorder t2) = {}" by (metis insertI1 subset_singletonD)+
  then have "inorder t1 = []" "inorder t2 = []" by simp_all
  then have "t1 = Leaf" "t2 = Leaf" by (metis append_is_Nil_conv inorder.simps(2) list.distinct(1) ptree.exhaust)+
  moreover have "node_ok 1 (dat (mores (mem s')) a)" using L(4) T by (simp add: data_tree_def)
  then have "unat (count (dat (mores (mem s')) a)) = 1" by (simp add: node_ok_def)
  then have "count (dat (mores (mem s')) a) = 1" by (metis unat_1 word_unat_eq_iff)
  moreover have "comes_from ({0 :: uint} \<times> {n}) (dat (mores (mem s')) a)" using L(5) T by simp
  ultimately have "single n s' (newp k) T" using L(2) T a by (auto simp: single_def comes_from_def end_points_def)
  then show ?thesis using L(1,7) by blast
qed

lemma single_frame:
  assumes "single n s a T" "mem s' a = mem s a" "rb_root s' = rb_root s"
  shows "single n s' a T"
  using assms tree_rep_mem[of T s' s] by (auto simp: single_def mores_def)

lemma analyze_singles:
  assumes 1: "single n1 (s\<lparr>rb_root := r1\<rparr>) a T1" and 2: "single n2 (s\<lparr>rb_root := r2\<rparr>) b T2" and ab: "a \<noteq> b"
    and n: "it_start n1 = it_start n2" "race n2 n1" "\<not> common_lock n2 n1"
  shows "\<exists>d e s'. analyze_trees g newp True (Some r1) (Some r2) [] k s = Some ([(d, e)], Some (rb_root s'), Some r2, k, s') \<and>
    race_args_of (d, e) = race_args_of (n2, n1)"
proof -
  obtain c1 c2 where T: "T1 = Node Leaf a c1 Leaf" "T2 = Node Leaf b c2 Leaf" using 1 2 by (auto simp: single_def)
  let ?s = "s\<lparr>rb_root := r1\<rparr>" and ?d = "dat (mores (mem s)) b" and ?e = "dat (mores (mem s)) a"
  have f: "site ?e = site n1" "it_start ?e = it_start n1" "it_last ?e = it_start n1" "count ?e = 1"
    "site ?d = site n2" "it_start ?d = it_start n2" "it_last ?d = it_start n2" "count ?d = 1"
    using 1 2 by (simp_all add: single_def)
  have "report_test g ?d ?e (it_start ?d) (it_last ?d)"
    unfolding report_testI using f n by (simp add: race_def get_access_type_def common_lock_def site_def)
  then have fd: "found g (mores (mem ?s)) b T1 = [(?d, ?e)]" by (simp add: found_def T(1))
  obtain R s' where O: "interval_tree_overlap g r2 [] ?s = Some ([] @ R, s')"
    "map strip2 R = concat (map (\<lambda>a. map strip2 (found g (mores (mem ?s)) a T1)) (inorder T2))"
    using interval_tree_overlap_ok[of ?s T1 r2 T2 g "[]"] 1 2 ab by (auto simp: single_def T)
  then have "map strip2 R = [strip2 (?d, ?e)]" using fd by (simp add: T(2))
  then obtain d e where R: "R = [(d, e)]" "strip d = strip ?d" "strip e = strip ?e" by (auto simp: strip2_def)
  have "site d = site n2" "site e = site n1" "it_start d = it_start n2"
    using R(2,3) f site_strip strip_fields by metis+
  then have "race_args_of (d, e) = race_args_of (n2, n1)" by (simp add: race_args_of_def site_def Let_def)
  then show ?thesis using O(1) R(1) by (simp add: analyze_trees_def)
qed

section \<open>Properties\<close>

text \<open>C2: from the files of a barrier interval to the report: for any number of threads that each logged at least one
  access (merging into the tree of a thread that logged none is undefined, \<open>merge_into_empty_undefined\<close>), any order in
  which the jobs of a round run and any solver, the analysis returns without an error and writes the races it finds. Each
  of them names two sites of different threads with conflicting kinds and no common lock, by the program counters,
  kinds and sizes in the report, and the range between two accesses of the one site meets the range between two of the
  other. That is all a race of the report means: no address need be common (\<open>merge_forgets_stride\<close>,
  \<open>solve_mip_false_alarm\<close>). Threads whose file does not name the interval take no part.\<close>
theorem analyze_region_correct:
  fixes bs :: "uint \<Rightarrow> trace_item list list"
  defines "D \<equiv> \<lambda>p b fs. dom (segments p b fs)"
  assumes "\<forall>(t, ls)\<in>set fs. \<forall>l\<in>set ls. meta_ok l" "distinct (map fst fs)"
    and "\<forall>t\<in>D p b fs. loadable dec datafile bs (t, the (segments p b fs t)) \<and> newr t \<noteq> 0"
    and "\<forall>t\<in>D p b fs. accesses_of (bs t) \<noteq> []" "inj_on newr (D p b fs)"
    and "\<forall>js. mset (sched js) = mset js"
    and "fresh_supply newp (rn_store empty_run) 0
      (2 * card (D p b fs) * (\<Sum>t\<in>D p b fs. length (accesses_of (bs t))))"
  shows "\<exists>rs. analyze_region g hc dec newp newr sched pad dir p b (Some (map metafile fs)) datafile =
      Some (Inr (if rs = [] then None
                 else Some (dir @ ''/'' @ ''race_report_'' @ print_nat (unat p), SaveReport pad rs))) \<and>
    (\<forall>r\<in>set rs. ranges_meet (logged_by (D p b fs) bs) r)"
  using assms(2-8) unfolding D_def by (rule analyze_region_conflicts)

text \<open>Two threads that write the same address: one block each, from the start of the file.\<close>

lemma aligned_mod: "unat (p :: ptr) mod 4 = 0 \<Longrightarrow> aligned p"
proof -
  assume p: "unat p mod 4 = 0"
  have "(3 :: ptr) = mask 2" by (simp add: mask_eq_exp_minus_1)
  then have "p AND 3 = take_bit 2 p" by (simp add: take_bit_eq_mask)
  moreover have "unat (take_bit 2 p) = unat p mod 4" by (simp add: take_bit_eq_mod unat_mod_distrib)
  ultimately show ?thesis using p by (simp add: aligned_def unat_eq_0)
qed

lemma sample_new_fresh: "n < 2 ^ 60 \<Longrightarrow> fresh_supply sample_new (rn_store empty_run) 0 n"
proof -
  assume n: "n < 2 ^ 60"
  have e: "sample_new i = of_nat (8 * (i + 1))" for i by (simp add: sample_new_def)
  have u: "unat (sample_new i) = 8 * (i + 1)" if "i < n" for i
    unfolding e by (rule unat_of_nat_64) (use that n in simp)
  have "inj_on sample_new {0..<n}"
    by (rule inj_onI) (use u in \<open>metis atLeastLessThan_iff Suc_eq_plus1 Suc_inject mult_cancel1 zero_neq_numeral\<close>)
  moreover have "sample_new i \<noteq> 0 \<and> aligned (sample_new i)" if "i < n" for i
    using u[OF that] aligned_mod[of "sample_new i"] by auto
  ultimately show ?thesis by (simp add: fresh_supply_def empty_run_def)
qed

definition short_line :: meta_line where
  "short_line = sample_line\<lparr>ml_begin := 0, ml_end := 24\<rparr>"

definition short_files :: "(uint \<times> meta_line list) list" where
  "short_files = [(0, [short_line]), (1, [short_line])]"

lemma short_segments: "segments 3 1 short_files = [0 \<mapsto> mk_TraceInfo 0 24, 1 \<mapsto> mk_TraceInfo 0 24]"
  by (simp add: segments_def short_files_def short_line_def sample_line_def last_segment_def matches_def segment_def Let_def fun_eq_iff)

lemma short_loadable:
  "loadable stored (\<lambda>t. Some (blocks_bytes [items_bytes access_block])) (\<lambda>t. [access_block]) (t, mk_TraceInfo 0 24)"
proof -
  have "length (blocks_bytes [items_bytes access_block]) = 24" by (simp add: length_items_bytes block_defs access_block_def)
  moreover have "block_ok stored (items_bytes access_block) access_block"
    by (simp add: block_ok_def stored_def length_items_bytes OUT_LEN_val NUM_OF_ACCESSES_def block_defs)
  moreover have "items_ok access_block" by (simp add: items_ok_def item_ok_def block_defs)
  ultimately have "segment_ok stored (Some (blocks_bytes [items_bytes access_block])) (mk_TraceInfo 0 24) [access_block]"
    unfolding segment_ok_def by (intro conjI exI[of _ "[]"] exI[of _ "[items_bytes access_block]"]) (simp_all add: mk_TraceInfo_def)
  then show ?thesis by (simp add: loadable_def accesses_of_def block_defs)
qed

lemma analyze_region_correct_witness:
  "\<exists>rs. analyze_region ref_glpk (\<lambda>a b. a + b) stored sample_new (\<lambda>t. ucast t + 1) rev [] ''out'' 3 1 (Some (map metafile short_files))
      (\<lambda>t. Some (blocks_bytes [items_bytes access_block])) =
      Some (Inr (if rs = [] then None else Some (''out'' @ ''/'' @ ''race_report_'' @ print_nat (unat (3 :: 64 word)), SaveReport [] rs))) \<and>
    (\<forall>r\<in>set rs. ranges_meet (logged_by {0, 1} (\<lambda>t. [access_block])) r)"
proof -
  have D: "dom (segments 3 1 short_files) = {0, 1}" unfolding short_segments by auto
  have 1: "\<forall>(t, ls)\<in>set short_files. \<forall>l\<in>set ls. meta_ok l" "distinct (map fst short_files)"
    by (simp_all add: short_files_def short_line_def sample_line_def meta_ok_def)
  have n: "(ucast t + 1 :: ptr) \<noteq> 0" if "t \<in> {0, 1 :: uint}" for t using that by auto
  have 2: "\<forall>t\<in>dom (segments 3 1 short_files).
      loadable stored (\<lambda>t. Some (blocks_bytes [items_bytes access_block])) (\<lambda>t. [access_block]) (t, the (segments 3 1 short_files t)) \<and>
      (ucast t + 1 :: ptr) \<noteq> 0"
    unfolding D using short_loadable n by (auto simp: short_segments)
  have ne: "\<forall>t\<in>dom (segments 3 1 short_files). accesses_of [access_block] \<noteq> []" by (simp add: accesses_of_def block_defs)
  have 3: "inj_on (\<lambda>t :: uint. ucast t + 1 :: ptr) (dom (segments 3 1 short_files))" unfolding D by (auto simp: inj_on_def)
  have 4: "\<forall>js :: tree_job list. mset (rev js) = mset js" by simp
  have "length (accesses_of [access_block]) = 1" by (simp add: accesses_of_def block_defs)
  then have e: "2 * card (dom (segments 3 1 short_files)) * (\<Sum>t\<in>dom (segments 3 1 short_files). length (accesses_of [access_block])) = 8"
    unfolding D by simp
  have 5: "fresh_supply sample_new (rn_store empty_run) 0
      (2 * card (dom (segments 3 1 short_files)) * (\<Sum>t\<in>dom (segments 3 1 short_files). length (accesses_of [access_block])))"
    unfolding e by (rule sample_new_fresh) simp
  show ?thesis by (rule analyze_region_correct[OF 1 2 ne 3 4 5, unfolded D])
qed

lemma load_two:
  assumes p: "loadable dec datafile bs (t1, ti1)" "loadable dec datafile bs (t2, ti2)"
    and n: "accesses_of (bs t1) = [n1]" "accesses_of (bs t2) = [n2]" and r: "newr t1 \<noteq> newr t2"
    and sup: "fresh_supply newp (rn_store empty_run) 0 2"
  shows "\<exists>x T1 T2. load_threads dec newp datafile newr [(t1, ti1), (t2, ti2)] empty_run =
      Some (Inr ([mk_TreeRoot t1 (newr t1), mk_TreeRoot t2 (newr t2)], x)) \<and> rn_races x = [] \<and>
    single n1 ((rn_store x)\<lparr>rb_root := rn_roots x (newr t1)\<rparr>) (newp 0) T1 \<and>
    single n2 ((rn_store x)\<lparr>rb_root := rn_roots x (newr t2)\<rparr>) (newp 1) T2 \<and> newp 0 \<noteq> newp 1"
proof -
  let ?s = "(rn_store empty_run)\<lparr>rb_root := 0\<rparr>"
  have two: "0 \<in> {0..<0 + 2 :: nat}" "1 \<in> {0..<0 + 2 :: nat}" by simp_all
  have f: "newp 0 \<noteq> newp 1" "newp 0 \<noteq> 0 \<and> aligned (newp 0)" "newp 1 \<noteq> 0 \<and> aligned (newp 1)"
    using sup two inj_onD[of newp "{0..<0 + 2}" 0 1] unfolding fresh_supply_def by auto
  have seg: "segment_ok dec (datafile t1) ti1 (bs t1)" "segment_ok dec (datafile t2) ti2 (bs t2)" using p by (simp_all add: loadable_def)
  have f0: "fresh_supply newp ?s 0 (Suc 0)" using f by (simp add: fresh_supply_def empty_run_def)
  obtain s1 T1 where 1: "load_and_convert_file dec newp (datafile t1) (file_offset_begin ti1) (file_offset_end ti1) (0, ?s) = Some (Inr (1, s1))"
    "single n1 s1 (newp 0) T1" "\<forall>x. x \<noteq> newp 0 \<longrightarrow> mem s1 x = mem ?s x"
    using load_single[OF seg(1) n(1) f0] by auto
  have "mem s1 (newp 1) = None" using 1(3) f(1) by (simp add: empty_run_def)
  then have f1: "fresh_supply newp (s1\<lparr>rb_root := 0\<rparr>) 1 (Suc 0)" using f by (simp add: fresh_supply_def)
  obtain s2 T2 where 2: "load_and_convert_file dec newp (datafile t2) (file_offset_begin ti2) (file_offset_end ti2) (1, s1\<lparr>rb_root := 0\<rparr>)
      = Some (Inr (2, s2))" "single n2 s2 (newp 1) T2" "\<forall>x. x \<noteq> newp 1 \<longrightarrow> mem s2 x = mem s1 x"
    using load_single[OF seg(2) n(2) f1] by (auto simp: numeral_2_eq_2)
  let ?x = "\<lparr>rn_races = [], rn_roots = (\<lambda>_. 0)(newr t1 := rb_root s1, newr t2 := rb_root s2), rn_next = 2, rn_store = s2\<rparr>"
  have e: "rn_next empty_run = 0" "rn_roots empty_run = (\<lambda>_. 0)" "rn_races empty_run = []" by (simp_all add: empty_run_def)
  have "load_threads dec newp datafile newr [(t1, ti1), (t2, ti2)] empty_run =
      Some (Inr ([mk_TreeRoot t1 (newr t1), mk_TreeRoot t2 (newr t2)], ?x))"
    using 1(1) 2(1) by (simp add: e)
  moreover have "single n1 (s2\<lparr>rb_root := rb_root s1\<rparr>) (newp 0) T1" by (rule single_frame[OF 1(2)]) (use 2(3) f(1) in simp_all)
  moreover have "single n2 (s2\<lparr>rb_root := rb_root s2\<rparr>) (newp 1) T2" using 2(2) by simp
  ultimately show ?thesis using f(1) r by (intro exI[of _ ?x] exI[of _ T1] exI[of _ T2]) simp
qed

text \<open>C3: a race is found: when the two threads of an interval made one access each, to the same address, with kinds
  that conflict and no common lock, the analysis writes a report with exactly this race, whatever the solver.\<close>
theorem single_race_reported:
  assumes "\<forall>(t, ls)\<in>set fs. \<forall>l\<in>set ls. meta_ok l" "distinct (map fst fs)"
    and "segments p b fs = [t1 \<mapsto> ti1, t2 \<mapsto> ti2]" "t1 < t2"
    and "loadable dec datafile bs (t1, ti1)" "loadable dec datafile bs (t2, ti2)"
    and "accesses_of (bs t1) = [n1]" "accesses_of (bs t2) = [n2]" "it_start n1 = it_start n2" "race n2 n1" "\<not> common_lock n2 n1"
    and "newr t1 \<noteq> newr t2" "newr t1 \<noteq> 0" "newr t2 \<noteq> 0" "\<forall>js. mset (sched js) = mset js"
    and "fresh_supply newp (rn_store empty_run) 0 2"
  shows "analyze_region g hc dec newp newr sched pad dir p b (Some (map metafile fs)) datafile =
    Some (Inr (Some (dir @ ''/'' @ ''race_report_'' @ print_nat (unat p), SaveReport pad [args_race (race_args_of (n2, n1))])))"
proof -
  let ?tr = "segments p b fs" and ?t1 = "mk_TreeRoot t1 (newr t1)" and ?t2 = "mk_TreeRoot t2 (newr t2)"
  let ?j = "\<lparr>jb_last = True, jb_tree1 = ?t1, jb_tree2 = ?t2\<rparr>"
  have "scan_folder p b (map metafile fs) Map.empty = Some ?tr"
    unfolding scan_folder_ok[OF assms(1,2)] by (simp add: segments_def fun_eq_iff split: option.splits)
  moreover have "trace_list ?tr = [(t1, ti1), (t2, ti2)]"
    using assms(4) by (auto simp: trace_list_def assms(3) insert_commute[of t1])
  moreover have "fs \<noteq> []"
  proof
    assume "fs = []"
    then have "segments p b fs t2 = None" by (simp add: segments_def)
    then show False using assms(3) by simp
  qed
  moreover obtain x T1 T2 where L: "load_threads dec newp datafile newr [(t1, ti1), (t2, ti2)] empty_run = Some (Inr ([?t1, ?t2], x))"
    "rn_races x = []" "single n1 ((rn_store x)\<lparr>rb_root := rn_roots x (newr t1)\<rparr>) (newp 0) T1"
    "single n2 ((rn_store x)\<lparr>rb_root := rn_roots x (newr t2)\<rparr>) (newp 1) T2" "newp 0 \<noteq> newp 1"
    using load_two[OF assms(5-8,12,16)] by blast
  moreover have "reduce_trees [?t1, ?t2] = Some ([[?j]], [?t1])"
    using reduce_small[of "[?t1]"] pair_trees_list[of "[?t1, ?t2]" 2]
    by (subst reduce_trees.simps) (simp add: numeral_2_eq_2)
  moreover have "mset (sched [?j]) = {#?j#}" using assms(15) by simp
  then have "sched [?j] = [?j]" by simp
  moreover obtain d e s' where "analyze_trees g newp True (Some (rn_roots x (newr t1))) (Some (rn_roots x (newr t2))) [] (rn_next x) (rn_store x)
      = Some ([(d, e)], Some (rb_root s'), Some (rn_roots x (newr t2)), rn_next x, s')" and de: "race_args_of (d, e) = race_args_of (n2, n1)"
    using analyze_singles[OF L(3-5) assms(9-11)] by blast
  moreover have "tr_root ?t1 = newr t1" "tr_root ?t2 = newr t2" by (simp_all add: mk_TreeRoot_def)
  ultimately have "analyze_region g hc dec newp newr sched pad dir p b (Some (map metafile fs)) datafile =
      Some (Inr (main_report hc pad dir p [(d, e)]))"
    using assms(13,14) by (simp add: analyze_region_def thread_job_def cell_def Let_def)
  moreover obtain a rw1 rw2 sz1 sz2 pc1 pc2 where "race_args_of (n2, n1) = (a, rw1, rw2, sz1, sz2, pc1, pc2)" by (metis prod_cases7)
  ultimately show ?thesis
    by (simp add: race_file de region_races_def empty_report_def ReportRace_def Let_def)
qed

lemma single_race_reported_witness:
  "analyze_region ref_glpk (\<lambda>a b. a + b) stored sample_new (\<lambda>t. ucast t + 1) rev [] ''out'' 3 1 (Some (map metafile short_files))
      (\<lambda>t. Some (blocks_bytes [items_bytes access_block])) =
    Some (Inr (Some (''out'' @ ''/'' @ ''race_report_'' @ print_nat (unat (3 :: 64 word)), SaveReport []
      [args_race (race_args_of (interval_tree_node 2000 2000 0x31 8 {}, interval_tree_node 2000 2000 0x31 8 {}))])))"
proof -
  let ?n = "interval_tree_node 2000 2000 0x31 8 {}"
  have 1: "\<forall>(t, ls)\<in>set short_files. \<forall>l\<in>set ls. meta_ok l" "distinct (map fst short_files)"
    by (simp_all add: short_files_def short_line_def sample_line_def meta_ok_def)
  have a: "accesses_of ((\<lambda>t. [access_block]) t) = [?n]" for t :: uint by (simp add: accesses_of_def block_defs)
  have r: "it_start ?n = it_start ?n" "race ?n ?n" "\<not> common_lock ?n ?n"
    by (simp_all add: race_def get_access_type_def common_lock_def interval_tree_node_def)
  have n: "(ucast (0 :: uint) + 1 :: ptr) \<noteq> ucast (1 :: uint) + 1" "(ucast (0 :: uint) + 1 :: ptr) \<noteq> 0" "(ucast (1 :: uint) + 1 :: ptr) \<noteq> 0"
    by simp_all
  have s: "\<forall>js :: tree_job list. mset (rev js) = mset js" by simp
  have f: "fresh_supply sample_new (rn_store empty_run) 0 2" by (rule sample_new_fresh) simp
  have lt: "(0 :: uint) < 1" by simp
  show ?thesis
    by (rule single_race_reported[where newr = "\<lambda>t. ucast t + 1" and bs = "\<lambda>t. [access_block]",
          OF 1 short_segments lt short_loadable short_loadable a a r n s f])
qed

end
