(* ===== verification/EndToEnd.thy ===== *)
theory EndToEnd
  imports Trace Pipeline
begin

text \<open>
  The run-time library and the analyser together: the events of the threads in a barrier interval are logged, flushed
  at the barrier and described in the metafiles (\<open>rtl/sword_rtl.cc\<close>); later the analyser reads these files and writes
  its report (\<open>tools/sword-race-analysis.cc\<close>).
\<close>

section \<open>What a thread leaves behind\<close>

text \<open>
  A thread at the start of interval \<open>b\<close> of region \<open>p\<close>: its log is empty, its data file holds \<open>pre\<close> and its metafile
  the lines \<open>ms\<close>. In the interval it makes the events \<open>es\<close>.
\<close>

definition at_start ::
    "hash_combine \<Rightarrow> compressor \<Rightarrow> 64 word \<Rightarrow> 64 word \<Rightarrow> pd_heap \<Rightarrow> ptr \<Rightarrow> u8 list \<Rightarrow> meta_line list \<Rightarrow> log_event list \<Rightarrow> rtl \<Rightarrow> bool" where
  "at_start hc lzo p b h task pre ms es s \<longleftrightarrow> logs_at hc lzo pre ([], []) s \<and> t_metafile s = Some (concat (map print_meta ms)) \<and>
     t_bid s = b \<and> (\<exists>pd. h task = Some pd \<and> parallel_id pd = p) \<and>
     (\<forall>l\<in>set ms. meta_ok l) \<and> (\<forall>e\<in>set es. event_ok e) \<and> length es \<le> 2 ^ 26 \<and> length pre < 2 ^ 62"

text \<open>An access of the log is an event: the node has its address, kind, size and program counter.\<close>

definition made_by :: "log_event list \<Rightarrow> it_data \<Rightarrow> bool" where
  "made_by es n \<longleftrightarrow> (\<exists>f a q L. Entry f a q \<in> set es \<and>
     n = (let x = mk_access (fst (entry_access f)) (snd (entry_access f)) a q in
          interval_tree_node (acc_address x) (acc_address x) (acc_size_type x) (ucast (acc_pc x)) L))"

lemma item_nodes_from:
  "n \<in> set (item_nodes is mx) \<Longrightarrow> \<exists>i\<in>set is. \<exists>a L. item_data i = Access a \<and>
     n = interval_tree_node (acc_address a) (acc_address a) (acc_size_type a) (ucast (acc_pc a)) L"
proof (induction "is" arbitrary: mx)
  case (Cons i "is")
  then show ?case by (cases "item_data i") (auto split: if_split_asm)
qed simp

lemma covers_items:
  assumes "Trace.covers hc es (concat bs)" "b \<in> set bs" "i \<in> set b"
  shows "\<exists>e\<in>set es. i = event_item e"
proof -
  have "subseq (concat bs) (map event_item es)" using assms(1) by (simp add: Trace.covers_def)
  then have "i \<in> event_item ` set es" using list_emb_set[of _ "concat bs" "map event_item es" i] assms(2,3) by auto
  then show ?thesis by blast
qed

lemma covers_made_by:
  assumes "Trace.covers hc es (concat bs)" "n \<in> set (accesses_of bs)"
  shows "made_by es n"
proof -
  obtain b i a L where b: "b \<in> set bs" "i \<in> set b" "item_data i = Access a"
    and n: "n = interval_tree_node (acc_address a) (acc_address a) (acc_size_type a) (ucast (acc_pc a)) L"
    using assms(2) item_nodes_from unfolding accesses_of_def by fastforce
  obtain e where e: "e \<in> set es" "i = event_item e" using covers_items[OF assms(1) b(1,2)] by blast
  with b(3) obtain f ad q where "e = Entry f ad q" "a = mk_access (fst (entry_access f)) (snd (entry_access f)) ad q"
    by (cases e) (auto simp: item_access_def item_mutex_def)
  then show ?thesis using e(1) n unfolding made_by_def Let_def by blast
qed

lemma item_nodes_access: "i \<in> set is \<Longrightarrow> item_data i = Access a \<Longrightarrow> item_nodes is mx \<noteq> []"
proof (induction "is" arbitrary: mx)
  case (Cons j "is")
  then show ?case by (cases "item_data j") auto
qed simp

lemma covers_accesses:
  assumes "Trace.covers hc es (concat bs)" "e \<in> set es" "is_access (event_item e)"
  shows "accesses_of bs \<noteq> []"
proof -
  obtain i where "i \<in> set (concat bs)" "is_access i" using assms unfolding Trace.covers_def by blast
  then obtain b where b: "b \<in> set bs" "i \<in> set b" "is_access i" by auto
  obtain e' where e': "i = event_item e'" using covers_items[OF assms(1) b(1,2)] by blast
  then obtain a where "item_data i = Access a"
    using b(3) by (cases e') (auto simp: is_access_def item_access_def item_mutex_def)
  then have "item_nodes b {} \<noteq> []" by (rule item_nodes_access[OF b(2)])
  then show ?thesis using b(1) by (auto simp: accesses_of_def)
qed

text \<open>The files of one thread after the barrier.\<close>

definition flushed ::
    "hash_combine \<Rightarrow> compressor \<Rightarrow> 64 word \<Rightarrow> 64 word \<Rightarrow> u8 list \<Rightarrow> meta_line list \<Rightarrow> log_event list \<Rightarrow> rtl \<Rightarrow> trace_item list list \<Rightarrow>
       meta_line \<Rightarrow> bool" where
  "flushed hc lzo p b pre ms es s2 bs l \<longleftrightarrow> Trace.covers hc es (concat bs) \<and> t_datafile s2 = Some (pre @ dumped lzo bs) \<and>
     t_metafile s2 = Some (concat (map print_meta (ms @ [l]))) \<and> meta_ok l \<and> matches p b l \<and>
     ml_begin l = of_nat (length pre) \<and> ml_end l = of_nat (length (pre @ dumped lzo bs)) \<and>
     (\<forall>b\<in>set bs. b \<noteq> [] \<and> length b \<le> NUM_OF_ACCESSES)"

lemma interval_flushed:
  assumes lb: "lzo_bound lzo" and st: "at_start hc lzo p b h task pre ms es s"
  shows "\<exists>s1 s2 bs l. run_prompt lzo hc es s = Some s1 \<and> on_sync_region lzo scope_begin task h s1 = Some s2 \<and>
    flushed hc lzo p b pre ms es s2 bs l"
proof -
  let ?l = "fold (\<lambda>e. spec_step hc (event_item e)) es ([], [])"
  let ?bs = "closed_blocks ?l"
  obtain pd where pd: "h task = Some pd" "parallel_id pd = p"
    using st by (auto simp: at_start_def)
  have A: "logs_at hc lzo pre ([], []) s" "t_metafile s = Some (concat (map print_meta ms))" "t_bid s = b"
    using st by (simp_all add: at_start_def)
  obtain s1 where 1: "run_prompt lzo hc es s = Some s1" "logs_at hc lzo pre ?l s1" "same_region s s1"
    using run_prompt_ok[OF lb A(1), of es] by auto
  have m1: "t_metafile s1 = Some (concat (map print_meta ms))" "t_bid s1 = b"
    using 1(3) A by (simp_all add: same_region_def)
  let ?line = "line_of pd (t_bid s1) (t_offset s1) (t_span s1) (length pre) (length (pre @ dumped lzo ?bs))"
  obtain s2 where 2: "on_sync_region lzo scope_begin task h s1 = Some s2" "logs_at hc lzo (pre @ dumped lzo ?bs) ([], []) s2"
    "t_metafile s2 = Some (concat (map print_meta ms) @ print_meta ?line)"
    using sync_ok[where h = h, OF lb 1(2) pd(1) m1(1)] by auto
  have "Trace.covers hc es (concat ?bs)" using spec_run_covers[of hc es] by (simp add: concat_closed)
  moreover have "\<forall>b\<in>set ?bs. b \<noteq> [] \<and> length b \<le> NUM_OF_ACCESSES" using flush_ok[OF lb 1(2)] by (auto simp: logs_def)
  moreover have "t_datafile s2 = Some (pre @ dumped lzo ?bs)" using 2(2) by (simp add: logs_def)
  moreover have "meta_ok ?line" "matches p b ?line"
    using sint_int_range[of "level pd"] pd(2) m1(2) by (simp_all add: meta_ok_def matches_def line_of_def)
  moreover have "ml_begin ?line = of_nat (length pre)" "ml_end ?line = of_nat (length (pre @ dumped lzo ?bs))"
    by (simp_all add: line_of_def)
  ultimately have "flushed hc lzo p b pre ms es s2 ?bs ?line"
    unfolding flushed_def using 2(3) by simp
  then show ?thesis using 1(1) 2(1) by blast
qed

lemma flushed_loadable:
  assumes cd: "codec lzo dec" and st: "at_start hc lzo p b h task pre ms es s" and fl: "flushed hc lzo p b pre ms es s2 bs l"
    and dat: "datafile t = Some (pre @ dumped lzo bs @ post)" and bf: "bf t = bs"
  shows "loadable dec datafile bf (t, segment l)" "length (accesses_of bs) \<le> length es"
    "\<exists>e\<in>set es. is_access (event_item e) \<Longrightarrow> accesses_of bs \<noteq> []"
proof -
  have cv: "Trace.covers hc es (concat bs)" and bl: "\<forall>b\<in>set bs. b \<noteq> [] \<and> length b \<le> NUM_OF_ACCESSES"
    using fl by (simp_all add: flushed_def)
  have S: "\<forall>e\<in>set es. event_ok e" "length es \<le> 2 ^ 26" "length pre < 2 ^ 62" using st by (simp_all add: at_start_def)
  note I = interval_blocks[OF cd S(1) cv S(2) bl S(3)]
  show len: "length (accesses_of bs) \<le> length es" using I by (simp add: accesses_of_def)
  have "segment_ok dec (datafile t) (segment l) bs"
    unfolding segment_ok_def
    by (intro conjI exI[of _ pre] exI[of _ "map (\<lambda>b. lzo (items_bytes b)) bs"] exI[of _ post])
      (use I fl dat in \<open>simp_all add: flushed_def segment_def mk_TraceInfo_def\<close>)
  then show "loadable dec datafile bf (t, segment l)"
    using len S(2) bf by (simp add: loadable_def)
  show "accesses_of bs \<noteq> []" if "\<exists>e\<in>set es. is_access (event_item e)" using that covers_accesses[OF cv] by blast
qed

section \<open>Properties\<close>

lemma later_segments:
  assumes "distinct ts" "\<And>t. t \<in> set ts \<Longrightarrow> matches p b (l t) \<and> (\<forall>x\<in>set (ms' t). \<not> matches p b x)"
  shows "segments p b (map (\<lambda>t. (t, ms t @ [l t] @ ms' t)) ts) = (\<lambda>t. if t \<in> set ts then Some (segment (l t)) else None)"
proof
  fix t
  let ?f = "\<lambda>t. ms t @ [l t] @ ms' t"
  have "map_of (map (\<lambda>t. (t, ?f t)) ts) t = (if t \<in> set ts then Some (?f t) else None)"
    by (simp add: map_of_map_restrict restrict_map_def)
  moreover have "last_segment p b (?f t) = Some (segment (l t))" if "t \<in> set ts"
  proof -
    have "filter (matches p b) (?f t) = filter (matches p b) (ms t) @ [l t]"
      using assms(2)[OF that] by (auto simp: filter_empty_conv)
    then show ?thesis by (simp add: last_segment_def)
  qed
  ultimately show "segments p b (map (\<lambda>t. (t, ?f t)) ts) t = (if t \<in> set ts then Some (segment (l t)) else None)"
    by (simp add: segments_def)
qed



end
